(* ===== verification/Prelude.thy ===== *)
theory Prelude
  imports Main "HOL-Library.Multiset"
begin

text \<open>
  Shared vocabulary of the development: Subversion error codes and the error monad behind
  the \<open>SVN_ERR\<close> and \<open>SVN_ERR_ASSERT\<close> macros, C strings as character lists (a pointer into a
  string is the suffix it points at, the end of the string is the empty suffix), APR hash
  tables as association lists with distinct keys (the list order is the iteration order),
  and the generic list lemmas that the component theories use.
\<close>

named_theorems svn_simps \<open>evaluation rules for the error monad and the APR containers\<close>

section \<open>Errors\<close>

text \<open>
  The error codes the modelled code returns. Two are not among them: \<open>C_OUT_OF_BOUNDS\<close> marks
  an access outside of a C buffer, so that a result without it is also a statement about
  memory safety, and \<open>C_DIVERGES\<close> marks a loop that never ends.
\<close>

datatype svn_errcode =
    SVN_ERR_ASSERTION_FAIL
  | SVN_ERR_MERGEINFO_PARSE_ERROR
  | SVN_ERR_REVNUM_PARSE_FAILURE
  | SVN_ERR_SVNDIFF_INVALID_HEADER
  | SVN_ERR_SVNDIFF_CORRUPT_WINDOW
  | SVN_ERR_SVNDIFF_BACKWARD_VIEW
  | SVN_ERR_SVNDIFF_INVALID_OPS
  | SVN_ERR_SVNDIFF_UNEXPECTED_END
  | SVN_ERR_SVNDIFF_INVALID_COMPRESSED_DATA
  | SVN_ERR_INCOMPLETE_DATA
  | SVN_ERR_STREAM_MALFORMED_DATA
  | SVN_ERR_STREAM_UNRECOGNIZED_DATA
  | APR_ENOMEM
  | C_OUT_OF_BOUNDS
  | C_DIVERGES

type_synonym 'a svn_result = "svn_errcode + 'a"

abbreviation SVN_NO_ERROR :: "'a \<Rightarrow> 'a svn_result" where
  "SVN_NO_ERROR \<equiv> Inr"

definition SVN_ERR :: "'a svn_result \<Rightarrow> ('a \<Rightarrow> 'b svn_result) \<Rightarrow> 'b svn_result" where
  "SVN_ERR m f = (case m of Inl e \<Rightarrow> Inl e | Inr x \<Rightarrow> f x)"

definition SVN_ERR_ASSERT :: "bool \<Rightarrow> 'a svn_result \<Rightarrow> 'a svn_result" where
  "SVN_ERR_ASSERT b m = (if b then m else Inl SVN_ERR_ASSERTION_FAIL)"

lemma SVN_ERR_simps [simp, svn_simps]:
  "SVN_ERR (Inr x) f = f x"
  "SVN_ERR (Inl e) f = Inl e"
  by (simp_all add: SVN_ERR_def)

lemma SVN_ERR_ASSERT_simps [simp, svn_simps]:
  "SVN_ERR_ASSERT True m = m"
  "SVN_ERR_ASSERT False m = Inl SVN_ERR_ASSERTION_FAIL"
  by (simp_all add: SVN_ERR_ASSERT_def)

lemma SVN_ERR_cong [fundef_cong]:
  "m = m' \<Longrightarrow> (\<And>x. m' = Inr x \<Longrightarrow> f x = g x) \<Longrightarrow> SVN_ERR m f = SVN_ERR m' g"
  by (auto simp: SVN_ERR_def split: sum.splits)

lemma SVN_ERR_ASSERT_cong [fundef_cong]:
  "b = b' \<Longrightarrow> (b' \<Longrightarrow> m = m') \<Longrightarrow> SVN_ERR_ASSERT b m = SVN_ERR_ASSERT b' m'"
  by (auto simp: SVN_ERR_ASSERT_def)

lemma SVN_ERR_Inr_iff: "SVN_ERR m f = Inr y \<longleftrightarrow> (\<exists>x. m = Inr x \<and> f x = Inr y)"
  by (auto simp: SVN_ERR_def split: sum.splits)

lemma SVN_ERR_Inl_iff: "SVN_ERR m f = Inl e \<longleftrightarrow> m = Inl e \<or> (\<exists>x. m = Inr x \<and> f x = Inl e)"
  by (auto simp: SVN_ERR_def split: sum.splits)

lemma SVN_ERR_ASSERT_Inr_iff: "SVN_ERR_ASSERT b m = Inr y \<longleftrightarrow> b \<and> m = Inr y"
  by (simp add: SVN_ERR_ASSERT_def)

lemma SVN_ERR_ASSERT_Inl_iff:
  "SVN_ERR_ASSERT b m = Inl e \<longleftrightarrow> (if b then m = Inl e else e = SVN_ERR_ASSERTION_FAIL)"
  by (auto simp: SVN_ERR_ASSERT_def)

lemmas SVN_ERR_iffs =
  SVN_ERR_Inr_iff SVN_ERR_Inl_iff SVN_ERR_ASSERT_Inr_iff SVN_ERR_ASSERT_Inl_iff

section \<open>Revision numbers\<close>

text \<open>
  A \<open>svn_revnum_t\<close> is a C \<open>long\<close> (64 bits on the modelled platform). Revision numbers
  are kept as \<open>int\<close>; the only place where a value leaves the range of \<open>long\<close> is the
  conversion of a digit string, where \<open>strtol\<close> saturates at \<open>LONG_MAX\<close>.
\<close>

type_synonym svn_revnum_t = int

definition LONG_MAX :: int where
  "LONG_MAX = 2 ^ 63 - 1"

definition LONG_MIN :: int where
  "LONG_MIN = - (2 ^ 63)"

abbreviation SVN_INVALID_REVNUM :: svn_revnum_t where
  "SVN_INVALID_REVNUM \<equiv> -1"

definition SVN_IS_VALID_REVNUM :: "svn_revnum_t \<Rightarrow> bool" where
  "SVN_IS_VALID_REVNUM n \<longleftrightarrow> n \<ge> 0"

section \<open>C strings\<close>

text \<open>Reading the character under a pointer; at the end of the string it is the NUL byte.\<close>

definition deref :: "string \<Rightarrow> char" where
  "deref s = (case s of [] \<Rightarrow> CHR 0x00 | c # _ \<Rightarrow> c)"

lemma deref_simps [simp, svn_simps]:
  "deref [] = CHR 0x00"
  "deref (c # s) = c"
  by (simp_all add: deref_def)

text \<open>Reading at an offset from a pointer.\<close>

definition deref_at :: "string \<Rightarrow> nat \<Rightarrow> char" where
  "deref_at s i = deref (drop i s)"

lemma deref_at_simps [simp, svn_simps]:
  "deref_at [] i = CHR 0x00"
  "deref_at (c # s) 0 = c"
  "deref_at (c # s) (Suc i) = deref_at s i"
  by (simp_all add: deref_at_def)

lemma deref_at_nth: "i < length s \<Longrightarrow> deref_at s i = s ! i"
  by (simp add: deref_at_def deref_def Cons_nth_drop_Suc [symmetric])

lemma deref_at_append [simp]: "deref_at (s @ t) (length s) = deref t"
  by (simp add: deref_at_def)

lemma deref_at_append_add: "deref_at (s @ t) (length s + i) = deref_at t i"
  by (simp add: deref_at_def)

lemma deref_at_0 [simp]: "deref_at s 0 = deref s"
  by (simp add: deref_at_def)

text \<open>A C string holds no NUL byte before its end.\<close>

definition c_string :: "string \<Rightarrow> bool" where
  "c_string s \<longleftrightarrow> CHR 0x00 \<notin> set s"

lemma c_string_simps [simp]:
  "c_string []"
  "c_string (c # s) \<longleftrightarrow> c \<noteq> CHR 0x00 \<and> c_string s"
  "c_string (s @ t) \<longleftrightarrow> c_string s \<and> c_string t"
  by (auto simp: c_string_def)

lemma c_string_deref_at: "c_string s \<Longrightarrow> deref_at s i = CHR 0x00 \<longleftrightarrow> i \<ge> length s"
proof (cases "i < length s")
  case True
  then have "deref_at s i \<in> set s" by (simp add: deref_at_nth)
  moreover assume "c_string s"
  ultimately show ?thesis using True by (auto simp: c_string_def)
qed (simp add: deref_at_def)

text \<open>The bytes before the first NUL, and their number.\<close>

definition c_bytes :: "string \<Rightarrow> string" where
  "c_bytes s = takeWhile (\<lambda>c. c \<noteq> CHR 0x00) s"

definition strlen :: "string \<Rightarrow> nat" where
  "strlen s = length (c_bytes s)"

lemma c_bytes_simps [simp]:
  "c_bytes [] = []"
  "c_bytes (c # s) = (if c = CHR 0x00 then [] else c # c_bytes s)"
  by (simp_all add: c_bytes_def)

lemma c_bytes_c_string: "c_string s \<Longrightarrow> c_bytes s = s"
  by (induction s) auto

definition newline :: char where
  "newline = CHR 0x0A"

section \<open>APR hash tables\<close>

type_synonym 'v apr_hash = "(string \<times> 'v) list"

abbreviation apr_hash_get :: "'v apr_hash \<Rightarrow> string \<Rightarrow> 'v option" where
  "apr_hash_get \<equiv> map_of"

fun apr_hash_set :: "'v apr_hash \<Rightarrow> string \<Rightarrow> 'v \<Rightarrow> 'v apr_hash" where
  "apr_hash_set [] k v = [(k, v)]"
| "apr_hash_set ((k', v') # h) k v =
     (if k' = k then (k, v) # h else (k', v') # apr_hash_set h k v)"

text \<open>Setting a key to NULL removes it.\<close>

definition apr_hash_unset :: "'v apr_hash \<Rightarrow> string \<Rightarrow> 'v apr_hash" where
  "apr_hash_unset h k = filter (\<lambda>e. fst e \<noteq> k) h"

definition wf_hash :: "'v apr_hash \<Rightarrow> bool" where
  "wf_hash h \<longleftrightarrow> distinct (map fst h)"

lemma map_of_apr_hash_set [simp]: "map_of (apr_hash_set h k v) = (map_of h)(k \<mapsto> v)"
  by (induction h k v rule: apr_hash_set.induct) (auto simp: fun_eq_iff)

lemma keys_apr_hash_set [simp]: "fst ` set (apr_hash_set h k v) = insert k (fst ` set h)"
  by (induction h k v rule: apr_hash_set.induct) auto

lemma wf_hash_Nil [simp]: "wf_hash []"
  by (simp add: wf_hash_def)

lemma wf_hash_set [simp]: "wf_hash h \<Longrightarrow> wf_hash (apr_hash_set h k v)"
proof (induction h k v rule: apr_hash_set.induct)
  case (2 k' v' h k v)
  have "fst ` set (apr_hash_set h k v) = insert k (fst ` set h)" by simp
  with 2 show ?case by (auto simp: wf_hash_def)
qed (simp add: wf_hash_def)

lemma map_of_apr_hash_unset [simp]: "map_of (apr_hash_unset h k) = (map_of h)(k := None)"
  by (induction h) (auto simp: apr_hash_unset_def fun_eq_iff)

lemma wf_hash_unset [simp]: "wf_hash h \<Longrightarrow> wf_hash (apr_hash_unset h k)"
  by (simp add: wf_hash_def apr_hash_unset_def distinct_map_filter)

lemma wf_hash_Cons: "wf_hash ((k, v) # h) \<longleftrightarrow> k \<notin> fst ` set h \<and> wf_hash h"
  by (simp add: wf_hash_def)

lemma wf_hash_map_of: "wf_hash h \<Longrightarrow> (k, v) \<in> set h \<longleftrightarrow> map_of h k = Some v"
  by (simp add: wf_hash_def)

text \<open>Building a table by inserting fresh keys one after the other appends them in order.\<close>

lemma apr_hash_set_fresh: "k \<notin> fst ` set h \<Longrightarrow> apr_hash_set h k v = h @ [(k, v)]"
  by (induction h k v rule: apr_hash_set.induct) auto

text \<open>
  The loop \<open>for (hi = apr_hash_first(..); hi; hi = apr_hash_next(hi))\<close> with a body that may
  return an error: the body gets a key, its value and what the loop has computed so far.
\<close>

fun hash_iter :: "(string \<Rightarrow> 'v \<Rightarrow> 's \<Rightarrow> 's svn_result) \<Rightarrow> 'v apr_hash \<Rightarrow> 's \<Rightarrow> 's svn_result" where
  "hash_iter body [] s = Inr s"
| "hash_iter body ((k, v) # h) s = SVN_ERR (body k v s) (hash_iter body h)"

lemma hash_iter_append [simp]:
  "hash_iter body (h @ h') s = SVN_ERR (hash_iter body h s) (hash_iter body h')"
  by (induction h arbitrary: s) (auto simp: SVN_ERR_def split: sum.splits)

text \<open>
  Loops whose body computes a value from the entry and stores it in a new table under the
  same key, or stores nothing.
\<close>

definition collects ::
  "(string \<Rightarrow> 'v \<Rightarrow> 'w apr_hash \<Rightarrow> 'w apr_hash svn_result) \<Rightarrow> 'v apr_hash \<Rightarrow>
   (string \<Rightarrow> 'v \<Rightarrow> 'w option) \<Rightarrow> bool" where
  "collects body h g \<longleftrightarrow> (\<forall>(k, v) \<in> set h. \<forall>out. k \<notin> fst ` set out \<longrightarrow>
     body k v out = Inr (case g k v of None \<Rightarrow> out | Some w \<Rightarrow> out @ [(k, w)]))"

definition collected :: "'v apr_hash \<Rightarrow> (string \<Rightarrow> 'v \<Rightarrow> 'w option) \<Rightarrow> 'w apr_hash" where
  "collected h g = List.map_filter (\<lambda>(k, v). map_option (Pair k) (g k v)) h"

lemma collected_simps [simp]:
  "collected [] g = []"
  "collected ((k, v) # h) g = (case g k v of None \<Rightarrow> [] | Some w \<Rightarrow> [(k, w)]) @ collected h g"
  by (simp_all add: collected_def List.map_filter_simps split: option.splits)

lemma in_collected: "(k, w) \<in> set (collected h g) \<longleftrightarrow> (\<exists>v. (k, v) \<in> set h \<and> g k v = Some w)"
  by (induction h) (auto split: option.splits)

lemma keys_collected: "fst ` set (collected h g) \<subseteq> fst ` set h"
  by (force simp: in_collected)

lemma wf_hash_collected: "wf_hash h \<Longrightarrow> wf_hash (collected h g)"
proof (induction h)
  case (Cons e h)
  obtain k v where e: "e = (k, v)" by fastforce
  have "k \<notin> fst ` set (collected h g)"
    using Cons.prems keys_collected [of h g] by (auto simp only: e wf_hash_Cons)
  with Cons show ?case by (simp add: e wf_hash_Cons split: option.splits)
qed simp

lemma map_of_collected: "wf_hash h \<Longrightarrow> map_of (collected h g) k = Option.bind (map_of h k) (g k)"
proof (induction h)
  case (Cons e h)
  obtain k' v where e: "e = (k', v)" by fastforce
  have "map_of (collected h g) k' = None"
    using Cons.prems keys_collected [of h g] by (auto simp: e wf_hash_Cons map_of_eq_None_iff)
  with Cons show ?case by (auto simp: e wf_hash_Cons split: option.splits)
qed simp

lemma hash_iter_collects:
  assumes "wf_hash h" "collects body h g" "fst ` set h \<inter> fst ` set out = {}"
  shows "hash_iter body h out = Inr (out @ collected h g)"
  using assms
proof (induction h arbitrary: out)
  case (Cons e h)
  obtain k v where e: "e = (k, v)" by fastforce
  let ?out = "case g k v of None \<Rightarrow> out | Some w \<Rightarrow> out @ [(k, w)]"
  have "body k v out = Inr ?out" using Cons.prems(2,3) by (auto simp: e collects_def)
  moreover have "collects body h g" using Cons.prems(2) by (simp add: collects_def)
  moreover have "fst ` set h \<inter> fst ` set ?out = {}"
    using Cons.prems(1,3) by (auto simp: e wf_hash_Cons split: option.splits)
  ultimately show ?case using Cons.IH [of ?out] Cons.prems(1)
    by (auto simp: e wf_hash_Cons split: option.splits)
qed simp

lemma hash_iter_collected:
  "wf_hash h \<Longrightarrow> collects body h g \<Longrightarrow> hash_iter body h [] = Inr (collected h g)"
  using hash_iter_collects [of h body g "[]"] by simp

lemma collectsI:
  "(\<And>k v out. (k, v) \<in> set h \<Longrightarrow> body k v out =
      Inr (case g k v of None \<Rightarrow> out | Some w \<Rightarrow> apr_hash_set out k w)) \<Longrightarrow> collects body h g"
  by (auto simp: collects_def apr_hash_set_fresh split: option.splits)

section \<open>Lists\<close>

lemma sorted_wrt_snoc: "sorted_wrt P (xs @ [x]) \<longleftrightarrow> sorted_wrt P xs \<and> (\<forall>y \<in> set xs. P y x)"
  by (simp add: sorted_wrt_append)

lemma butlast_last_cases:
  obtains "xs = []" | ys y where "xs = ys @ [y]"
  by (cases xs rule: rev_cases) auto

lemma take_drop_split: "i < length xs \<Longrightarrow> xs = take i xs @ xs ! i # drop (Suc i) xs"
  by (rule id_take_nth_drop)

lemma drop_Cons_nth: "i < length xs \<Longrightarrow> drop i xs = xs ! i # drop (Suc i) xs"
  by (simp add: Cons_nth_drop_Suc)

lemma ex_int_between: "(a::int) < b \<Longrightarrow> b \<in> {a<..b}"
  by simp

end
