(* ===== verification/Sorts.thy ===== *)
theory Sorts
  imports Prelude
begin

text \<open>
  libsvn\_subr/sorts.c: the comparison functions, sorting of hash tables, the binary search
  for an insertion point, and insertion and deletion in APR arrays. The contract every
  comparison function has to meet is the locale \<open>comparator\<close>; \<open>qsort\<close>, \<open>svn_sort__hash\<close>
  and \<open>bsearch_lower_bound\<close> are proved correct once inside it.
\<close>

section \<open>Comparison functions and sorting\<close>

type_synonym 'a comparison_func = "'a \<Rightarrow> 'a \<Rightarrow> int"

text \<open>
  The C library's \<open>qsort\<close>: the array is rearranged into ascending order. The order of
  elements that compare equal is not specified by C; the model keeps their order.
\<close>

fun qsort_insert :: "'a comparison_func \<Rightarrow> 'a \<Rightarrow> 'a list \<Rightarrow> 'a list" where
  "qsort_insert cmp x [] = [x]"
| "qsort_insert cmp x (y # ys) =
     (if cmp x y \<le> 0 then x # y # ys else y # qsort_insert cmp x ys)"

fun qsort :: "'a comparison_func \<Rightarrow> 'a list \<Rightarrow> 'a list" where
  "qsort cmp [] = []"
| "qsort cmp (x # xs) = qsort_insert cmp x (qsort cmp xs)"

definition svn_sort_compare_revisions :: "svn_revnum_t comparison_func" where
  "svn_sort_compare_revisions a_rev b_rev =
     (if a_rev = b_rev then 0 else if a_rev < b_rev then 1 else -1)"

text \<open>\<open>memcmp\<close> on the common length of two keys, bytes compared unsigned.\<close>

fun memcmp_common :: "string \<Rightarrow> string \<Rightarrow> int" where
  "memcmp_common (a # as) (b # bs) =
     (if a = b then memcmp_common as bs else int (of_char a) - int (of_char b))"
| "memcmp_common _ _ = 0"

definition svn_sort_compare_items_lexically :: "(string \<times> 'v) comparison_func" where
  "svn_sort_compare_items_lexically a b =
     (let val = memcmp_common (fst a) (fst b) in
      if val \<noteq> 0 then val
      else if length (fst a) < length (fst b) then -1
      else if length (fst a) > length (fst b) then 1 else 0)"

section \<open>Sorting a hash table\<close>

text \<open>The flag \<open>sorted\<close> of the loop: every item compares less than the one after it.\<close>

fun items_sorted :: "'a comparison_func \<Rightarrow> 'a list \<Rightarrow> bool" where
  "items_sorted cmp [] = True"
| "items_sorted cmp [x] = True"
| "items_sorted cmp (x # y # ys) = (cmp x y < 0 \<and> items_sorted cmp (y # ys))"

text \<open>
  A comparison function may also fail, by an assertion on its arguments. The sort then fails
  at the first comparison that does, whatever the result it would have had.
\<close>

type_synonym 'a checked_comparison_func = "'a \<Rightarrow> 'a \<Rightarrow> int svn_result"

fun qsort_insert_checked :: "'a checked_comparison_func \<Rightarrow> 'a \<Rightarrow> 'a list \<Rightarrow> 'a list svn_result" where
  "qsort_insert_checked cmp x [] = Inr [x]"
| "qsort_insert_checked cmp x (y # ys) =
     SVN_ERR (cmp x y) (\<lambda>res.
       if res \<le> 0 then Inr (x # y # ys)
       else SVN_ERR (qsort_insert_checked cmp x ys) (\<lambda>zs. Inr (y # zs)))"

fun qsort_checked :: "'a checked_comparison_func \<Rightarrow> 'a list \<Rightarrow> 'a list svn_result" where
  "qsort_checked cmp [] = Inr []"
| "qsort_checked cmp (x # xs) = SVN_ERR (qsort_checked cmp xs) (qsort_insert_checked cmp x)"

fun items_sorted_checked :: "'a checked_comparison_func \<Rightarrow> 'a list \<Rightarrow> bool svn_result" where
  "items_sorted_checked cmp [] = Inr True"
| "items_sorted_checked cmp [x] = Inr True"
| "items_sorted_checked cmp (x # y # ys) =
     SVN_ERR (cmp x y) (\<lambda>res. if res < 0 then items_sorted_checked cmp (y # ys) else Inr False)"

definition svn_sort__hash ::
  "'v apr_hash \<Rightarrow> (string \<times> 'v) checked_comparison_func \<Rightarrow> (string \<times> 'v) list svn_result" where
  "svn_sort__hash ht cmp =
     SVN_ERR (items_sorted_checked cmp ht) (\<lambda>in_order.
       if in_order then Inr ht else qsort_checked cmp ht)"

text \<open>Where no comparison of two of the elements fails, the sort is that of the plain function.\<close>

lemma qsort_insert_checked_Inr:
  "\<forall>y \<in> set ys. cmp x y = Inr (c x y) \<Longrightarrow> qsort_insert_checked cmp x ys = Inr (qsort_insert c x ys)"
  by (induction ys) auto

lemma set_qsort_insert: "set (qsort_insert c x ys) = insert x (set ys)"
  by (induction ys) auto

lemma set_qsort_plain: "set (qsort c xs) = set xs"
  by (induction xs) (auto simp: set_qsort_insert)

lemma qsort_checked_Inr:
  "\<forall>x \<in> set xs. \<forall>y \<in> set xs. cmp x y = Inr (c x y) \<Longrightarrow> qsort_checked cmp xs = Inr (qsort c xs)"
  by (induction xs) (auto simp: qsort_insert_checked_Inr set_qsort_plain)

lemma items_sorted_checked_Inr:
  "\<forall>x \<in> set xs. \<forall>y \<in> set xs. cmp x y = Inr (c x y) \<Longrightarrow>
   items_sorted_checked cmp xs = Inr (items_sorted c xs)"
  by (induction cmp xs rule: items_sorted_checked.induct) auto

lemma sort_hash_Inr:
  "\<forall>x \<in> set ht. \<forall>y \<in> set ht. cmp x y = Inr (c x y) \<Longrightarrow>
   svn_sort__hash ht cmp = Inr (if items_sorted c ht then ht else qsort c ht)"
  using items_sorted_checked_Inr [of ht cmp c] qsort_checked_Inr [of ht cmp c]
  by (simp add: svn_sort__hash_def)

section \<open>Binary search\<close>

function bsearch_loop :: "'a comparison_func \<Rightarrow> 'a list \<Rightarrow> 'a \<Rightarrow> int \<Rightarrow> int \<Rightarrow> int" where
  "bsearch_loop cmp base key lower upper =
     (if lower \<le> upper then
        let mid = lower + (upper - lower) div 2 in
        if cmp (base ! nat mid) key < 0
        then bsearch_loop cmp base key (mid + 1) upper
        else bsearch_loop cmp base key lower (mid - 1)
      else lower)"
  by pat_completeness auto
termination
  by (relation "measure (\<lambda>(cmp, base, key, lower, upper). nat (upper - lower + 1))")
     (auto simp: Let_def)

declare bsearch_loop.simps [simp del]

definition bsearch_lower_bound :: "'a \<Rightarrow> 'a list \<Rightarrow> 'a comparison_func \<Rightarrow> int" where
  "bsearch_lower_bound key base cmp = bsearch_loop cmp base key 0 (int (length base) - 1)"

definition svn_sort__bsearch_lower_bound :: "'a \<Rightarrow> 'a list \<Rightarrow> 'a comparison_func \<Rightarrow> int" where
  "svn_sort__bsearch_lower_bound key array cmp = bsearch_lower_bound key array cmp"

section \<open>Reading, insertion and deletion in arrays\<close>

text \<open>Reading an element of an array by its index.\<close>

definition APR_ARRAY_IDX :: "'a list \<Rightarrow> nat \<Rightarrow> 'a svn_result" where
  "APR_ARRAY_IDX array i = (if i < length array then Inr (array ! i) else Inl C_OUT_OF_BOUNDS)"

lemma array_idx_in [simp, svn_simps]: "i < length xs \<Longrightarrow> APR_ARRAY_IDX xs i = Inr (xs ! i)"
  by (simp add: APR_ARRAY_IDX_def)

definition svn_sort__array_insert :: "'a \<Rightarrow> 'a list \<Rightarrow> int \<Rightarrow> 'a list svn_result" where
  "svn_sort__array_insert new_element array insert_index =
     SVN_ERR_ASSERT (0 \<le> insert_index \<and> insert_index \<le> int (length array))
       (Inr (take (nat insert_index) array @ new_element # drop (nat insert_index) array))"

definition svn_sort__array_delete :: "'a list \<Rightarrow> int \<Rightarrow> int \<Rightarrow> 'a list" where
  "svn_sort__array_delete arr delete_index elements_to_delete =
     (if delete_index \<ge> 0 \<and> delete_index < int (length arr) \<and> elements_to_delete > 0
         \<and> elements_to_delete + delete_index \<le> int (length arr)
      then take (nat delete_index) arr @ drop (nat (delete_index + elements_to_delete)) arr
      else arr)"

lemma array_insert_nat [simp, svn_simps]:
  "i \<le> length xs \<Longrightarrow> svn_sort__array_insert x xs (int i) = Inr (take i xs @ x # drop i xs)"
  by (simp add: svn_sort__array_insert_def)

lemma array_insert_length: "svn_sort__array_insert x xs i = Inr ys \<Longrightarrow> length ys = Suc (length xs)"
  by (auto simp: svn_sort__array_insert_def SVN_ERR_iffs)

lemma array_delete_nat [svn_simps]:
  "i + n \<le> length xs \<Longrightarrow> svn_sort__array_delete xs (int i) (int n) = take i xs @ drop (i + n) xs"
  by (cases "n = 0") (auto simp: svn_sort__array_delete_def nat_add_distrib)

section \<open>The comparator contract\<close>

text \<open>The lowest index at which a key can be inserted.\<close>

definition is_lower_bound :: "'a comparison_func \<Rightarrow> 'a list \<Rightarrow> 'a \<Rightarrow> int \<Rightarrow> bool" where
  "is_lower_bound cmp base key p \<longleftrightarrow>
     0 \<le> p \<and> p \<le> int (length base)
     \<and> (\<forall>i. 0 \<le> i \<and> i < p \<longrightarrow> cmp (base ! nat i) key < 0)
     \<and> (\<forall>i. p \<le> i \<and> i < int (length base) \<longrightarrow> cmp (base ! nat i) key \<ge> 0)"

locale comparator =
  fixes cmp :: "'a comparison_func"
  assumes cmp_flip: "sgn (cmp a b) = - sgn (cmp b a)"
    and cmp_trans: "cmp a b \<le> 0 \<Longrightarrow> cmp b c \<le> 0 \<Longrightarrow> cmp a c \<le> 0"
begin

lemma cmp_refl: "cmp a a = 0"
  using cmp_flip [of a a] by (auto simp: sgn_if split: if_splits)

lemma cmp_neg_iff: "cmp a b < 0 \<longleftrightarrow> cmp b a > 0"
  using cmp_flip [of a b] by (auto simp: sgn_if split: if_splits)

lemma cmp_total: "cmp a b \<le> 0 \<or> cmp b a \<le> 0"
  using cmp_neg_iff [of b a] by linarith

lemma cmp_less_trans: "cmp a b < 0 \<Longrightarrow> cmp b c \<le> 0 \<Longrightarrow> cmp a c < 0"
  using cmp_neg_iff [of a b] cmp_neg_iff [of a c] cmp_trans [of b c a] by linarith

definition ordered :: "'a list \<Rightarrow> bool" where
  "ordered = sorted_wrt (\<lambda>a b. cmp a b \<le> 0)"

lemma mset_qsort_insert: "mset (qsort_insert cmp x xs) = add_mset x (mset xs)"
  by (induction xs) auto

lemma mset_qsort: "mset (qsort cmp xs) = mset xs"
  by (induction xs) (auto simp: mset_qsort_insert)

lemma set_qsort: "set (qsort cmp xs) = set xs"
  by (rule set_qsort_plain)

lemma ordered_qsort_insert: "ordered xs \<Longrightarrow> ordered (qsort_insert cmp x xs)"
proof (induction xs)
  case (Cons y ys)
  show ?case
  proof (cases "cmp x y \<le> 0")
    case True
    with Cons.prems show ?thesis by (auto simp: ordered_def intro: cmp_trans)
  next
    case False
    then have "cmp y x \<le> 0" using cmp_total by blast
    with Cons False show ?thesis by (auto simp: ordered_def set_qsort_insert)
  qed
qed (simp add: ordered_def)

lemma ordered_qsort: "ordered (qsort cmp xs)"
proof (induction xs)
  case Nil
  show ?case by (simp add: ordered_def)
next
  case (Cons x xs)
  then show ?case by (simp add: ordered_qsort_insert)
qed

lemma qsort_ordered: "ordered xs \<Longrightarrow> qsort cmp xs = xs"
proof (induction xs)
  case (Cons x xs)
  then have "qsort cmp xs = xs" by (simp add: ordered_def)
  with Cons.prems show ?case by (cases xs) (auto simp: ordered_def)
qed simp

lemma items_sorted_strict: "items_sorted cmp xs \<Longrightarrow> sorted_wrt (\<lambda>a b. cmp a b < 0) xs"
proof (induction xs rule: induct_list012)
  case (3 x y ys)
  then have "cmp x z < 0" if "z \<in> set ys" for z
    using that cmp_less_trans [of x y z] by fastforce
  with 3 show ?case by auto
qed auto

lemma items_sorted_qsort: "items_sorted cmp xs \<Longrightarrow> qsort cmp xs = xs"
proof (induction xs rule: induct_list012)
  case (3 x y ys)
  then have "qsort cmp (y # ys) = y # ys" by simp
  with 3 show ?case by simp
qed auto

lemma ordered_nth:
  "ordered xs \<Longrightarrow> 0 \<le> i \<Longrightarrow> i \<le> j \<Longrightarrow> j < int (length xs) \<Longrightarrow> cmp (xs ! nat i) (xs ! nat j) \<le> 0"
  by (cases "i = j") (auto simp: ordered_def sorted_wrt_iff_nth_less cmp_refl)

lemma bsearch_loop_correct:
  assumes "ordered base" "0 \<le> lower" "lower \<le> upper + 1" "upper < int (length base)"
    and "\<forall>i. 0 \<le> i \<and> i < lower \<longrightarrow> cmp (base ! nat i) key < 0"
    and "\<forall>i. upper < i \<and> i < int (length base) \<longrightarrow> cmp (base ! nat i) key \<ge> 0"
  shows "is_lower_bound cmp base key (bsearch_loop cmp base key lower upper)"
  using assms
proof (induction "nat (upper - lower + 1)" arbitrary: lower upper rule: less_induct)
  case less
  show ?case
  proof (cases "lower \<le> upper")
    case False
    with less.prems show ?thesis
      by (auto simp: bsearch_loop.simps [of cmp base key lower upper] is_lower_bound_def)
  next
    case True
    define mid where "mid = lower + (upper - lower) div 2"
    have mid: "lower \<le> mid" "mid \<le> upper" using True by (auto simp: mid_def)
    show ?thesis
    proof (cases "cmp (base ! nat mid) key < 0")
      case lt: True
      have "cmp (base ! nat i) key < 0" if "0 \<le> i" "i < mid + 1" for i
        using ordered_nth [of base i mid] that mid less.prems(1,4) lt
          cmp_trans [of key "base ! nat i" "base ! nat mid"]
          cmp_neg_iff [of "base ! nat i" key] cmp_neg_iff [of "base ! nat mid" key] by force
      then have "is_lower_bound cmp base key (bsearch_loop cmp base key (mid + 1) upper)"
        using less.prems mid by (intro less.hyps) auto
      with True lt show ?thesis
        by (simp add: bsearch_loop.simps [of cmp base key lower upper] mid_def Let_def)
    next
      case ge: False
      have "cmp (base ! nat i) key \<ge> 0" if "mid - 1 < i" "i < int (length base)" for i
        using ordered_nth [of base mid i] that mid less.prems(1,2) ge
          cmp_less_trans [of "base ! nat i" key "base ! nat mid"]
          cmp_neg_iff [of "base ! nat i" "base ! nat mid"] cmp_neg_iff [of "base ! nat mid" key]
        by force
      then have "is_lower_bound cmp base key (bsearch_loop cmp base key lower (mid - 1))"
        using less.prems mid by (intro less.hyps) auto
      with True ge show ?thesis
        by (simp add: bsearch_loop.simps [of cmp base key lower upper] mid_def Let_def)
    qed
  qed
qed

lemma bsearch_lower_bound_correct:
  "ordered base \<Longrightarrow> is_lower_bound cmp base key (bsearch_lower_bound key base cmp)"
  unfolding bsearch_lower_bound_def by (rule bsearch_loop_correct) auto

lemma is_lower_bound_insert_ordered:
  assumes "ordered xs" "is_lower_bound cmp xs x p"
  shows "ordered (take (nat p) xs @ x # drop (nat p) xs)"
proof -
  have p: "0 \<le> p" "p \<le> int (length xs)" using assms(2) by (auto simp: is_lower_bound_def)
  have 1: "cmp a x \<le> 0" if "a \<in> set (take (nat p) xs)" for a
    using that assms(2) p by (auto simp: is_lower_bound_def in_set_conv_nth) (metis int_nat_eq nat_int of_nat_0_le_iff of_nat_less_iff order_less_imp_le)
  have 2: "cmp x a \<le> 0" if "a \<in> set (drop (nat p) xs)" for a
  proof -
    from that obtain i where "i < length xs - nat p" "a = xs ! (nat p + i)"
      by (auto simp: in_set_conv_nth)
    with assms(2) p have "cmp a x \<ge> 0"
      by (auto simp: is_lower_bound_def dest!: spec [of _ "p + int i"] simp: nat_add_distrib)
    then show ?thesis using cmp_neg_iff [of a x] cmp_neg_iff [of x a] by linarith
  qed
  from assms(1) have "sorted_wrt (\<lambda>a b. cmp a b \<le> 0) (take (nat p) xs)"
    and "sorted_wrt (\<lambda>a b. cmp a b \<le> 0) (drop (nat p) xs)"
    by (simp_all add: ordered_def sorted_wrt_take sorted_wrt_drop)
  with 1 2 show ?thesis by (auto simp: ordered_def sorted_wrt_append intro: cmp_trans [of _ x])
qed

end

section \<open>Interpretations on the code's comparison functions\<close>

interpretation revs_cmp: comparator svn_sort_compare_revisions
  by unfold_locales (auto simp: svn_sort_compare_revisions_def split: if_splits)

text \<open>The lexical comparison of two keys as one recursion over both strings.\<close>

fun key_cmp :: "string \<Rightarrow> string \<Rightarrow> int" where
  "key_cmp [] [] = 0"
| "key_cmp [] (b # bs) = -1"
| "key_cmp (a # as) [] = 1"
| "key_cmp (a # as) (b # bs) =
     (if a = b then key_cmp as bs else int (of_char a) - int (of_char b))"

lemma items_lexically_key_cmp:
  "svn_sort_compare_items_lexically a b = key_cmp (fst a) (fst b)"
proof -
  have "(let val = memcmp_common s t in
      if val \<noteq> 0 then val else if length s < length t then -1
      else if length s > length t then 1 else 0) = key_cmp s t" for s t
    by (induction s t rule: key_cmp.induct) (auto simp: Let_def)
  then show ?thesis by (simp add: svn_sort_compare_items_lexically_def)
qed

lemma key_cmp_flip: "key_cmp a b = - key_cmp b a"
  by (induction a b rule: key_cmp.induct) auto

lemma key_cmp_eq: "key_cmp a b = 0 \<longleftrightarrow> a = b"
  by (induction a b rule: key_cmp.induct) auto

lemma key_cmp_trans: "key_cmp a b \<le> 0 \<Longrightarrow> key_cmp b c \<le> 0 \<Longrightarrow> key_cmp a c \<le> 0"
proof (induction a c arbitrary: b rule: key_cmp.induct)
  case (3 a as)
  then show ?case by (cases b) auto
next
  case (4 x xs z zs)
  then obtain y ys where b: "b = y # ys" by (cases b) auto
  have "of_char u < (of_char v :: nat) \<or> of_char v < (of_char u :: nat)" if "u \<noteq> v" for u v :: char
    using that by (metis nat_neq_iff of_char_eq_iff)
  then show ?case using 4 b by (fastforce split: if_splits)
qed auto

interpretation lex_cmp: comparator svn_sort_compare_items_lexically
proof unfold_locales
  fix a b c :: "string \<times> 'v"
  show "sgn (svn_sort_compare_items_lexically a b) = - sgn (svn_sort_compare_items_lexically b a)"
    using key_cmp_flip [of "fst a" "fst b"] by (simp add: items_lexically_key_cmp)
  show "svn_sort_compare_items_lexically a b \<le> 0 \<Longrightarrow> svn_sort_compare_items_lexically b c \<le> 0 \<Longrightarrow>
      svn_sort_compare_items_lexically a c \<le> 0"
    by (simp add: items_lexically_key_cmp) (rule key_cmp_trans)
qed

end
