(* ===== verification/Rangelist.thy ===== *)
theory Rangelist
  imports Sorts
begin

text \<open>
  The merge range and the rangelist of libsvn\_subr/mergeinfo.c: the range type, the
  comparison of ranges, and the elementary operations on one or two ranges and on the end
  of a rangelist. The meaning of a rangelist is the set of revisions it covers, with the
  subset of those covered by an inheritable range.
\<close>

section \<open>Merge ranges\<close>

text \<open>
  \<open>svn_merge_range_t\<close>; the field \<open>end\<close> is named \<open>endr\<close>. A forward range covers the
  revisions after \<open>start\<close> up to and including \<open>endr\<close>.
\<close>

record svn_merge_range_t =
  start :: svn_revnum_t
  endr :: svn_revnum_t
  inheritable :: bool

type_synonym svn_rangelist_t = "svn_merge_range_t list"

abbreviation mk_range :: "svn_revnum_t \<Rightarrow> svn_revnum_t \<Rightarrow> bool \<Rightarrow> svn_merge_range_t" where
  "mk_range s e i \<equiv> \<lparr>start = s, endr = e, inheritable = i\<rparr>"

definition svn_sort_compare_ranges :: "svn_merge_range_t comparison_func" where
  "svn_sort_compare_ranges item1 item2 =
     (if start item1 = start item2 \<and> endr item1 = endr item2 then 0
      else if start item1 = start item2 then (if endr item1 < endr item2 then -1 else 1)
      else if start item1 < start item2 then -1 else 1)"

interpretation range_cmp: comparator svn_sort_compare_ranges
  by unfold_locales (auto simp: svn_sort_compare_ranges_def split: if_splits)

definition combine_ranges ::
  "svn_merge_range_t \<Rightarrow> svn_merge_range_t \<Rightarrow> bool \<Rightarrow> svn_merge_range_t option" where
  "combine_ranges in1 in2 consider_inheritance =
     (if start in1 \<le> endr in2 \<and> start in2 \<le> endr in1 then
        if \<not> consider_inheritance \<or> (consider_inheritance \<and> inheritable in1 = inheritable in2)
        then Some \<lparr>start = min (start in1) (start in2), endr = max (endr in1) (endr in2),
                   inheritable = inheritable in1 \<or> inheritable in2\<rparr>
        else None
      else None)"

definition IS_VALID_FORWARD_RANGE :: "svn_merge_range_t \<Rightarrow> bool" where
  "IS_VALID_FORWARD_RANGE rng \<longleftrightarrow> SVN_IS_VALID_REVNUM (start rng) \<and> start rng < endr rng"

datatype intersection_type_t =
    svn__no_intersection
  | svn__equal_intersection
  | svn__adjoining_intersection
  | svn__overlapping_intersection
  | svn__proper_subset_intersection

definition get_type_of_intersection ::
  "svn_merge_range_t \<Rightarrow> svn_merge_range_t \<Rightarrow> intersection_type_t svn_result" where
  "get_type_of_intersection r1 r2 =
     SVN_ERR_ASSERT (IS_VALID_FORWARD_RANGE r1) (
     SVN_ERR_ASSERT (IS_VALID_FORWARD_RANGE r2) (
     Inr (if \<not> (start r1 \<le> endr r2 \<and> start r2 \<le> endr r1) then svn__no_intersection
          else if start r1 = start r2 \<and> endr r1 = endr r2 then svn__equal_intersection
          else if endr r1 = start r2 \<or> endr r2 = start r1 then svn__adjoining_intersection
          else if start r1 \<le> start r2 \<and> endr r1 \<ge> endr r2 then svn__proper_subset_intersection
          else if start r2 \<le> start r1 \<and> endr r2 \<ge> endr r1 then svn__proper_subset_intersection
          else svn__overlapping_intersection)))"

section \<open>Combining a range with the last range of a rangelist\<close>

text \<open>
  The two hard cases of \<open>combine_with_lastrange\<close>: the last range and the new range overlap
  (the intersection goes to the inheritable one), or one is a proper subset of the other.
  Each returns the ranges that replace the last range, in the order they are pushed.
\<close>

definition split_overlapping ::
  "svn_merge_range_t \<Rightarrow> svn_merge_range_t \<Rightarrow> svn_merge_range_t list" where
  "split_overlapping lastrange new_range =
     (let (r1, r2) = (if start new_range < start lastrange then (new_range, lastrange)
                      else (lastrange, new_range))
      in if inheritable r1 then [r1, r2\<lparr>start := endr r1\<rparr>]
         else [r1\<lparr>endr := start r2\<rparr>, r2])"

definition split_proper_subset ::
  "svn_merge_range_t \<Rightarrow> svn_merge_range_t \<Rightarrow> svn_merge_range_t list" where
  "split_proper_subset lastrange new_range =
     (let (r1, r2) = (if start new_range < start lastrange \<or> endr new_range > endr lastrange
                      then (new_range, lastrange) else (lastrange, new_range))
      in if inheritable r1 then
           [r1\<lparr>start := min (start r1) (start r2), endr := max (endr r1) (endr r2)\<rparr>]
         else if start r1 = start r2 then
           [r1\<lparr>endr := endr r2, inheritable := True\<rparr>,
            r2\<lparr>inheritable := inheritable r1, start := endr r2, endr := endr r1\<rparr>]
         else if endr r1 = endr r2 then
           [r1\<lparr>endr := start r2\<rparr>, r2\<lparr>inheritable := True\<rparr>]
         else
           [r1\<lparr>endr := start r2\<rparr>, r2\<lparr>inheritable := True\<rparr>,
            \<lparr>start = endr r2, endr = endr r1, inheritable = inheritable r1\<rparr>])"

text \<open>
  The flag \<open>sorted\<close>: the old last range compares less than the first range pushed, and
  each range pushed compares less than the next.
\<close>

definition pushed_sorted :: "svn_merge_range_t \<Rightarrow> svn_merge_range_t list \<Rightarrow> bool" where
  "pushed_sorted lastrange pushed = items_sorted svn_sort_compare_ranges (lastrange # pushed)"

definition combine_with_lastrange ::
  "svn_merge_range_t \<Rightarrow> svn_rangelist_t \<Rightarrow> bool \<Rightarrow> svn_rangelist_t svn_result" where
  "combine_with_lastrange new_range rangelist consider_inheritance =
     (if rangelist = [] then Inr (rangelist @ [new_range])
      else
        let lastrange = last rangelist in
        if \<not> consider_inheritance then
          (case combine_ranges lastrange new_range False of
             Some combined_range \<Rightarrow> Inr (butlast rangelist @ [combined_range])
           | None \<Rightarrow> Inr (rangelist @ [new_range]))
        else
          (case combine_ranges lastrange new_range True of
             Some combined_range \<Rightarrow> Inr (butlast rangelist @ [combined_range])
           | None \<Rightarrow>
               SVN_ERR (get_type_of_intersection new_range lastrange) (\<lambda>intersection_type.
                 let (rl, is_sorted) =
                   (case intersection_type of
                      svn__no_intersection \<Rightarrow>
                        (rangelist @ [new_range], pushed_sorted lastrange [new_range])
                    | svn__equal_intersection \<Rightarrow>
                        (butlast rangelist @ [lastrange\<lparr>inheritable := True\<rparr>], True)
                    | svn__adjoining_intersection \<Rightarrow>
                        (rangelist @ [new_range], pushed_sorted lastrange [new_range])
                    | svn__overlapping_intersection \<Rightarrow>
                        (butlast rangelist @ split_overlapping lastrange new_range,
                         pushed_sorted lastrange (split_overlapping lastrange new_range))
                    | svn__proper_subset_intersection \<Rightarrow>
                        (butlast rangelist @ split_proper_subset lastrange new_range,
                         pushed_sorted lastrange (split_proper_subset lastrange new_range)))
                 in Inr (if is_sorted then rl else qsort svn_sort_compare_ranges rl))))"

section \<open>Comparing, reversing and marking ranges\<close>

text \<open>
  \<open>range_intersect\<close> and \<open>range_contains\<close> abort on a range that is not a valid forward
  range, modelled as an assertion error.
\<close>

definition range_intersect ::
  "svn_merge_range_t \<Rightarrow> svn_merge_range_t \<Rightarrow> bool \<Rightarrow> bool svn_result" where
  "range_intersect first second consider_inheritance =
     SVN_ERR_ASSERT (IS_VALID_FORWARD_RANGE first) (
     SVN_ERR_ASSERT (IS_VALID_FORWARD_RANGE second) (
     Inr (start first + 1 \<le> endr second \<and> start second + 1 \<le> endr first
          \<and> (\<not> consider_inheritance \<or> (\<not> inheritable first) = (\<not> inheritable second)))))"

definition range_contains ::
  "svn_merge_range_t \<Rightarrow> svn_merge_range_t \<Rightarrow> bool \<Rightarrow> bool svn_result" where
  "range_contains first second consider_inheritance =
     SVN_ERR_ASSERT (IS_VALID_FORWARD_RANGE first) (
     SVN_ERR_ASSERT (IS_VALID_FORWARD_RANGE second) (
     Inr (start first \<le> start second \<and> endr second \<le> endr first
          \<and> (\<not> consider_inheritance \<or> (\<not> inheritable first) = (\<not> inheritable second)))))"

definition range_swap_endpoints :: "svn_merge_range_t \<Rightarrow> svn_merge_range_t" where
  "range_swap_endpoints rng = rng\<lparr>start := endr rng, endr := start rng\<rparr>"

text \<open>The loop of \<open>svn_rangelist_reverse\<close>, from index \<open>i\<close> to the middle of the array.\<close>

function rangelist_reverse_loop :: "svn_rangelist_t \<Rightarrow> nat \<Rightarrow> svn_rangelist_t" where
  "rangelist_reverse_loop rl i =
     (if i < length rl div 2 then
        let swap_index = length rl - i - 1;
            rng = rl ! i;
            rl1 = rl[i := rl ! swap_index];
            rl2 = rl1[swap_index := rng];
            rl3 = rl2[swap_index := range_swap_endpoints (rl2 ! swap_index)];
            rl4 = rl3[i := range_swap_endpoints (rl3 ! i)]
        in rangelist_reverse_loop rl4 (Suc i)
      else rl)"
  by pat_completeness auto
termination
  by (relation "measure (\<lambda>(rl, i). length rl - i)") (auto simp: Let_def)

declare rangelist_reverse_loop.simps [simp del]

definition svn_rangelist_reverse :: "svn_rangelist_t \<Rightarrow> svn_rangelist_t" where
  "svn_rangelist_reverse rangelist =
     (let rl = rangelist_reverse_loop rangelist 0 in
      if length rl mod 2 = 1
      then rl[length rl div 2 := range_swap_endpoints (rl ! (length rl div 2))]
      else rl)"

definition svn_rangelist__set_inheritance :: "svn_rangelist_t \<Rightarrow> bool \<Rightarrow> svn_rangelist_t" where
  "svn_rangelist__set_inheritance rangelist inh = map (\<lambda>rng. rng\<lparr>inheritable := inh\<rparr>) rangelist"

text \<open>Copies have the same value as the original.\<close>

definition svn_merge_range_dup :: "svn_merge_range_t \<Rightarrow> svn_merge_range_t" where
  "svn_merge_range_dup rng = \<lparr>start = start rng, endr = endr rng, inheritable = inheritable rng\<rparr>"

definition svn_rangelist_dup :: "svn_rangelist_t \<Rightarrow> svn_rangelist_t" where
  "svn_rangelist_dup rangelist = map svn_merge_range_dup rangelist"

definition svn_merge_range_contains_rev :: "svn_merge_range_t \<Rightarrow> svn_revnum_t \<Rightarrow> bool svn_result" where
  "svn_merge_range_contains_rev rng r =
     SVN_ERR_ASSERT (SVN_IS_VALID_REVNUM (start rng)) (
     SVN_ERR_ASSERT (SVN_IS_VALID_REVNUM (endr rng)) (
     SVN_ERR_ASSERT (start rng \<noteq> endr rng) (
     Inr (if start rng < endr rng then r > start rng \<and> r \<le> endr rng
          else r > endr rng \<and> r \<le> start rng))))"

definition svn_rangelist__initialize ::
  "svn_revnum_t \<Rightarrow> svn_revnum_t \<Rightarrow> bool \<Rightarrow> svn_rangelist_t" where
  "svn_rangelist__initialize s e inh = [\<lparr>start = s, endr = e, inheritable = inh\<rparr>]"

section \<open>Meaning of a rangelist\<close>

definition range_revs :: "svn_merge_range_t \<Rightarrow> svn_revnum_t set" where
  "range_revs r = {start r <.. endr r}"

definition revs :: "svn_rangelist_t \<Rightarrow> svn_revnum_t set" where
  "revs rl = (\<Union>r \<in> set rl. range_revs r)"

definition inh_revs :: "svn_rangelist_t \<Rightarrow> svn_revnum_t set" where
  "inh_revs rl = revs (filter inheritable rl)"

text \<open>
  A rangelist as svn\_mergeinfo.h defines it: forward ranges, sorted, not overlapping.
\<close>

definition wf_rangelist :: "svn_rangelist_t \<Rightarrow> bool" where
  "wf_rangelist rl \<longleftrightarrow>
     list_all IS_VALID_FORWARD_RANGE rl \<and> sorted_wrt (\<lambda>a b. endr a \<le> start b) rl"

lemma revs_simps [simp]:
  "revs [] = {}"
  "revs (r # rl) = range_revs r \<union> revs rl"
  "revs (rl @ rl') = revs rl \<union> revs rl'"
  by (auto simp: revs_def)

lemma inh_revs_simps [simp]:
  "inh_revs [] = {}"
  "inh_revs (r # rl) = (if inheritable r then range_revs r else {}) \<union> inh_revs rl"
  "inh_revs (rl @ rl') = inh_revs rl \<union> inh_revs rl'"
  by (auto simp: inh_revs_def)

lemma range_revs_iff [simp]: "x \<in> range_revs r \<longleftrightarrow> start r < x \<and> x \<le> endr r"
  by (simp add: range_revs_def)

lemma inh_revs_subset: "inh_revs rl \<subseteq> revs rl"
  by (auto simp: inh_revs_def revs_def)

lemma valid_range_iff: "IS_VALID_FORWARD_RANGE r \<longleftrightarrow> 0 \<le> start r \<and> start r < endr r"
  by (simp add: IS_VALID_FORWARD_RANGE_def SVN_IS_VALID_REVNUM_def)

lemma wf_rangelist_simps [simp]:
  "wf_rangelist []"
  "wf_rangelist (r # rl) \<longleftrightarrow>
     IS_VALID_FORWARD_RANGE r \<and> (\<forall>s \<in> set rl. endr r \<le> start s) \<and> wf_rangelist rl"
  "wf_rangelist (rl @ rl') \<longleftrightarrow>
     wf_rangelist rl \<and> wf_rangelist rl' \<and> (\<forall>r \<in> set rl. \<forall>s \<in> set rl'. endr r \<le> start s)"
  by (auto simp: wf_rangelist_def list_all_iff sorted_wrt_append)

lemma wf_rangelist_valid: "wf_rangelist rl \<Longrightarrow> r \<in> set rl \<Longrightarrow> IS_VALID_FORWARD_RANGE r"
  by (simp add: wf_rangelist_def list_all_iff)

lemma wf_rangelist_ordered: "wf_rangelist rl \<Longrightarrow> range_cmp.ordered rl"
  by (induction rl)
     (force simp: range_cmp.ordered_def svn_sort_compare_ranges_def valid_range_iff
            dest: wf_rangelist_valid)+

lemma range_dup_id [simp]: "svn_merge_range_dup r = r"
  by (simp add: svn_merge_range_dup_def)

lemma rangelist_dup_id [simp]: "svn_rangelist_dup rl = rl"
  by (simp add: svn_rangelist_dup_def map_idI)

text \<open>
  The effect of \<open>combine_with_lastrange\<close> on a range that starts at or after the end of
  the list: it extends the last range when the two adjoin (and, if inheritance counts,
  agree in it), and is appended otherwise.
\<close>

definition push_range :: "bool \<Rightarrow> svn_rangelist_t \<Rightarrow> svn_merge_range_t \<Rightarrow> svn_rangelist_t" where
  "push_range ci rl n =
     (if rl \<noteq> [] \<and> endr (last rl) = start n \<and> (ci \<longrightarrow> inheritable (last rl) = inheritable n)
      then butlast rl @ [\<lparr>start = start (last rl), endr = endr n,
                          inheritable = inheritable (last rl) \<or> inheritable n\<rparr>]
      else rl @ [n])"

definition ends_before :: "svn_rangelist_t \<Rightarrow> svn_revnum_t \<Rightarrow> bool" where
  "ends_before rl b \<longleftrightarrow> (\<forall>r \<in> set rl. endr r \<le> b)"

lemma ends_before_simps [simp]:
  "ends_before [] b"
  "ends_before (r # rl) b \<longleftrightarrow> endr r \<le> b \<and> ends_before rl b"
  "ends_before (rl @ rl') b \<longleftrightarrow> ends_before rl b \<and> ends_before rl' b"
  by (auto simp: ends_before_def)

lemma ends_beforeD: "ends_before rl b \<Longrightarrow> r \<in> set rl \<Longrightarrow> endr r \<le> b"
  by (simp add: ends_before_def)

lemma ends_before_mono: "ends_before rl b \<Longrightarrow> b \<le> c \<Longrightarrow> ends_before rl c"
  by (auto simp: ends_before_def)

lemma wf_rangelist_snoc:
  "wf_rangelist (rl @ [n]) \<longleftrightarrow> wf_rangelist rl \<and> IS_VALID_FORWARD_RANGE n \<and> ends_before rl (start n)"
  by (auto simp: ends_before_def)

lemma combine_with_lastrange_push:
  assumes "wf_rangelist rl" "IS_VALID_FORWARD_RANGE n" "ends_before rl (start n)"
  shows "combine_with_lastrange n rl ci = Inr (push_range ci rl n)"
proof (cases rl rule: rev_cases)
  case Nil
  then show ?thesis by (simp add: combine_with_lastrange_def push_range_def)
next
  case (snoc ys l)
  have o: "wf_rangelist (rl @ [n])" using assms by (simp add: ends_before_def)
  then have q: "qsort svn_sort_compare_ranges (ys @ [l, n]) = ys @ [l, n]"
    using snoc by (intro range_cmp.qsort_ordered wf_rangelist_ordered) simp
  show ?thesis
    using assms snoc q
    by (auto simp: combine_with_lastrange_def push_range_def combine_ranges_def Let_def
        get_type_of_intersection_def valid_range_iff max_def min_def
        split: intersection_type_t.splits)
qed

lemma push_range_wf:
  assumes "wf_rangelist rl" "IS_VALID_FORWARD_RANGE n" "ends_before rl (start n)"
  shows "wf_rangelist (push_range ci rl n)"
    and "ends_before (push_range ci rl n) (endr n)"
  using assms
  by (cases rl rule: rev_cases; force simp: push_range_def valid_range_iff ends_before_def)+

lemma revs_push_range:
  assumes "wf_rangelist rl" "IS_VALID_FORWARD_RANGE n"
  shows "revs (push_range ci rl n) = revs rl \<union> range_revs n"
  using assms by (cases rl rule: rev_cases) (auto simp: push_range_def valid_range_iff)

lemma inh_revs_push_range:
  assumes "wf_rangelist rl" "IS_VALID_FORWARD_RANGE n"
  shows "inh_revs (push_range True rl n) = inh_revs rl \<union> (if inheritable n then range_revs n else {})"
  using assms by (cases rl rule: rev_cases) (auto simp: push_range_def valid_range_iff)

end
