(* ===== verification/Rangelist_Setops.thy ===== *)
theory Rangelist_Setops
  imports Rangelist
begin

text \<open>
  Intersection and removal of rangelists (libsvn\_subr/mergeinfo.c,
  \<open>rangelist_intersect_or_remove\<close> and its callers). The loop is modelled with the code's
  own indices and its working copy of the current element of the second list; a recursion
  over the two list suffixes is the reference the loop is proved equal to, and the meaning
  of the result is proved for the reference.
\<close>

section \<open>The loop of the code\<close>

text \<open>
  What one iteration appends to the output when the two ranges intersect and neither is
  contained as the loop tests it: the part before the first list's range (removal) or the
  intersection, and, when the working range goes on after it, the intersection again.
\<close>

definition emit_left ::
  "bool \<Rightarrow> bool \<Rightarrow> svn_merge_range_t \<Rightarrow> svn_merge_range_t \<Rightarrow> svn_rangelist_t \<Rightarrow> svn_rangelist_t svn_result"
  where
  "emit_left do_remove consider_inheritance elt1 elt2 output =
     (if start elt2 < start elt1 then
        combine_with_lastrange
          (if do_remove then
             \<lparr>start = start elt2, endr = start elt1, inheritable = inheritable elt2\<rparr>
           else
             \<lparr>start = start elt1, endr = min (endr elt2) (endr elt1),
              inheritable = inheritable elt2 \<or> inheritable elt1\<rparr>)
          output consider_inheritance
      else Inr output)"

definition emit_right ::
  "bool \<Rightarrow> bool \<Rightarrow> svn_merge_range_t \<Rightarrow> svn_merge_range_t \<Rightarrow> svn_rangelist_t \<Rightarrow> svn_rangelist_t svn_result"
  where
  "emit_right do_remove consider_inheritance elt1 elt2 output =
     (if \<not> do_remove then
        combine_with_lastrange
          \<lparr>start = max (start elt2) (start elt1), endr = endr elt1,
           inheritable = inheritable elt2 \<or> inheritable elt1\<rparr>
          output consider_inheritance
      else Inr output)"

definition emit_contained ::
  "bool \<Rightarrow> bool \<Rightarrow> svn_merge_range_t \<Rightarrow> svn_merge_range_t \<Rightarrow> svn_rangelist_t \<Rightarrow> svn_rangelist_t svn_result"
  where
  "emit_contained do_remove consider_inheritance elt1 elt2 output =
     (if \<not> do_remove then
        combine_with_lastrange
          \<lparr>start = start elt2, endr = endr elt2,
           inheritable = inheritable elt2 \<or> inheritable elt1\<rparr>
          output consider_inheritance
      else Inr output)"

text \<open>The working range lies before the first list's range: removal keeps it.\<close>

definition emit_disjoint ::
  "bool \<Rightarrow> bool \<Rightarrow> svn_merge_range_t \<Rightarrow> svn_rangelist_t \<Rightarrow> svn_rangelist_t" where
  "emit_disjoint do_remove consider_inheritance elt2 output =
     (if do_remove then
        (if output \<noteq> [] then
           (case combine_ranges (last output) elt2 consider_inheritance of
              Some combined \<Rightarrow> butlast output @ [combined]
            | None \<Rightarrow> output @ [elt2])
         else output @ [elt2])
      else output)"

function intersect_or_remove_loop ::
  "svn_rangelist_t \<Rightarrow> svn_rangelist_t \<Rightarrow> bool \<Rightarrow> bool \<Rightarrow> nat \<Rightarrow> nat \<Rightarrow> int \<Rightarrow> svn_merge_range_t
   \<Rightarrow> svn_rangelist_t \<Rightarrow> (nat \<times> int \<times> svn_merge_range_t \<times> svn_rangelist_t) svn_result" where
  "intersect_or_remove_loop rangelist1 rangelist2 do_remove ci i1 i2 lasti2 working_elt2 output =
     (if i1 < length rangelist1 \<and> i2 < length rangelist2 then
        let elt1 = rangelist1 ! i1;
            elt2 = (if int i2 \<noteq> lasti2 then rangelist2 ! i2 else working_elt2) in
        SVN_ERR (range_contains elt1 elt2 ci) (\<lambda>contains.
          if contains then
            SVN_ERR (emit_contained do_remove ci elt1 elt2 output) (\<lambda>output'.
              intersect_or_remove_loop rangelist1 rangelist2 do_remove ci
                (if start elt2 = start elt1 \<and> endr elt2 = endr elt1 then Suc i1 else i1)
                (Suc i2) (int i2) elt2 output')
          else
            SVN_ERR (range_intersect elt1 elt2 ci) (\<lambda>intersects.
              if intersects then
                SVN_ERR (emit_left do_remove ci elt1 elt2 output) (\<lambda>output'.
                  if endr elt2 > endr elt1 then
                    SVN_ERR (emit_right do_remove ci elt1 elt2 output') (\<lambda>output''.
                      intersect_or_remove_loop rangelist1 rangelist2 do_remove ci i1 i2 (int i2)
                        (elt2\<lparr>start := endr elt1, endr := endr elt2\<rparr>) output'')
                  else
                    intersect_or_remove_loop rangelist1 rangelist2 do_remove ci
                      i1 (Suc i2) (int i2) elt2 output')
              else if svn_sort_compare_ranges elt1 elt2 < 0 then
                intersect_or_remove_loop rangelist1 rangelist2 do_remove ci
                  (Suc i1) i2 (int i2) elt2 output
              else
                intersect_or_remove_loop rangelist1 rangelist2 do_remove ci
                  i1 (Suc i2) (int i2) elt2 (emit_disjoint do_remove ci elt2 output)))
      else Inr (i2, lasti2, working_elt2, output))"
  by pat_completeness auto
termination
  by (relation "measures [
        \<lambda>(rl1, rl2, dr, ci, i1, i2, lasti2, w, out). (length rl1 - i1) + (length rl2 - i2),
        \<lambda>(rl1, rl2, dr, ci, i1, i2, lasti2, w, out).
          (let e = if int i2 \<noteq> lasti2 then rl2 ! i2 else w in nat (endr e - start e))]")
     (auto simp: Let_def range_intersect_def SVN_ERR_iffs split: if_splits)

declare intersect_or_remove_loop.simps [simp del]

text \<open>The final copying loop over the rest of the second list.\<close>

fun combine_remaining :: "svn_rangelist_t \<Rightarrow> svn_rangelist_t \<Rightarrow> bool \<Rightarrow> svn_rangelist_t svn_result" where
  "combine_remaining [] output ci = Inr output"
| "combine_remaining (elt # rest) output ci =
     SVN_ERR (combine_with_lastrange elt output ci) (\<lambda>output'. combine_remaining rest output' ci)"

definition rangelist_intersect_or_remove ::
  "svn_rangelist_t \<Rightarrow> svn_rangelist_t \<Rightarrow> bool \<Rightarrow> bool \<Rightarrow> svn_rangelist_t svn_result" where
  "rangelist_intersect_or_remove rangelist1 rangelist2 do_remove consider_inheritance =
     SVN_ERR (intersect_or_remove_loop rangelist1 rangelist2 do_remove consider_inheritance
                0 0 (-1) (mk_range 0 0 False) [])
       (\<lambda>(i2, lasti2, working_elt2, output).
          if do_remove then
            if int i2 = lasti2 \<and> i2 < length rangelist2 then
              SVN_ERR (combine_with_lastrange working_elt2 output consider_inheritance) (\<lambda>output'.
                combine_remaining (drop (Suc i2) rangelist2) output' consider_inheritance)
            else combine_remaining (drop i2 rangelist2) output consider_inheritance
          else Inr output)"

definition svn_rangelist_intersect ::
  "svn_rangelist_t \<Rightarrow> svn_rangelist_t \<Rightarrow> bool \<Rightarrow> svn_rangelist_t svn_result" where
  "svn_rangelist_intersect rangelist1 rangelist2 consider_inheritance =
     rangelist_intersect_or_remove rangelist1 rangelist2 False consider_inheritance"

definition svn_rangelist_remove ::
  "svn_rangelist_t \<Rightarrow> svn_rangelist_t \<Rightarrow> bool \<Rightarrow> svn_rangelist_t svn_result" where
  "svn_rangelist_remove eraser whiteboard consider_inheritance =
     rangelist_intersect_or_remove eraser whiteboard True consider_inheritance"

text \<open>The pair is (deleted, added).\<close>

definition svn_rangelist_diff ::
  "svn_rangelist_t \<Rightarrow> svn_rangelist_t \<Rightarrow> bool \<Rightarrow> (svn_rangelist_t \<times> svn_rangelist_t) svn_result" where
  "svn_rangelist_diff from to consider_inheritance =
     SVN_ERR (svn_rangelist_remove to from consider_inheritance) (\<lambda>deleted.
     SVN_ERR (svn_rangelist_remove from to consider_inheritance) (\<lambda>added.
     Inr (deleted, added)))"

section \<open>The reference recursion over list suffixes\<close>

text \<open>
  \<open>es\<close> is the rest of the first list, \<open>ps\<close> the rest of the second with the working copy
  in front. The result is the unprocessed rest of the second list and the output.
\<close>

definition touches :: "bool \<Rightarrow> svn_merge_range_t \<Rightarrow> svn_merge_range_t \<Rightarrow> bool" where
  "touches ci e p \<longleftrightarrow> start e < endr p \<and> start p < endr e
     \<and> (ci \<longrightarrow> inheritable e = inheritable p)"

definition covers :: "bool \<Rightarrow> svn_merge_range_t \<Rightarrow> svn_merge_range_t \<Rightarrow> bool" where
  "covers ci e p \<longleftrightarrow> start e \<le> start p \<and> endr p \<le> endr e
     \<and> (ci \<longrightarrow> inheritable e = inheritable p)"

definition meet_range :: "svn_merge_range_t \<Rightarrow> svn_merge_range_t \<Rightarrow> svn_merge_range_t" where
  "meet_range e p = \<lparr>start = max (start p) (start e), endr = min (endr p) (endr e),
     inheritable = inheritable p \<or> inheritable e\<rparr>"

function setop_run ::
  "bool \<Rightarrow> bool \<Rightarrow> svn_rangelist_t \<Rightarrow> svn_rangelist_t \<Rightarrow> svn_rangelist_t \<Rightarrow> svn_rangelist_t \<times> svn_rangelist_t"
  where
  "setop_run dr ci [] ps out = (ps, out)"
| "setop_run dr ci (e # es) [] out = ([], out)"
| "setop_run dr ci (e # es) (p # ps) out =
     (if covers ci e p then
        setop_run dr ci (if start p = start e \<and> endr p = endr e then es else e # es) ps
          (if dr then out else push_range ci out (meet_range e p))
      else if touches ci e p then
        let out' = (if \<not> dr then push_range ci out (meet_range e p)
                    else if start p < start e
                    then push_range ci out (mk_range (start p) (start e) (inheritable p))
                    else out)
        in if endr p > endr e
           then setop_run dr ci (e # es) (p\<lparr>start := endr e\<rparr> # ps) out'
           else setop_run dr ci (e # es) ps out'
      else if svn_sort_compare_ranges e p < 0 then setop_run dr ci es (p # ps) out
      else setop_run dr ci (e # es) ps (if dr then push_range ci out p else out))"
  by pat_completeness auto
termination
  by (relation "measures [\<lambda>(dr, ci, es, ps, out). length es + length ps,
        \<lambda>(dr, ci, es, ps, out). nat (endr (hd ps) - start (hd ps))]")
     (auto simp: touches_def)

declare setop_run.simps(3) [simp del]

section \<open>The loop computes the reference recursion\<close>

definition pending :: "svn_rangelist_t \<Rightarrow> nat \<Rightarrow> int \<Rightarrow> svn_merge_range_t \<Rightarrow> svn_rangelist_t" where
  "pending rl2 i2 lasti2 w =
     (if i2 < length rl2 then (if int i2 \<noteq> lasti2 then rl2 ! i2 else w) # drop (Suc i2) rl2 else [])"

definition setop_inv :: "svn_rangelist_t \<Rightarrow> svn_rangelist_t \<Rightarrow> svn_rangelist_t \<Rightarrow> bool" where
  "setop_inv es ps out \<longleftrightarrow> wf_rangelist es \<and> wf_rangelist ps \<and> wf_rangelist out
     \<and> (\<forall>p \<in> set ps. ends_before out (start p))"

lemma pending_Suc [simp]: "pending rl2 (Suc i2) (int i2) w = drop (Suc i2) rl2"
  by (simp add: pending_def drop_Cons_nth not_less)

lemma range_contains_covers:
  "IS_VALID_FORWARD_RANGE e \<Longrightarrow> IS_VALID_FORWARD_RANGE p \<Longrightarrow> range_contains e p ci = Inr (covers ci e p)"
  by (auto simp: range_contains_def covers_def)

lemma range_intersect_touches:
  "IS_VALID_FORWARD_RANGE e \<Longrightarrow> IS_VALID_FORWARD_RANGE p \<Longrightarrow> range_intersect e p ci = Inr (touches ci e p)"
  by (auto simp: range_intersect_def touches_def)

lemma combine_with_lastrange_again:
  assumes "wf_rangelist out" "IS_VALID_FORWARD_RANGE n" "ends_before out (start n)"
  shows "combine_with_lastrange n (push_range ci out n) ci = Inr (push_range ci out n)"
  using assms
  by (cases out rule: rev_cases)
     (auto simp: combine_with_lastrange_def push_range_def combine_ranges_def valid_range_iff
        max_def min_def butlast_append)

lemma meet_range_valid:
  "IS_VALID_FORWARD_RANGE e \<Longrightarrow> IS_VALID_FORWARD_RANGE p \<Longrightarrow> covers ci e p \<or> touches ci e p \<Longrightarrow>
   IS_VALID_FORWARD_RANGE (meet_range e p)"
  by (auto simp: meet_range_def valid_range_iff covers_def touches_def)

lemma setop_inv_ConsD:
  assumes "setop_inv (e # es) (p # ps) out"
  shows "IS_VALID_FORWARD_RANGE e" "IS_VALID_FORWARD_RANGE p" "wf_rangelist out"
    "ends_before out (start p)" "ends_before out (max (start p) (start e))"
    "wf_rangelist ps" "\<forall>q \<in> set ps. endr p \<le> start q"
  using assms by (auto simp: setop_inv_def intro: ends_before_mono)

lemma emit_contained_eq:
  assumes "setop_inv (e # es) (p # ps) out" "covers ci e p"
  shows "emit_contained dr ci e p out = Inr (if dr then out else push_range ci out (meet_range e p))"
proof -
  have "meet_range e p = \<lparr>start = start p, endr = endr p, inheritable = inheritable p \<or> inheritable e\<rparr>"
    using assms(2) by (simp add: meet_range_def covers_def)
  then show ?thesis
    using setop_inv_ConsD [OF assms(1)] meet_range_valid [of e p ci] assms(2)
    by (auto simp: emit_contained_def combine_with_lastrange_push)
qed

lemma emit_disjoint_eq:
  assumes "setop_inv (e # es) (p # ps) out"
  shows "emit_disjoint dr ci p out = (if dr then push_range ci out p else out)"
  using setop_inv_ConsD [OF assms]
  by (cases out rule: rev_cases)
     (auto simp: emit_disjoint_def push_range_def combine_ranges_def valid_range_iff max_def min_def)

abbreviation emit_touching ::
  "bool \<Rightarrow> bool \<Rightarrow> svn_merge_range_t \<Rightarrow> svn_merge_range_t \<Rightarrow> svn_rangelist_t \<Rightarrow> svn_rangelist_t" where
  "emit_touching dr ci e p out \<equiv>
     (if \<not> dr then push_range ci out (meet_range e p)
      else if start p < start e then push_range ci out (mk_range (start p) (start e) (inheritable p))
      else out)"

lemma emit_left_eq:
  assumes "setop_inv (e # es) (p # ps) out" "touches ci e p"
  shows "emit_left dr ci e p out =
    Inr (if start p < start e then emit_touching dr ci e p out else out)"
proof (cases "start p < start e")
  case True
  have m: "meet_range e p = \<lparr>start = start e, endr = min (endr p) (endr e),
      inheritable = inheritable p \<or> inheritable e\<rparr>"
    using True by (simp add: meet_range_def)
  have "IS_VALID_FORWARD_RANGE (mk_range (start p) (start e) (inheritable p))"
    using True setop_inv_ConsD [OF assms(1)] by (simp add: valid_range_iff)
  moreover have "IS_VALID_FORWARD_RANGE (meet_range e p)"
    using setop_inv_ConsD [OF assms(1)] assms(2) by (intro meet_range_valid) auto
  ultimately show ?thesis
    using True setop_inv_ConsD [OF assms(1)]
    by (auto simp: emit_left_def m combine_with_lastrange_push)
qed (simp add: emit_left_def)

lemma emit_right_eq:
  assumes "setop_inv (e # es) (p # ps) out" "touches ci e p" "endr p > endr e"
  shows "emit_right dr ci e p (if start p < start e then emit_touching dr ci e p out else out) =
    Inr (emit_touching dr ci e p out)"
proof -
  have m: "\<lparr>start = max (start p) (start e), endr = endr e,
      inheritable = inheritable p \<or> inheritable e\<rparr> = meet_range e p"
    using assms(3) by (simp add: meet_range_def)
  have "IS_VALID_FORWARD_RANGE (meet_range e p)"
    using setop_inv_ConsD [OF assms(1)] assms(2) by (intro meet_range_valid) auto
  moreover have "start (meet_range e p) = max (start p) (start e)" by (simp add: meet_range_def)
  ultimately show ?thesis
    using setop_inv_ConsD [OF assms(1)]
    by (auto simp: emit_right_def m combine_with_lastrange_push combine_with_lastrange_again)
qed

text \<open>Each way the reference recursion goes on keeps the invariant.\<close>

lemma setop_inv_push:
  assumes "setop_inv es (p # ps) out" "IS_VALID_FORWARD_RANGE n" "start p \<le> start n"
    and "endr n \<le> b" "wf_rangelist ps'" "\<forall>q \<in> set ps'. b \<le> start q"
  shows "setop_inv es ps' (push_range ci out n)"
proof -
  have "ends_before out (start n)"
    using assms(1,3) by (auto simp: setop_inv_def intro: ends_before_mono)
  with assms have "wf_rangelist (push_range ci out n)" "ends_before (push_range ci out n) (endr n)"
    by (auto simp: setop_inv_def intro: push_range_wf)
  with assms show ?thesis by (force simp: setop_inv_def intro: ends_before_mono)
qed

lemma setop_inv_skip:
  "setop_inv (e # es) ps out \<Longrightarrow> setop_inv es ps out"
  "setop_inv es (p # ps) out \<Longrightarrow> setop_inv es ps out"
  by (auto simp: setop_inv_def)

lemma setop_inv_covers:
  assumes "setop_inv (e # es) (p # ps) out" "covers ci e p"
  shows "setop_inv (e # es) ps (if dr then out else push_range ci out (meet_range e p))"
proof -
  note d = setop_inv_ConsD [OF assms(1)]
  have "IS_VALID_FORWARD_RANGE (meet_range e p)"
    using d assms(2) by (blast intro: meet_range_valid)
  then have "setop_inv (e # es) ps (push_range ci out (meet_range e p))"
    using d by (intro setop_inv_push [OF assms(1), where b = "endr p"]) (auto simp: meet_range_def)
  with setop_inv_skip(2) [OF assms(1)] show ?thesis by simp
qed

lemma setop_inv_touches:
  assumes "setop_inv (e # es) (p # ps) out" "touches ci e p"
  shows "endr p \<le> endr e \<Longrightarrow> setop_inv (e # es) ps (emit_touching dr ci e p out)"
    and "endr p > endr e \<Longrightarrow>
      setop_inv (e # es) (p\<lparr>start := endr e\<rparr> # ps) (emit_touching dr ci e p out)"
proof -
  note d = setop_inv_ConsD [OF assms(1)]
  define n where "n = (if \<not> dr then meet_range e p else mk_range (start p) (start e) (inheritable p))"
  have n: "IS_VALID_FORWARD_RANGE n" if "\<not> dr \<or> start p < start e"
    using that d meet_range_valid [of e p ci] assms(2) by (auto simp: n_def valid_range_iff)
  have ends: "start p \<le> start n" "endr n \<le> endr e" "dr \<or> endr n \<le> endr p"
    using d by (auto simp: n_def meet_range_def valid_range_iff)
  have emit: "emit_touching dr ci e p out =
      (if \<not> dr \<or> start p < start e then push_range ci out n else out)"
    by (simp add: n_def)
  show "setop_inv (e # es) ps (emit_touching dr ci e p out)" if "endr p \<le> endr e"
  proof (cases "\<not> dr \<or> start p < start e")
    case True
    have "endr n \<le> endr p" using assms(2) True d by (auto simp: n_def meet_range_def touches_def)
    with True n ends d show ?thesis
      unfolding emit by (auto intro!: setop_inv_push [OF assms(1), where b = "endr p"])
  next
    case False
    with setop_inv_skip(2) [OF assms(1)] show ?thesis unfolding emit by simp
  qed
  show "setop_inv (e # es) (p\<lparr>start := endr e\<rparr> # ps) (emit_touching dr ci e p out)"
    if gt: "endr p > endr e"
  proof -
    have w: "wf_rangelist (p\<lparr>start := endr e\<rparr> # ps)"
      using d gt by (auto simp: valid_range_iff)
    show ?thesis
    proof (cases "\<not> dr \<or> start p < start e")
      case True
      have "\<forall>q \<in> set ps. endr e \<le> start q" using d gt by force
      with True n ends d w gt show ?thesis
        unfolding emit by (auto intro!: setop_inv_push [OF assms(1), where b = "endr e"])
    next
      case False
      then have "start p \<le> endr e" using assms(2) by (simp add: touches_def)
      with False w assms(1) show ?thesis
        unfolding emit by (auto simp: setop_inv_def intro: ends_before_mono)
    qed
  qed
qed

lemma setop_inv_disjoint:
  assumes "setop_inv (e # es) (p # ps) out"
  shows "setop_inv (e # es) ps (if dr then push_range ci out p else out)"
proof -
  note d = setop_inv_ConsD [OF assms]
  from d have "setop_inv (e # es) ps (push_range ci out p)"
    by (intro setop_inv_push [OF assms, where b = "endr p"]) auto
  with setop_inv_skip(2) [OF assms] show ?thesis by simp
qed

lemma loop_step:
  assumes "i1 < length rl1" "i2 < length rl2"
    and "e = rl1 ! i1" "p = (if int i2 \<noteq> lasti2 then rl2 ! i2 else w)"
    and "range_contains e p ci = Inr c" "range_intersect e p ci = Inr t"
  shows "intersect_or_remove_loop rl1 rl2 dr ci i1 i2 lasti2 w out =
    (if c then
       SVN_ERR (emit_contained dr ci e p out) (\<lambda>out'.
         intersect_or_remove_loop rl1 rl2 dr ci
           (if start p = start e \<and> endr p = endr e then Suc i1 else i1) (Suc i2) (int i2) p out')
     else if t then
       SVN_ERR (emit_left dr ci e p out) (\<lambda>out'.
         if endr p > endr e then
           SVN_ERR (emit_right dr ci e p out') (\<lambda>out''.
             intersect_or_remove_loop rl1 rl2 dr ci i1 i2 (int i2) (p\<lparr>start := endr e\<rparr>) out'')
         else intersect_or_remove_loop rl1 rl2 dr ci i1 (Suc i2) (int i2) p out')
     else if svn_sort_compare_ranges e p < 0 then
       intersect_or_remove_loop rl1 rl2 dr ci (Suc i1) i2 (int i2) p out
     else
       intersect_or_remove_loop rl1 rl2 dr ci i1 (Suc i2) (int i2) p (emit_disjoint dr ci p out))"
proof -
  have "p\<lparr>start := endr e, endr := endr p\<rparr> = p\<lparr>start := endr e\<rparr>" by simp
  then show ?thesis
    using assms(1,2,5,6)
    by (subst intersect_or_remove_loop.simps)
       (simp only: Let_def SVN_ERR_simps if_True simp_thms assms(3,4) [symmetric])
qed

lemma loop_setop_run:
  assumes "setop_inv (drop i1 rl1) (pending rl2 i2 lasti2 w) out"
  shows "\<exists>i2' lasti2' w' out'.
    intersect_or_remove_loop rl1 rl2 dr ci i1 i2 lasti2 w out = Inr (i2', lasti2', w', out')
    \<and> setop_run dr ci (drop i1 rl1) (pending rl2 i2 lasti2 w) out = (pending rl2 i2' lasti2' w', out')"
  using assms
proof (induction rl1 rl2 dr ci i1 i2 lasti2 w out rule: intersect_or_remove_loop.induct)
  case (1 rl1 rl2 dr ci i1 i2 lasti2 w out)
  show ?case
  proof (cases "i1 < length rl1 \<and> i2 < length rl2")
    case False
    then have "drop i1 rl1 = [] \<or> pending rl2 i2 lasti2 w = []" by (auto simp: pending_def)
    then have "setop_run dr ci (drop i1 rl1) (pending rl2 i2 lasti2 w) out =
        (pending rl2 i2 lasti2 w, out)"
      by (cases "drop i1 rl1") auto
    with False show ?thesis
      by (auto simp: intersect_or_remove_loop.simps [of rl1 rl2 dr ci i1 i2 lasti2 w out])
  next
    case True
    define e where "e = rl1 ! i1"
    define p where "p = (if int i2 \<noteq> lasti2 then rl2 ! i2 else w)"
    define es where "es = drop (Suc i1) rl1"
    define ps where "ps = drop (Suc i2) rl2"
    have E: "drop i1 rl1 = e # es" using True by (simp add: e_def es_def drop_Cons_nth)
    have P: "pending rl2 i2 lasti2 w = p # ps" using True by (simp add: pending_def p_def ps_def)
    have P': "pending rl2 i2 (int i2) p' = p' # ps" for p'
      using True by (simp add: pending_def ps_def)
    have inv: "setop_inv (e # es) (p # ps) out" using "1.prems" E P by simp
    note d = setop_inv_ConsD [OF inv]
    have contains: "range_contains e p ci = Inr (covers ci e p)"
      using d by (simp add: range_contains_covers)
    have meets: "range_intersect e p ci = Inr (touches ci e p)"
      using d by (simp add: range_intersect_touches)
    note step = loop_step [OF conjunct1 [OF True] conjunct2 [OF True] e_def p_def contains meets]
    note emits = emit_contained_eq [OF inv] emit_left_eq [OF inv] emit_right_eq [OF inv]
      emit_disjoint_eq [OF inv]
    note folds = E P P' es_def [symmetric] ps_def [symmetric]
      setop_run.simps(3) [of dr ci e es p ps out]
    note IH = "1.IH" [OF True e_def p_def]
    show ?thesis
    proof (cases "covers ci e p")
      case c: True
      define i1' where "i1' = (if start p = start e \<and> endr p = endr e then Suc i1 else i1)"
      define out' where "out' = (if dr then out else push_range ci out (meet_range e p))"
      have E': "drop i1' rl1 = (if start p = start e \<and> endr p = endr e then es else e # es)"
        by (simp add: i1'_def E es_def)
      have "setop_inv (drop i1' rl1) (pending rl2 (Suc i2) (int i2) p) out'"
        using setop_inv_covers [OF inv c, of dr] setop_inv_skip(1) [OF setop_inv_covers [OF inv c, of dr]]
        unfolding out'_def E' by (cases dr) (simp_all add: ps_def)
      from IH(1) [OF contains c emit_contained_eq [OF inv c], folded i1'_def out'_def, OF this]
      have "\<exists>i2' lasti2' w' out''.
          intersect_or_remove_loop rl1 rl2 dr ci i1' (Suc i2) (int i2) p out' = Inr (i2', lasti2', w', out'')
          \<and> setop_run dr ci (drop i1' rl1) ps out' = (pending rl2 i2' lasti2' w', out'')"
        by (simp add: ps_def)
      moreover have "setop_run dr ci (e # es) (p # ps) out = setop_run dr ci (drop i1' rl1) ps out'"
        using c by (simp add: setop_run.simps(3) [of dr ci e es p ps out] E' out'_def)
      moreover have "intersect_or_remove_loop rl1 rl2 dr ci i1 i2 lasti2 w out =
          intersect_or_remove_loop rl1 rl2 dr ci i1' (Suc i2) (int i2) p out'"
        using c by (simp add: step emit_contained_eq [OF inv c] i1'_def out'_def)
      ultimately show ?thesis by (simp add: E P)
    next
      case nc: False
      show ?thesis
      proof (cases "touches ci e p")
        case t: True
        show ?thesis
        proof (cases "endr p > endr e")
          case gt: True
          have "setop_inv (drop i1 rl1) (pending rl2 i2 (int i2) (p\<lparr>start := endr e, endr := endr p\<rparr>))
              (emit_touching dr ci e p out)"
            using setop_inv_touches(2) [OF inv t gt] by (simp add: folds)
          from IH(2) [OF contains nc meets t emit_left_eq [OF inv t] gt emit_right_eq [OF inv t gt], OF this]
          show ?thesis using nc t gt by (simp add: step emits folds Let_def)
        next
          case le: False
          then have sp: "start p < start e" using nc t by (auto simp: covers_def touches_def)
          have "setop_inv (drop i1 rl1) (pending rl2 (Suc i2) (int i2) p)
              (if start p < start e then emit_touching dr ci e p out else out)"
            using setop_inv_touches(1) [OF inv t] le sp by (simp add: folds)
          from IH(3) [OF contains nc meets t emit_left_eq [OF inv t] le, OF this]
          show ?thesis using nc t le sp by (simp add: step emits folds Let_def)
        qed
      next
        case nt: False
        show ?thesis
        proof (cases "svn_sort_compare_ranges e p < 0")
          case lt: True
          have "setop_inv (drop (Suc i1) rl1) (pending rl2 i2 (int i2) p) out"
            using setop_inv_skip(1) [OF inv] by (simp add: folds)
          from IH(4) [OF contains nc meets nt lt, OF this]
          show ?thesis using nc nt lt by (simp add: step folds)
        next
          case ge: False
          have "setop_inv (drop i1 rl1) (pending rl2 (Suc i2) (int i2) p) (emit_disjoint dr ci p out)"
            using setop_inv_disjoint [OF inv] by (simp add: folds emits)
          from IH(5) [OF contains nc meets nt ge, OF this]
          show ?thesis using nc nt ge by (simp add: step emits folds)
        qed
      qed
    qed
  qed
qed

lemma foldl_push_range:
  "setop_inv es ps out \<Longrightarrow>
     combine_remaining ps out ci = Inr (foldl (push_range ci) out ps)
     \<and> wf_rangelist (foldl (push_range ci) out ps)
     \<and> revs (foldl (push_range ci) out ps) = revs out \<union> revs ps"
proof (induction ps arbitrary: out)
  case (Cons p ps)
  have v: "wf_rangelist out" "IS_VALID_FORWARD_RANGE p" "ends_before out (start p)"
    using Cons.prems by (auto simp: setop_inv_def)
  have "setop_inv es ps (push_range ci out p)"
    using Cons.prems by (intro setop_inv_push [OF Cons.prems, where b = "endr p"])
      (auto simp: setop_inv_def)
  from Cons.IH [OF this] v show ?case
    by (simp add: combine_with_lastrange_push revs_push_range Un_assoc)
qed (simp add: setop_inv_def)

text \<open>
  Induction over the reference recursion under its invariant: one case per way it goes on.
\<close>

lemma setop_run_induct [consumes 1, case_names base covers touches_gt touches_le skip disjoint]:
  assumes "setop_inv es ps out"
    and base: "\<And>es ps out. setop_inv es ps out \<Longrightarrow> es = [] \<or> ps = [] \<Longrightarrow> P es ps out (ps, out)"
    and covers: "\<And>e es p ps out res. setop_inv (e # es) (p # ps) out \<Longrightarrow> covers ci e p \<Longrightarrow>
      P (if start p = start e \<and> endr p = endr e then es else e # es) ps
        (if dr then out else push_range ci out (meet_range e p)) res \<Longrightarrow>
      P (e # es) (p # ps) out res"
    and touches_gt: "\<And>e es p ps out res. setop_inv (e # es) (p # ps) out \<Longrightarrow> \<not> covers ci e p \<Longrightarrow>
      touches ci e p \<Longrightarrow> endr p > endr e \<Longrightarrow>
      P (e # es) (p\<lparr>start := endr e\<rparr> # ps) (emit_touching dr ci e p out) res \<Longrightarrow>
      P (e # es) (p # ps) out res"
    and touches_le: "\<And>e es p ps out res. setop_inv (e # es) (p # ps) out \<Longrightarrow> \<not> covers ci e p \<Longrightarrow>
      touches ci e p \<Longrightarrow> endr p \<le> endr e \<Longrightarrow>
      P (e # es) ps (emit_touching dr ci e p out) res \<Longrightarrow> P (e # es) (p # ps) out res"
    and skip: "\<And>e es p ps out res. setop_inv (e # es) (p # ps) out \<Longrightarrow> \<not> covers ci e p \<Longrightarrow>
      \<not> touches ci e p \<Longrightarrow> svn_sort_compare_ranges e p < 0 \<Longrightarrow>
      P es (p # ps) out res \<Longrightarrow> P (e # es) (p # ps) out res"
    and disjoint: "\<And>e es p ps out res. setop_inv (e # es) (p # ps) out \<Longrightarrow> \<not> covers ci e p \<Longrightarrow>
      \<not> touches ci e p \<Longrightarrow> \<not> svn_sort_compare_ranges e p < 0 \<Longrightarrow>
      P (e # es) ps (if dr then push_range ci out p else out) res \<Longrightarrow> P (e # es) (p # ps) out res"
  shows "P es ps out (setop_run dr ci es ps out)"
  using assms(1)
proof (induction dr \<equiv> dr ci \<equiv> ci es ps out rule: setop_run.induct)
  case (1 ps out)
  then show ?case by (simp add: base)
next
  case (2 e es out)
  then show ?case by (simp add: base)
next
  case (3 e es p ps out)
  note inv = "3.prems"
  note IH = "3.hyps"
  show ?case
  proof (cases "covers ci e p")
    case c: True
    have "setop_inv (if start p = start e \<and> endr p = endr e then es else e # es) ps
        (if dr then out else push_range ci out (meet_range e p))"
      using setop_inv_covers [OF inv c, of dr] setop_inv_skip(1) [OF setop_inv_covers [OF inv c, of dr]]
      by (cases dr) simp_all
    from covers [OF inv c IH(1) [OF c this]] show ?thesis
      using c by (subst setop_run.simps(3)) simp
  next
    case nc: False
    show ?thesis
    proof (cases "touches ci e p")
      case t: True
      show ?thesis
      proof (cases "endr p > endr e")
        case gt: True
        from touches_gt [OF inv nc t gt IH(2) [OF nc t refl gt setop_inv_touches(2) [OF inv t gt]]]
        show ?thesis using nc t gt by (subst setop_run.simps(3)) (simp add: Let_def)
      next
        case le: False
        then have le': "endr p \<le> endr e" by simp
        from touches_le [OF inv nc t le' IH(3) [OF nc t refl le setop_inv_touches(1) [OF inv t le']]]
        show ?thesis using nc t le by (subst setop_run.simps(3)) (simp add: Let_def)
      qed
    next
      case nt: False
      show ?thesis
      proof (cases "svn_sort_compare_ranges e p < 0")
        case lt: True
        from skip [OF inv nc nt lt IH(4) [OF nc nt lt setop_inv_skip(1) [OF inv]]]
        show ?thesis using nc nt lt by (subst setop_run.simps(3)) simp
      next
        case ge: False
        from disjoint [OF inv nc nt ge IH(5) [OF nc nt ge setop_inv_disjoint [OF inv]]]
        show ?thesis using nc nt ge by (subst setop_run.simps(3)) simp
      qed
    qed
  qed
qed

text \<open>The operation succeeds on rangelists and computes the reference.\<close>

definition setop :: "bool \<Rightarrow> bool \<Rightarrow> svn_rangelist_t \<Rightarrow> svn_rangelist_t \<Rightarrow> svn_rangelist_t" where
  "setop dr ci rl1 rl2 =
     (case setop_run dr ci rl1 rl2 [] of (ps, out) \<Rightarrow> if dr then foldl (push_range ci) out ps else out)"

lemma setop_run_inv:
  "setop_inv es ps out \<Longrightarrow> (case setop_run dr ci es ps out of (ps', out') \<Rightarrow> setop_inv [] ps' out')"
  by (induction es ps out rule: setop_run_induct [where P = "\<lambda>es ps out res.
        case res of (ps', out') \<Rightarrow> setop_inv [] ps' out'"])
     (auto simp: setop_inv_def)

lemma intersect_or_remove_setop:
  assumes "wf_rangelist rl1" "wf_rangelist rl2"
  shows "rangelist_intersect_or_remove rl1 rl2 dr ci = Inr (setop dr ci rl1 rl2)"
proof -
  have P: "pending rl2 0 (-1) w = rl2" for w
    by (cases rl2) (simp_all add: pending_def)
  have inv: "setop_inv (drop 0 rl1) (pending rl2 0 (-1) (mk_range 0 0 False)) []"
    using assms by (simp add: P setop_inv_def)
  from loop_setop_run [OF this, of dr ci]
  obtain i2 lasti2 w out where
    loop: "intersect_or_remove_loop rl1 rl2 dr ci 0 0 (-1) (mk_range 0 0 False) [] = Inr (i2, lasti2, w, out)"
    and run: "setop_run dr ci rl1 rl2 [] = (pending rl2 i2 lasti2 w, out)"
    by (auto simp: P)
  have "setop_inv [] (pending rl2 i2 lasti2 w) out"
    using setop_run_inv [of rl1 rl2 "[]" dr ci] inv run by (simp add: P)
  note rest = conjunct1 [OF foldl_push_range [OF this, of ci]]
  show ?thesis
  proof (cases "i2 < length rl2")
    case True
    with rest show ?thesis
      by (auto simp: rangelist_intersect_or_remove_def loop setop_def run pending_def drop_Cons_nth)
  next
    case False
    with rest show ?thesis
      by (auto simp: rangelist_intersect_or_remove_def loop setop_def run pending_def)
  qed
qed

section \<open>Meaning of the reference\<close>

lemma revs_after: "wf_rangelist (p # ps) \<Longrightarrow> x \<in> revs ps \<Longrightarrow> endr p < x"
  by (force simp: revs_def)

lemma setop_inv_revs:
  assumes "setop_inv (e # es) (p # ps) out"
  shows "x \<in> revs es \<Longrightarrow> endr e < x" "x \<in> revs ps \<Longrightarrow> endr p < x"
  using assms revs_after by (auto simp: setop_inv_def simp del: wf_rangelist_simps)

lemma not_touching_cases:
  assumes "IS_VALID_FORWARD_RANGE e" "IS_VALID_FORWARD_RANGE p" "\<not> touches False e p"
  shows "svn_sort_compare_ranges e p < 0 \<Longrightarrow> endr e \<le> start p"
    and "\<not> svn_sort_compare_ranges e p < 0 \<Longrightarrow> endr p \<le> start e"
  using assms by (auto simp: touches_def svn_sort_compare_ranges_def valid_range_iff split: if_splits)

lemma not_touching_revs:
  assumes "setop_inv (e # es) (p # ps) out" "\<not> touches False e p"
  shows "svn_sort_compare_ranges e p < 0 \<Longrightarrow> range_revs e \<inter> revs (p # ps) = {}"
    and "\<not> svn_sort_compare_ranges e p < 0 \<Longrightarrow> range_revs p \<inter> revs (e # es) = {}"
proof -
  note d = setop_inv_ConsD(1,2) [OF assms(1)]
  have lt: "start e < endr e" "start p < endr p" using d by (auto simp: valid_range_iff)
  show "range_revs e \<inter> revs (p # ps) = {}" if "svn_sort_compare_ranges e p < 0"
    using not_touching_cases(1) [OF d assms(2) that] setop_inv_revs(2) [OF assms(1)] lt by fastforce
  show "range_revs p \<inter> revs (e # es) = {}" if "\<not> svn_sort_compare_ranges e p < 0"
    using not_touching_cases(2) [OF d assms(2) that] setop_inv_revs(1) [OF assms(1)] lt by fastforce
qed

lemma meet_range_revs [simp]: "range_revs (meet_range e p) = range_revs e \<inter> range_revs p"
  by (auto simp: meet_range_def)

lemma meet_range_inheritable [simp]: "inheritable (meet_range e p) \<longleftrightarrow> inheritable p \<or> inheritable e"
  by (simp add: meet_range_def)

lemma revs_push_meet:
  assumes "setop_inv (e # es) (p # ps) out" "covers ci e p \<or> touches ci e p"
  shows "revs (push_range ci' out (meet_range e p)) = revs out \<union> (range_revs e \<inter> range_revs p)"
proof -
  note d = setop_inv_ConsD [OF assms(1)]
  with assms(2) show ?thesis by (auto simp: revs_push_range meet_range_valid)
qed

lemma revs_push_left:
  assumes "setop_inv (e # es) (p # ps) out" "start p < start e"
  shows "revs (push_range ci out (mk_range (start p) (start e) i)) = revs out \<union> {start p<..start e}"
  using setop_inv_ConsD [OF assms(1)] assms(2)
  by (subst revs_push_range) (auto simp: valid_range_iff range_revs_def)

lemma setop_run_remove:
  "setop_inv es ps out \<Longrightarrow> (case setop_run True False es ps out of (ps', out') \<Rightarrow>
     revs out' \<union> revs ps' = revs out \<union> (revs ps - revs es))"
proof (induction es ps out rule: setop_run_induct [where dr = True and ci = False and P = "\<lambda>es ps out res.
        case res of (ps', out') \<Rightarrow> revs out' \<union> revs ps' = revs out \<union> (revs ps - revs es)"])
  case (base es ps out)
  then show ?case by auto
next
  case (covers e es p ps out res)
  then show ?case
    using setop_inv_revs [OF covers(1)] by (force simp: covers_def split: if_splits prod.splits)
next
  case (touches_gt e es p ps out res)
  then show ?case
    using setop_inv_revs [OF touches_gt(1)] setop_inv_ConsD [OF touches_gt(1)]
    by (auto simp: touches_def covers_def revs_push_left [OF touches_gt(1)] valid_range_iff
        split: if_splits prod.splits) fastforce
next
  case (touches_le e es p ps out res)
  then show ?case
    using setop_inv_revs [OF touches_le(1)] setop_inv_ConsD [OF touches_le(1)]
    by (auto simp: touches_def covers_def revs_push_left [OF touches_le(1)] valid_range_iff
        split: if_splits prod.splits) fastforce
next
  case (skip e es p ps out res)
  from not_touching_revs(1) [OF skip(1,3,4)] skip(5) show ?case by (auto split: prod.splits)
next
  case (disjoint e es p ps out res)
  note d = setop_inv_ConsD [OF disjoint(1)]
  from not_touching_revs(2) [OF disjoint(1,3,4)] disjoint(5) show ?case
    by (auto simp: revs_push_range [OF d(3,2)] split: prod.splits)
qed

lemma setop_run_intersect:
  "setop_inv es ps out \<Longrightarrow> (case setop_run False False es ps out of (ps', out') \<Rightarrow>
     revs out' = revs out \<union> (revs ps \<inter> revs es))"
proof (induction es ps out rule: setop_run_induct [where dr = False and ci = False and P = "\<lambda>es ps out res.
        case res of (ps', out') \<Rightarrow> revs out' = revs out \<union> (revs ps \<inter> revs es)"])
  case (base es ps out)
  then show ?case by auto
next
  case (covers e es p ps out res)
  then show ?case
    using setop_inv_revs [OF covers(1)]
    by (force simp: revs_push_meet [OF covers(1), of False] covers_def split: if_splits prod.splits)
next
  case (touches_gt e es p ps out res)
  then show ?case
    using setop_inv_revs [OF touches_gt(1)] setop_inv_ConsD [OF touches_gt(1)]
    by (auto simp: revs_push_meet [OF touches_gt(1), of False] valid_range_iff
        split: if_splits prod.splits) (fastforce simp: touches_def)
next
  case (touches_le e es p ps out res)
  then show ?case
    using setop_inv_revs [OF touches_le(1)] setop_inv_ConsD [OF touches_le(1)]
    by (auto simp: revs_push_meet [OF touches_le(1), of False] valid_range_iff
        split: if_splits prod.splits) (fastforce simp: touches_def)
next
  case (skip e es p ps out res)
  from not_touching_revs(1) [OF skip(1,3,4)] skip(5) show ?case by (auto split: prod.splits)
next
  case (disjoint e es p ps out res)
  note d = setop_inv_ConsD [OF disjoint(1)]
  from not_touching_revs(2) [OF disjoint(1,3,4)] disjoint(5) show ?case
    by (auto simp: revs_push_range [OF d(3,2)] split: prod.splits)
qed

section \<open>Set operations on rangelists\<close>

lemma setop_wf:
  assumes "wf_rangelist rl1" "wf_rangelist rl2"
  shows "wf_rangelist (setop dr ci rl1 rl2)"
proof -
  have "setop_inv rl1 rl2 []" using assms by (simp add: setop_inv_def)
  from setop_run_inv [OF this, of dr ci] show ?thesis
    by (auto simp: setop_def foldl_push_range setop_inv_def [of "[]" _ _] split: prod.splits)
       (metis foldl_push_range setop_inv_def wf_rangelist_simps(1))
qed

lemma revs_setop:
  assumes "wf_rangelist rl1" "wf_rangelist rl2"
  shows "revs (setop True False rl1 rl2) = revs rl2 - revs rl1"
    and "revs (setop False False rl1 rl2) = revs rl2 \<inter> revs rl1"
proof -
  have inv: "setop_inv rl1 rl2 []" using assms by (simp add: setop_inv_def)
  obtain ps out where run: "setop_run True False rl1 rl2 [] = (ps, out)" by force
  then have "setop_inv [] ps out" using setop_run_inv [OF inv, of True False] by simp
  then show "revs (setop True False rl1 rl2) = revs rl2 - revs rl1"
    using setop_run_remove [OF inv] run by (simp add: setop_def foldl_push_range)
  show "revs (setop False False rl1 rl2) = revs rl2 \<inter> revs rl1"
    using setop_run_intersect [OF inv] by (simp add: setop_def split: prod.splits)
qed

text \<open>
  When every range of both lists has the same inheritability, considering inheritance
  changes nothing.
\<close>

definition uniform :: "bool \<Rightarrow> svn_rangelist_t \<Rightarrow> bool" where
  "uniform b rl \<longleftrightarrow> (\<forall>r \<in> set rl. inheritable r = b)"

lemma uniform_simps [simp]:
  "uniform b []"
  "uniform b (r # rl) \<longleftrightarrow> inheritable r = b \<and> uniform b rl"
  "uniform b (rl @ rl') \<longleftrightarrow> uniform b rl \<and> uniform b rl'"
  by (auto simp: uniform_def)

lemma uniform_push_range:
  assumes "uniform b out" "inheritable n = b"
  shows "push_range True out n = push_range False out n" "uniform b (push_range ci out n)"
  using assms by (cases out rule: rev_cases; auto simp: push_range_def)+

lemma setop_run_uniform:
  "uniform b es \<Longrightarrow> uniform b ps \<Longrightarrow> uniform b out \<Longrightarrow>
   setop_run dr True es ps out = setop_run dr False es ps out
   \<and> uniform b (fst (setop_run dr False es ps out)) \<and> uniform b (snd (setop_run dr False es ps out))"
proof (induction dr "False" es ps out rule: setop_run.induct)
  case (3 dr e es p ps out)
  have m: "inheritable (meet_range e p) = b" using "3.prems" by (auto simp: meet_range_def)
  have ct: "covers True e p = covers False e p" "touches True e p = touches False e p"
    using "3.prems" by (auto simp: covers_def touches_def)
  note push = uniform_push_range [of b]
  note unfold = setop_run.simps(3) [of _ _ e es p ps out] ct Let_def
  have u: "uniform b (emit_touching dr False e p out)"
    "emit_touching dr True e p out = emit_touching dr False e p out"
    using "3.prems" m by (auto simp: push)
  consider "covers False e p" | "\<not> covers False e p" "touches False e p" "endr p > endr e"
    | "\<not> covers False e p" "touches False e p" "\<not> endr p > endr e"
    | "\<not> covers False e p" "\<not> touches False e p" "svn_sort_compare_ranges e p < 0"
    | "\<not> covers False e p" "\<not> touches False e p" "\<not> svn_sort_compare_ranges e p < 0"
    by blast
  then show ?case
  proof cases
    case 1
    define es' where "es' = (if start p = start e \<and> endr p = endr e then es else e # es)"
    have "uniform b es'" using "3.prems" by (simp add: es'_def)
    with 1 show ?thesis using "3.hyps"(1) [OF 1] "3.prems" m
      by (cases dr) (simp_all add: unfold push es'_def [symmetric])
  next
    case 2
    then show ?thesis using "3.hyps"(2) [OF 2(1,2) refl 2(3)] "3.prems" u
      by (simp add: unfold split del: if_split)
  next
    case 3
    then show ?thesis using "3.hyps"(3) [OF 3(1,2) refl 3(3)] "3.prems" u
      by (simp add: unfold split del: if_split)
  next
    case 4
    then show ?thesis using "3.hyps"(4) "3.prems" by (simp add: unfold)
  next
    case 5
    then show ?thesis using "3.hyps"(5) "3.prems" by (cases dr) (simp_all add: unfold push)
  qed
qed simp_all

lemma foldl_push_uniform:
  "uniform b out \<Longrightarrow> uniform b ps \<Longrightarrow>
   foldl (push_range True) out ps = foldl (push_range False) out ps
   \<and> uniform b (foldl (push_range False) out ps)"
  by (induction ps arbitrary: out) (simp_all add: uniform_push_range [of b])

lemma setop_uniform:
  assumes "uniform b rl1" "uniform b rl2"
  shows "setop dr True rl1 rl2 = setop dr False rl1 rl2 \<and> uniform b (setop dr False rl1 rl2)"
proof -
  obtain ps out where run: "setop_run dr False rl1 rl2 [] = (ps, out)" by force
  with setop_run_uniform [OF assms, of "[]" dr]
  have "setop_run dr True rl1 rl2 [] = (ps, out)" "uniform b ps" "uniform b out" by simp_all
  with run foldl_push_uniform [of b out ps] show ?thesis by (simp add: setop_def)
qed

section \<open>Considering inheritance\<close>

text \<open>The revisions covered by the ranges of one inheritability.\<close>

definition marked_revs :: "bool \<Rightarrow> svn_rangelist_t \<Rightarrow> svn_revnum_t set" where
  "marked_revs b rl = revs (filter (\<lambda>r. inheritable r = b) rl)"

lemma marked_revs_simps [simp]:
  "marked_revs b [] = {}"
  "marked_revs b (r # rl) = (if inheritable r = b then range_revs r else {}) \<union> marked_revs b rl"
  "marked_revs b (rl @ rl') = marked_revs b rl \<union> marked_revs b rl'"
  by (auto simp: marked_revs_def)

lemma marked_revs_True: "marked_revs True rl = inh_revs rl"
  by (simp add: marked_revs_def inh_revs_def)

lemma marked_push_range:
  assumes "wf_rangelist rl" "IS_VALID_FORWARD_RANGE n"
  shows "marked_revs b (push_range True rl n) =
    marked_revs b rl \<union> (if inheritable n = b then range_revs n else {})"
  using assms by (cases rl rule: rev_cases) (auto simp: push_range_def valid_range_iff)

lemma marked_foldl_push:
  "setop_inv es ps out \<Longrightarrow>
     marked_revs b (foldl (push_range True) out ps) = marked_revs b out \<union> marked_revs b ps"
proof (induction ps arbitrary: out)
  case (Cons p ps)
  have v: "wf_rangelist out" "IS_VALID_FORWARD_RANGE p"
    using Cons.prems by (auto simp: setop_inv_def)
  have "setop_inv es ps (push_range True out p)"
    using Cons.prems by (intro setop_inv_push [OF Cons.prems, where b = "endr p"])
      (auto simp: setop_inv_def)
  from Cons.IH [OF this] v show ?case by (auto simp: marked_push_range)
qed (simp add: setop_inv_def)

lemma setop_run_remove_marked:
  "setop_inv es ps out \<Longrightarrow> (case setop_run True True es ps out of (ps', out') \<Rightarrow>
     marked_revs b out \<union> (marked_revs b ps - marked_revs b es) \<subseteq> marked_revs b (out' @ ps')
     \<and> marked_revs b (out' @ ps') \<subseteq> marked_revs b out \<union> marked_revs b ps)"
proof (induction es ps out rule: setop_run_induct [where dr = True and ci = True and P = "\<lambda>es ps out res.
        case res of (ps', out') \<Rightarrow>
          marked_revs b out \<union> (marked_revs b ps - marked_revs b es) \<subseteq> marked_revs b (out' @ ps')
          \<and> marked_revs b (out' @ ps') \<subseteq> marked_revs b out \<union> marked_revs b ps"])
  case (covers e es p ps out res)
  then show ?case by (auto simp: covers_def split: if_splits prod.splits)
next
  case (touches_gt e es p ps out res)
  note d = setop_inv_ConsD [OF touches_gt(1)]
  have "start p < start e \<Longrightarrow> IS_VALID_FORWARD_RANGE (mk_range (start p) (start e) (inheritable p))"
    using d by (simp add: valid_range_iff)
  with touches_gt d show ?case
    by (auto simp: touches_def marked_push_range subset_iff not_le split: if_splits prod.splits)
next
  case (touches_le e es p ps out res)
  note d = setop_inv_ConsD [OF touches_le(1)]
  have "start p < start e \<Longrightarrow> IS_VALID_FORWARD_RANGE (mk_range (start p) (start e) (inheritable p))"
    using d by (simp add: valid_range_iff)
  with touches_le d show ?case
    by (auto simp: touches_def covers_def marked_push_range subset_iff split: if_splits prod.splits)
next
  case (disjoint e es p ps out res)
  note d = setop_inv_ConsD [OF disjoint(1)]
  with disjoint show ?case by (auto simp: marked_push_range split: if_splits prod.splits)
qed (auto split: prod.splits)

lemma setop_run_intersect_marked:
  "setop_inv es ps out \<Longrightarrow> (case setop_run False True es ps out of (ps', out') \<Rightarrow>
     marked_revs b out' \<subseteq> marked_revs b out \<union> (marked_revs b ps \<inter> marked_revs b es))"
proof (induction es ps out rule: setop_run_induct [where dr = False and ci = True and P = "\<lambda>es ps out res.
        case res of (ps', out') \<Rightarrow>
          marked_revs b out' \<subseteq> marked_revs b out \<union> (marked_revs b ps \<inter> marked_revs b es)"])
  case (covers e es p ps out res)
  note d = setop_inv_ConsD [OF covers(1)]
  have "IS_VALID_FORWARD_RANGE (meet_range e p)"
    using d(1,2) covers(2) by (blast intro: meet_range_valid)
  with covers d show ?case
    by (auto simp: covers_def marked_push_range subset_iff split: if_splits prod.splits)
next
  case (touches_gt e es p ps out res)
  note d = setop_inv_ConsD [OF touches_gt(1)]
  have "IS_VALID_FORWARD_RANGE (meet_range e p)"
    using d(1,2) touches_gt(3) by (blast intro: meet_range_valid)
  with touches_gt d show ?case
    by (auto simp: touches_def marked_push_range subset_iff split: if_splits prod.splits)
next
  case (touches_le e es p ps out res)
  note d = setop_inv_ConsD [OF touches_le(1)]
  have "IS_VALID_FORWARD_RANGE (meet_range e p)"
    using d(1,2) touches_le(3) by (blast intro: meet_range_valid)
  with touches_le d show ?case
    by (auto simp: touches_def marked_push_range subset_iff split: if_splits prod.splits)
qed (auto split: prod.splits)

lemma marked_setop:
  assumes "wf_rangelist rl1" "wf_rangelist rl2"
  shows "marked_revs b rl2 - marked_revs b rl1 \<subseteq> marked_revs b (setop True True rl1 rl2)"
    and "marked_revs b (setop True True rl1 rl2) \<subseteq> marked_revs b rl2"
    and "marked_revs b (setop False True rl1 rl2) \<subseteq> marked_revs b rl1 \<inter> marked_revs b rl2"
proof -
  have inv: "setop_inv rl1 rl2 []" using assms by (simp add: setop_inv_def)
  obtain ps out where run: "setop_run True True rl1 rl2 [] = (ps, out)" by force
  then have "setop_inv [] ps out" using setop_run_inv [OF inv, of True True] by simp
  from marked_foldl_push [OF this, of b] setop_run_remove_marked [OF inv, of b] run
  show "marked_revs b rl2 - marked_revs b rl1 \<subseteq> marked_revs b (setop True True rl1 rl2)"
    and "marked_revs b (setop True True rl1 rl2) \<subseteq> marked_revs b rl2"
    by (auto simp: setop_def)
  show "marked_revs b (setop False True rl1 rl2) \<subseteq> marked_revs b rl1 \<inter> marked_revs b rl2"
    using setop_run_intersect_marked [OF inv, of b] by (auto simp: setop_def split: prod.splits)
qed

section \<open>The contract the mergeinfo code relies on\<close>

text \<open>
  A representation of sets of revisions, or of sets of revisions of paths, with a removal
  operation that may fail outside its invariant. Everything the difference of two rangelists promises follows from it.
\<close>

locale revision_sets =
  fixes covered :: "'s \<Rightarrow> 'r set"
    and invar :: "'s \<Rightarrow> bool"
    and none :: "'s"
    and remove :: "'s \<Rightarrow> 's \<Rightarrow> 's svn_result"
  assumes invar_none: "invar none"
    and covered_empty: "invar s \<Longrightarrow> covered s = {} \<longleftrightarrow> s = none"
    and remove_ok: "invar e \<Longrightarrow> invar w \<Longrightarrow>
      \<exists>r. remove e w = Inr r \<and> invar r \<and> covered r = covered w - covered e"
begin

lemma diff_ok:
  assumes "invar a" "invar b"
  shows "\<exists>deleted added. remove b a = Inr deleted \<and> remove a b = Inr added
    \<and> invar deleted \<and> invar added
    \<and> covered deleted = covered a - covered b \<and> covered added = covered b - covered a"
  using remove_ok [OF assms] remove_ok [OF assms(2,1)] by blast

lemma diff_patch:
  assumes "invar a" "invar b" "remove b a = Inr deleted" "remove a b = Inr added"
  shows "covered b = (covered a - covered deleted) \<union> covered added"
    and "covered deleted \<inter> covered added = {}"
  using diff_ok [OF assms(1,2)] assms(3,4) by auto

lemma diff_empty_iff:
  assumes "invar a" "invar b" "remove b a = Inr deleted" "remove a b = Inr added"
  shows "deleted = none \<and> added = none \<longleftrightarrow> covered a = covered b"
  using diff_ok [OF assms(1,2)] assms(3,4) covered_empty by fastforce

lemma remove_twice:
  assumes "invar e" "invar w" "remove e w = Inr r" "remove e r = Inr r'"
  shows "covered r' = covered r"
  using remove_ok [OF assms(1,2)] remove_ok [of e r] assms by force

end

text \<open>Adding an intersection: the two results partition the whiteboard.\<close>

locale revision_partition = revision_sets +
  fixes intersect :: "'a \<Rightarrow> 'a \<Rightarrow> 'a svn_result"
  assumes intersect_ok: "invar e \<Longrightarrow> invar w \<Longrightarrow>
      \<exists>r. intersect e w = Inr r \<and> invar r \<and> covered r = covered w \<inter> covered e"
begin

lemma partition:
  assumes "invar e" "invar w" "remove e w = Inr r" "intersect e w = Inr i"
  shows "covered r \<union> covered i = covered w" "covered r \<inter> covered i = {}"
  using remove_ok [OF assms(1,2)] intersect_ok [OF assms(1,2)] assms(3,4) by auto

lemma intersect_commute:
  assumes "invar a" "invar b" "intersect a b = Inr i" "intersect b a = Inr i'"
  shows "covered i = covered i'"
  using intersect_ok [OF assms(1,2)] intersect_ok [OF assms(2,1)] assms(3,4) by auto

end

lemma wf_rangelist_empty: "wf_rangelist rl \<Longrightarrow> revs rl = {} \<longleftrightarrow> rl = []"
  by (cases rl) (auto simp: valid_range_iff range_revs_def)

interpretation rl: revision_partition revs wf_rangelist "[]"
    "\<lambda>e w. svn_rangelist_remove e w False" "\<lambda>a b. svn_rangelist_intersect a b False"
  by unfold_locales
     (auto simp: wf_rangelist_empty svn_rangelist_remove_def svn_rangelist_intersect_def
        intersect_or_remove_setop setop_wf revs_setop)

section \<open>Properties\<close>

text \<open>
  C9. Removing one rangelist from another, inheritance not considered: for every eraser
  and whiteboard that are rangelists, the code returns no error, the output is again a
  rangelist, and it covers exactly the revisions of the whiteboard that the eraser does
  not cover.
\<close>

theorem rangelist_remove_exact:
  assumes "wf_rangelist eraser" "wf_rangelist whiteboard"
  shows "\<exists>output. svn_rangelist_remove eraser whiteboard False = Inr output
    \<and> wf_rangelist output \<and> revs output = revs whiteboard - revs eraser"
  using rl.remove_ok [OF assms] .

theorem rangelist_remove_exact_witness:
  "wf_rangelist [mk_range 3 6 True] \<and> wf_rangelist [mk_range 0 4 True, mk_range 5 9 False]
   \<and> (\<exists>output. svn_rangelist_remove [mk_range 3 6 True] [mk_range 0 4 True, mk_range 5 9 False] False = Inr output
      \<and> wf_rangelist output \<and> revs output = revs [mk_range 0 4 True, mk_range 5 9 False] - revs [mk_range 3 6 True])"
proof -
  have "wf_rangelist [mk_range 3 6 True]" "wf_rangelist [mk_range 0 4 True, mk_range 5 9 False]"
    by (simp_all add: valid_range_iff)
  with rangelist_remove_exact [OF this] show ?thesis by blast
qed

text \<open>
  C10. Intersecting two rangelists, inheritance not considered: no error, the output is a
  rangelist, and it covers exactly the revisions both cover.
\<close>

theorem rangelist_intersect_exact:
  assumes "wf_rangelist rangelist1" "wf_rangelist rangelist2"
  shows "\<exists>output. svn_rangelist_intersect rangelist1 rangelist2 False = Inr output
    \<and> wf_rangelist output \<and> revs output = revs rangelist1 \<inter> revs rangelist2"
  using rl.intersect_ok [OF assms] by (simp add: Int_commute)

theorem rangelist_intersect_exact_witness:
  "wf_rangelist [mk_range 3 6 True] \<and> wf_rangelist [mk_range 0 4 True, mk_range 5 9 False]
   \<and> (\<exists>output. svn_rangelist_intersect [mk_range 3 6 True] [mk_range 0 4 True, mk_range 5 9 False] False = Inr output
      \<and> wf_rangelist output \<and> revs output = revs [mk_range 3 6 True] \<inter> revs [mk_range 0 4 True, mk_range 5 9 False])"
proof -
  have "wf_rangelist [mk_range 3 6 True]" "wf_rangelist [mk_range 0 4 True, mk_range 5 9 False]"
    by (simp_all add: valid_range_iff)
  with rangelist_intersect_exact [OF this] show ?thesis by blast
qed

text \<open>
  C39. Removal with inheritance considered never removes too much and never invents
  anything: for each inheritability, the output covers every revision the whiteboard
  covers and the eraser does not, and only revisions the whiteboard covers. The call
  returns no error and its output is a rangelist.
\<close>

theorem rangelist_remove_considering_inheritance:
  assumes "wf_rangelist eraser" "wf_rangelist whiteboard"
  shows "\<exists>output. svn_rangelist_remove eraser whiteboard True = Inr output
    \<and> wf_rangelist output
    \<and> marked_revs b whiteboard - marked_revs b eraser \<subseteq> marked_revs b output
    \<and> marked_revs b output \<subseteq> marked_revs b whiteboard"
  using marked_setop(1,2) [OF assms, of b] setop_wf [OF assms]
  by (simp add: svn_rangelist_remove_def intersect_or_remove_setop [OF assms])

theorem rangelist_remove_considering_inheritance_witness:
  "wf_rangelist [mk_range 3 6 True] \<and> wf_rangelist [mk_range 0 4 True, mk_range 5 9 False]
   \<and> (\<exists>output. svn_rangelist_remove [mk_range 3 6 True] [mk_range 0 4 True, mk_range 5 9 False] True = Inr output
    \<and> wf_rangelist output
    \<and> marked_revs True [mk_range 0 4 True, mk_range 5 9 False] - marked_revs True [mk_range 3 6 True]
        \<subseteq> marked_revs True output
    \<and> marked_revs True output \<subseteq> marked_revs True [mk_range 0 4 True, mk_range 5 9 False])"
proof -
  have "wf_rangelist [mk_range 3 6 True]" "wf_rangelist [mk_range 0 4 True, mk_range 5 9 False]"
    by (simp_all add: valid_range_iff)
  with rangelist_remove_considering_inheritance [OF this, of True] show ?thesis by blast
qed

text \<open>
  With inheritance considered, removal can leave revisions in place that the eraser
  covers with the same inheritability: erasing 1-10* from 6-7,8-9* returns the whiteboard
  unchanged, because the loop moves past the eraser's range when it meets a range of the
  other inheritability.
\<close>

theorem rangelist_remove_mixed_inheritance_incomplete:
  "wf_rangelist [mk_range 0 10 False] \<and> wf_rangelist [mk_range 5 7 True, mk_range 7 9 False]
   \<and> svn_rangelist_remove [mk_range 0 10 False] [mk_range 5 7 True, mk_range 7 9 False] True
       = Inr [mk_range 5 7 True, mk_range 7 9 False]
   \<and> 9 \<in> marked_revs False [mk_range 0 10 False]
   \<and> 9 \<in> marked_revs False [mk_range 5 7 True, mk_range 7 9 False]"
proof -
  have wf: "wf_rangelist [mk_range 0 10 False]" "wf_rangelist [mk_range 5 7 True, mk_range 7 9 False]"
    by (simp_all add: valid_range_iff)
  have "setop True True [mk_range 0 10 False] [mk_range 5 7 True, mk_range 7 9 False]
      = [mk_range 5 7 True, mk_range 7 9 False]"
    by (simp add: setop_def setop_run.simps covers_def touches_def svn_sort_compare_ranges_def
        push_range_def)
  with wf show ?thesis
    by (simp add: svn_rangelist_remove_def intersect_or_remove_setop)
qed

text \<open>
  When all ranges of both lists have the same inheritability, considering inheritance
  makes no difference to removal or intersection, and the output has that inheritability.
\<close>

theorem rangelist_setops_uniform:
  assumes "wf_rangelist rangelist1" "wf_rangelist rangelist2"
    and "\<forall>r \<in> set (rangelist1 @ rangelist2). inheritable r = b"
  shows "svn_rangelist_remove rangelist1 rangelist2 True = svn_rangelist_remove rangelist1 rangelist2 False
    \<and> svn_rangelist_intersect rangelist1 rangelist2 True = svn_rangelist_intersect rangelist1 rangelist2 False
    \<and> (\<forall>output. svn_rangelist_remove rangelist1 rangelist2 True = Inr output \<longrightarrow>
         (\<forall>r \<in> set output. inheritable r = b))"
proof -
  have "uniform b rangelist1" "uniform b rangelist2" using assms(3) by (auto simp: uniform_def)
  note u = setop_uniform [OF this]
  show ?thesis
    using u [of True] u [of False]
    by (auto simp: svn_rangelist_remove_def svn_rangelist_intersect_def uniform_def
        intersect_or_remove_setop [OF assms(1,2)])
qed

theorem rangelist_setops_uniform_witness:
  "wf_rangelist [mk_range 3 6 False] \<and> wf_rangelist [mk_range 0 4 False, mk_range 5 9 False]
   \<and> svn_rangelist_remove [mk_range 3 6 False] [mk_range 0 4 False, mk_range 5 9 False] True
     = svn_rangelist_remove [mk_range 3 6 False] [mk_range 0 4 False, mk_range 5 9 False] False"
proof -
  have "wf_rangelist [mk_range 3 6 False]" "wf_rangelist [mk_range 0 4 False, mk_range 5 9 False]"
    "\<forall>r \<in> set ([mk_range 3 6 False] @ [mk_range 0 4 False, mk_range 5 9 False]). inheritable r = False"
    by (simp_all add: valid_range_iff)
  with rangelist_setops_uniform [OF this] show ?thesis by blast
qed

text \<open>
  C11. The difference of two rangelists, inheritance not considered: it always exists for
  rangelists; taking the deleted part away from the first list and adding the added part
  gives the second; the two parts are disjoint; and both are empty exactly when the two
  lists cover the same revisions.
\<close>

theorem rangelist_diff_exact:
  assumes "wf_rangelist from" "wf_rangelist to"
  shows "\<exists>deleted added. svn_rangelist_diff from to False = Inr (deleted, added)
    \<and> wf_rangelist deleted \<and> wf_rangelist added
    \<and> revs to = (revs from - revs deleted) \<union> revs added
    \<and> revs deleted \<inter> revs added = {}
    \<and> (deleted = [] \<and> added = [] \<longleftrightarrow> revs from = revs to)"
proof -
  obtain deleted added where
    d: "svn_rangelist_remove to from False = Inr deleted" "svn_rangelist_remove from to False = Inr added"
      "wf_rangelist deleted" "wf_rangelist added"
    using rl.diff_ok [OF assms] by blast
  with rl.diff_patch [OF assms d(1,2)] rl.diff_empty_iff [OF assms d(1,2)] show ?thesis
    by (simp add: svn_rangelist_diff_def)
qed

theorem rangelist_diff_exact_witness:
  "\<exists>deleted added. svn_rangelist_diff [mk_range 3 6 True] [mk_range 0 4 True] False = Inr (deleted, added)
    \<and> wf_rangelist deleted \<and> wf_rangelist added
    \<and> revs [mk_range 0 4 True] = (revs [mk_range 3 6 True] - revs deleted) \<union> revs added
    \<and> revs deleted \<inter> revs added = {}
    \<and> (deleted = [] \<and> added = [] \<longleftrightarrow> revs [mk_range 3 6 True] = revs [mk_range 0 4 True])"
  by (rule rangelist_diff_exact) (simp_all add: valid_range_iff)

end
