(* ===== verification/Rangelist_Merge.thy ===== *)
theory Rangelist_Merge
  imports Rangelist_Setops
begin

text \<open>
  Merging a rangelist of changes into a rangelist in place (libsvn\_subr/mergeinfo.c,
  \<open>svn_rangelist_merge2\<close> and \<open>adjust_remaining_ranges\<close>). The code walks two arrays of
  pointers with the indices \<open>i\<close> and \<open>j\<close>, overwriting fields of the current elements and
  inserting and deleting elements; the model keeps both arrays and both indices, and one
  definition per branch of the comparison of the two current ranges.
\<close>

section \<open>Restoring the order after a range has grown\<close>

text \<open>
  \<open>adjust_remaining_ranges\<close> looks at the ranges after the one at \<open>range_index\<close>, whose end
  has been moved. \<open>adjust_loop\<close> is its \<open>for\<close> loop: \<open>m\<close> is the index of the modified range,
  \<open>i\<close> the index of the next range, and the result is the array, the new \<open>range_index\<close> and
  the number of elements to delete after the modified range.
\<close>

function (sequential)
  adjust_remaining_ranges :: "svn_rangelist_t \<Rightarrow> nat \<Rightarrow> (svn_rangelist_t \<times> nat) svn_result"
  and adjust_loop ::
    "svn_rangelist_t \<Rightarrow> nat \<Rightarrow> nat \<Rightarrow> nat \<Rightarrow> (svn_rangelist_t \<times> nat \<times> nat) svn_result"
  where
  "adjust_remaining_ranges rangelist range_index =
     (if range_index \<ge> length rangelist then Inr (rangelist, range_index)
      else
        let starting_index = range_index + 1 in
        SVN_ERR (adjust_loop rangelist range_index (range_index + 1) 0)
          (\<lambda>(rl, ri, elements_to_delete).
             Inr (if elements_to_delete \<noteq> 0
                  then svn_sort__array_delete rl (int starting_index) (int elements_to_delete)
                  else rl, ri)))"
| "adjust_loop rl m i elements_to_delete =
     (if i < length rl then
        SVN_ERR (APR_ARRAY_IDX rl m) (\<lambda>modified_range.
        SVN_ERR (APR_ARRAY_IDX rl i) (\<lambda>next_range.
        if endr modified_range < start next_range then Inr (rl, m, elements_to_delete)
        else if endr modified_range = start next_range then
          if inheritable modified_range = inheritable next_range
          then Inr (rl[m := modified_range\<lparr>endr := endr next_range\<rparr>], m, elements_to_delete + 1)
          else Inr (rl, m + 1, elements_to_delete)
        else if endr modified_range > endr next_range then
          if inheritable modified_range \<or> inheritable modified_range = inheritable next_range
          then adjust_loop rl m (i + 1) (elements_to_delete + 1)
          else
            SVN_ERR (svn_sort__array_insert
                       \<lparr>start = endr next_range, endr = endr modified_range, inheritable = False\<rparr>
                       (rl[m := modified_range\<lparr>endr := start next_range\<rparr>]) (int (m + 2))) (\<lambda>rl1.
            SVN_ERR (adjust_remaining_ranges rl1 (m + 2)) (\<lambda>(rl2, ri).
            Inr (rl2, ri, elements_to_delete)))
        else if endr modified_range = endr next_range then
          if inheritable modified_range \<or> inheritable modified_range = inheritable next_range
          then Inr (rl, m, elements_to_delete + 1)
          else Inr (rl[m := modified_range\<lparr>endr := start next_range\<rparr>], m + 1, elements_to_delete)
        else
          if inheritable modified_range = inheritable next_range
          then Inr (rl[m := modified_range\<lparr>endr := endr next_range\<rparr>], m, elements_to_delete + 1)
          else if inheritable modified_range
          then Inr (rl[i := next_range\<lparr>start := endr modified_range\<rparr>], m + 1, elements_to_delete)
          else Inr (rl[m := modified_range\<lparr>endr := start next_range\<rparr>], m + 1, elements_to_delete)))
      else Inr (rl, m, elements_to_delete))"
  by pat_completeness auto
termination
  by (relation "measures [
        case_sum (\<lambda>(rl, ri). if ri \<ge> length rl then 0 else 2 * (length rl - ri) + 2)
                 (\<lambda>(rl, m, i, etd). 2 * (length rl - m) + 1),
        case_sum (\<lambda>_. 0) (\<lambda>(rl, m, i, etd). length rl - i)]")
     (auto dest!: array_insert_length)

declare adjust_remaining_ranges.simps [simp del] adjust_loop.simps [simp del]

section \<open>The merge loop\<close>

text \<open>The loop state: the rangelist with index \<open>i\<close>, and the copy of the changes with index \<open>j\<close>.\<close>

type_synonym merge_state = "svn_rangelist_t \<times> nat \<times> svn_rangelist_t \<times> nat"

text \<open>
  The branches of the comparison; \<open>rng\<close> and \<open>change\<close> are the two elements that the loop
  has read (\<open>merge_step\<close> below). The branch \<open>res < 0\<close>: the change is younger than the range.
\<close>

definition merge_younger ::
  "svn_rangelist_t \<Rightarrow> nat \<Rightarrow> svn_rangelist_t \<Rightarrow> nat \<Rightarrow> merge_state svn_result" where
  "merge_younger rangelist i changes j =
     (let rng = rangelist ! i; change = changes ! j in
      if endr rng < start change then Inr (rangelist, i + 1, changes, j)
      else if endr rng = start change then
        if inheritable rng = inheritable change then
          SVN_ERR (adjust_remaining_ranges (rangelist[i := rng\<lparr>endr := endr change\<rparr>]) i)
            (\<lambda>(rl, i'). Inr (rl, i', changes, j + 1))
        else Inr (rangelist, i + 1, changes, j)
      else if inheritable rng = inheritable change \<or> inheritable rng then
        if endr rng \<ge> endr change then Inr (rangelist, i, changes, j + 1)
        else Inr (rangelist, i, changes[j := change\<lparr>start := endr rng\<rparr>], j)
      else if start rng < start change then
        SVN_ERR (svn_sort__array_insert (rng\<lparr>endr := start change\<rparr>)
                   (rangelist[i := rng\<lparr>start := start change\<rparr>]) (int i))
          (\<lambda>rl. Inr (rl, i + 1, changes, j))
      else
        Inr (rangelist[i := rng\<lparr>inheritable := True\<rparr>], i,
             changes[j := change\<lparr>start := endr rng\<rparr>], j))"

text \<open>The overlapping case of the branch \<open>res > 0\<close> with a non-inheritable range.\<close>

definition merge_older_absorbing ::
  "svn_rangelist_t \<Rightarrow> nat \<Rightarrow> svn_rangelist_t \<Rightarrow> nat \<Rightarrow> merge_state svn_result" where
  "merge_older_absorbing rangelist i changes j =
     (let rng = rangelist ! i; change = changes ! j in
      if start change < start rng then
        if endr change = endr rng then
          Inr (rangelist[i := rng\<lparr>start := start change, inheritable := True\<rparr>], i, changes, j + 1)
        else if endr change > endr rng then
          Inr (rangelist[i := rng\<lparr>start := start change, inheritable := True\<rparr>], i,
               changes[j := change\<lparr>start := endr rng\<rparr>], j)
        else
          SVN_ERR (svn_sort__array_insert (rng\<lparr>start := endr change\<rparr>)
                     (rangelist[i := rng\<lparr>start := start change, endr := endr change,
                                         inheritable := True\<rparr>]) (int (i + 1)))
            (\<lambda>rl. Inr (rl, i + 1, changes, j + 1))
      else
        SVN_ERR (svn_sort__array_insert (rng\<lparr>endr := endr change, inheritable := True\<rparr>)
                   (rangelist[i := rng\<lparr>start := endr change\<rparr>]) (int i))
          (\<lambda>rl. Inr (rl, i + 1, changes, j + 1)))"

text \<open>The branch \<open>res > 0\<close>: the change is older than the range.\<close>

definition merge_older ::
  "svn_rangelist_t \<Rightarrow> nat \<Rightarrow> svn_rangelist_t \<Rightarrow> nat \<Rightarrow> merge_state svn_result" where
  "merge_older rangelist i changes j =
     (let rng = rangelist ! i; change = changes ! j in
      if endr change < start rng then
        SVN_ERR (svn_sort__array_insert (svn_merge_range_dup change) rangelist (int i))
          (\<lambda>rl. Inr (rl, i + 1, changes, j + 1))
      else if endr change = start rng then
        if inheritable rng = inheritable change then
          Inr (rangelist[i := rng\<lparr>start := start change\<rparr>], i, changes, j + 1)
        else
          SVN_ERR (svn_sort__array_insert (svn_merge_range_dup change) rangelist (int i))
            (\<lambda>rl. Inr (rl, i, changes, j + 1))
      else if inheritable rng = inheritable change then
        if endr rng < endr change then
          SVN_ERR (adjust_remaining_ranges
                     (rangelist[i := rng\<lparr>start := start change, endr := endr change\<rparr>]) i)
            (\<lambda>(rl, i'). Inr (rl, i', changes, j + 1))
        else Inr (rangelist[i := rng\<lparr>start := start change\<rparr>], i, changes, j + 1)
      else if inheritable rng then
        if start change < start rng then
          SVN_ERR (svn_sort__array_insert (change\<lparr>endr := start rng\<rparr>) rangelist (int i))
            (\<lambda>rl. Inr (rl, i + 1, changes[j := change\<lparr>start := start rng\<rparr>], j))
        else Inr (rangelist, i, changes, j + 1)
      else merge_older_absorbing rangelist i changes j)"

definition merge_step ::
  "svn_rangelist_t \<Rightarrow> nat \<Rightarrow> svn_rangelist_t \<Rightarrow> nat \<Rightarrow> merge_state svn_result" where
  "merge_step rangelist i changes j =
     SVN_ERR (APR_ARRAY_IDX rangelist i) (\<lambda>rng.
     SVN_ERR (APR_ARRAY_IDX changes j) (\<lambda>change.
      let res = svn_sort_compare_ranges rng change in
      if res = 0 then
        Inr (if inheritable rng \<or> inheritable change
             then rangelist[i := rng\<lparr>inheritable := True\<rparr>] else rangelist, i + 1, changes, j + 1)
      else if res < 0 then merge_younger rangelist i changes j
      else merge_older rangelist i changes j))"

text \<open>
  Why the loop ends: a step moves on in the changes, or in the rangelist (inserting a
  range before index \<open>i\<close> moves both bounds), or turns the current range inheritable, or
  shortens the current change, or shortens the current range.
\<close>

definition merge_flag :: "svn_rangelist_t \<Rightarrow> nat \<Rightarrow> svn_rangelist_t \<Rightarrow> nat \<Rightarrow> nat" where
  "merge_flag rl i ch j = (if \<not> inheritable (rl ! i) \<and> inheritable (ch ! j) then 1 else 0)"

definition range_size :: "svn_merge_range_t \<Rightarrow> nat" where
  "range_size r = nat (endr r - start r)"

definition merge_order :: "(merge_state \<times> merge_state) set" where
  "merge_order = measures [
     \<lambda>(rl, i, ch, j). length ch - j,
     \<lambda>(rl, i, ch, j). length rl - i,
     \<lambda>(rl, i, ch, j). merge_flag rl i ch j,
     \<lambda>(rl, i, ch, j). range_size (ch ! j),
     \<lambda>(rl, i, ch, j). range_size (rl ! i)]"

lemma wf_merge_order: "wf merge_order"
  by (simp add: merge_order_def)

lemmas merge_order_defs = merge_order_def merge_flag_def range_size_def

lemma nth_insert_Suc [simp]:
  "i < length xs \<Longrightarrow> i < length ys \<Longrightarrow> (take i xs @ x # drop i ys) ! Suc i = ys ! i"
  by (simp add: nth_append)

lemma array_insert_int [simp]:
  "i < length xs \<Longrightarrow> svn_sort__array_insert x xs (1 + int i) = Inr (take (Suc i) xs @ x # drop (Suc i) xs)"
  using array_insert_nat [of "Suc i" xs x] by simp

lemma merge_younger_decreases:
  assumes "merge_younger rl i ch j = Inr st" "i < length rl" "j < length ch"
  shows "(st, (rl, i, ch, j)) \<in> merge_order"
  using assms
  by (auto simp: merge_younger_def merge_order_defs Let_def SVN_ERR_iffs split: if_splits)

lemma merge_older_absorbing_decreases:
  assumes "merge_older_absorbing rl i ch j = Inr st" "i < length rl" "j < length ch"
    and "\<not> inheritable (rl ! i)" "inheritable (ch ! j)"
  shows "(st, (rl, i, ch, j)) \<in> merge_order"
  using assms
  by (auto simp: merge_older_absorbing_def merge_order_defs Let_def SVN_ERR_iffs split: if_splits)

lemma merge_older_decreases:
  assumes "merge_older rl i ch j = Inr st" "i < length rl" "j < length ch"
  shows "(st, (rl, i, ch, j)) \<in> merge_order"
proof (cases "start (rl ! i) < endr (ch ! j) \<and> \<not> inheritable (rl ! i) \<and> inheritable (ch ! j)")
  case True
  with assms show ?thesis
    by (intro merge_older_absorbing_decreases) (simp_all add: merge_older_def Let_def)
next
  case False
  with assms show ?thesis
    by (auto simp: merge_older_def merge_order_defs Let_def SVN_ERR_iffs split: if_splits)
qed

lemma merge_step_decreases:
  assumes "merge_step rl i ch j = Inr st" "i < length rl" "j < length ch"
  shows "(st, (rl, i, ch, j)) \<in> merge_order"
proof (cases "svn_sort_compare_ranges (rl ! i) (ch ! j) = 0")
  case True
  with assms show ?thesis by (auto simp: merge_step_def Let_def merge_order_def)
next
  case False
  then have "merge_younger rl i ch j = Inr st \<or> merge_older rl i ch j = Inr st"
    using assms by (simp add: merge_step_def Let_def split: if_splits)
  then show ?thesis
    using assms(2,3) by (blast intro: merge_younger_decreases merge_older_decreases)
qed

function merge_loop ::
  "svn_rangelist_t \<Rightarrow> nat \<Rightarrow> svn_rangelist_t \<Rightarrow> nat \<Rightarrow> merge_state svn_result" where
  "merge_loop rangelist i changes j =
     (if i < length rangelist \<and> j < length changes then
        SVN_ERR (merge_step rangelist i changes j) (\<lambda>(rl, i', ch, j'). merge_loop rl i' ch j')
      else Inr (rangelist, i, changes, j))"
  by pat_completeness auto
termination
  by (relation merge_order) (auto intro: wf_merge_order merge_step_decreases)

declare merge_loop.simps [simp del]

text \<open>The final loop inserts copies of the remaining changes at the end of the array.\<close>

fun copy_remaining :: "svn_rangelist_t \<Rightarrow> svn_rangelist_t \<Rightarrow> svn_rangelist_t svn_result" where
  "copy_remaining rangelist [] = Inr rangelist"
| "copy_remaining rangelist (change # rest) =
     SVN_ERR (svn_sort__array_insert (svn_merge_range_dup change) rangelist (int (length rangelist)))
       (\<lambda>rl. copy_remaining rl rest)"

definition svn_rangelist_merge2 :: "svn_rangelist_t \<Rightarrow> svn_rangelist_t \<Rightarrow> svn_rangelist_t svn_result" where
  "svn_rangelist_merge2 rangelist changes =
     SVN_ERR (merge_loop rangelist 0 (svn_rangelist_dup changes) 0)
       (\<lambda>(rl, i, ch, j). copy_remaining rl (drop j ch))"

section \<open>What the adjustment does\<close>

text \<open>
  The effect of \<open>adjust_remaining_ranges\<close> as a recursion over the ranges after the
  modified one, for a modified range that is inheritable or followed by ranges that agree
  in inheritability. The second component is how far \<open>range_index\<close> moves.
\<close>

fun absorb :: "svn_merge_range_t \<Rightarrow> svn_rangelist_t \<Rightarrow> svn_rangelist_t \<times> nat" where
  "absorb m [] = ([m], 0)"
| "absorb m (n # ns) =
     (if endr m < start n then (m # n # ns, 0)
      else if endr m = start n then
        (if inheritable m = inheritable n then (m\<lparr>endr := endr n\<rparr> # ns, 0) else (m # n # ns, 1))
      else if endr m > endr n then
        (if inheritable m \<or> \<not> inheritable n then absorb m ns
         else (case absorb (mk_range (endr n) (endr m) False) ns of
                 (L, k) \<Rightarrow> (m\<lparr>endr := start n\<rparr> # n # L, k + 2)))
      else if endr m = endr n then
        (if inheritable m \<or> \<not> inheritable n then (m # ns, 0)
         else (m\<lparr>endr := start n\<rparr> # n # ns, 1))
      else if inheritable m = inheritable n then (m\<lparr>endr := endr n\<rparr> # ns, 0)
      else if inheritable m then (m # n\<lparr>start := endr m\<rparr> # ns, 1)
      else (m\<lparr>endr := start n\<rparr> # n # ns, 1))"

definition adjust_finish ::
  "nat \<Rightarrow> (svn_rangelist_t \<times> nat \<times> nat) svn_result \<Rightarrow> (svn_rangelist_t \<times> nat) svn_result" where
  "adjust_finish m res = SVN_ERR res (\<lambda>(rl, ri, etd).
     Inr (if etd \<noteq> 0 then svn_sort__array_delete rl (int (m + 1)) (int etd) else rl, ri))"

lemma array_delete_middle:
  "svn_sort__array_delete (pre @ m # del @ ns) (int (length pre + 1)) (int (length del)) = pre @ m # ns"
  using array_delete_nat [of "length pre + 1" "length del" "pre @ m # del @ ns"] by simp

lemma array_delete_middle_Suc:
  "svn_sort__array_delete (pre @ m # del @ n # ns) (int (length pre + 1)) (int (length del + 1))
   = pre @ m # ns"
  using array_delete_middle [of pre m "del @ [n]" ns] by simp

lemma adjust_finish_simp [simp]:
  "adjust_finish (length pre) (Inr (pre @ m # del @ ns, ri, length del)) = Inr (pre @ m # ns, ri)"
  "adjust_finish (length pre) (Inr (pre @ m # del @ n # ns, ri, length del + 1)) = Inr (pre @ m # ns, ri)"
  using array_delete_middle [of pre m del ns] array_delete_middle_Suc [of pre m del n ns]
  by (auto simp: adjust_finish_def)

lemma adjust_remaining_ranges_finish:
  "adjust_remaining_ranges (pre @ m # ns) (length pre)
   = adjust_finish (length pre) (adjust_loop (pre @ m # ns) (length pre) (length pre + 1) 0)"
  unfolding adjust_remaining_ranges.simps [of "pre @ m # ns"] adjust_finish_def Let_def by simp

lemma adjust_loop_absorb:
  assumes "inheritable m \<or> uniform b ns" "del = [] \<or> inheritable m \<or> \<not> b"
  shows "adjust_finish (length pre)
     (adjust_loop (pre @ m # del @ ns) (length pre) (length pre + 1 + length del) (length del))
   = Inr (pre @ fst (absorb m ns), length pre + snd (absorb m ns))"
  using assms
proof (induction ns arbitrary: pre m del)
  case Nil
  show ?case
    using adjust_finish_simp(1) [of pre m del "[]"]
    by (subst adjust_loop.simps) (simp del: adjust_finish_simp)
next
  case (Cons n ns)
  let ?rl = "pre @ m # del @ n # ns"
  have nth: "APR_ARRAY_IDX ?rl (length pre) = Inr m" "APR_ARRAY_IDX ?rl (length pre + 1 + length del) = Inr n"
    by (simp_all add: nth_append)
  have upd: "?rl[length pre := x] = pre @ x # del @ n # ns"
    "?rl[length pre + 1 + length del := x] = pre @ m # del @ x # ns" for x
    by (simp_all add: list_update_append)
  show ?case
  proof (cases "endr m > start n \<and> endr m > endr n")
    case False
    then show ?thesis
      unfolding adjust_loop.simps [of ?rl "length pre" "length pre + 1 + length del" "length del"]
      using Cons.prems by (simp only: SVN_ERR_simps nth upd) (auto simp del: One_nat_def add_Suc_right)
  next
    case far: True
    show ?thesis
    proof (cases "inheritable m \<or> \<not> inheritable n")
      case True
      have "adjust_finish (length pre)
          (adjust_loop ?rl (length pre) (length pre + 1 + length del + 1) (length del + 1))
        = Inr (pre @ fst (absorb m ns), length pre + snd (absorb m ns))"
        using Cons.IH [of m "del @ [n]" pre] Cons.prems True by (auto simp: add.assoc)
      then show ?thesis
        unfolding adjust_loop.simps [of ?rl "length pre" "length pre + 1 + length del" "length del"]
        using far True by (simp only: SVN_ERR_simps nth upd) (auto simp del: One_nat_def add_Suc_right)
    next
      case False
      then have d: "del = []" and b: "uniform b ns" using Cons.prems by auto
      let ?x = "mk_range (endr n) (endr m) False" and ?p = "pre @ [m\<lparr>endr := start n\<rparr>, n]"
      have ins: "svn_sort__array_insert ?x (pre @ m\<lparr>endr := start n\<rparr> # n # ns) (int (length pre + 2))
          = Inr (?p @ ?x # ns)"
        using array_insert_nat [of "length pre + 2" "?p @ ns" ?x] by simp
      have "adjust_remaining_ranges (?p @ ?x # ns) (length pre + 2)
          = Inr (?p @ fst (absorb ?x ns), length pre + 2 + snd (absorb ?x ns))"
        using Cons.IH [of ?x "[]" ?p] b adjust_remaining_ranges_finish [of ?p ?x ns] by simp
      then have "adjust_loop (pre @ m # n # ns) (length pre) (length pre + 1) 0
          = Inr (?p @ fst (absorb ?x ns), length pre + 2 + snd (absorb ?x ns), 0)"
        using far False ins by (subst adjust_loop.simps) (simp add: nth_append)
      with far False show ?thesis
        by (simp add: d adjust_finish_def split: prod.split)
    qed
  qed
qed

lemma adjust_remaining_ranges_absorb:
  "inheritable m \<or> uniform b ns \<Longrightarrow>
   adjust_remaining_ranges (pre @ m # ns) (length pre)
   = Inr (pre @ fst (absorb m ns), length pre + snd (absorb m ns))"
  using adjust_loop_absorb [of m b ns "[]" pre] by (simp add: adjust_remaining_ranges_finish)

text \<open>
  The result is a rangelist that starts where the modified range starts and covers what
  that range and the ranges after it covered together; what the index has moved past ends
  no later than the modified range; and if the ranges after the modified one agree in
  inheritability, so do those after the index.
\<close>

definition absorb_post :: "svn_merge_range_t \<Rightarrow> svn_rangelist_t \<Rightarrow> svn_rangelist_t \<Rightarrow> nat \<Rightarrow> bool" where
  "absorb_post m ns L k \<longleftrightarrow> wf_rangelist L \<and> k < length L \<and> start (hd L) = start m
     \<and> revs L = range_revs m \<union> revs ns \<and> inh_revs L = inh_revs (m # ns)
     \<and> ends_before (take k L) (endr m)
     \<and> (\<forall>b. uniform b ns \<longrightarrow> uniform b (drop (Suc k) L)
              \<and> (inheritable (L ! k) \<noteq> b \<longrightarrow> endr (L ! k) = endr m))"

lemma absorb_correct:
  assumes "IS_VALID_FORWARD_RANGE m" "wf_rangelist ns" "\<forall>n \<in> set ns. start m < start n"
    and "inheritable m \<or> uniform False ns"
  shows "absorb_post m ns (fst (absorb m ns)) (snd (absorb m ns))"
  using assms
proof (induction m ns rule: absorb.induct)
  case (1 m)
  then show ?case by (simp add: absorb_post_def)
next
  case (2 m n ns)
  show ?case
  proof (cases "start n < endr m \<and> endr n < endr m")
    case True
    then have "absorb_post m ns (fst (absorb m ns)) (snd (absorb m ns))"
      using 2 by auto
    with True 2(3-) show ?thesis
      by (auto simp: absorb_post_def valid_range_iff split: if_splits)
  next
    case False
    with 2(3-) show ?thesis
      by (auto simp: absorb_post_def valid_range_iff split: if_splits)
  qed
qed

section \<open>The loop invariant\<close>

text \<open>
  \<open>pre\<close> is the part of the rangelist before index \<open>i\<close>, \<open>rs\<close> the part from \<open>i\<close> on, \<open>cs\<close> the
  changes from \<open>j\<close> on. Nothing before \<open>i\<close> ends after the start of a pending change. The last
  conjunct bounds the mixtures of inheritability: either every pending change is
  inheritable, or no range after the current one is, and the current one only if the
  pending changes start after it.
\<close>

definition mix_ok :: "svn_rangelist_t \<Rightarrow> svn_rangelist_t \<Rightarrow> bool" where
  "mix_ok rs cs \<longleftrightarrow> (\<forall>c \<in> set cs. inheritable c) \<or>
     (\<forall>r \<in> set (tl rs). \<not> inheritable r)
     \<and> (rs \<noteq> [] \<longrightarrow> inheritable (hd rs) \<longrightarrow> (\<forall>c \<in> set cs. endr (hd rs) \<le> start c))"

definition merge_inv :: "svn_rangelist_t \<Rightarrow> svn_rangelist_t \<Rightarrow> svn_rangelist_t \<Rightarrow> bool" where
  "merge_inv pre rs cs \<longleftrightarrow> wf_rangelist (pre @ rs) \<and> wf_rangelist cs
     \<and> (\<forall>c \<in> set cs. ends_before pre (start c)) \<and> mix_ok rs cs"

definition merge_ok ::
  "svn_rangelist_t \<Rightarrow> svn_rangelist_t \<Rightarrow> merge_state \<Rightarrow> bool" where
  "merge_ok rl cs st \<longleftrightarrow> (\<exists>pre' rs' gone cs'.
     st = (pre' @ rs', length pre', gone @ cs', length gone) \<and> merge_inv pre' rs' cs'
     \<and> revs (pre' @ rs') \<union> revs cs' = revs rl \<union> revs cs
     \<and> inh_revs (pre' @ rs') \<union> inh_revs cs' = inh_revs rl \<union> inh_revs cs)"

lemma merge_okI:
  assumes "rl' = pre' @ rs'" "i' = length pre'" "ch' = gone @ cs'" "j' = length gone"
    and "merge_inv pre' rs' cs'"
    and "revs (pre' @ rs') \<union> revs cs' = revs rl \<union> revs cs"
    and "inh_revs (pre' @ rs') \<union> inh_revs cs' = inh_revs rl \<union> inh_revs cs"
  shows "merge_ok rl cs (rl', i', ch', j')"
  using assms unfolding merge_ok_def by blast

lemma merge_inv_ConsD:
  assumes "merge_inv pre (r # post) (c # cs)"
  shows "wf_rangelist pre" "0 \<le> start r" "start r < endr r" "wf_rangelist post"
    "ends_before pre (start r)" "\<forall>p \<in> set post. ends_before pre (start p)"
    "\<forall>p \<in> set post. endr r \<le> start p"
    "0 \<le> start c" "start c < endr c" "wf_rangelist cs" "\<forall>d \<in> set cs. endr c \<le> start d"
    "ends_before pre (start c)" "\<forall>d \<in> set cs. ends_before pre (start d)"
  using assms by (auto simp: merge_inv_def valid_range_iff ends_before_def)

lemma merge_inv_iff:
  "merge_inv pre (r # post) cs \<longleftrightarrow> wf_rangelist pre \<and> 0 \<le> start r \<and> start r < endr r
     \<and> wf_rangelist post \<and> ends_before pre (start r) \<and> (\<forall>p \<in> set post. ends_before pre (start p))
     \<and> (\<forall>p \<in> set post. endr r \<le> start p) \<and> wf_rangelist cs
     \<and> (\<forall>d \<in> set cs. ends_before pre (start d)) \<and> mix_ok (r # post) cs"
  by (auto simp: merge_inv_def valid_range_iff ends_before_def)

lemma mix_ok_simps:
  "mix_ok [] cs"
  "mix_ok (r # post) cs \<longleftrightarrow> (\<forall>c \<in> set cs. inheritable c) \<or>
     (\<forall>p \<in> set post. \<not> inheritable p) \<and> (inheritable r \<longrightarrow> (\<forall>c \<in> set cs. endr r \<le> start c))"
  by (auto simp: mix_ok_def)

text \<open>Moving the index past the current range.\<close>

lemma merge_inv_advance:
  assumes "merge_inv pre (r # post) cs" "\<forall>c \<in> set cs. endr r \<le> start c"
  shows "merge_inv (pre @ [r]) post cs"
proof -
  have "mix_ok post cs" using assms by (cases post) (auto simp: merge_inv_def mix_ok_simps)
  with assms show ?thesis by (auto simp: merge_inv_def ends_before_def)
qed

text \<open>Dropping the current change, and shortening it from the left.\<close>

lemma merge_inv_drop: "merge_inv pre rs (c # cs) \<Longrightarrow> merge_inv pre rs cs"
  by (auto simp: merge_inv_def mix_ok_def)

lemma merge_inv_trim:
  assumes "merge_inv pre rs (c # cs)" "start c \<le> b" "b < endr c"
  shows "merge_inv pre rs (c\<lparr>start := b\<rparr> # cs)"
  using assms by (auto simp: merge_inv_def mix_ok_def valid_range_iff intro: ends_before_mono)

text \<open>The adjustment after the current range has grown to the end of the current change.\<close>

lemma adjust_merge_ok:
  assumes inv: "merge_inv pre (r # post) (c # cs)" and c: "start s \<le> start r" "ends_before pre (start s)"
    and s: "endr s = endr c" "inheritable s = inheritable r" "inheritable c = inheritable r"
      "endr r \<le> endr c" "0 \<le> start s" "start s < endr s"
    and mix: "inheritable r \<or> uniform False post"
    and cov: "range_revs s = range_revs r \<union> range_revs c"
  shows "\<exists>rl i. adjust_remaining_ranges (pre @ s # post) (length pre) = Inr (rl, i)
     \<and> merge_ok (pre @ r # post) (c # cs) (rl, i, gone @ c # cs, Suc (length gone))"
proof -
  note d = merge_inv_ConsD [OF inv]
  obtain L k where L: "absorb s post = (L, k)" by force
  have "absorb_post s post L k"
    using absorb_correct [of s post] d(3,4,7) c(1) s(2,5,6) mix by (fastforce simp: valid_range_iff L)
  then have a: "wf_rangelist L" "k < length L" "start (hd L) = start s"
      "revs L = range_revs s \<union> revs post" "inh_revs L = inh_revs (s # post)"
      "ends_before (take k L) (endr s)"
    and k: "\<And>b. uniform b post \<Longrightarrow>
      uniform b (drop (Suc k) L) \<and> (inheritable (L ! k) \<noteq> b \<longrightarrow> endr (L ! k) = endr s)"
    unfolding absorb_post_def by blast+
  have split: "L = take k L @ L ! k # drop (Suc k) L" using a(2) by (rule id_take_nth_drop)
  have "ends_before pre (start n)" if "n \<in> set L" for n
    using that a(1,3) c(2) by (cases L) (force simp: valid_range_iff ends_before_def)+
  then have wf: "wf_rangelist (pre @ L)" using a(1) d(1) by (force simp: ends_before_def)
  have "mix_ok (L ! k # drop (Suc k) L) cs"
    using inv k [of False] s(1) d(11) by (auto simp: merge_inv_def mix_ok_simps uniform_def)
  then have "merge_inv (pre @ take k L) (L ! k # drop (Suc k) L) cs"
    unfolding merge_inv_def append.assoc split [symmetric]
    using wf a(6) d(10,11,13) s(1) by (auto intro: ends_before_mono)
  moreover have "revs (pre @ L) \<union> revs cs = revs (pre @ r # post) \<union> revs (c # cs)"
    "inh_revs (pre @ L) \<union> inh_revs cs = inh_revs (pre @ r # post) \<union> inh_revs (c # cs)"
    using a(4,5) cov s(2,3) by auto
  ultimately have "merge_ok (pre @ r # post) (c # cs) (pre @ L, length pre + k, gone @ c # cs, Suc (length gone))"
    using a(2)
    by (intro merge_okI [of _ "pre @ take k L" "L ! k # drop (Suc k) L" _ _ "gone @ [c]" cs])
       (simp_all only: append.assoc split [symmetric], simp_all)
  then show ?thesis
    using adjust_remaining_ranges_absorb [of s False post pre] mix s(2) L by auto
qed

section \<open>Every step keeps the invariant\<close>

lemma merge_younger_ok:
  assumes inv: "merge_inv pre (r # post) (c # cs)" and le: "start r \<le> start c"
    and lt: "start r = start c \<Longrightarrow> endr r < endr c"
  shows "\<exists>st. merge_younger (pre @ r # post) (length pre) (gone @ c # cs) (length gone) = Inr st
    \<and> merge_ok (pre @ r # post) (c # cs) st"
proof -
  note d = merge_inv_ConsD [OF inv]
  note step = merge_younger_def
  consider (advance) "endr r < start c \<or> endr r = start c \<and> inheritable r \<noteq> inheritable c"
    | (adjoin) "endr r = start c" "inheritable r = inheritable c"
    | (drop) "start c < endr r" "inheritable r \<or> inheritable r = inheritable c" "endr c \<le> endr r"
    | (trim) "start c < endr r" "inheritable r \<or> inheritable r = inheritable c" "endr r < endr c"
    | (split) "start c < endr r" "\<not> inheritable r" "inheritable c" "start r < start c"
    | (mark) "start c < endr r" "\<not> inheritable r" "inheritable c" "start r = start c"
    using le by fastforce
  then show ?thesis
  proof cases
    case advance
    have "merge_inv (pre @ [r]) post (c # cs)"
      using inv by (rule merge_inv_advance) (use advance d in force)
    with advance show ?thesis
      by (auto simp: step Let_def intro!: merge_okI [of _ "pre @ [r]" post _ _ gone "c # cs"])
  next
    case adjoin
    have "inheritable r \<or> uniform False post"
      using inv adjoin by (auto simp: merge_inv_def mix_ok_simps uniform_def)
    then have "\<exists>rl i. adjust_remaining_ranges (pre @ r\<lparr>endr := endr c\<rparr> # post) (length pre) = Inr (rl, i)
       \<and> merge_ok (pre @ r # post) (c # cs) (rl, i, gone @ c # cs, Suc (length gone))"
      using adjoin d by (intro adjust_merge_ok [OF inv]) auto
    with adjoin show ?thesis by (auto simp: step Let_def)
  next
    case drop
    have "merge_inv pre (r # post) cs" using inv by (rule merge_inv_drop)
    with drop le show ?thesis
      by (auto simp: step Let_def intro!: merge_okI [of _ pre "r # post" _ _ "gone @ [c]" cs]
          split: if_splits)
  next
    case trim
    then have "merge_inv pre (r # post) (c\<lparr>start := endr r\<rparr> # cs)"
      using inv by (intro merge_inv_trim) auto
    with trim le show ?thesis
      by (auto simp: step Let_def
          intro!: merge_okI [of _ pre "r # post" _ _ gone "c\<lparr>start := endr r\<rparr> # cs"]
          split: if_splits)
  next
    case split
    have "merge_inv (pre @ [r\<lparr>endr := start c\<rparr>]) (r\<lparr>start := start c\<rparr> # post) (c # cs)"
      using inv split d by (auto simp: merge_inv_iff mix_ok_simps valid_range_iff dest: ends_beforeD)
    with split show ?thesis
      by (auto simp: step Let_def intro!: merge_okI
          [of _ "pre @ [r\<lparr>endr := start c\<rparr>]" "r\<lparr>start := start c\<rparr> # post" _ _ gone "c # cs"])
  next
    case mark
    have "merge_inv pre (r\<lparr>inheritable := True\<rparr> # post) (c\<lparr>start := endr r\<rparr> # cs)"
      using inv mark d lt by (auto simp: merge_inv_iff mix_ok_simps valid_range_iff dest: ends_beforeD intro: ends_before_mono)
    with mark lt show ?thesis
      by (auto simp: step Let_def intro!: merge_okI
          [of _ pre "r\<lparr>inheritable := True\<rparr> # post" _ _ gone "c\<lparr>start := endr r\<rparr> # cs"])
  qed
qed

lemma merge_older_absorbing_ok:
  assumes inv: "merge_inv pre (r # post) (c # cs)" and le: "start c \<le> start r"
    and lt: "start r = start c \<Longrightarrow> endr c < endr r"
    and r: "start r < endr c" "\<not> inheritable r" "inheritable c"
  shows "\<exists>st. merge_older_absorbing (pre @ r # post) (length pre) (gone @ c # cs) (length gone) = Inr st
    \<and> merge_ok (pre @ r # post) (c # cs) st"
proof -
  note d = merge_inv_ConsD [OF inv]
  note step = merge_older_absorbing_def
  consider (same_end) "start c < start r" "endr c = endr r"
    | (inside) "start c < start r" "endr r < endr c"
    | (overlap) "start c < start r" "endr c < endr r"
    | (same_start) "start c = start r"
    using le by linarith
  then show ?thesis
  proof cases
    case same_end
    have "merge_inv pre (r\<lparr>start := start c, inheritable := True\<rparr> # post) cs"
      using inv same_end r d by (auto simp: merge_inv_iff mix_ok_simps)
    with same_end r show ?thesis
      by (auto simp: step Let_def intro!: merge_okI
          [of _ pre "r\<lparr>start := start c, inheritable := True\<rparr> # post" _ _ "gone @ [c]" cs])
  next
    case inside
    have "merge_inv pre (r\<lparr>start := start c, inheritable := True\<rparr> # post) (c\<lparr>start := endr r\<rparr> # cs)"
      using inv inside r d
      by (auto simp: merge_inv_iff mix_ok_simps valid_range_iff dest: ends_beforeD intro: ends_before_mono)
    with inside r d(3) show ?thesis
      by (auto simp: step Let_def intro!: merge_okI
          [of _ pre "r\<lparr>start := start c, inheritable := True\<rparr> # post" _ _ gone "c\<lparr>start := endr r\<rparr> # cs"])
  next
    case overlap
    have "merge_inv (pre @ [r\<lparr>start := start c, endr := endr c, inheritable := True\<rparr>])
        (r\<lparr>start := endr c\<rparr> # post) cs"
      using inv overlap r d
      by (auto simp: merge_inv_iff mix_ok_simps valid_range_iff dest: ends_beforeD intro: ends_before_mono)
    with overlap r show ?thesis
      by (auto simp: step Let_def intro!: merge_okI
          [of _ "pre @ [r\<lparr>start := start c, endr := endr c, inheritable := True\<rparr>]"
              "r\<lparr>start := endr c\<rparr> # post" _ _ "gone @ [c]" cs])
  next
    case same_start
    have "merge_inv (pre @ [r\<lparr>endr := endr c, inheritable := True\<rparr>]) (r\<lparr>start := endr c\<rparr> # post) cs"
      using inv same_start lt r d
      by (auto simp: merge_inv_iff mix_ok_simps valid_range_iff dest: ends_beforeD intro: ends_before_mono)
    with same_start lt r show ?thesis
      by (auto simp: step Let_def intro!: merge_okI
          [of _ "pre @ [r\<lparr>endr := endr c, inheritable := True\<rparr>]"
              "r\<lparr>start := endr c\<rparr> # post" _ _ "gone @ [c]" cs])
  qed
qed

lemma merge_older_ok:
  assumes inv: "merge_inv pre (r # post) (c # cs)" and le: "start c \<le> start r"
    and lt: "start r = start c \<Longrightarrow> endr c < endr r"
  shows "\<exists>st. merge_older (pre @ r # post) (length pre) (gone @ c # cs) (length gone) = Inr st
    \<and> merge_ok (pre @ r # post) (c # cs) st"
proof -
  note d = merge_inv_ConsD [OF inv]
  note step = merge_older_def
  consider (before) "endr c < start r"
    | (adjoin) "endr c = start r" "inheritable r = inheritable c"
    | (beside) "endr c = start r" "inheritable r \<noteq> inheritable c"
    | (grow) "start r < endr c" "inheritable r = inheritable c" "endr r < endr c"
    | (join) "start r < endr c" "inheritable r = inheritable c" "endr c \<le> endr r"
    | (split) "start r < endr c" "inheritable r" "\<not> inheritable c" "start c < start r"
    | (drop) "start r < endr c" "inheritable r" "\<not> inheritable c" "start c = start r"
    | (absorb) "start r < endr c" "\<not> inheritable r" "inheritable c"
    using le
    by (cases "endr c" "start r" rule: linorder_cases; cases "endr r < endr c";
        cases "start c < start r"; cases "inheritable r"; cases "inheritable c"; force)
  then show ?thesis
  proof cases
    case before
    have "merge_inv (pre @ [c]) (r # post) cs"
      using inv before d by (auto simp: merge_inv_iff mix_ok_simps valid_range_iff dest: ends_beforeD)
    with before show ?thesis
      by (auto simp: step Let_def intro!: merge_okI [of _ "pre @ [c]" "r # post" _ _ "gone @ [c]" cs])
  next
    case adjoin
    have "merge_inv pre (r\<lparr>start := start c\<rparr> # post) cs"
      using inv adjoin d by (auto simp: merge_inv_iff mix_ok_simps)
    with adjoin le d show ?thesis
      by (auto simp: step Let_def
          intro!: merge_okI [of _ pre "r\<lparr>start := start c\<rparr> # post" _ _ "gone @ [c]" cs])
  next
    case beside
    have "merge_inv pre (c # r # post) cs"
      using inv beside d by (auto simp: merge_inv_iff mix_ok_simps valid_range_iff dest: ends_beforeD)
    with beside show ?thesis
      by (auto simp: step Let_def intro!: merge_okI [of _ pre "c # r # post" _ _ "gone @ [c]" cs])
  next
    case grow
    have "inheritable r \<or> uniform False post"
      using inv grow by (auto simp: merge_inv_def mix_ok_simps uniform_def)
    then have "\<exists>rl i. adjust_remaining_ranges
         (pre @ r\<lparr>start := start c, endr := endr c\<rparr> # post) (length pre) = Inr (rl, i)
       \<and> merge_ok (pre @ r # post) (c # cs) (rl, i, gone @ c # cs, Suc (length gone))"
      using grow d le by (intro adjust_merge_ok [OF inv]) auto
    with grow show ?thesis by (auto simp: step Let_def)
  next
    case join
    have "merge_inv pre (r\<lparr>start := start c\<rparr> # post) cs"
      using inv join d le by (auto simp: merge_inv_iff mix_ok_simps)
    with join le show ?thesis
      by (auto simp: step Let_def
          intro!: merge_okI [of _ pre "r\<lparr>start := start c\<rparr> # post" _ _ "gone @ [c]" cs])
  next
    case split
    then have False using inv le d by (auto simp: merge_inv_iff mix_ok_simps)
    then show ?thesis ..
  next
    case drop
    have "merge_inv pre (r # post) cs" using inv by (rule merge_inv_drop)
    with drop lt show ?thesis
      by (auto simp: step Let_def intro!: merge_okI [of _ pre "r # post" _ _ "gone @ [c]" cs]
          split: if_splits)
  next
    case absorb
    then show ?thesis
      using merge_older_absorbing_ok [OF inv le lt, of gone] by (simp add: step Let_def)
  qed
qed

lemma merge_step_ok:
  assumes inv: "merge_inv pre (r # post) (c # cs)"
  shows "\<exists>st. merge_step (pre @ r # post) (length pre) (gone @ c # cs) (length gone) = Inr st
    \<and> merge_ok (pre @ r # post) (c # cs) st"
proof -
  note d = merge_inv_ConsD [OF inv]
  consider (eq) "start r = start c" "endr r = endr c"
    | (younger) "start r \<le> start c" "start r = start c \<Longrightarrow> endr r < endr c"
    | (older) "start c \<le> start r" "start r = start c \<Longrightarrow> endr c < endr r"
    by linarith
  then show ?thesis
  proof cases
    case eq
    have "merge_inv pre (r\<lparr>inheritable := inheritable r \<or> inheritable c\<rparr> # post) cs"
      using inv eq d by (auto simp: merge_inv_iff mix_ok_simps)
    then have "merge_inv (pre @ [r\<lparr>inheritable := inheritable r \<or> inheritable c\<rparr>]) post cs"
      using eq d(11) by (intro merge_inv_advance) auto
    moreover have "r\<lparr>inheritable := inheritable r \<or> inheritable c\<rparr> = r"
      if "\<not> inheritable r" "\<not> inheritable c"
      using that by (cases r) simp
    ultimately show ?thesis
      using eq
      by (auto simp: merge_step_def Let_def svn_sort_compare_ranges_def split: if_splits intro!: merge_okI
          [of _ "pre @ [r\<lparr>inheritable := inheritable r \<or> inheritable c\<rparr>]" post _ _ "gone @ [c]" cs])
  next
    case younger
    then have "svn_sort_compare_ranges r c < 0" by (auto simp: svn_sort_compare_ranges_def)
    with merge_younger_ok [OF inv younger, of gone] show ?thesis
      by (simp add: merge_step_def Let_def)
  next
    case older
    then have "svn_sort_compare_ranges r c > 0" by (auto simp: svn_sort_compare_ranges_def)
    with merge_older_ok [OF inv older, of gone] show ?thesis
      by (simp add: merge_step_def Let_def)
  qed
qed

section \<open>The whole merge\<close>

definition merge_finished :: "merge_state \<Rightarrow> bool" where
  "merge_finished = (\<lambda>(rl, i, ch, j). length rl \<le> i \<or> length ch \<le> j)"

lemma merge_loop_ok:
  assumes "merge_inv pre rs cs"
  shows "\<exists>st. merge_loop (pre @ rs) (length pre) (gone @ cs) (length gone) = Inr st
    \<and> merge_ok (pre @ rs) cs st \<and> merge_finished st"
  using assms
proof (induction "(pre @ rs, length pre, gone @ cs, length gone)" arbitrary: pre rs gone cs
    rule: wf_induct_rule [OF wf_merge_order])
  case less: 1
  note loop = merge_loop.simps [of "pre @ rs" "length pre" "gone @ cs" "length gone"]
  show ?case
  proof (cases "rs = [] \<or> cs = []")
    case True
    then have "merge_ok (pre @ rs) cs (pre @ rs, length pre, gone @ cs, length gone)"
      using less.prems by (intro merge_okI) auto
    with True show ?thesis by (auto simp: loop merge_finished_def)
  next
    case False
    then obtain r post c cs0 where L: "rs = r # post" "cs = c # cs0" by (auto simp: neq_Nil_conv)
    from merge_step_ok [OF less.prems [unfolded L], of gone] obtain st where
      st: "merge_step (pre @ rs) (length pre) (gone @ cs) (length gone) = Inr st"
        "merge_ok (pre @ rs) cs st" by (auto simp: L)
    from st(2) obtain pre' rs' gone' cs' where
      e: "st = (pre' @ rs', length pre', gone' @ cs', length gone')" and inv: "merge_inv pre' rs' cs'"
      and sem: "revs (pre' @ rs') \<union> revs cs' = revs (pre @ rs) \<union> revs cs"
        "inh_revs (pre' @ rs') \<union> inh_revs cs' = inh_revs (pre @ rs) \<union> inh_revs cs"
      unfolding merge_ok_def by blast
    have dec: "(st, (pre @ rs, length pre, gone @ cs, length gone)) \<in> merge_order"
      using st(1) by (rule merge_step_decreases) (simp_all add: L)
    from less.hyps [OF dec [unfolded e] inv] obtain st' where
      "merge_loop (pre' @ rs') (length pre') (gone' @ cs') (length gone') = Inr st'"
      "merge_ok (pre' @ rs') cs' st'" "merge_finished st'" by blast
    moreover from this(2) have "merge_ok (pre @ rs) cs st'"
      unfolding merge_ok_def sem by blast
    moreover have "merge_loop (pre @ rs) (length pre) (gone @ cs) (length gone)
        = merge_loop (pre' @ rs') (length pre') (gone' @ cs') (length gone')"
      using st(1) False unfolding e by (simp add: loop)
    ultimately show ?thesis by auto
  qed
qed

lemma copy_remaining_append: "copy_remaining rl cs = Inr (rl @ cs)"
  by (induction cs arbitrary: rl) simp_all

lemma merge2_ok:
  assumes "wf_rangelist rl" "wf_rangelist ch"
    and "(\<forall>c \<in> set ch. inheritable c) \<or> (\<forall>r \<in> set rl. \<not> inheritable r)"
  shows "\<exists>out. svn_rangelist_merge2 rl ch = Inr out \<and> wf_rangelist out
    \<and> revs out = revs rl \<union> revs ch \<and> inh_revs out = inh_revs rl \<union> inh_revs ch"
proof -
  have "mix_ok rl ch" using assms(3) by (cases rl) (auto simp: mix_ok_simps)
  then have "merge_inv [] rl ch" using assms(1,2) by (simp add: merge_inv_def)
  from merge_loop_ok [OF this, of "[]"] obtain st where
    st: "merge_loop rl 0 ch 0 = Inr st" "merge_ok rl ch st" "merge_finished st" by auto
  then obtain pre rs gone cs where
    r: "merge_loop rl 0 ch 0 = Inr (pre @ rs, length pre, gone @ cs, length gone)"
      "merge_inv pre rs cs" "revs (pre @ rs) \<union> revs cs = revs rl \<union> revs ch"
      "inh_revs (pre @ rs) \<union> inh_revs cs = inh_revs rl \<union> inh_revs ch"
    unfolding merge_ok_def by blast
  with st have "rs = [] \<or> cs = []" by (auto simp: merge_finished_def)
  note r = r this
  then have "wf_rangelist (pre @ rs @ cs)" by (auto simp: merge_inv_def ends_before_def)
  with r show ?thesis by (simp add: svn_rangelist_merge2_def copy_remaining_append Un_assoc)
qed

text \<open>No array access of the merge is out of bounds, whatever the two arrays hold.\<close>

lemma array_insert_total: "0 \<le> i \<Longrightarrow> i \<le> int (length xs) \<Longrightarrow> \<exists>ys. svn_sort__array_insert x xs i = Inr ys"
  by (simp add: svn_sort__array_insert_def)

lemma adjust_total:
  "\<exists>rl' i. adjust_remaining_ranges rl ri = Inr (rl', i)"
  "m < i \<Longrightarrow> \<exists>rl' k e. adjust_loop rl m i etd = Inr (rl', k, e)"
proof (induction rl ri and rl m i etd rule: adjust_remaining_ranges_adjust_loop.induct)
  case (1 rl ri)
  show ?case
  proof (cases "ri \<ge> length rl")
    case True
    then show ?thesis by (simp add: adjust_remaining_ranges.simps [of rl ri])
  next
    case False
    then obtain rl' k e where "adjust_loop rl ri (ri + 1) 0 = Inr (rl', k, e)" using 1 by auto
    with False show ?thesis by (simp add: adjust_remaining_ranges.simps [of rl ri] Let_def)
  qed
next
  case (2 rl m i etd)
  let ?m = "rl ! m" and ?n = "rl ! i"
  let ?x = "mk_range (endr ?n) (endr ?m) False" and ?rl = "rl[m := ?m\<lparr>endr := start ?n\<rparr>]"
  show ?case
  proof (cases "i < length rl")
    case False
    then show ?thesis by (simp add: adjust_loop.simps [of rl m i etd])
  next
    case in_rl: True
    then have rd: "APR_ARRAY_IDX rl m = Inr ?m" "APR_ARRAY_IDX rl i = Inr ?n" using 2(3) by simp_all
    note loop = adjust_loop.simps [of rl m i etd, unfolded rd SVN_ERR_simps]
    show ?thesis
    proof (cases "endr ?m > start ?n \<and> endr ?m > endr ?n")
      case False
      then show ?thesis unfolding loop by auto
    next
      case True
      show ?thesis
      proof (cases "inheritable ?m \<or> inheritable ?m = inheritable ?n")
        case a: True
        then obtain rl' k e where "adjust_loop rl m (i + 1) (etd + 1) = Inr (rl', k, e)"
          using 2(1) [OF in_rl rd] 2(3) True by fastforce
        with a True in_rl show ?thesis by (simp add: loop)
      next
        case b: False
        obtain rl1 where ins: "svn_sort__array_insert ?x ?rl (int (m + 2)) = Inr rl1"
          using array_insert_total [of "int (m + 2)" ?rl ?x] in_rl 2(3) by auto
        then obtain rl2 k where "adjust_remaining_ranges rl1 (m + 2) = Inr (rl2, k)"
          using 2(2) [OF in_rl rd] True b by fastforce
        with b True in_rl ins show ?thesis by (auto simp: loop)
      qed
    qed
  qed
qed

lemma merge_step_total:
  assumes "i < length rl" "j < length ch"
  shows "\<exists>st. merge_step rl i ch j = Inr st"
proof -
  have adj: "\<exists>st. SVN_ERR (adjust_remaining_ranges x i) (\<lambda>(rl, i'). Inr (rl, i', ch, j + 1)) = Inr st" for x
    using adjust_total(1) [of x i] by auto
  have "\<exists>st. merge_younger rl i ch j = Inr st"
    using assms adj by (simp add: merge_younger_def Let_def)
  moreover have "\<exists>st. merge_older_absorbing rl i ch j = Inr st"
    using assms by (simp add: merge_older_absorbing_def Let_def)
  moreover from this have "\<exists>st. merge_older rl i ch j = Inr st"
    using assms adj by (simp add: merge_older_def Let_def)
  ultimately show ?thesis using assms by (simp add: merge_step_def Let_def)
qed

lemma merge_loop_total: "\<exists>st. merge_loop rl i ch j = Inr st"
proof (induction "(rl, i, ch, j)" arbitrary: rl i ch j rule: wf_induct_rule [OF wf_merge_order])
  case less: 1
  show ?case
  proof (cases "i < length rl \<and> j < length ch")
    case True
    then obtain st where st: "merge_step rl i ch j = Inr st" using merge_step_total by blast
    obtain rl' i' ch' j' where e: "st = (rl', i', ch', j')" by (cases st)
    from merge_step_decreases [OF st] True less.hyps [of rl' i' ch' j'] e
    have "\<exists>st. merge_loop rl' i' ch' j' = Inr st" by blast
    with st e True show ?thesis by (simp add: merge_loop.simps [of rl i ch j])
  qed (auto simp: merge_loop.simps [of rl i ch j])
qed

lemma merge2_total: "\<exists>merged. svn_rangelist_merge2 rl ch = Inr merged"
  using merge_loop_total [of rl 0 "svn_rangelist_dup ch" 0]
  by (auto simp: svn_rangelist_merge2_def copy_remaining_append split: prod.splits)

lemma wf_all_inheritable: "wf_rangelist rl \<Longrightarrow> inh_revs rl = revs rl \<Longrightarrow> uniform True rl"
proof (induction rl)
  case (Cons r rl)
  have out: "x \<notin> revs rl" if "x \<in> range_revs r" for x
    using that Cons.prems(1) by (force simp: revs_def)
  then have out': "x \<notin> inh_revs rl" if "x \<in> range_revs r" for x
    using that inh_revs_subset by blast
  have e: "endr r \<in> range_revs r" using Cons.prems(1) by (simp add: valid_range_iff)
  with Cons.prems(2) out' have "inheritable r" by (auto split: if_splits)
  with Cons.prems(2) have "range_revs r \<union> inh_revs rl = range_revs r \<union> revs rl" by simp
  with out out' have "inh_revs rl = revs rl" by blast
  with Cons \<open>inheritable r\<close> show ?case by simp
qed simp

lemma uniform_inh_revs: "uniform True rl \<Longrightarrow> inh_revs rl = revs rl"
  by (simp add: inh_revs_def uniform_def)

section \<open>The contract with merging\<close>

locale revision_algebra = revision_partition +
  fixes merge :: "'a \<Rightarrow> 'a \<Rightarrow> 'a svn_result"
  assumes merge_total: "invar a \<Longrightarrow> invar b \<Longrightarrow>
      \<exists>r. merge a b = Inr r \<and> invar r \<and> covered r = covered a \<union> covered b"
begin

text \<open>Applying a difference as removal of the deleted part and merge of the added part.\<close>

lemma diff_apply:
  assumes "invar a" "invar b" "remove b a = Inr deleted" "remove a b = Inr added"
  shows "\<exists>kept patched. remove deleted a = Inr kept \<and> merge kept added = Inr patched
    \<and> invar patched \<and> covered patched = covered b"
proof -
  have d: "invar deleted" "invar added" using diff_ok [OF assms(1,2)] assms(3,4) by auto
  obtain kept where k: "remove deleted a = Inr kept" "invar kept" "covered kept = covered a - covered deleted"
    using remove_ok [OF d(1) assms(1)] by blast
  obtain patched where "merge kept added = Inr patched" "invar patched"
    "covered patched = covered kept \<union> covered added"
    using merge_total [OF k(2) d(2)] by blast
  with k diff_patch(1) [OF assms] show ?thesis by auto
qed

text \<open>Splitting by an eraser and merging the two parts loses nothing.\<close>

lemma split_merge:
  assumes "invar e" "invar w" "remove e w = Inr r" "intersect e w = Inr i"
  shows "\<exists>m. merge r i = Inr m \<and> invar m \<and> covered m = covered w"
  using remove_ok [OF assms(1,2)] intersect_ok [OF assms(1,2)] assms(3,4)
    merge_total [of r i] partition(1) [OF assms] by auto

lemma merge_absorbs:
  assumes "invar a" "invar b" "merge a b = Inr m" "merge m b = Inr m'"
  shows "covered m' = covered m"
  using merge_total [OF assms(1,2)] merge_total [of m b] assms by auto

text \<open>Merging a sequence one after the other.\<close>

fun merge_all :: "'a \<Rightarrow> 'a list \<Rightarrow> 'a svn_result" where
  "merge_all a [] = Inr a"
| "merge_all a (b # bs) = SVN_ERR (merge a b) (\<lambda>m. merge_all m bs)"

lemma merge_all_total:
  "invar a \<Longrightarrow> \<forall>b \<in> set bs. invar b \<Longrightarrow>
   \<exists>r. merge_all a bs = Inr r \<and> invar r \<and> covered r = covered a \<union> (\<Union>b \<in> set bs. covered b)"
proof (induction bs arbitrary: a)
  case (Cons b bs)
  then obtain m where m: "merge a b = Inr m" "invar m" "covered m = covered a \<union> covered b"
    using merge_total by force
  with Cons.IH [OF m(2)] Cons.prems(2) show ?case by (auto simp: Un_assoc)
qed simp

end

definition inheritable_rangelist :: "svn_rangelist_t \<Rightarrow> bool" where
  "inheritable_rangelist rl \<longleftrightarrow> wf_rangelist rl \<and> uniform True rl"

lemma setop_inheritable:
  "inheritable_rangelist a \<Longrightarrow> inheritable_rangelist b \<Longrightarrow>
   inheritable_rangelist (setop dr False a b)"
  using setop_uniform [of True a b dr] by (simp add: inheritable_rangelist_def setop_wf)

lemma merge2_inheritable:
  assumes "inheritable_rangelist a" "inheritable_rangelist b"
  shows "\<exists>r. svn_rangelist_merge2 a b = Inr r \<and> inheritable_rangelist r \<and> revs r = revs a \<union> revs b"
proof -
  have "\<forall>c \<in> set b. inheritable c" using assms(2) by (auto simp: inheritable_rangelist_def uniform_def)
  with merge2_ok [of a b] assms obtain r where
    "svn_rangelist_merge2 a b = Inr r" "wf_rangelist r" "revs r = revs a \<union> revs b"
    "inh_revs r = inh_revs a \<union> inh_revs b" by (auto simp: inheritable_rangelist_def)
  with assms show ?thesis
    using wf_all_inheritable [of r] by (simp add: inheritable_rangelist_def uniform_inh_revs)
qed

interpretation irl: revision_algebra revs inheritable_rangelist "[]"
    "\<lambda>e w. svn_rangelist_remove e w False" "\<lambda>a b. svn_rangelist_intersect a b False"
    svn_rangelist_merge2
proof unfold_locales
  fix a b s :: svn_rangelist_t
  show "inheritable_rangelist []" by (simp add: inheritable_rangelist_def)
  show "revs s = {} \<longleftrightarrow> s = []" if "inheritable_rangelist s"
    using that by (simp add: inheritable_rangelist_def wf_rangelist_empty)
  assume ab: "inheritable_rangelist a" "inheritable_rangelist b"
  then have "wf_rangelist a" "wf_rangelist b" by (simp_all add: inheritable_rangelist_def)
  then show "\<exists>r. svn_rangelist_remove a b False = Inr r \<and> inheritable_rangelist r \<and> revs r = revs b - revs a"
    and "\<exists>r. svn_rangelist_intersect a b False = Inr r \<and> inheritable_rangelist r \<and> revs r = revs b \<inter> revs a"
    using setop_inheritable [OF ab]
    by (auto simp: svn_rangelist_remove_def svn_rangelist_intersect_def intersect_or_remove_setop revs_setop)
  show "\<exists>r. svn_rangelist_merge2 a b = Inr r \<and> inheritable_rangelist r \<and> revs r = revs a \<union> revs b"
    using ab by (rule merge2_inheritable)
qed

section \<open>Properties\<close>

text \<open>
  C2. Merging changes into a rangelist: when all changes are inheritable, or no range of
  the rangelist is, the merge returns (its loop ends and no array access is out of bounds),
  the result is a rangelist, it covers exactly the revisions either list covers, and a
  revision is covered inheritably exactly when one of the two lists covers it inheritably.
\<close>

theorem rangelist_merge_union:
  assumes "wf_rangelist rangelist" "wf_rangelist changes"
    and "(\<forall>c \<in> set changes. inheritable c) \<or> (\<forall>r \<in> set rangelist. \<not> inheritable r)"
  shows "\<exists>merged. svn_rangelist_merge2 rangelist changes = Inr merged \<and> wf_rangelist merged
    \<and> revs merged = revs rangelist \<union> revs changes
    \<and> inh_revs merged = inh_revs rangelist \<union> inh_revs changes"
  using assms by (rule merge2_ok)

theorem rangelist_merge_union_witness:
  "\<exists>merged. svn_rangelist_merge2 [mk_range 0 4 False, mk_range 6 9 True] [mk_range 2 7 True] = Inr merged
    \<and> wf_rangelist merged
    \<and> revs merged = revs [mk_range 0 4 False, mk_range 6 9 True] \<union> revs [mk_range 2 7 True]
    \<and> inh_revs merged = inh_revs [mk_range 0 4 False, mk_range 6 9 True] \<union> inh_revs [mk_range 2 7 True]"
  by (rule rangelist_merge_union) (simp_all add: valid_range_iff)

text \<open>
  Applying a difference: for two rangelists of inheritable ranges, removing the deleted
  part of their difference from the first and merging the added part gives a rangelist of
  inheritable ranges that covers exactly what the second covers.
\<close>

theorem rangelist_diff_apply:
  assumes "wf_rangelist from" "wf_rangelist to" "\<forall>r \<in> set (from @ to). inheritable r"
    and "svn_rangelist_diff from to False = Inr (deleted, added)"
  shows "\<exists>kept patched. svn_rangelist_remove deleted from False = Inr kept
    \<and> svn_rangelist_merge2 kept added = Inr patched
    \<and> wf_rangelist patched \<and> (\<forall>r \<in> set patched. inheritable r) \<and> revs patched = revs to"
proof -
  have "inheritable_rangelist from" "inheritable_rangelist to"
    using assms(1-3) by (auto simp: inheritable_rangelist_def uniform_def)
  with irl.diff_apply [OF this] assms(4) show ?thesis
    by (auto simp: svn_rangelist_diff_def SVN_ERR_iffs inheritable_rangelist_def uniform_def)
qed

theorem rangelist_diff_apply_witness:
  "\<exists>kept patched. svn_rangelist_remove [mk_range 0 2 True, mk_range 7 9 True]
       [mk_range 0 2 True, mk_range 5 9 True] False = Inr kept
    \<and> svn_rangelist_merge2 kept [mk_range 2 5 True] = Inr patched
    \<and> wf_rangelist patched \<and> (\<forall>r \<in> set patched. inheritable r) \<and> revs patched = revs [mk_range 2 7 True]"
proof (rule rangelist_diff_apply)
  show "svn_rangelist_diff [mk_range 0 2 True, mk_range 5 9 True] [mk_range 2 7 True] False
      = Inr ([mk_range 0 2 True, mk_range 7 9 True], [mk_range 2 5 True])" by code_simp
qed (simp_all add: valid_range_iff)

text \<open>
  C27. The merge always returns, for any two arrays of ranges: its loop ends, and neither it
  nor the adjustment reads or inserts outside the array.
\<close>

theorem rangelist_merge_total:
  "\<exists>merged. svn_rangelist_merge2 rangelist changes = Inr merged"
  by (rule merge2_total)

text \<open>
  The merge can corrupt a rangelist. Merging 3-8* into 1-2*,4*,6 returns a list with a
  range that ends before it starts: when the grown range has absorbed a range, the index
  at which \<open>adjust_remaining_ranges\<close> inserts the part after the inheritable range does not
  count the absorbed range, which is deleted only later.
\<close>

theorem rangelist_merge_mixed_malformed:
  "wf_rangelist [mk_range 0 2 False, mk_range 3 4 False, mk_range 5 6 True]
   \<and> wf_rangelist [mk_range 2 8 False]
   \<and> svn_rangelist_merge2 [mk_range 0 2 False, mk_range 3 4 False, mk_range 5 6 True] [mk_range 2 8 False]
       = Inr [mk_range 0 5 False, mk_range 6 5 False, mk_range 5 6 True, mk_range 6 8 False]
   \<and> \<not> wf_rangelist [mk_range 0 5 False, mk_range 6 5 False, mk_range 5 6 True, mk_range 6 8 False]"
  by code_simp

text \<open>
  The merged rangelist need not have the minimal number of ranges: merging 1-2 into
  1-2*,3-4 gives two adjoining inheritable ranges, because equal ranges are marked
  inheritable without looking at the ranges beside them.
\<close>

theorem rangelist_merge_not_compacted:
  "svn_rangelist_merge2 [mk_range 0 2 False, mk_range 2 4 True] [mk_range 0 2 True]
     = Inr [mk_range 0 2 True, mk_range 2 4 True]
   \<and> revs [mk_range 0 2 True, mk_range 2 4 True] = revs [mk_range 0 4 True]"
proof
  show "svn_rangelist_merge2 [mk_range 0 2 False, mk_range 2 4 True] [mk_range 0 2 True]
     = Inr [mk_range 0 2 True, mk_range 2 4 True]" by code_simp
qed (auto simp: range_revs_def)

end
