(* ===== verification/Paths.thy ===== *)
theory Paths
  imports Sorts
begin

text \<open>
  Paths (libsvn\_subr/dirent\_uri.c and path.c, POSIX configuration): canonicalization of
  relative paths, local paths and URIs, the relpath and fspath interfaces (canonical form,
  join, split, skip an ancestor, longest common ancestor), and the comparison of paths that
  puts a directory directly before everything below it. The meaning of a path is the list
  of its components. An \<open>assert\<close> that fails is an assertion error.
\<close>

section \<open>Canonicalization\<close>

datatype path_type_t = type_uri | type_dirent | type_relpath

definition canonicalize_to_lower :: "char \<Rightarrow> char" where
  "canonicalize_to_lower c =
     (let n = of_char c :: nat in if n < 65 \<or> n > 90 then c else char_of (n - 65 + 97))"

definition canonicalize_to_upper :: "char \<Rightarrow> char" where
  "canonicalize_to_upper c =
     (let n = of_char c :: nat in if n < 97 \<or> n > 122 then c else char_of (n - 97 + 65))"

text \<open>An encoded slash, which ends a segment of a URI.\<close>

definition encoded_slash :: "path_type_t \<Rightarrow> string \<Rightarrow> bool" where
  "encoded_slash type s \<longleftrightarrow> type = type_uri \<and> deref_at s 0 = CHR ''%'' \<and> deref_at s 1 = CHR ''2''
     \<and> canonicalize_to_upper (deref_at s 2) = CHR ''F''"

text \<open>The segment at the start of the string, and what follows it.\<close>

fun split_segment :: "path_type_t \<Rightarrow> string \<Rightarrow> string \<times> string" where
  "split_segment type [] = ([], [])"
| "split_segment type (c # s) =
     (if c = CHR ''/'' \<or> encoded_slash type (c # s) then ([], c # s)
      else (case split_segment type s of (seg, next) \<Rightarrow> (c # seg, next)))"

definition slash_length :: "path_type_t \<Rightarrow> string \<Rightarrow> nat" where
  "slash_length type next =
     (if deref next = CHR ''/'' then 1
      else if type = type_uri \<and> deref next = CHR ''%'' then 3 else 0)"

definition noop_segment :: "path_type_t \<Rightarrow> string \<Rightarrow> bool" where
  "noop_segment type seg \<longleftrightarrow> seg = [] \<or> seg = ''.''
     \<or> type = type_uri \<and> length seg = 3 \<and> deref_at seg 0 = CHR ''%'' \<and> deref_at seg 1 = CHR ''2''
       \<and> canonicalize_to_upper (deref_at seg 2) = CHR ''E''"

lemma split_segment_append: "split_segment type s = (seg, next) \<Longrightarrow> s = seg @ next"
  by (induction s arbitrary: seg) (auto split: if_splits prod.splits)

lemma split_segment_stop:
  "split_segment type s = ([], next) \<Longrightarrow> s \<noteq> [] \<Longrightarrow> slash_length type next > 0"
  by (cases s) (auto simp: slash_length_def encoded_slash_def split: if_splits prod.splits)

lemma split_segment_progress:
  assumes "(seg, rest) = split_segment type src" "src \<noteq> []"
  shows "length (drop (slash_length type rest) rest) < length src"
proof -
  have e: "split_segment type src = (seg, rest)" using assms(1) by simp
  note a = split_segment_append [OF e]
  show ?thesis
  proof (cases seg)
    case Nil
    with e have "slash_length type rest > 0" by (intro split_segment_stop [of type src rest]) (use assms(2) in auto)
    moreover have "length rest = length src" "length src > 0" using a Nil assms(2) by auto
    ultimately show ?thesis by simp
  next
    case (Cons c cs)
    with arg_cong [OF a, of length] show ?thesis by simp
  qed
qed

text \<open>The segment loop: \<open>dst\<close> is what has been written, \<open>canon_segments\<close> the segments counted.\<close>

function canonicalize_loop :: "path_type_t \<Rightarrow> string \<Rightarrow> string \<Rightarrow> nat \<Rightarrow> string \<times> nat" where
  "canonicalize_loop type src dst canon_segments =
     (if src = [] then (dst, canon_segments)
      else case split_segment type src of (seg, next) \<Rightarrow>
        let slash_len = slash_length type next in
        if noop_segment type seg
        then canonicalize_loop type (drop slash_len next) dst canon_segments
        else canonicalize_loop type (drop slash_len next)
               (dst @ seg @ (if slash_len \<noteq> 0 then ''/'' else [])) (canon_segments + 1))"
  by pat_completeness auto
termination
  by (relation "measure (\<lambda>(type, src, dst, n). length src)")
     (auto intro: split_segment_progress simp del: length_drop)

declare canonicalize_loop.simps [simp del]

text \<open>
  The authority part of a URI: the scheme and host in lower case, user information as it
  is, a default port dropped. The results are what is written, the rest of the source, and
  the length of the scheme with its separator.
\<close>

definition skip_default_port :: "string \<Rightarrow> string \<Rightarrow> string" where
  "skip_default_port canon src =
     (if deref_at src 1 = CHR ''8'' \<and> deref_at src 2 = CHR ''0''
         \<and> (deref_at src 3 = CHR ''/'' \<or> deref_at src 3 = CHR 0x00) \<and> take 5 canon = ''http:''
      then drop 3 src
      else if deref_at src 1 = CHR ''4'' \<and> deref_at src 2 = CHR ''4'' \<and> deref_at src 3 = CHR ''3''
         \<and> (deref_at src 4 = CHR ''/'' \<or> deref_at src 4 = CHR 0x00) \<and> take 6 canon = ''https:''
      then drop 4 src
      else if deref_at src 1 = CHR ''3'' \<and> deref_at src 2 = CHR ''6'' \<and> deref_at src 3 = CHR ''9''
         \<and> deref_at src 4 = CHR ''0''
         \<and> (deref_at src 5 = CHR ''/'' \<or> deref_at src 5 = CHR 0x00) \<and> take 4 canon = ''svn:''
      then drop 5 src
      else if deref_at src 1 = CHR ''/'' \<or> deref_at src 1 = CHR 0x00 then drop 1 src
      else src)"

definition canonicalize_authority :: "string \<Rightarrow> (string \<times> string \<times> nat) option" where
  "canonicalize_authority path =
     (let scheme = takeWhile (\<lambda>c. c \<noteq> CHR ''/'' \<and> c \<noteq> CHR '':'') path;
          src = drop (length scheme) path in
      if take 3 src = ''://'' then
        let dst = map canonicalize_to_lower scheme @ ''://'';
            src = drop 3 src;
            user = takeWhile (\<lambda>c. c \<noteq> CHR ''/'' \<and> c \<noteq> CHR ''@'') src;
            (dst, src) = (if deref (drop (length user) src) = CHR ''@''
                          then (dst @ user @ ''@'', drop (length user + 1) src) else (dst, src));
            host = takeWhile (\<lambda>c. c \<noteq> CHR ''/'' \<and> c \<noteq> CHR '':'') src;
            dst = dst @ map canonicalize_to_lower host;
            src = drop (length host) src;
            (dst, src) = (if deref src = CHR '':'' then
                            let src = skip_default_port dst src;
                                port = takeWhile (\<lambda>c. c \<noteq> CHR ''/'') src
                            in (dst @ map canonicalize_to_lower port, drop (length port) src)
                          else (dst, src))
        in Some (dst, src, length scheme + 3)
      else None)"

text \<open>The table of characters that need no encoding in a URI.\<close>

definition svn_uri__char_validity :: "char \<Rightarrow> bool" where
  "svn_uri__char_validity c \<longleftrightarrow>
     (let n = of_char c :: nat in
      n = 33 \<or> n = 36 \<or> 38 \<le> n \<and> n \<le> 58 \<or> n = 61 \<or> 64 \<le> n \<and> n \<le> 90 \<or> n = 95
      \<or> 97 \<le> n \<and> n \<le> 122 \<or> n = 126)"

definition svn_ctype_isxdigit :: "char \<Rightarrow> bool" where
  "svn_ctype_isxdigit c \<longleftrightarrow>
     (let n = of_char c :: nat in 48 \<le> n \<and> n \<le> 57 \<or> 65 \<le> n \<and> n \<le> 70 \<or> 97 \<le> n \<and> n \<le> 102)"

definition hex_value :: "char \<Rightarrow> nat" where
  "hex_value c = (let n = of_char c :: nat in
     if n \<le> 57 then n - 48 else if n \<le> 70 then n - 55 else n - 87)"

definition hex_digit :: "nat \<Rightarrow> char" where
  "hex_digit n = char_of (if n < 10 then 48 + n else 55 + n)"

text \<open>Normalizing the characters after the authority part.\<close>

fun uri_normalize :: "string \<Rightarrow> string" where
  "uri_normalize [] = []"
| "uri_normalize (c # s) =
     (if c = CHR ''/'' then CHR ''/'' # uri_normalize s
      else if c = CHR ''%'' then
        (case s of
           d1 # d2 # s' \<Rightarrow>
             if svn_ctype_isxdigit d1 \<and> svn_ctype_isxdigit d2 then
               let v = char_of (16 * hex_value d1 + hex_value d2) in
               (if svn_uri__char_validity v then [v]
                else [CHR ''%'', canonicalize_to_upper d1, canonicalize_to_upper d2]) @ uri_normalize s'
             else ''%25'' @ uri_normalize s
         | _ \<Rightarrow> ''%25'' @ uri_normalize s)
      else if svn_uri__char_validity c then c # uri_normalize s
      else [CHR ''%'', hex_digit (of_char c div 16), hex_digit (of_char c mod 16)] @ uri_normalize s)"

definition canonicalize :: "path_type_t \<Rightarrow> string \<Rightarrow> string svn_result" where
  "canonicalize type path =
     (if path = [] then SVN_ERR_ASSERT (type \<noteq> type_uri) (Inr [])
      else SVN_ERR_ASSERT (type = type_uri \<longrightarrow> deref path \<noteq> CHR ''/'') (
        let authority = (if type = type_uri then canonicalize_authority path else None) in
        case authority of
          Some (dst0, src0, schemelen) \<Rightarrow>
            let dst1 = dst0 @ (if src0 \<noteq> [] then [deref src0] else []);
                src1 = drop 1 src0;
                (dst2, segs) = canonicalize_loop type src1 dst1 1;
                canon = (if last dst2 = CHR ''/'' \<and> drop schemelen path \<noteq> [] then butlast dst2 else dst2)
            in Inr (if src0 \<noteq> [] \<and> length dst1 \<le> length canon
                    then take (length dst1) canon @ uri_normalize (drop (length dst1) canon)
                    else canon)
        | None \<Rightarrow>
            let (dst1, src1) = (if type \<noteq> type_relpath \<and> deref path = CHR ''/''
                                then (''/'', drop 1 path) else ([], path));
                (dst2, segs) = canonicalize_loop type src1 dst1 0
            in Inr (if segs > 0 \<and> last dst2 = CHR ''/'' then butlast dst2 else dst2)))"

definition svn_relpath_canonicalize :: "string \<Rightarrow> string svn_result" where
  "svn_relpath_canonicalize relpath = canonicalize type_relpath relpath"

definition svn_dirent_canonicalize :: "string \<Rightarrow> string svn_result" where
  "svn_dirent_canonicalize dirent = canonicalize type_dirent dirent"

definition svn_uri_canonicalize :: "string \<Rightarrow> string svn_result" where
  "svn_uri_canonicalize uri = canonicalize type_uri uri"

section \<open>Relative paths\<close>

text \<open>The end of the segment that starts at an index.\<close>

definition scan_segment :: "string \<Rightarrow> nat \<Rightarrow> nat" where
  "scan_segment p i = i + length (takeWhile (\<lambda>c. c \<noteq> CHR 0x00 \<and> c \<noteq> CHR ''/'') (drop i p))"

lemma scan_segment_progress:
  "deref_at p i \<noteq> CHR 0x00 \<Longrightarrow> deref_at p i \<noteq> CHR ''/'' \<Longrightarrow> i < scan_segment p i"
  by (cases "drop i p") (auto simp: scan_segment_def deref_at_def)

lemma scan_segment_ge: "i \<le> scan_segment p i"
  by (simp add: scan_segment_def)

lemma deref_at_in_range: "deref_at p i \<noteq> CHR 0x00 \<Longrightarrow> i < length p"
  by (rule ccontr) (simp add: deref_at_def)

text \<open>The loop of \<open>relpath_is_canonical\<close>, with the pointers as offsets.\<close>

function relpath_canonical_loop :: "string \<Rightarrow> nat \<Rightarrow> nat \<Rightarrow> bool" where
  "relpath_canonical_loop p ptr seg =
     (if ptr - seg = 1 \<and> deref_at p seg = CHR ''.'' then False
      else if deref_at p ptr = CHR ''/'' \<and> deref_at p (ptr + 1) = CHR ''/'' then False
      else if deref_at p ptr = CHR 0x00 \<and> deref_at p (ptr - 1) = CHR ''/'' then False
      else if deref_at p ptr = CHR 0x00 then True
      else let ptr1 = (if deref_at p ptr = CHR ''/'' then ptr + 1 else ptr)
           in relpath_canonical_loop p (scan_segment p ptr1) ptr1)"
  by pat_completeness auto
termination
proof (relation "measure (\<lambda>(p, ptr, seg). length p - ptr)", goal_cases)
  case (2 p ptr seg ptr1)
  then have "ptr < scan_segment p ptr1"
    using scan_segment_progress [of p ptr] scan_segment_ge [of ptr1 p] by (auto split: if_splits)
  with 2 deref_at_in_range [of p ptr] show ?case by simp
qed simp

declare relpath_canonical_loop.simps [simp del]

definition relpath_is_canonical :: "string \<Rightarrow> bool" where
  "relpath_is_canonical relpath =
     (if deref relpath = CHR 0x00 then True
      else if deref relpath = CHR ''/'' then False
      else relpath_canonical_loop relpath 0 0)"

definition svn_relpath_is_canonical :: "string \<Rightarrow> bool" where
  "svn_relpath_is_canonical relpath = relpath_is_canonical relpath"

definition svn_relpath_join :: "string \<Rightarrow> string \<Rightarrow> string svn_result" where
  "svn_relpath_join base component =
     SVN_ERR_ASSERT (relpath_is_canonical base) (
     SVN_ERR_ASSERT (relpath_is_canonical component) (
     Inr (if base = [] then component
          else if component = [] then base
          else base @ ''/'' @ component)))"

text \<open>The loop of \<open>relpath_previous_segment\<close> after the first decrement.\<close>

fun previous_slash :: "string \<Rightarrow> nat \<Rightarrow> nat" where
  "previous_slash p 0 = 0"
| "previous_slash p (Suc n) =
     (if deref_at p (Suc n) \<noteq> CHR ''/'' then previous_slash p n else Suc n)"

definition relpath_previous_segment :: "string \<Rightarrow> nat \<Rightarrow> nat" where
  "relpath_previous_segment relpath len = (if len = 0 then 0 else previous_slash relpath (len - 1))"

definition svn_relpath_dirname :: "string \<Rightarrow> string svn_result" where
  "svn_relpath_dirname relpath =
     SVN_ERR_ASSERT (relpath_is_canonical relpath)
       (Inr (take (relpath_previous_segment relpath (length relpath)) relpath))"

fun basename_start :: "string \<Rightarrow> nat \<Rightarrow> nat" where
  "basename_start p 0 = 0"
| "basename_start p (Suc n) = (if deref_at p n \<noteq> CHR ''/'' then basename_start p n else Suc n)"

definition svn_relpath_basename :: "string \<Rightarrow> string svn_result" where
  "svn_relpath_basename relpath =
     SVN_ERR_ASSERT (relpath_is_canonical relpath)
       (Inr (drop (basename_start relpath (length relpath)) relpath))"

definition svn_relpath_split :: "string \<Rightarrow> (string \<times> string) svn_result" where
  "svn_relpath_split relpath =
     SVN_ERR (svn_relpath_dirname relpath) (\<lambda>dirpath.
     SVN_ERR (svn_relpath_basename relpath) (\<lambda>base_name. Inr (dirpath, base_name)))"

text \<open>A NULL result is \<open>None\<close>.\<close>

definition svn_relpath_skip_ancestor :: "string \<Rightarrow> string \<Rightarrow> string option svn_result" where
  "svn_relpath_skip_ancestor parent_relpath child_relpath =
     SVN_ERR_ASSERT (relpath_is_canonical parent_relpath) (
     SVN_ERR_ASSERT (relpath_is_canonical child_relpath) (
     let len = length parent_relpath in
     Inr (if len = 0 then Some child_relpath
          else if parent_relpath \<noteq> take len child_relpath then None
          else if deref_at child_relpath len = CHR 0x00 then Some []
          else if deref_at child_relpath len = CHR ''/'' then Some (drop (len + 1) child_relpath)
          else None)))"

text \<open>
  The longest common ancestor: the loop runs over the common prefix and returns the offset
  at which it stopped and the offset of the last separator it passed.
\<close>

fun common_prefix :: "string \<Rightarrow> string \<Rightarrow> nat \<Rightarrow> nat \<Rightarrow> nat \<times> nat" where
  "common_prefix (a # as) (b # bs) i last_dirsep =
     (if a = b then common_prefix as bs (i + 1) (if a = CHR ''/'' then i else last_dirsep)
      else (i, last_dirsep))"
| "common_prefix _ _ i last_dirsep = (i, last_dirsep)"

definition get_longest_ancestor_length :: "path_type_t \<Rightarrow> string \<Rightarrow> string \<Rightarrow> nat" where
  "get_longest_ancestor_length types path1 path2 =
     (if path1 = [] \<or> path2 = [] then 0
      else case common_prefix path1 path2 0 0 of (i, last_dirsep) \<Rightarrow>
        if i = 1 \<and> deref path1 = CHR ''/'' \<and> deref path2 = CHR ''/'' then 1
        else if types = type_dirent \<and> i = 0 then 0
        else if i = length path1 \<and> deref_at path2 i = CHR ''/''
                \<or> i = length path2 \<and> deref_at path1 i = CHR ''/''
                \<or> i = length path1 \<and> i = length path2 then i
        else if last_dirsep = 0 \<and> deref path1 = CHR ''/'' \<and> deref path2 = CHR ''/'' then 1
        else last_dirsep)"

definition svn_relpath_get_longest_ancestor :: "string \<Rightarrow> string \<Rightarrow> string svn_result" where
  "svn_relpath_get_longest_ancestor relpath1 relpath2 =
     SVN_ERR_ASSERT (relpath_is_canonical relpath1) (
     SVN_ERR_ASSERT (relpath_is_canonical relpath2) (
     Inr (take (get_longest_ancestor_length type_relpath relpath1 relpath2) relpath1)))"

section \<open>Filesystem paths\<close>

definition svn_fspath__is_canonical :: "string \<Rightarrow> bool" where
  "svn_fspath__is_canonical fspath \<longleftrightarrow> deref fspath = CHR ''/'' \<and> relpath_is_canonical (drop 1 fspath)"

definition svn_fspath__canonicalize :: "string \<Rightarrow> string svn_result" where
  "svn_fspath__canonicalize fspath =
     (if fspath = ''/'' then Inr ''/''
      else SVN_ERR (svn_relpath_canonicalize fspath) (\<lambda>r. Inr (''/'' @ r)))"

definition svn_fspath__is_root :: "string \<Rightarrow> nat \<Rightarrow> bool" where
  "svn_fspath__is_root fspath len \<longleftrightarrow> len = 1 \<and> deref fspath = CHR ''/''"

definition svn_fspath__skip_ancestor :: "string \<Rightarrow> string \<Rightarrow> string option svn_result" where
  "svn_fspath__skip_ancestor parent_fspath child_fspath =
     SVN_ERR_ASSERT (svn_fspath__is_canonical parent_fspath) (
     SVN_ERR_ASSERT (svn_fspath__is_canonical child_fspath) (
     svn_relpath_skip_ancestor (drop 1 parent_fspath) (drop 1 child_fspath)))"

definition svn_fspath__dirname :: "string \<Rightarrow> string svn_result" where
  "svn_fspath__dirname fspath =
     SVN_ERR_ASSERT (svn_fspath__is_canonical fspath) (
     if fspath = ''/'' then Inr fspath
     else SVN_ERR (svn_relpath_dirname (drop 1 fspath)) (\<lambda>r. Inr (''/'' @ r)))"

definition svn_fspath__basename :: "string \<Rightarrow> string svn_result" where
  "svn_fspath__basename fspath =
     SVN_ERR_ASSERT (svn_fspath__is_canonical fspath) (
     SVN_ERR (svn_relpath_basename (drop 1 fspath)) (\<lambda>result.
     SVN_ERR_ASSERT (CHR ''/'' \<notin> set result) (Inr result)))"

definition svn_fspath__split :: "string \<Rightarrow> (string \<times> string) svn_result" where
  "svn_fspath__split fspath =
     SVN_ERR (svn_fspath__dirname fspath) (\<lambda>dirpath.
     SVN_ERR (svn_fspath__basename fspath) (\<lambda>base_name. Inr (dirpath, base_name)))"

definition svn_fspath__join :: "string \<Rightarrow> string \<Rightarrow> string svn_result" where
  "svn_fspath__join fspath relpath =
     SVN_ERR_ASSERT (svn_fspath__is_canonical fspath) (
     SVN_ERR_ASSERT (svn_relpath_is_canonical relpath) (
     let result = (if relpath = [] then fspath
                   else if drop 1 fspath = [] then ''/'' @ relpath
                   else fspath @ ''/'' @ relpath) in
     SVN_ERR_ASSERT (svn_fspath__is_canonical result) (Inr result)))"

definition svn_fspath__get_longest_ancestor :: "string \<Rightarrow> string \<Rightarrow> string svn_result" where
  "svn_fspath__get_longest_ancestor fspath1 fspath2 =
     SVN_ERR_ASSERT (svn_fspath__is_canonical fspath1) (
     SVN_ERR_ASSERT (svn_fspath__is_canonical fspath2) (
     SVN_ERR (svn_relpath_get_longest_ancestor (drop 1 fspath1) (drop 1 fspath2)) (\<lambda>r.
     let result = ''/'' @ r in
     SVN_ERR_ASSERT (svn_fspath__is_canonical result) (Inr result))))"

section \<open>Comparing paths\<close>

text \<open>
  The approximation of the canonical test that the assertions of path.c use: the path is not
  \<open>.\<close>, \<open>strstr\<close> does not find \<open>/./\<close> in it, and it is empty, the root or does not end in a
  slash.
\<close>

fun strstr_found :: "string \<Rightarrow> string \<Rightarrow> bool" where
  "strstr_found [] needle = (needle = [])"
| "strstr_found (c # s) needle = (take (length needle) (c # s) = needle \<or> strstr_found s needle)"

definition path_is_canonical :: "string \<Rightarrow> bool" where
  "path_is_canonical path =
     (let len = strlen path in
      \<not> (len = 1 \<and> deref_at path 0 = CHR ''.'')
      \<and> \<not> strstr_found (c_bytes path) ''/./''
      \<and> (len = 0 \<or> len = 1 \<and> deref_at path 0 = CHR ''/'' \<or> deref_at path (len - 1) \<noteq> CHR ''/''))"

text \<open>\<open>path_order\<close> is the body of \<open>svn_path_compare_paths\<close> after its two assertions.\<close>

fun skip_common :: "string \<Rightarrow> string \<Rightarrow> nat \<Rightarrow> nat \<Rightarrow> nat" where
  "skip_common path1 path2 0 i = i"
| "skip_common path1 path2 (Suc n) i =
     (if deref_at path1 i = deref_at path2 i then skip_common path1 path2 n (Suc i) else i)"

definition path_order :: "string comparison_func" where
  "path_order path1 path2 =
     (let path1_len = strlen path1; path2_len = strlen path2;
          min_len = (if path1_len < path2_len then path1_len else path2_len);
          i = skip_common path1 path2 min_len 0;
          c1 = deref_at path1 i; c2 = deref_at path2 i in
      if path1_len = path2_len \<and> i \<ge> min_len then 0
      else if c1 = CHR ''/'' \<and> c2 = CHR 0x00 then 1
      else if c2 = CHR ''/'' \<and> c1 = CHR 0x00 then -1
      else if c1 = CHR ''/'' then -1
      else if c2 = CHR ''/'' then 1
      else if (of_char c1 :: nat) < of_char c2 then -1 else 1)"

definition svn_path_compare_paths :: "string checked_comparison_func" where
  "svn_path_compare_paths path1 path2 =
     SVN_ERR_ASSERT (path_is_canonical path1) (
     SVN_ERR_ASSERT (path_is_canonical path2) (
     Inr (path_order path1 path2)))"

definition svn_sort_compare_items_as_paths :: "(string \<times> 'v) checked_comparison_func" where
  "svn_sort_compare_items_as_paths a b = svn_path_compare_paths (fst a) (fst b)"

definition svn_sort_compare_paths :: "string checked_comparison_func" where
  "svn_sort_compare_paths item1 item2 = svn_path_compare_paths item1 item2"

text \<open>The order of the items of a hash table by their keys.\<close>

definition items_path_order :: "(string \<times> 'v) comparison_func" where
  "items_path_order a b = path_order (fst a) (fst b)"

section \<open>The components of a path\<close>

fun components :: "string \<Rightarrow> string list" where
  "components [] = [[]]"
| "components (c # s) =
     (if c = CHR ''/'' then [] # components s
      else (case components s of [] \<Rightarrow> [[c]] | x # xs \<Rightarrow> (c # x) # xs))"

fun join_components :: "string list \<Rightarrow> string" where
  "join_components [] = []"
| "join_components [x] = x"
| "join_components (x # y # ys) = x @ CHR ''/'' # join_components (y # ys)"

definition proper :: "string \<Rightarrow> bool" where
  "proper x \<longleftrightarrow> x \<noteq> [] \<and> x \<noteq> ''.''"

definition segments :: "string \<Rightarrow> string list" where
  "segments p = filter proper (components p)"

lemma components_ne [simp]: "components s \<noteq> []"
  by (induction s) (auto split: list.splits)

lemma components_no_slash: "x \<in> set (components s) \<Longrightarrow> CHR ''/'' \<notin> set x"
  by (induction s arbitrary: x) (auto split: list.splits if_splits)

lemma components_chars: "x \<in> set (components s) \<Longrightarrow> set x \<subseteq> set s"
  by (induction s arbitrary: x) (fastforce split: list.splits if_splits)+

lemma join_components_Cons: "xs \<noteq> [] \<Longrightarrow> join_components (x # xs) = x @ CHR ''/'' # join_components xs"
  by (cases xs) simp_all

lemma join_components_snoc:
  "xs \<noteq> [] \<Longrightarrow> join_components (xs @ [x]) = join_components xs @ CHR ''/'' # x"
  by (induction xs rule: join_components.induct) simp_all

lemma join_components_append:
  "xs \<noteq> [] \<Longrightarrow> ys \<noteq> [] \<Longrightarrow> join_components (xs @ ys) = join_components xs @ CHR ''/'' # join_components ys"
  by (induction xs rule: join_components.induct) (simp_all add: join_components_Cons)

lemma join_of_components [simp]: "join_components (components s) = s"
proof (induction s)
  case (Cons c s)
  then show ?case by (cases "components s"; cases "tl (components s)") auto
qed simp

lemma components_simple: "CHR ''/'' \<notin> set x \<Longrightarrow> components x = [x]"
  by (induction x) auto

lemma components_append: "components (s @ CHR ''/'' # t) = components s @ components t"
  by (induction s) (auto split: list.splits)

lemma components_of_join:
  "xs \<noteq> [] \<Longrightarrow> \<forall>x \<in> set xs. CHR ''/'' \<notin> set x \<Longrightarrow> components (join_components xs) = xs"
  by (induction xs rule: join_components.induct) (simp_all add: components_simple components_append)

lemma join_components_chars: "set (join_components xs) \<subseteq> insert (CHR ''/'') (\<Union> (set ` set xs))"
  by (induction xs rule: join_components.induct) auto

lemma join_components_empty: "\<forall>x \<in> set xs. x \<noteq> [] \<Longrightarrow> join_components xs = [] \<longleftrightarrow> xs = []"
  by (induction xs rule: join_components.induct) auto

lemma last_join_components:
  "xs \<noteq> [] \<Longrightarrow> \<forall>x \<in> set xs. x \<noteq> [] \<and> CHR ''/'' \<notin> set x \<Longrightarrow> last (join_components xs) \<noteq> CHR ''/''"
  by (induction xs rule: join_components.induct)
    (auto simp: join_components_empty, metis last_in_set)

lemma segments_proper: "x \<in> set (segments p) \<Longrightarrow> proper x \<and> x \<noteq> [] \<and> CHR ''/'' \<notin> set x"
  by (auto simp: segments_def proper_def dest: components_no_slash)

lemma segments_join:
  assumes "\<forall>x \<in> set xs. proper x \<and> CHR ''/'' \<notin> set x"
  shows "segments (join_components xs) = xs"
proof (cases "xs = []")
  case True
  then show ?thesis by (simp add: segments_def proper_def)
next
  case False
  with assms show ?thesis by (simp add: segments_def components_of_join filter_id_conv)
qed

section \<open>Canonicalization keeps the proper segments\<close>

lemma split_segment_relpath:
  "type \<noteq> type_uri \<Longrightarrow> split_segment type s = (takeWhile (\<lambda>c. c \<noteq> CHR ''/'') s, dropWhile (\<lambda>c. c \<noteq> CHR ''/'') s)"
  by (induction s) (auto simp: encoded_slash_def)

lemma first_segment_cases:
  obtains (last) "CHR ''/'' \<notin> set s" "takeWhile (\<lambda>c. c \<noteq> CHR ''/'') s = s" "dropWhile (\<lambda>c. c \<noteq> CHR ''/'') s = []"
  | (more) x r where "s = x @ CHR ''/'' # r" "CHR ''/'' \<notin> set x"
      "takeWhile (\<lambda>c. c \<noteq> CHR ''/'') s = x" "dropWhile (\<lambda>c. c \<noteq> CHR ''/'') s = CHR ''/'' # r"
proof (cases "CHR ''/'' \<in> set s")
  case True
  then obtain x r where "s = x @ CHR ''/'' # r" "CHR ''/'' \<notin> set x" by (meson split_list_first)
  then show thesis by (intro that(2)) (auto simp: takeWhile_append dropWhile_append)
next
  case False
  then show thesis by (intro that(1)) (auto simp: takeWhile_eq_all_conv dropWhile_eq_Nil_conv)
qed

lemma canonicalize_loop_segments:
  assumes "type \<noteq> type_uri"
  shows "\<exists>tail. canonicalize_loop type src dst n = (dst @ tail, n + length (segments src))
    \<and> (if segments src = [] then tail = []
       else tail = join_components (segments src) \<or> tail = join_components (segments src) @ ''/'')"
proof (induction "length src" arbitrary: src dst n rule: less_induct)
  case less
  note loop = canonicalize_loop.simps [of type src dst n]
  have noop: "noop_segment type seg \<longleftrightarrow> \<not> proper seg" for seg
    using assms by (auto simp: noop_segment_def proper_def)
  show ?case
  proof (cases rule: first_segment_cases [of src])
    case last
    have stop: "canonicalize_loop type [] d m = (d, m)" for d m by (simp add: canonicalize_loop.simps)
    have "canonicalize_loop type src dst n = (if proper src then (dst @ src, n + 1) else (dst, n))"
    proof (cases "src = []")
      case True
      then show ?thesis by (simp add: stop proper_def)
    next
      case False
      have "split_segment type src = (src, [])" using last assms by (simp add: split_segment_relpath)
      then show ?thesis
        unfolding loop using False assms by (simp add: slash_length_def noop stop)
    qed
    moreover have "segments src = (if proper src then [src] else [])"
      by (simp add: segments_def components_simple last(1))
    ultimately show ?thesis by simp
  next
    case (more x r)
    have seg: "segments src = (if proper x then x # segments r else segments r)"
      by (simp add: segments_def more components_append components_simple)
    have len: "length r < length src" by (simp add: more)
    have step: "canonicalize_loop type src dst n =
      (if proper x then canonicalize_loop type r (dst @ x @ ''/'') (n + 1)
       else canonicalize_loop type r dst n)"
      unfolding loop using assms more by (simp add: split_segment_relpath slash_length_def noop)
    show ?thesis
    proof (cases "proper x")
      case True
      from less [OF len, of "dst @ x @ ''/''" "n + 1"] show ?thesis
        by (auto simp: step seg True join_components_Cons split: if_splits)
    next
      case False
      with less [OF len, of dst n] show ?thesis by (simp only: step seg if_False)
    qed
  qed
qed

lemma relpath_canonicalize_eq: "svn_relpath_canonicalize p = Inr (join_components (segments p))"
proof (cases "p = []")
  case True
  then show ?thesis by (simp add: svn_relpath_canonicalize_def canonicalize_def segments_def proper_def)
next
  case False
  obtain tail where t: "canonicalize_loop type_relpath p [] 0 = (tail, length (segments p))"
    "if segments p = [] then tail = []
     else tail = join_components (segments p) \<or> tail = join_components (segments p) @ ''/''"
    using canonicalize_loop_segments [of type_relpath p "[]" 0] by auto
  have "last (join_components (segments p)) \<noteq> CHR ''/''" if "segments p \<noteq> []"
    using that by (intro last_join_components) (auto dest: segments_proper)
  with t False show ?thesis
    by (auto simp: svn_relpath_canonicalize_def canonicalize_def split: if_splits)
qed

section \<open>Canonical relative paths\<close>

lemma c_string_chars: "set s \<subseteq> set t \<Longrightarrow> c_string t \<Longrightarrow> c_string s"
  by (auto simp: c_string_def)

lemma scan_segment_end:
  assumes "CHR ''/'' \<notin> set x" "c_string x" "r = [] \<or> deref r = CHR ''/''"
  shows "scan_segment (pre @ x @ r) (length pre) = length pre + length x"
proof -
  have "takeWhile (\<lambda>c. c \<noteq> CHR 0x00 \<and> c \<noteq> CHR ''/'') (x @ r) = x"
    using assms by (cases r) (auto simp: c_string_def takeWhile_append takeWhile_eq_all_conv)
  then show ?thesis by (simp add: scan_segment_def)
qed

text \<open>
  The loop at the end of a segment \<open>x\<close> that starts after \<open>pre\<close>: it accepts exactly when
  \<open>x\<close> and all components after it are proper. An empty \<open>x\<close> is met only at the end of the
  path, after a slash.
\<close>

lemma canonical_loop_components:
  assumes "c_string x" "c_string r" "CHR ''/'' \<notin> set x" "r = [] \<or> deref r = CHR ''/''"
    and "x = [] \<Longrightarrow> r = [] \<and> pre \<noteq> [] \<and> last pre = CHR ''/''"
  shows "relpath_canonical_loop (pre @ x @ r) (length pre + length x) (length pre)
    \<longleftrightarrow> proper x \<and> (r = [] \<or> (\<forall>y \<in> set (components (tl r)). proper y))"
  using assms
proof (induction "length r" arbitrary: pre x r rule: less_induct)
  case less
  let ?p = "pre @ x @ r"
  note loop = relpath_canonical_loop.simps [of ?p "length pre + length x" "length pre"]
  have at: "deref_at ?p (length pre) = deref (x @ r)" "deref_at ?p (length pre + length x) = deref r"
    "deref_at ?p (length pre + length x + 1) = deref_at r 1"
    using deref_at_append_add [of "pre @ x" r 1] deref_at_append [of "pre @ x" r] by simp_all
  show ?case
  proof (cases "x = []")
    case True
    with less.prems obtain pre' where pre: "pre = pre' @ ''/''" and r: "r = []"
      by (cases pre rule: rev_cases) auto
    have "deref_at ?p (length pre + length x - 1) = CHR ''/''"
      using deref_at_append [of pre' "''/''"] by (simp add: True r pre)
    with True r show ?thesis unfolding loop at by (simp add: proper_def)
  next
    case False
    have prev: "deref_at ?p (length pre + length x - 1) \<noteq> CHR ''/''"
    proof -
      obtain x' c where x: "x = x' @ [c]" using False by (cases x rule: rev_cases) auto
      then have "deref_at ?p (length pre + length x - 1) = c"
        using deref_at_append [of "pre @ x'" "c # r"] by simp
      with x less.prems(3) show ?thesis by auto
    qed
    have dot: "length pre + length x - length pre = 1 \<and> deref (x @ r) = CHR ''.'' \<longleftrightarrow> x = ''.''"
      using False by (cases x) auto
    show ?thesis
    proof (cases r)
      case Nil
      with False dot prev show ?thesis unfolding loop at by (auto simp: proper_def)
    next
      case (Cons c r')
      then have c: "c = CHR ''/''" using less.prems(4) by simp
      obtain y r'' where r': "r' = y @ r''" and y: "CHR ''/'' \<notin> set y"
        and r'': "r'' = [] \<or> deref r'' = CHR ''/''"
        by (rule first_segment_cases [of r']) auto
      have comps: "components r' = y # (if r'' = [] then [] else components (tl r''))"
        using r'' y by (cases r'') (auto simp: r' components_simple components_append)
      have at1: "deref_at r 1 = deref r'" by (simp add: Cons)
      show ?thesis
      proof (cases "y = [] \<and> r'' \<noteq> []")
        case True
        then have "deref r' = CHR ''/''" using r'' by (simp add: r')
        then have "\<not> relpath_canonical_loop ?p (length pre + length x) (length pre)"
          unfolding loop at at1 by (simp add: Cons c)
        moreover have "\<not> proper y" using True by (simp add: proper_def)
        ultimately show ?thesis by (simp add: Cons comps)
      next
        case no: False
        let ?pre = "pre @ x @ ''/''"
        have p: "?p = ?pre @ y @ r''" by (simp add: Cons c r')
        have cs: "c_string y" "c_string r''" using less.prems(2) by (simp_all add: Cons r')
        have "deref r' \<noteq> CHR ''/''" using no y r'' by (cases y) (auto simp: r')
        then have "relpath_canonical_loop ?p (length pre + length x) (length pre) \<longleftrightarrow>
          x \<noteq> ''.'' \<and> relpath_canonical_loop (?pre @ y @ r'') (length ?pre + length y) (length ?pre)"
          unfolding loop at at1 dot
          using scan_segment_end [OF y cs(1) r'', of ?pre] by (simp add: Cons c r')
        also have "relpath_canonical_loop (?pre @ y @ r'') (length ?pre + length y) (length ?pre)
          \<longleftrightarrow> proper y \<and> (r'' = [] \<or> (\<forall>z \<in> set (components (tl r'')). proper z))"
          using cs y r'' no by (intro less.hyps) (auto simp: Cons r')
        finally show ?thesis using False by (auto simp: Cons comps proper_def)
      qed
    qed
  qed
qed

lemma relpath_canonical_iff:
  assumes "c_string p"
  shows "relpath_is_canonical p \<longleftrightarrow> p = [] \<or> (\<forall>x \<in> set (components p). proper x)"
proof (cases "p = [] \<or> deref p = CHR ''/''")
  case True
  then show ?thesis by (cases p) (auto simp: relpath_is_canonical_def proper_def)
next
  case False
  obtain y r where p: "p = y @ r" and y: "CHR ''/'' \<notin> set y" and r: "r = [] \<or> deref r = CHR ''/''"
    by (rule first_segment_cases [of p]) auto
  have comps: "components p = y # (if r = [] then [] else components (tl r))"
    using r y by (cases r) (auto simp: p components_simple components_append)
  have cs: "c_string y" "c_string r" using assms by (simp_all add: p)
  have ne: "y \<noteq> []" using False r p by (cases y) auto
  have d: "deref p \<noteq> CHR 0x00" using False assms by (cases p) auto
  have "relpath_is_canonical p \<longleftrightarrow> relpath_canonical_loop p (scan_segment p 0) 0"
    using False d by (simp add: relpath_is_canonical_def relpath_canonical_loop.simps [of p 0 0])
  also have "scan_segment p 0 = length y"
    using scan_segment_end [OF y cs(1) r, of "[]"] by (simp add: p)
  also have "relpath_canonical_loop p (length y) 0 \<longleftrightarrow>
      proper y \<and> (r = [] \<or> (\<forall>z \<in> set (components (tl r)). proper z))"
    using canonical_loop_components [OF cs y r, of "[]"] ne by (simp add: p)
  finally show ?thesis using False by (auto simp: comps)
qed

text \<open>A canonical path is the join of its segments, and every such join is canonical.\<close>

lemma canonical_segments:
  "c_string p \<Longrightarrow> relpath_is_canonical p \<Longrightarrow> join_components (segments p) = p"
  by (auto simp: relpath_canonical_iff segments_def proper_def filter_id_conv)

lemma canonical_join_components:
  assumes "\<forall>x \<in> set xs. proper x \<and> CHR ''/'' \<notin> set x \<and> c_string x"
  shows "relpath_is_canonical (join_components xs)" "c_string (join_components xs)"
proof -
  show c: "c_string (join_components xs)"
    using join_components_chars [of xs] assms by (fastforce simp: c_string_def)
  show "relpath_is_canonical (join_components xs)"
    using assms unfolding relpath_canonical_iff [OF c] by (cases "xs = []") (simp_all add: components_of_join)
qed

lemma segments_c_string: "c_string p \<Longrightarrow> x \<in> set (segments p) \<Longrightarrow> c_string x"
  by (auto simp: segments_def intro: c_string_chars [OF components_chars])

lemma relpath_canonical_cases:
  assumes "c_string p" "relpath_is_canonical p"
  obtains "p = []" | (single) "CHR ''/'' \<notin> set p" "proper p"
  | (path) d x where "p = d @ CHR ''/'' # x" "CHR ''/'' \<notin> set x" "proper x" "relpath_is_canonical d"
      "c_string d" "d \<noteq> []"
proof (cases "segments p" rule: rev_cases)
  case Nil
  with canonical_segments [OF assms] have "p = []" by simp
  then show thesis by (rule that(1))
next
  case (snoc xs x)
  have all: "\<forall>y \<in> set (xs @ [x]). proper y \<and> y \<noteq> [] \<and> CHR ''/'' \<notin> set y \<and> c_string y"
    using segments_proper segments_c_string [OF assms(1)] snoc by metis
  have p: "p = join_components (xs @ [x])" using canonical_segments [OF assms] snoc by simp
  show thesis
  proof (cases "xs = []")
    case True
    with p all show thesis by (intro that(2)) auto
  next
    case False
    with p all canonical_join_components [of xs] show thesis
      by (intro that(3) [of "join_components xs" x])
         (auto simp: join_components_snoc join_components_empty)
  qed
qed

lemma canonical_Nil [simp]: "relpath_is_canonical []"
  by (simp add: relpath_is_canonical_def)

lemma canonical_single:
  "c_string x \<Longrightarrow> CHR ''/'' \<notin> set x \<Longrightarrow> relpath_is_canonical x \<longleftrightarrow> x = [] \<or> proper x"
  by (simp add: relpath_canonical_iff components_simple)

lemma canonical_append:
  "c_string d \<Longrightarrow> c_string x \<Longrightarrow> relpath_is_canonical (d @ CHR ''/'' # x) \<longleftrightarrow>
     d \<noteq> [] \<and> x \<noteq> [] \<and> relpath_is_canonical d \<and> relpath_is_canonical x"
  by (cases "d = []"; cases "x = []")
     (auto simp: relpath_canonical_iff components_append, auto simp: proper_def)

section \<open>Splitting and joining\<close>

lemma no_slash_deref_at: "CHR ''/'' \<notin> set x \<Longrightarrow> deref_at x n \<noteq> CHR ''/''"
proof (cases "n < length x")
  case True
  then have "deref_at x n \<in> set x" by (simp add: deref_at_nth)
  moreover assume "CHR ''/'' \<notin> set x"
  ultimately show ?thesis by metis
qed (simp add: deref_at_def)

lemma previous_slash_none: "CHR ''/'' \<notin> set x \<Longrightarrow> previous_slash x n = 0"
  by (induction n) (simp_all add: no_slash_deref_at)

lemma previous_slash_at:
  "CHR ''/'' \<notin> set x \<Longrightarrow> previous_slash (d @ CHR ''/'' # x) (length d + n) = length d"
proof (induction n)
  case 0
  then show ?case using deref_at_append [of d "CHR ''/'' # x"] by (cases d rule: rev_cases) auto
next
  case (Suc n)
  have "deref_at (d @ CHR ''/'' # x) (length d + Suc n) = deref_at x n"
    using deref_at_append_add [of d "CHR ''/'' # x" "Suc n"] by simp
  with Suc no_slash_deref_at [of x n] show ?case by simp
qed

lemma basename_start_none: "CHR ''/'' \<notin> set x \<Longrightarrow> basename_start x n = 0"
  by (induction n) (simp_all add: no_slash_deref_at)

lemma basename_start_at:
  "CHR ''/'' \<notin> set x \<Longrightarrow> basename_start (d @ CHR ''/'' # x) (length d + 1 + n) = length d + 1"
proof (induction n)
  case 0
  then show ?case using deref_at_append [of d "CHR ''/'' # x"] by simp
next
  case (Suc n)
  have "deref_at (d @ CHR ''/'' # x) (length d + Suc n) = deref_at x n"
    using deref_at_append_add [of d "CHR ''/'' # x" "Suc n"] by simp
  with Suc no_slash_deref_at [of x n] show ?case by simp
qed

lemma relpath_dirname_simps:
  "CHR ''/'' \<notin> set x \<Longrightarrow> relpath_is_canonical x \<Longrightarrow> svn_relpath_dirname x = Inr []"
  "CHR ''/'' \<notin> set x \<Longrightarrow> x \<noteq> [] \<Longrightarrow> relpath_is_canonical (d @ CHR ''/'' # x) \<Longrightarrow>
   svn_relpath_dirname (d @ CHR ''/'' # x) = Inr d"
  using previous_slash_at [of x d "length x"]
  by (simp_all add: svn_relpath_dirname_def relpath_previous_segment_def previous_slash_none)

lemma relpath_basename_simps:
  "CHR ''/'' \<notin> set x \<Longrightarrow> relpath_is_canonical x \<Longrightarrow> svn_relpath_basename x = Inr x"
  "CHR ''/'' \<notin> set x \<Longrightarrow> relpath_is_canonical (d @ CHR ''/'' # x) \<Longrightarrow>
   svn_relpath_basename (d @ CHR ''/'' # x) = Inr x"
  using basename_start_at [of x d "length x"]
  by (simp_all add: svn_relpath_basename_def basename_start_none)

lemma relpath_join_ok:
  assumes "c_string b" "c_string c" "relpath_is_canonical b" "relpath_is_canonical c"
  shows "\<exists>p. svn_relpath_join b c = Inr p \<and> relpath_is_canonical p \<and> c_string p
    \<and> segments p = segments b @ segments c"
proof -
  have "segments [] = []" by (simp add: segments_def proper_def)
  with assms show ?thesis
    by (auto simp: svn_relpath_join_def canonical_append segments_def components_append)
qed

lemma canonical_iff_join: "c_string q \<Longrightarrow> relpath_is_canonical q \<longleftrightarrow> join_components (segments q) = q"
  using canonical_segments [of q] canonical_join_components(1) [of "segments q"]
    segments_proper [of _ q] segments_c_string [of q] by metis

section \<open>Ancestors\<close>

text \<open>\<open>b\<close> is \<open>p\<close> or a directory above it.\<close>

definition at_boundary :: "string \<Rightarrow> nat \<Rightarrow> bool" where
  "at_boundary p n \<longleftrightarrow> n = length p \<or> n < length p \<and> p ! n = CHR ''/''"

definition ancestor :: "string \<Rightarrow> string \<Rightarrow> bool" where
  "ancestor b p \<longleftrightarrow> b = [] \<or> length b \<le> length p \<and> take (length b) p = b \<and> at_boundary p (length b)"

lemma ancestor_cases: "ancestor b p \<longleftrightarrow> b = [] \<or> p = b \<or> (\<exists>r. p = b @ CHR ''/'' # r)"
proof
  assume "ancestor b p"
  then show "b = [] \<or> p = b \<or> (\<exists>r. p = b @ CHR ''/'' # r)"
    by (auto simp: ancestor_def at_boundary_def) (metis append_take_drop_id drop_Cons_nth)
qed (auto simp: ancestor_def at_boundary_def nth_append)

lemma ancestor_canonical:
  "ancestor b p \<Longrightarrow> c_string p \<Longrightarrow> relpath_is_canonical p \<Longrightarrow> relpath_is_canonical b \<and> c_string b"
  by (auto simp: ancestor_cases canonical_append)

lemma skip_ancestor_ancestor:
  assumes "c_string parent" "relpath_is_canonical parent" "c_string child" "relpath_is_canonical child"
  shows "\<exists>res. svn_relpath_skip_ancestor parent child = Inr res \<and> (res \<noteq> None \<longleftrightarrow> ancestor parent child)"
    and "svn_relpath_skip_ancestor parent child = Inr (Some r) \<longleftrightarrow> svn_relpath_join parent r = Inr child"
proof -
  consider (empty) "parent = []" | (same) "child = parent" "parent \<noteq> []"
    | (below) s where "child = parent @ CHR ''/'' # s" "parent \<noteq> []"
    | (other) "\<not> ancestor parent child" "parent \<noteq> []"
    by (auto simp: ancestor_cases)
  then have "(\<exists>res. svn_relpath_skip_ancestor parent child = Inr res \<and> (res \<noteq> None \<longleftrightarrow> ancestor parent child))
    \<and> (svn_relpath_skip_ancestor parent child = Inr (Some r) \<longleftrightarrow> svn_relpath_join parent r = Inr child)"
  proof cases
    case empty
    with assms show ?thesis
      by (auto simp: svn_relpath_skip_ancestor_def svn_relpath_join_def ancestor_def SVN_ERR_ASSERT_Inr_iff)
  next
    case same
    with assms show ?thesis
      by (auto simp: svn_relpath_skip_ancestor_def svn_relpath_join_def ancestor_cases SVN_ERR_ASSERT_Inr_iff
          deref_at_def)
  next
    case below
    have "deref_at child (length parent) = CHR ''/''"
      using deref_at_append [of parent "CHR ''/'' # s"] below by simp
    with below assms show ?thesis
      by (auto simp: svn_relpath_skip_ancestor_def svn_relpath_join_def ancestor_cases
          SVN_ERR_ASSERT_Inr_iff canonical_append)
  next
    case other
    have "\<not> (take (length parent) child = parent
        \<and> (deref_at child (length parent) = CHR 0x00 \<or> deref_at child (length parent) = CHR ''/''))"
    proof
      assume a: "take (length parent) child = parent
        \<and> (deref_at child (length parent) = CHR 0x00 \<or> deref_at child (length parent) = CHR ''/'')"
      then have "length parent \<le> length child" by (metis length_take min.cobounded1)
      with a other assms(3) show False
        using c_string_deref_at [of child "length parent"] deref_at_nth [of "length parent" child]
        by (auto simp: ancestor_def at_boundary_def)
    qed
    then have "svn_relpath_skip_ancestor parent child = Inr None"
      using other assms by (auto simp: svn_relpath_skip_ancestor_def Let_def)
    moreover have "svn_relpath_join parent r \<noteq> Inr child"
      using other by (auto simp: svn_relpath_join_def SVN_ERR_ASSERT_Inr_iff ancestor_cases)
    ultimately show ?thesis using other by simp
  qed
  then show "\<exists>res. svn_relpath_skip_ancestor parent child = Inr res \<and> (res \<noteq> None \<longleftrightarrow> ancestor parent child)"
    and "svn_relpath_skip_ancestor parent child = Inr (Some r) \<longleftrightarrow> svn_relpath_join parent r = Inr child"
    by blast+
qed

lemma common_prefix_spec:
  "\<exists>k. fst (common_prefix as bs i ld) = i + k \<and> k \<le> length as \<and> k \<le> length bs
     \<and> take k as = take k bs \<and> (k < length as \<longrightarrow> k < length bs \<longrightarrow> as ! k \<noteq> bs ! k)
     \<and> (snd (common_prefix as bs i ld) = ld \<and> (\<forall>j < k. as ! j \<noteq> CHR ''/'')
        \<or> (\<exists>j < k. snd (common_prefix as bs i ld) = i + j \<and> as ! j = CHR ''/''
              \<and> (\<forall>j' < k. as ! j' = CHR ''/'' \<longrightarrow> j' \<le> j)))"
proof (induction as bs i ld rule: common_prefix.induct)
  case (1 a as b bs i ld)
  show ?case
  proof (cases "a = b")
    case False
    then show ?thesis by (intro exI [of _ 0]) simp
  next
    case True
    define ld' where "ld' = (if a = CHR ''/'' then i else ld)"
    from 1 [OF True] obtain k where k: "fst (common_prefix as bs (i + 1) ld') = i + 1 + k"
      "k \<le> length as" "k \<le> length bs" "take k as = take k bs"
      "k < length as \<longrightarrow> k < length bs \<longrightarrow> as ! k \<noteq> bs ! k"
      and sep: "snd (common_prefix as bs (i + 1) ld') = ld' \<and> (\<forall>j < k. as ! j \<noteq> CHR ''/'')
        \<or> (\<exists>j < k. snd (common_prefix as bs (i + 1) ld') = i + 1 + j \<and> as ! j = CHR ''/''
              \<and> (\<forall>j' < k. as ! j' = CHR ''/'' \<longrightarrow> j' \<le> j))"
      unfolding ld'_def by blast
    have step: "common_prefix (a # as) (b # bs) i ld = common_prefix as bs (i + 1) ld'"
      using True by (simp add: ld'_def)
    have "snd (common_prefix as bs (i + 1) ld') = ld \<and> (\<forall>j < Suc k. (a # as) ! j \<noteq> CHR ''/'')
        \<or> (\<exists>j < Suc k. snd (common_prefix as bs (i + 1) ld') = i + j \<and> (a # as) ! j = CHR ''/''
              \<and> (\<forall>j' < Suc k. (a # as) ! j' = CHR ''/'' \<longrightarrow> j' \<le> j))"
      using sep
    proof
      assume none: "snd (common_prefix as bs (i + 1) ld') = ld' \<and> (\<forall>j < k. as ! j \<noteq> CHR ''/'')"
      show ?thesis
      proof (cases "a = CHR ''/''")
        case True
        with none show ?thesis by (intro disjI2 exI [of _ 0]) (auto simp: ld'_def less_Suc_eq_0_disj)
      next
        case False
        with none show ?thesis by (intro disjI1) (auto simp: ld'_def less_Suc_eq_0_disj)
      qed
    next
      assume "\<exists>j < k. snd (common_prefix as bs (i + 1) ld') = i + 1 + j \<and> as ! j = CHR ''/''
              \<and> (\<forall>j' < k. as ! j' = CHR ''/'' \<longrightarrow> j' \<le> j)"
      then obtain j where "j < k" "snd (common_prefix as bs (i + 1) ld') = i + 1 + j" "as ! j = CHR ''/''"
        "\<forall>j' < k. as ! j' = CHR ''/'' \<longrightarrow> j' \<le> j" by blast
      then show ?thesis by (intro disjI2 exI [of _ "Suc j"]) (auto simp: less_Suc_eq_0_disj)
    qed
    with k True show ?thesis unfolding step by (intro exI [of _ "Suc k"]) auto
  qed
qed auto

lemma ancestor_take: "at_boundary p n \<Longrightarrow> n \<le> length p \<Longrightarrow> ancestor (take n p) p"
  by (auto simp: ancestor_def)

lemma ancestor_of_take:
  assumes "ancestor b p" "length b \<le> n" "n \<le> length p"
  shows "ancestor b (take n p)"
proof (cases "b = []")
  case True
  then show ?thesis by (simp add: ancestor_def)
next
  case False
  with assms have "take (length b) (take n p) = b" "at_boundary p (length b)"
    by (simp_all add: ancestor_def min_absorb1)
  with assms(2,3) show ?thesis by (auto simp: ancestor_def at_boundary_def)
qed

lemma longest_ancestor_ancestor:
  assumes p: "c_string p" "relpath_is_canonical p" and q: "c_string q" "relpath_is_canonical q"
  defines "n \<equiv> get_longest_ancestor_length type_relpath p q"
  shows "ancestor (take n p) p \<and> ancestor (take n p) q
    \<and> (\<forall>b. ancestor b p \<and> ancestor b q \<longrightarrow> ancestor b (take n p))"
proof (cases "p = [] \<or> q = []")
  case True
  then show ?thesis by (auto simp: n_def get_longest_ancestor_length_def ancestor_cases)
next
  case False
  have first: "deref p \<noteq> CHR ''/''" "deref q \<noteq> CHR ''/''"
    using assms(1-4) False by (auto simp: relpath_is_canonical_def split: if_splits)
  obtain i ld where cp: "common_prefix p q 0 0 = (i, ld)" by force
  from common_prefix_spec [of p q 0 0] have i: "i \<le> length p" "i \<le> length q" "take i p = take i q"
      "i < length p \<Longrightarrow> i < length q \<Longrightarrow> p ! i \<noteq> q ! i"
    and ld: "ld = 0 \<and> (\<forall>j < i. p ! j \<noteq> CHR ''/'')
        \<or> (ld < i \<and> p ! ld = CHR ''/'' \<and> (\<forall>j' < i. p ! j' = CHR ''/'' \<longrightarrow> j' \<le> ld))"
    by (auto simp: cp)
  have nth: "p ! j = q ! j" if "j < i" for j using that i(3) by (metis nth_take)
  define both where "both \<longleftrightarrow> at_boundary p i \<and> at_boundary q i"
  have both: "both \<longleftrightarrow> i = length p \<and> deref_at q i = CHR ''/''
      \<or> i = length q \<and> deref_at p i = CHR ''/'' \<or> i = length p \<and> i = length q"
    using i deref_at_nth [of i p] deref_at_nth [of i q] deref_at_in_range [of p i] deref_at_in_range [of q i]
    by (auto simp: both_def at_boundary_def deref_at_def)
  have n: "n = (if both then i else ld)"
    using False first by (auto simp: n_def get_longest_ancestor_length_def cp both)
  have common: "length b \<le> n" if b: "ancestor b p" "ancestor b q" for b
  proof (cases "b = []")
    case ne: False
    have "take (length b) p = take (length b) q" using b ne by (simp add: ancestor_def)
    then have le: "length b \<le> i"
      using b ne i(4) by (intro leI notI) (auto simp: ancestor_def, metis nth_take order_less_le_trans)
    show ?thesis
    proof (cases "length b = i")
      case True
      with b ne have both by (simp add: both_def ancestor_def)
      with True n show ?thesis by simp
    next
      case False
      with le b ne i have "length b < i" "p ! length b = CHR ''/''"
        by (auto simp: ancestor_def at_boundary_def)
      with ld n show ?thesis by (auto split: if_splits)
    qed
  qed simp
  show ?thesis
  proof (cases "both \<or> 0 < ld")
    case True
    have "n \<le> i" using n ld by auto
    moreover have "at_boundary p n" "at_boundary q n"
      using True n ld nth [of ld] i by (auto simp: both_def at_boundary_def split: if_splits)
    moreover have "take n p = take n q" using i(3) \<open>n \<le> i\<close> by (metis min_absorb1 take_take)
    moreover have "n \<le> length p" "n \<le> length q" using i(1,2) \<open>n \<le> i\<close> by simp_all
    ultimately have "ancestor (take n p) p" "ancestor (take n p) q"
      using ancestor_take [of p n] ancestor_take [of q n] by simp_all
    moreover have "ancestor b (take n p)" if "ancestor b p" "ancestor b q" for b
      using that(1) common [OF that] \<open>n \<le> length p\<close> by (rule ancestor_of_take)
    ultimately show ?thesis by blast
  next
    case False
    with n have n0: "n = 0" by auto
    have "b = []" if "ancestor b p" "ancestor b q" for b
      using common [OF that] n0 by simp
    then have all: "\<forall>b. ancestor b p \<and> ancestor b q \<longrightarrow> b = []" by blast
    have "ancestor [] x" for x by (simp add: ancestor_def)
    moreover have "take n p = []" using n0 by simp
    ultimately show ?thesis using all by metis
  qed
qed

section \<open>The order of paths\<close>

text \<open>The comparison as one recursion: the end of a path is least, then the separator.\<close>

fun path_cmp :: "string \<Rightarrow> string \<Rightarrow> int" where
  "path_cmp [] [] = 0"
| "path_cmp [] (b # bs) = -1"
| "path_cmp (a # as) [] = 1"
| "path_cmp (a # as) (b # bs) =
     (if a = b then path_cmp as bs
      else if a = CHR ''/'' then -1
      else if b = CHR ''/'' then 1
      else if (of_char a :: nat) < of_char b then -1 else 1)"

lemma skip_common_Cons: "skip_common (c # p) (c # q) n (Suc i) = Suc (skip_common p q n i)"
  by (induction n arbitrary: i) auto

lemma compare_paths_Cons:
  "c \<noteq> CHR 0x00 \<Longrightarrow> path_order (c # p) (c # q) = path_order p q"
  by (simp add: path_order_def strlen_def skip_common_Cons Let_def)

lemma of_char_0: "(of_char c :: nat) = 0 \<longleftrightarrow> c = CHR 0x00"
proof
  assume "(of_char c :: nat) = 0"
  then have "char_of (of_char c :: nat) = (char_of (0 :: nat) :: char)" by simp
  also have "(char_of (0 :: nat) :: char) = CHR 0x00" by (simp add: char_of_def)
  finally show "c = CHR 0x00" by simp
qed simp

lemma compare_paths_diff:
  assumes "deref p \<noteq> deref q"
  shows "path_order p q =
    (if deref p = CHR ''/'' \<and> deref q = CHR 0x00 then 1
     else if deref q = CHR ''/'' \<and> deref p = CHR 0x00 then -1
     else if deref p = CHR ''/'' then -1 else if deref q = CHR ''/'' then 1
     else if (of_char (deref p) :: nat) < of_char (deref q) then -1 else 1)"
proof -
  have "skip_common p q n 0 = 0" for n using assms by (cases n) auto
  moreover have "\<not> (strlen p = strlen q \<and> (0::nat) \<ge> strlen p)"
    using assms by (cases p; cases q) (auto simp: strlen_def split: if_splits)
  ultimately show ?thesis
    by (simp add: path_order_def Let_def split: if_splits)
qed

lemma compare_paths_path_cmp: "path_order p q = path_cmp (c_bytes p) (c_bytes q)"
proof (induction p arbitrary: q)
  case Nil
  show ?case
  proof (cases "c_bytes q")
    case Nil
    then show ?thesis by (simp add: path_order_def strlen_def)
  next
    case (Cons b bs)
    then have "deref q = b" "b \<noteq> CHR 0x00" by (cases q; auto split: if_splits)+
    then show ?thesis using compare_paths_diff [of "[]" q] Cons of_char_0 [of b] by auto
  qed
next
  case (Cons a p)
  consider (nul) "c_bytes q = []" | (same) q' where "q = a # q'" "a \<noteq> CHR 0x00"
    | (diff) b q' where "q = b # q'" "b \<noteq> CHR 0x00" "a \<noteq> b"
    by (cases q; cases "deref q = CHR 0x00"; cases "deref q = a"; force)
  then show ?case
  proof cases
    case nul
    then have "deref q = CHR 0x00" by (cases q) (auto split: if_splits)
    moreover have "path_order (CHR 0x00 # p) q = 0" using nul
      by (simp add: path_order_def strlen_def)
    ultimately show ?thesis
      using nul compare_paths_diff [of "a # p" q] of_char_0 [of a] by auto
  next
    case same
    with Cons.IH [of q'] show ?thesis by (simp add: compare_paths_Cons)
  next
    case diff
    then show ?thesis using compare_paths_diff [of "a # p" q] of_char_0 [of b] by auto
  qed
qed

lemma path_cmp_flip: "path_cmp a b = - path_cmp b a"
proof (induction a b rule: path_cmp.induct)
  case (4 a as b bs)
  have "(of_char a :: nat) < of_char b \<or> (of_char b :: nat) < of_char a" if "a \<noteq> b"
    using that by (metis nat_neq_iff of_char_eq_iff)
  with 4 show ?case by auto
qed auto

lemma path_cmp_trans: "path_cmp a b \<le> 0 \<Longrightarrow> path_cmp b c \<le> 0 \<Longrightarrow> path_cmp a c \<le> 0"
proof (induction a c arbitrary: b rule: path_cmp.induct)
  case (3 a as)
  then show ?case by (cases b) auto
next
  case (4 x xs z zs)
  then obtain y ys where b: "b = y # ys" by (cases b) auto
  have "(of_char u :: nat) < of_char v \<or> (of_char v :: nat) < of_char u" if "u \<noteq> v" for u v
    using that by (metis nat_neq_iff of_char_eq_iff)
  then show ?case using 4 b by (fastforce split: if_splits)
qed auto

interpretation path_cmp: comparator path_order
  using path_cmp_flip path_cmp_trans
  by unfold_locales (metis compare_paths_path_cmp sgn_minus, metis compare_paths_path_cmp)

interpretation items_path_cmp: comparator items_path_order
  unfolding items_path_order_def
  by unfold_locales (rule path_cmp.cmp_flip, rule path_cmp.cmp_trans)

text \<open>Sorting and comparing under the assertions on the paths.\<close>

lemma compare_paths_canonical:
  "path_is_canonical p \<Longrightarrow> path_is_canonical q \<Longrightarrow> svn_path_compare_paths p q = Inr (path_order p q)"
  by (simp add: svn_path_compare_paths_def)

lemma strstr_found_append: "strstr_found s needle \<Longrightarrow> \<exists>a b. s = a @ needle @ b"
proof (induction s)
  case (Cons c s)
  show ?case
  proof (cases "take (length needle) (c # s) = needle")
    case True
    then have "c # s = [] @ needle @ drop (length needle) (c # s)"
      by (metis append_Nil append_take_drop_id)
    then show ?thesis by blast
  next
    case False
    with Cons obtain a b where "s = a @ needle @ b" by auto
    then have "c # s = (c # a) @ needle @ b" by simp
    then show ?thesis by blast
  qed
qed auto

text \<open>Canonical relative and filesystem paths meet the approximation.\<close>

lemma components_path_is_canonical:
  assumes "c_string p" "''.'' \<notin> set (components p)" "last (components p) \<noteq> [] \<or> p = [] \<or> p = ''/''"
  shows "path_is_canonical p"
proof -
  have "\<not> strstr_found p ''/./''"
  proof
    assume "strstr_found p ''/./''"
    then obtain a b where "p = a @ ''/./'' @ b" using strstr_found_append by blast
    then have "p = a @ CHR ''/'' # ''.'' @ CHR ''/'' # b" by simp
    then have "components p = components a @ components ''.'' @ components b"
      by (simp only: components_append)
    with assms(2) show False by simp
  qed
  moreover have "p \<noteq> ''.''" using assms(2) by auto
  moreover have "p = [] \<or> p = ''/'' \<or> p ! (length p - 1) \<noteq> CHR ''/''"
  proof (cases p rule: rev_cases)
    case (snoc q c)
    then show ?thesis using assms(3) components_append [of q "[]"] by (cases "c = CHR ''/''") auto
  qed simp
  moreover have "c_bytes p = p" "strlen p = length p"
    using assms(1) by (simp_all add: strlen_def c_bytes_c_string)
  moreover have "p = [x] \<longleftrightarrow> length p = 1 \<and> deref_at p 0 = x" for x
    by (cases p) auto
  ultimately show ?thesis
    by (auto simp: path_is_canonical_def deref_at_nth Let_def)
qed

lemma relpath_path_is_canonical:
  assumes "c_string p" "relpath_is_canonical p"
  shows "path_is_canonical p"
proof (cases "p = []")
  case False
  with assms have c: "\<forall>x \<in> set (components p). proper x" by (simp add: relpath_canonical_iff)
  then have "last (components p) \<noteq> []" "''.'' \<notin> set (components p)"
    by (auto simp: proper_def)
  then show ?thesis using assms(1) by (intro components_path_is_canonical) simp_all
qed (simp add: path_is_canonical_def strlen_def)

lemma fspath_path_is_canonical:
  assumes "c_string p" "svn_fspath__is_canonical p"
  shows "path_is_canonical p"
proof -
  obtain q where p: "p = CHR ''/'' # q" "relpath_is_canonical q"
    using assms(2) by (cases p) (auto simp: svn_fspath__is_canonical_def)
  show ?thesis
  proof (cases "q = []")
    case True
    then show ?thesis by (simp add: p path_is_canonical_def strlen_def)
  next
    case False
    then have "\<forall>x \<in> set (components q). proper x" using assms(1) p by (simp add: relpath_canonical_iff)
    then have "last (components q) \<noteq> []" "''.'' \<notin> set (components q)"
      by (auto simp: proper_def)
    then show ?thesis using assms(1) by (intro components_path_is_canonical) (simp_all add: p)
  qed
qed

definition canonical_keys :: "(string \<times> 'v) list \<Rightarrow> bool" where
  "canonical_keys h \<longleftrightarrow> (\<forall>k \<in> fst ` set h. path_is_canonical k)"

lemma canonical_keys_simps [simp]:
  "canonical_keys []"
  "canonical_keys (e # h) \<longleftrightarrow> path_is_canonical (fst e) \<and> canonical_keys h"
  by (simp_all add: canonical_keys_def)

lemma compare_items_canonical:
  "canonical_keys h \<Longrightarrow> a \<in> set h \<Longrightarrow> b \<in> set h \<Longrightarrow>
   svn_sort_compare_items_as_paths a b = Inr (items_path_order a b)"
  by (auto simp: svn_sort_compare_items_as_paths_def items_path_order_def canonical_keys_def
      compare_paths_canonical)

definition hash_by_paths :: "'v apr_hash \<Rightarrow> (string \<times> 'v) list" where
  "hash_by_paths h = (if items_sorted items_path_order h then h else qsort items_path_order h)"

lemma sort_hash_by_paths:
  "canonical_keys h \<Longrightarrow> svn_sort__hash h svn_sort_compare_items_as_paths = Inr (hash_by_paths h)"
  unfolding hash_by_paths_def by (rule sort_hash_Inr) (auto simp: compare_items_canonical)

lemma mset_hash_by_paths: "mset (hash_by_paths h) = mset h"
  by (simp add: hash_by_paths_def items_path_cmp.mset_qsort)

lemma set_hash_by_paths [simp]: "set (hash_by_paths h) = set h"
  using mset_hash_by_paths by (metis set_mset_mset)

text \<open>A table with a single entry is sorted without a comparison.\<close>

lemma sort_hash_single: "svn_sort__hash [e] cmp = Inr [e]"
  by (simp add: svn_sort__hash_def)


text \<open>What lies strictly between a path and something below it is itself below it.\<close>

lemma path_cmp_between:
  "path_cmp d x < 0 \<Longrightarrow> path_cmp x (d @ CHR ''/'' # r) < 0 \<Longrightarrow> \<exists>s. x = d @ CHR ''/'' # s"
proof (induction d arbitrary: x)
  case Nil
  then show ?case by (cases x) (auto split: if_splits)
next
  case (Cons c d)
  then obtain x' where x: "x = c # x'" by (cases x) (auto split: if_splits)
  with Cons show ?case by auto
qed

lemma path_cmp_eq: "path_cmp a b = 0 \<longleftrightarrow> a = b"
  by (induction a b rule: path_cmp.induct) auto

lemma path_cmp_below: "path_cmp d (d @ CHR ''/'' # r) < 0"
  by (induction d) auto

section \<open>Properties of the path operations\<close>

text \<open>
  C32. Canonicalizing a relative path always succeeds; the result is the path made of the
  components that are neither empty nor a single dot; it is canonical in the sense of the
  code's own test; canonicalizing it again changes nothing, and a path is its own
  canonical form exactly when it passes the test.
\<close>

theorem relpath_canonicalize_correct:
  assumes "c_string path"
  shows "\<exists>canon. svn_relpath_canonicalize path = Inr canon
    \<and> canon = join_components (filter (\<lambda>x. x \<noteq> [] \<and> x \<noteq> ''.'') (components path))
    \<and> svn_relpath_is_canonical canon
    \<and> svn_relpath_canonicalize canon = Inr canon
    \<and> (svn_relpath_is_canonical path \<longleftrightarrow> canon = path)"
proof -
  have seg: "segments path = filter (\<lambda>x. x \<noteq> [] \<and> x \<noteq> ''.'') (components path)"
    unfolding segments_def proper_def ..
  have all: "\<forall>x \<in> set (segments path). proper x \<and> CHR ''/'' \<notin> set x \<and> c_string x"
    using segments_proper segments_c_string [OF assms] by blast
  note can = canonical_join_components [OF all]
  have "segments (join_components (segments path)) = segments path"
    using all by (intro segments_join) blast
  with can canonical_segments [OF assms] show ?thesis
    unfolding seg [symmetric] by (auto simp: relpath_canonicalize_eq svn_relpath_is_canonical_def)
qed

theorem relpath_canonicalize_correct_witness:
  "\<exists>canon. svn_relpath_canonicalize ''/a//./b/'' = Inr canon
    \<and> canon = join_components (filter (\<lambda>x. x \<noteq> [] \<and> x \<noteq> ''.'') (components ''/a//./b/''))
    \<and> svn_relpath_is_canonical canon
    \<and> svn_relpath_canonicalize canon = Inr canon
    \<and> (svn_relpath_is_canonical ''/a//./b/'' \<longleftrightarrow> canon = ''/a//./b/'')"
  by (rule relpath_canonicalize_correct) simp

text \<open>
  Splitting and joining are inverse: a canonical non-empty relative path is the join
  of its dirname and its basename, its basename is one component, and splitting the join
  of a canonical path with one component gives them back.
\<close>

theorem relpath_split_join:
  assumes "c_string path" "relpath_is_canonical path" "path \<noteq> []"
    and "c_string component" "relpath_is_canonical component" "component \<noteq> []" "CHR ''/'' \<notin> set component"
  shows "\<exists>dir base. svn_relpath_split path = Inr (dir, base) \<and> svn_relpath_join dir base = Inr path
      \<and> CHR ''/'' \<notin> set base
    \<and> (\<exists>joined. svn_relpath_join path component = Inr joined
         \<and> svn_relpath_split joined = Inr (path, component))"
proof -
  have j: "relpath_is_canonical (path @ CHR ''/'' # component)"
    using assms by (simp add: canonical_append)
  then have "svn_relpath_split (path @ CHR ''/'' # component) = Inr (path, component)"
    using assms by (simp add: svn_relpath_split_def relpath_dirname_simps relpath_basename_simps)
  then have 1: "\<exists>joined. svn_relpath_join path component = Inr joined
         \<and> svn_relpath_split joined = Inr (path, component)"
    using assms by (simp add: svn_relpath_join_def)
  from assms(1,2) show ?thesis
  proof (cases rule: relpath_canonical_cases)
    case single
    then have "svn_relpath_split path = Inr ([], path)"
      using assms by (simp add: svn_relpath_split_def relpath_dirname_simps relpath_basename_simps)
    with 1 single assms show ?thesis by (simp add: svn_relpath_join_def)
  next
    case (path d x)
    have x: "x \<noteq> []" "c_string x" using path(1,3) assms(1) by (auto simp: proper_def)
    then have "svn_relpath_split path = Inr (d, x)"
      using path assms(2) by (simp add: svn_relpath_split_def relpath_dirname_simps relpath_basename_simps)
    moreover have "relpath_is_canonical x" using path x by (simp add: canonical_single)
    ultimately show ?thesis using 1 path x by (simp add: svn_relpath_join_def)
  qed (use assms in simp)
qed

theorem relpath_split_join_witness:
  "\<exists>dir base. svn_relpath_split ''a/b'' = Inr (dir, base) \<and> svn_relpath_join dir base = Inr ''a/b''
      \<and> CHR ''/'' \<notin> set base
    \<and> (\<exists>joined. svn_relpath_join ''a/b'' ''c'' = Inr joined
         \<and> svn_relpath_split joined = Inr (''a/b'', ''c''))"
  by (rule relpath_split_join) (simp_all add: relpath_canonical_iff proper_def)

text \<open>
  C34. Skipping an ancestor inverts the join: for canonical relative paths the code returns
  a remainder exactly when joining it to the parent gives the child, and otherwise NULL.
\<close>

theorem relpath_skip_ancestor_join:
  assumes "c_string parent" "relpath_is_canonical parent" "c_string child" "relpath_is_canonical child"
  shows "(svn_relpath_skip_ancestor parent child = Inr (Some remainder)
      \<longleftrightarrow> svn_relpath_join parent remainder = Inr child)
    \<and> ((\<forall>r. svn_relpath_join parent r \<noteq> Inr child) \<longleftrightarrow> svn_relpath_skip_ancestor parent child = Inr None)"
  using skip_ancestor_ancestor [OF assms] by (metis option.exhaust sum.inject(2) option.distinct(1))

theorem relpath_skip_ancestor_join_witness:
  "(svn_relpath_skip_ancestor ''a/b'' ''a/b/c'' = Inr (Some ''c'')
      \<longleftrightarrow> svn_relpath_join ''a/b'' ''c'' = Inr ''a/b/c'')
    \<and> ((\<forall>r. svn_relpath_join ''a/b'' r \<noteq> Inr ''a/b/c'')
        \<longleftrightarrow> svn_relpath_skip_ancestor ''a/b'' ''a/b/c'' = Inr None)"
  by (rule relpath_skip_ancestor_join) (simp_all add: relpath_canonical_iff proper_def)

text \<open>
  C33. The longest common ancestor of two canonical relative paths is canonical, is an
  ancestor of both (skipping it succeeds on both), and everything that is an ancestor of
  both is an ancestor of it.
\<close>

theorem relpath_longest_ancestor_correct:
  assumes "c_string p" "relpath_is_canonical p" "c_string q" "relpath_is_canonical q"
  shows "\<exists>a r1 r2. svn_relpath_get_longest_ancestor p q = Inr a \<and> relpath_is_canonical a
    \<and> svn_relpath_join a r1 = Inr p \<and> svn_relpath_join a r2 = Inr q
    \<and> (\<forall>b s1 s2. c_string b \<and> svn_relpath_join b s1 = Inr p \<and> svn_relpath_join b s2 = Inr q
         \<longrightarrow> (\<exists>s. svn_relpath_join b s = Inr a))"
proof -
  define a where "a = take (get_longest_ancestor_length type_relpath p q) p"
  have anc: "ancestor a p" "ancestor a q"
    and long: "\<And>b. ancestor b p \<Longrightarrow> ancestor b q \<Longrightarrow> ancestor b a"
    using longest_ancestor_ancestor [OF assms] by (auto simp: a_def)
  have can: "relpath_is_canonical a" "c_string a" using ancestor_canonical [OF anc(1) assms(1,2)] by auto
  have join: "(\<exists>s. svn_relpath_join b s = Inr x) \<longleftrightarrow> ancestor b x"
    if "c_string b" "relpath_is_canonical b" "c_string x" "relpath_is_canonical x" for b x
    using skip_ancestor_ancestor [OF that] by (metis option.exhaust sum.inject(2) option.distinct(1))
  have bcan: "relpath_is_canonical b" if "svn_relpath_join b s = Inr x" for b s x
    using that by (auto simp: svn_relpath_join_def SVN_ERR_ASSERT_Inr_iff)
  have "\<exists>s. svn_relpath_join b s = Inr a"
    if "c_string b" "svn_relpath_join b s1 = Inr p" "svn_relpath_join b s2 = Inr q" for b s1 s2
    using that join [of b p] join [of b q] join [of b a] bcan [of b s1 p] assms can long by blast
  moreover have "svn_relpath_get_longest_ancestor p q = Inr a"
    using assms by (simp add: svn_relpath_get_longest_ancestor_def a_def)
  ultimately show ?thesis using join [of a p] join [of a q] anc can assms by blast
qed

theorem relpath_longest_ancestor_correct_witness:
  "\<exists>a r1 r2. svn_relpath_get_longest_ancestor ''a/bc/d'' ''a/bd'' = Inr a \<and> relpath_is_canonical a
    \<and> svn_relpath_join a r1 = Inr ''a/bc/d'' \<and> svn_relpath_join a r2 = Inr ''a/bd''
    \<and> (\<forall>b s1 s2. c_string b \<and> svn_relpath_join b s1 = Inr ''a/bc/d'' \<and> svn_relpath_join b s2 = Inr ''a/bd''
         \<longrightarrow> (\<exists>s. svn_relpath_join b s = Inr a))"
  by (rule relpath_longest_ancestor_correct) (simp_all add: relpath_canonical_iff proper_def)

text \<open>
  Canonicalizing a filesystem path always succeeds, the result passes the code's test
  for a canonical filesystem path, a second canonicalization changes nothing, and a path
  is its own canonical form exactly when it passes the test.
\<close>

theorem fspath_canonicalize_correct:
  assumes "c_string fspath"
  shows "\<exists>canon. svn_fspath__canonicalize fspath = Inr canon
    \<and> svn_fspath__is_canonical canon \<and> svn_fspath__canonicalize canon = Inr canon
    \<and> (svn_fspath__is_canonical fspath \<longleftrightarrow> canon = fspath)"
proof -
  have slash: "segments (CHR ''/'' # s) = segments s" for s by (simp add: segments_def proper_def)
  have eq: "svn_fspath__canonicalize s = Inr (CHR ''/'' # join_components (segments s))" for s
    by (simp add: svn_fspath__canonicalize_def relpath_canonicalize_eq segments_def proper_def)
  have all: "\<forall>x \<in> set (segments fspath). proper x \<and> CHR ''/'' \<notin> set x \<and> c_string x"
    using segments_proper segments_c_string [OF assms] by blast
  have "segments (join_components (segments fspath)) = segments fspath"
    using all by (intro segments_join) blast
  moreover have "svn_fspath__is_canonical fspath \<longleftrightarrow> CHR ''/'' # join_components (segments fspath) = fspath"
    using assms by (cases fspath) (auto simp: svn_fspath__is_canonical_def slash canonical_iff_join)
  ultimately show ?thesis
    using canonical_join_components [OF all] by (auto simp: eq slash svn_fspath__is_canonical_def)
qed

theorem fspath_canonicalize_correct_witness:
  "\<exists>canon. svn_fspath__canonicalize ''trunk//x/'' = Inr canon
    \<and> svn_fspath__is_canonical canon \<and> svn_fspath__canonicalize canon = Inr canon
    \<and> (svn_fspath__is_canonical ''trunk//x/'' \<longleftrightarrow> canon = ''trunk//x/'')"
  by (rule fspath_canonicalize_correct) simp

text \<open>
  Joining a canonical filesystem path and a canonical relative path never fails: the
  result passes the final assertion of the code, and skipping the filesystem path in it
  gives the relative path back.
\<close>

theorem fspath_join_skip:
  assumes "c_string fspath" "svn_fspath__is_canonical fspath" "c_string relpath" "relpath_is_canonical relpath"
  shows "\<exists>joined. svn_fspath__join fspath relpath = Inr joined \<and> svn_fspath__is_canonical joined
    \<and> svn_fspath__skip_ancestor fspath joined = Inr (Some relpath)"
proof -
  obtain f where f: "fspath = CHR ''/'' # f" "relpath_is_canonical f" "c_string f"
    using assms(1,2) by (cases fspath) (auto simp: svn_fspath__is_canonical_def)
  obtain p where p: "svn_relpath_join f relpath = Inr p" "relpath_is_canonical p" "c_string p"
    using relpath_join_ok [OF f(3) assms(3) f(2) assms(4)] by blast
  have skip: "svn_relpath_skip_ancestor f p = Inr (Some relpath)"
    using skip_ancestor_ancestor(2) [OF f(3,2) p(3,2)] p(1) by simp
  have "p = (if f = [] then relpath else if relpath = [] then f else f @ CHR ''/'' # relpath)"
    using p(1) f assms by (auto simp: svn_relpath_join_def)
  then have "svn_fspath__join fspath relpath = Inr (CHR ''/'' # p)"
    using f p(2) assms(4)
    by (auto simp: svn_fspath__join_def svn_fspath__is_canonical_def svn_relpath_is_canonical_def)
  with skip f p(2) show ?thesis
    by (simp add: svn_fspath__is_canonical_def svn_fspath__skip_ancestor_def)
qed

theorem fspath_join_skip_witness:
  "\<exists>joined. svn_fspath__join ''/a'' ''b/c'' = Inr joined \<and> svn_fspath__is_canonical joined
    \<and> svn_fspath__skip_ancestor ''/a'' joined = Inr (Some ''b/c'')"
  by (rule fspath_join_skip) (simp_all add: svn_fspath__is_canonical_def relpath_canonical_iff proper_def)

text \<open>
  Sorting paths with the code's comparison is depth first: every path between a
  directory and something below it, in the sorted array, is itself below that directory.
\<close>

theorem path_sort_depth_first:
  assumes "\<forall>p \<in> set paths. c_string p \<and> path_is_canonical p"
  shows "\<exists>sorted_paths. qsort_checked svn_sort_compare_paths paths = Inr sorted_paths
    \<and> mset sorted_paths = mset paths
    \<and> (\<forall>i j k r. i < j \<and> j < k \<and> k < length paths \<and> sorted_paths ! k = sorted_paths ! i @ CHR ''/'' # r \<longrightarrow>
         sorted_paths ! j = sorted_paths ! i \<or> (\<exists>s. sorted_paths ! j = sorted_paths ! i @ CHR ''/'' # s))"
proof -
  let ?q = "qsort path_order paths"
  have "qsort_checked svn_sort_compare_paths paths = Inr ?q"
    using assms by (intro qsort_checked_Inr) (auto simp: svn_sort_compare_paths_def compare_paths_canonical)
  moreover have mset: "mset ?q = mset paths" by (rule path_cmp.mset_qsort)
  moreover have "?q ! j = ?q ! i \<or> (\<exists>s. ?q ! j = ?q ! i @ CHR ''/'' # s)"
    if ijk: "i < j" "j < k" "k < length paths" "?q ! k = ?q ! i @ CHR ''/'' # r" for i j k r
  proof -
    have len: "length ?q = length paths" using mset by (metis size_mset)
    have cs: "c_string (?q ! n)" if "n < length paths" for n
      using that assms path_cmp.set_qsort [of paths] len by (metis nth_mem)
    have ord: "path_order (?q ! m) (?q ! n) \<le> 0" if "m < n" "n < length paths" for m n
      using path_cmp.ordered_qsort [of paths] that len
      by (simp add: path_cmp.ordered_def sorted_wrt_iff_nth_less)
    have cmp: "path_cmp (?q ! m) (?q ! n) \<le> 0" if "m < n" "n < length paths" for m n
      using ord [OF that] cs [of m] cs [of n] that by (simp add: compare_paths_path_cmp c_bytes_c_string)
    have "path_cmp (?q ! i) (?q ! j) \<le> 0" using ijk by (intro cmp) simp_all
    moreover have "path_cmp (?q ! j) (?q ! i @ CHR ''/'' # r) \<le> 0" using cmp [OF ijk(2,3)] ijk(4) by simp
    ultimately consider "path_cmp (?q ! i) (?q ! j) = 0" | "path_cmp (?q ! j) (?q ! i @ CHR ''/'' # r) = 0"
      | "path_cmp (?q ! i) (?q ! j) < 0" "path_cmp (?q ! j) (?q ! i @ CHR ''/'' # r) < 0"
      by linarith
    then show ?thesis
      using path_cmp_between [of "?q ! i" "?q ! j" r] by cases (auto simp: path_cmp_eq)
  qed
  ultimately show ?thesis by blast
qed

theorem path_sort_depth_first_witness:
  "\<exists>sorted_paths. qsort_checked svn_sort_compare_paths [''a/c'', ''a'', ''a-b'', ''a/b''] = Inr sorted_paths
    \<and> mset sorted_paths = mset [''a/c'', ''a'', ''a-b'', ''a/b'']
    \<and> (\<forall>i j k r. i < j \<and> j < k \<and> k < length [''a/c'', ''a'', ''a-b'', ''a/b'']
         \<and> sorted_paths ! k = sorted_paths ! i @ CHR ''/'' # r \<longrightarrow>
         sorted_paths ! j = sorted_paths ! i \<or> (\<exists>s. sorted_paths ! j = sorted_paths ! i @ CHR ''/'' # s))"
  by (rule path_sort_depth_first) (simp add: path_is_canonical_def strlen_def deref_at_def)

end
