(* ===== verification/Mergeinfo_Syntax.thy ===== *)
theory Mergeinfo_Syntax
  imports Rangelist_Merge Paths
begin

text \<open>
  The textual form of mergeinfo (libsvn\_subr/mergeinfo.c and \<open>svn_revnum_parse\<close> of
  types.c): printing of ranges, rangelists and mergeinfo, and the parser. A parser takes
  the input from the current position on and returns what it parsed with the rest of the
  input; the position \<open>end\<close> is the end of the string.
\<close>

section \<open>Characters and numbers\<close>

definition isspace :: "char \<Rightarrow> bool" where
  "isspace c \<longleftrightarrow> (let n = of_char c :: nat in n = 32 \<or> 9 \<le> n \<and> n \<le> 13)"

definition isdigit :: "char \<Rightarrow> bool" where
  "isdigit c \<longleftrightarrow> (let n = of_char c :: nat in 48 \<le> n \<and> n \<le> 57)"

definition digit_value :: "char \<Rightarrow> int" where
  "digit_value c = int (of_char c) - 48"

definition digits_value :: "string \<Rightarrow> int" where
  "digits_value ds = foldl (\<lambda>n d. 10 * n + digit_value d) 0 ds"

text \<open>
  The C library's \<open>strtol\<close> in base 10: leading white space (a newline included), an
  optional sign, digits; a value outside the range of \<open>long\<close> becomes the nearest bound.
  Without a digit nothing is consumed.
\<close>

definition strtol :: "string \<Rightarrow> int \<times> string" where
  "strtol str =
     (let s = dropWhile isspace str;
          neg = (deref s = CHR ''-'');
          s = (if deref s = CHR ''-'' \<or> deref s = CHR ''+'' then drop 1 s else s);
          ds = takeWhile isdigit s;
          v = (if neg then - digits_value ds else digits_value ds) in
      if ds = [] then (0, str) else (max LONG_MIN (min LONG_MAX v), drop (length ds) s))"

definition svn_revnum_parse :: "string \<Rightarrow> (svn_revnum_t \<times> string) svn_result" where
  "svn_revnum_parse str =
     (case strtol str of (res, endptr) \<Rightarrow>
        if length str = length endptr then Inl SVN_ERR_REVNUM_PARSE_FAILURE
        else if res < 0 then Inl SVN_ERR_REVNUM_PARSE_FAILURE
        else Inr (res, endptr))"

text \<open>The conversion \<open>%ld\<close>.\<close>

definition digit_char :: "nat \<Rightarrow> char" where
  "digit_char d = char_of (48 + d)"

fun nat_to_string :: "nat \<Rightarrow> string" where
  "nat_to_string n =
     (if n < 10 then [digit_char n] else nat_to_string (n div 10) @ [digit_char (n mod 10)])"

declare nat_to_string.simps [simp del]

definition ld_to_string :: "int \<Rightarrow> string" where
  "ld_to_string i = (if i < 0 then ''-'' @ nat_to_string (nat (- i)) else nat_to_string (nat i))"

section \<open>Printing\<close>

definition SVN_MERGEINFO_NONINHERITABLE_STR :: string where
  "SVN_MERGEINFO_NONINHERITABLE_STR = ''*''"

definition range_to_string :: "svn_merge_range_t \<Rightarrow> string" where
  "range_to_string rng =
     (let mark = (if inheritable rng then [] else SVN_MERGEINFO_NONINHERITABLE_STR) in
      if start rng = endr rng - 1 then ld_to_string (endr rng) @ mark
      else if start rng - 1 = endr rng then ''-'' @ ld_to_string (start rng) @ mark
      else if start rng < endr rng
      then ld_to_string (start rng + 1) @ ''-'' @ ld_to_string (endr rng) @ mark
      else ld_to_string (start rng) @ ''-'' @ ld_to_string (endr rng + 1) @ mark)"

fun svn_rangelist_to_string :: "svn_rangelist_t \<Rightarrow> string" where
  "svn_rangelist_to_string [] = []"
| "svn_rangelist_to_string [rng] = range_to_string rng"
| "svn_rangelist_to_string (rng # rng' # rest) =
     range_to_string rng @ '','' @ svn_rangelist_to_string (rng' # rest)"

type_synonym svn_mergeinfo_t = "svn_rangelist_t apr_hash"

type_synonym svn_mergeinfo_catalog_t = "svn_mergeinfo_t apr_hash"

definition mergeinfo_line :: "string option \<Rightarrow> string \<times> svn_rangelist_t \<Rightarrow> string" where
  "mergeinfo_line prefix elt =
     (case prefix of Some s \<Rightarrow> s | None \<Rightarrow> [])
     @ (if deref (fst elt) = CHR ''/'' then [] else ''/'') @ fst elt @ '':''
     @ svn_rangelist_to_string (snd elt)"

fun mergeinfo_lines :: "string option \<Rightarrow> (string \<times> svn_rangelist_t) list \<Rightarrow> string" where
  "mergeinfo_lines prefix [] = []"
| "mergeinfo_lines prefix [elt] = mergeinfo_line prefix elt"
| "mergeinfo_lines prefix (elt # elt' # rest) =
     mergeinfo_line prefix elt @ [newline] @ mergeinfo_lines prefix (elt' # rest)"

definition mergeinfo_to_stringbuf :: "svn_mergeinfo_t \<Rightarrow> string option \<Rightarrow> string svn_result" where
  "mergeinfo_to_stringbuf input prefix =
     SVN_ERR (svn_sort__hash input svn_sort_compare_items_as_paths) (\<lambda>sorted1.
     Inr (mergeinfo_lines prefix sorted1))"

definition svn_mergeinfo_to_string :: "svn_mergeinfo_t \<Rightarrow> string svn_result" where
  "svn_mergeinfo_to_string input = mergeinfo_to_stringbuf input None"

section \<open>Parsing a path\<close>

text \<open>The offset of the last colon of the line, if there is one.\<close>

fun last_colon :: "string \<Rightarrow> nat option" where
  "last_colon [] = None"
| "last_colon (c # s) =
     (case last_colon s of
        Some i \<Rightarrow> Some (Suc i)
      | None \<Rightarrow> if c = CHR '':'' then Some 0 else None)"

definition parse_pathname :: "string \<Rightarrow> (string \<times> string) svn_result" where
  "parse_pathname input =
     (case last_colon (takeWhile (\<lambda>c. c \<noteq> newline) input) of
        None \<Rightarrow> Inl SVN_ERR_MERGEINFO_PARSE_ERROR
      | Some i \<Rightarrow>
          if i = 0 then Inl SVN_ERR_MERGEINFO_PARSE_ERROR
          else SVN_ERR (svn_fspath__canonicalize (take i input)) (\<lambda>pathname.
                 Inr (pathname, drop i input)))"

section \<open>Parsing a rangelist\<close>

text \<open>The end of a range: the second revision after a dash, or the first revision.\<close>

definition parse_range_end :: "svn_revnum_t \<Rightarrow> string \<Rightarrow> (svn_revnum_t \<times> string) svn_result" where
  "parse_range_end firstrev cur =
     (if deref cur = CHR ''-'' then
        SVN_ERR (svn_revnum_parse (drop 1 cur)) (\<lambda>(secondrev, cur').
          if firstrev > secondrev then Inl SVN_ERR_MERGEINFO_PARSE_ERROR
          else if firstrev = secondrev then Inl SVN_ERR_MERGEINFO_PARSE_ERROR
          else Inr (secondrev, cur'))
      else Inr (firstrev, cur))"

definition parse_range :: "string \<Rightarrow> (svn_merge_range_t \<times> string) svn_result" where
  "parse_range cur =
     SVN_ERR (svn_revnum_parse cur) (\<lambda>(firstrev, cur').
       if deref cur' \<noteq> CHR ''-'' \<and> deref cur' \<noteq> newline \<and> deref cur' \<noteq> CHR '',''
          \<and> deref cur' \<noteq> CHR ''*'' \<and> cur' \<noteq> []
       then Inl SVN_ERR_MERGEINFO_PARSE_ERROR
       else if firstrev = 0 then Inl SVN_ERR_MERGEINFO_PARSE_ERROR
       else SVN_ERR (parse_range_end firstrev cur') (\<lambda>(lastrev, cur'').
         Inr (\<lparr>start = firstrev - 1, endr = lastrev, inheritable = True\<rparr>, cur'')))"

lemma revnum_parse_shorter:
  assumes "svn_revnum_parse str = Inr (r, rest)"
  shows "length rest < length str"
proof -
  have "length (dropWhile isspace str) \<le> length str" by (rule length_dropWhile_le)
  then have "length (snd (strtol str)) \<le> length str" by (auto simp: strtol_def Let_def)
  with assms show ?thesis by (auto simp: svn_revnum_parse_def split: prod.splits if_splits)
qed

lemma parse_range_shorter: "parse_range cur = Inr (rng, rest) \<Longrightarrow> length rest < length cur"
  by (auto simp: parse_range_def parse_range_end_def SVN_ERR_iffs split: if_splits
      dest!: revnum_parse_shorter)

text \<open>The main loop of \<open>parse_rangelist\<close>.\<close>

function parse_rangelist_loop ::
  "string \<Rightarrow> svn_rangelist_t \<Rightarrow> (svn_rangelist_t \<times> string) svn_result" where
  "parse_rangelist_loop cur rangelist =
     (if cur \<noteq> [] \<and> deref cur \<noteq> newline then
        SVN_ERR (parse_range cur) (\<lambda>(mrange, cur').
          if deref cur' = newline \<or> cur' = [] then Inr (rangelist @ [mrange], cur')
          else if deref cur' = CHR '','' then
            parse_rangelist_loop (drop 1 cur') (rangelist @ [mrange])
          else if deref cur' = CHR ''*'' then
            let mrange' = mrange\<lparr>inheritable := False\<rparr>; cur'' = drop 1 cur' in
            if deref cur'' = CHR '','' then
              parse_rangelist_loop (drop 1 cur'') (rangelist @ [mrange'])
            else if deref cur'' = newline \<or> cur'' = [] then
              Inr (rangelist @ [mrange'], cur'')
            else Inl SVN_ERR_MERGEINFO_PARSE_ERROR
          else Inl SVN_ERR_MERGEINFO_PARSE_ERROR)
      else if deref cur \<noteq> newline then Inl SVN_ERR_MERGEINFO_PARSE_ERROR
      else Inr (rangelist, cur))"
  by pat_completeness auto
termination
  by (relation "measure (\<lambda>(cur, rangelist). length cur)")
     (auto dest!: parse_range_shorter)

declare parse_rangelist_loop.simps [simp del]

definition parse_rangelist ::
  "string \<Rightarrow> svn_rangelist_t \<Rightarrow> (svn_rangelist_t \<times> string) svn_result" where
  "parse_rangelist input rangelist =
     (let cur = dropWhile (\<lambda>c. c \<noteq> newline \<and> isspace c) input in
      if deref cur = newline \<or> cur = [] then Inr (rangelist, cur)
      else parse_rangelist_loop cur rangelist)"

definition svn_rangelist__parse :: "string \<Rightarrow> svn_rangelist_t svn_result" where
  "svn_rangelist__parse str = SVN_ERR (parse_rangelist str []) (\<lambda>(rangelist, rest). Inr rangelist)"

section \<open>Parsing mergeinfo\<close>

text \<open>
  The loop of \<open>parse_revision_line\<close> over the sorted ranges: \<open>i\<close> is the index of the current
  range, the last range kept is the one before it.
\<close>

function combine_parsed_loop :: "svn_rangelist_t \<Rightarrow> nat \<Rightarrow> svn_rangelist_t svn_result" where
  "combine_parsed_loop rangelist i =
     (if i < length rangelist then
        let lastrange = rangelist ! (i - 1); rng = rangelist ! i in
        if start lastrange \<le> endr rng \<and> start rng \<le> endr lastrange then
          if start rng < endr lastrange \<and> inheritable rng \<noteq> inheritable lastrange
          then Inl SVN_ERR_MERGEINFO_PARSE_ERROR
          else if inheritable lastrange = inheritable rng then
            let rl = rangelist[i - 1 := lastrange\<lparr>endr := max (endr rng) (endr lastrange)\<rparr>]
            in combine_parsed_loop (take i rl @ drop (i + 1) rl) i
          else combine_parsed_loop rangelist (i + 1)
        else combine_parsed_loop rangelist (i + 1)
      else Inr rangelist)"
  by pat_completeness auto
termination
  by (relation "measure (\<lambda>(rl, i). length rl - i)") (auto simp: Let_def)

declare combine_parsed_loop.simps [simp del]

definition combine_parsed :: "svn_rangelist_t \<Rightarrow> svn_rangelist_t svn_result" where
  "combine_parsed rangelist =
     (if length rangelist > 1
      then combine_parsed_loop (qsort svn_sort_compare_ranges rangelist) 1
      else Inr rangelist)"

definition parse_revision_line ::
  "string \<Rightarrow> svn_mergeinfo_t \<Rightarrow> (string \<times> svn_mergeinfo_t) svn_result" where
  "parse_revision_line input hash =
     SVN_ERR (parse_pathname input) (\<lambda>(pathname, input1).
       if deref input1 \<noteq> CHR '':'' then Inl SVN_ERR_MERGEINFO_PARSE_ERROR
       else SVN_ERR (parse_rangelist (drop 1 input1) []) (\<lambda>(rangelist, input2).
         if length rangelist = 0 then Inl SVN_ERR_MERGEINFO_PARSE_ERROR
         else if input2 \<noteq> [] \<and> deref input2 \<noteq> newline then Inl SVN_ERR_MERGEINFO_PARSE_ERROR
         else
           let input3 = (if input2 \<noteq> [] then drop 1 input2 else input2) in
           SVN_ERR (combine_parsed rangelist) (\<lambda>rangelist1.
           SVN_ERR (case apr_hash_get hash pathname of
                      Some existing_rangelist \<Rightarrow> svn_rangelist_merge2 rangelist1 existing_rangelist
                    | None \<Rightarrow> Inr rangelist1) (\<lambda>rangelist2.
           Inr (input3, apr_hash_set hash pathname (svn_rangelist_dup rangelist2))))))"

lemma last_colon_less: "last_colon s = Some i \<Longrightarrow> i < length s"
  by (induction s arbitrary: i) (auto split: option.splits if_splits)

lemma parse_rangelist_loop_shorter:
  "parse_rangelist_loop cur rl = Inr (rl', rest) \<Longrightarrow> length rest \<le> length cur"
proof (induction "length cur" arbitrary: cur rl rule: less_induct)
  case less
  note loop = parse_rangelist_loop.simps [of cur rl]
  show ?case
  proof (cases "cur \<noteq> [] \<and> deref cur \<noteq> newline")
    case False
    with less.prems show ?thesis unfolding loop by (auto split: if_splits)
  next
    case True
    with less.prems obtain rng cur' where r: "parse_range cur = Inr (rng, cur')"
      unfolding loop by (auto simp: SVN_ERR_Inr_iff)
    note sh = parse_range_shorter [OF r]
    have 1: "length (drop 1 cur') < length cur" "length (drop 1 (drop 1 cur')) < length cur"
      using sh by simp_all
    have "length rest \<le> length (drop 1 cur')" if "parse_rangelist_loop (drop 1 cur') x = Inr (rl', rest)" for x
      using less.hyps [OF 1(1) that] .
    moreover have "length rest \<le> length (drop 1 (drop 1 cur'))"
      if "parse_rangelist_loop (drop 1 (drop 1 cur')) x = Inr (rl', rest)" for x
      using less.hyps [OF 1(2) that] .
    ultimately show ?thesis
      using less.prems True sh unfolding loop
      by (fastforce simp: r Let_def split: if_splits)
  qed
qed

lemma parse_rangelist_shorter:
  "parse_rangelist input rl = Inr (rl', rest) \<Longrightarrow> length rest \<le> length input"
  using length_dropWhile_le [of "\<lambda>c. c \<noteq> newline \<and> isspace c" input]
    parse_rangelist_loop_shorter [of "dropWhile (\<lambda>c. c \<noteq> newline \<and> isspace c) input" rl rl' rest]
  by (auto simp: parse_rangelist_def Let_def split: if_splits)

lemma parse_pathname_shorter: "parse_pathname input = Inr (p, rest) \<Longrightarrow> length rest \<le> length input"
  by (auto simp: parse_pathname_def SVN_ERR_iffs split: option.splits if_splits)

lemma parse_revision_line_shorter:
  assumes "parse_revision_line input hash = Inr (rest, hash')"
  shows "length rest < length input"
proof -
  obtain p input1 rl input2 where p: "parse_pathname input = Inr (p, input1)"
    and d: "deref input1 = CHR '':''" and r: "parse_rangelist (drop 1 input1) [] = Inr (rl, input2)"
    and rest: "rest = (if input2 \<noteq> [] then drop 1 input2 else input2)"
    using assms by (auto simp: parse_revision_line_def SVN_ERR_iffs Let_def split: if_splits option.splits)
  have "input1 \<noteq> []" using d by (cases input1) auto
  with parse_pathname_shorter [OF p] parse_rangelist_shorter [OF r] rest show ?thesis
    by (cases input1) (auto split: if_splits)
qed

function parse_top :: "string \<Rightarrow> svn_mergeinfo_t \<Rightarrow> svn_mergeinfo_t svn_result" where
  "parse_top input hash =
     (if input \<noteq> [] then
        SVN_ERR (parse_revision_line input hash) (\<lambda>(input', hash'). parse_top input' hash')
      else Inr hash)"
  by pat_completeness auto
termination
  by (relation "measure (\<lambda>(input, hash). length input)") (auto dest: parse_revision_line_shorter)

declare parse_top.simps [simp del]

text \<open>Every error becomes a mergeinfo parse error.\<close>

definition svn_mergeinfo_parse :: "string \<Rightarrow> svn_mergeinfo_t svn_result" where
  "svn_mergeinfo_parse input =
     (case parse_top input [] of
        Inl err \<Rightarrow> Inl SVN_ERR_MERGEINFO_PARSE_ERROR
      | Inr mergeinfo \<Rightarrow> Inr mergeinfo)"

section \<open>Numbers are read back\<close>

lemma of_char_digit_char: "d < 10 \<Longrightarrow> (of_char (digit_char d) :: nat) = 48 + d"
  by (simp add: digit_char_def of_char_of)

lemma digit_char_props:
  assumes "d < 10"
  shows "isdigit (digit_char d)" "\<not> isspace (digit_char d)" "digit_value (digit_char d) = int d"
proof -
  note o = of_char_digit_char [OF assms]
  show "isdigit (digit_char d)" "\<not> isspace (digit_char d)"
    using assms by (simp_all add: isdigit_def isspace_def o Let_def)
  show "digit_value (digit_char d) = int d" using o by (simp add: digit_value_def)
qed

lemma isdigit_not: "isdigit c \<Longrightarrow> \<not> isspace c \<and> c \<noteq> newline \<and> c \<noteq> CHR ''-'' \<and> c \<noteq> CHR ''+''
    \<and> c \<noteq> CHR '','' \<and> c \<noteq> CHR ''*'' \<and> c \<noteq> CHR '':'' \<and> c \<noteq> CHR 0x00"
  by (auto simp: isdigit_def isspace_def newline_def Let_def)

lemma nat_to_string_digits: "nat_to_string n \<noteq> [] \<and> (\<forall>c \<in> set (nat_to_string n). isdigit c)"
proof (induction n rule: nat_to_string.induct)
  case (1 n)
  then show ?case by (cases "n < 10") (auto simp: nat_to_string.simps [of n] digit_char_props)
qed

lemma digits_value_snoc: "digits_value (ds @ [d]) = 10 * digits_value ds + digit_value d"
  by (simp add: digits_value_def)

lemma digits_value_nat_to_string: "digits_value (nat_to_string n) = int n"
proof (induction n rule: nat_to_string.induct)
  case (1 n)
  show ?case
  proof (cases "n < 10")
    case True
    then show ?thesis by (simp add: nat_to_string.simps [of n] digits_value_def digit_char_props)
  next
    case False
    have "int n = int (10 * (n div 10) + n mod 10)" by simp
    then have "int n = 10 * int (n div 10) + int (n mod 10)" by (simp only: of_nat_add of_nat_mult of_nat_numeral)
    with 1 False show ?thesis
      by (simp add: nat_to_string.simps [of n] digits_value_snoc digit_char_props)
  qed
qed

definition number_ends :: "string \<Rightarrow> bool" where
  "number_ends rest \<longleftrightarrow> \<not> isdigit (deref rest)"

lemma revnum_parse_print:
  assumes "0 \<le> r" "r \<le> LONG_MAX" "number_ends rest"
  shows "svn_revnum_parse (ld_to_string r @ rest) = Inr (r, rest)"
proof -
  let ?ds = "nat_to_string (nat r)"
  obtain d ds where ds: "?ds = d # ds" using nat_to_string_digits [of "nat r"] by (cases ?ds) auto
  have dig: "isdigit d" "\<forall>c \<in> set ?ds. isdigit c" using nat_to_string_digits [of "nat r"] ds by auto
  have tw: "takeWhile isdigit (?ds @ rest) = ?ds"
    using dig(2) assms(3)
    by (cases rest) (auto simp: number_ends_def takeWhile_append takeWhile_eq_all_conv)
  have "strtol (?ds @ rest) = (r, rest)"
    using tw isdigit_not [OF dig(1)] assms(1,2) digits_value_nat_to_string [of "nat r"]
    by (simp add: strtol_def ds Let_def LONG_MIN_def LONG_MAX_def)
  with assms(1) ds show ?thesis by (simp add: ld_to_string_def svn_revnum_parse_def)
qed

section \<open>Rangelists are read back\<close>

definition printable_range :: "svn_merge_range_t \<Rightarrow> bool" where
  "printable_range r \<longleftrightarrow> IS_VALID_FORWARD_RANGE r \<and> endr r \<le> LONG_MAX"

definition range_text :: "svn_merge_range_t \<Rightarrow> string" where
  "range_text r = (if start r = endr r - 1 then ld_to_string (endr r)
     else ld_to_string (start r + 1) @ ''-'' @ ld_to_string (endr r))"

definition range_mark :: "svn_merge_range_t \<Rightarrow> string" where
  "range_mark r = (if inheritable r then [] else ''*'')"

lemma range_to_string_text:
  "printable_range r \<Longrightarrow> range_to_string r = range_text r @ range_mark r"
  by (auto simp: printable_range_def valid_range_iff range_to_string_def range_text_def range_mark_def
      SVN_MERGEINFO_NONINHERITABLE_STR_def Let_def)

lemma ld_to_string_chars:
  assumes "0 \<le> r" shows "ld_to_string r \<noteq> []" "\<forall>c \<in> set (ld_to_string r). isdigit c"
  using assms nat_to_string_digits [of "nat r"] by (simp_all add: ld_to_string_def)

lemma range_text_chars:
  assumes "printable_range r"
  shows "range_text r \<noteq> []" "isdigit (hd (range_text r))"
    "\<forall>c \<in> set (range_text r). isdigit c \<or> c = CHR ''-''"
proof -
  have "0 \<le> endr r" "0 \<le> start r + 1" using assms by (simp_all add: printable_range_def valid_range_iff)
  note c = ld_to_string_chars [OF this(1)] ld_to_string_chars [OF this(2)]
  show "range_text r \<noteq> []" "\<forall>c \<in> set (range_text r). isdigit c \<or> c = CHR ''-''"
    using c by (auto simp: range_text_def)
  show "isdigit (hd (range_text r))" using c by (simp add: range_text_def)
qed

definition range_ends :: "string \<Rightarrow> bool" where
  "range_ends rest \<longleftrightarrow> rest = [] \<or> deref rest = newline \<or> deref rest = CHR '','' \<or> deref rest = CHR ''*''"

lemma range_ends_number: "range_ends rest \<Longrightarrow> number_ends rest"
  by (auto simp: range_ends_def number_ends_def isdigit_def newline_def Let_def)

lemma parse_range_print:
  assumes r: "printable_range r" and rest: "range_ends rest"
  shows "parse_range (range_text r @ rest) = Inr (r\<lparr>inheritable := True\<rparr>, rest)"
proof -
  have b: "0 \<le> start r" "start r < endr r" "endr r \<le> LONG_MAX"
    using r by (simp_all add: printable_range_def valid_range_iff)
  have nodash: "deref rest \<noteq> CHR ''-''" using rest by (auto simp: range_ends_def newline_def)
  show ?thesis
  proof (cases "start r = endr r - 1")
    case True
    with b nodash rest range_ends_number [OF rest] show ?thesis
      by (auto simp: parse_range_def range_text_def parse_range_end_def revnum_parse_print range_ends_def)
  next
    case False
    have "number_ends (''-'' @ ld_to_string (endr r) @ rest)"
      by (simp add: number_ends_def isdigit_def)
    then have "svn_revnum_parse (ld_to_string (start r + 1) @ ''-'' @ ld_to_string (endr r) @ rest)
        = Inr (start r + 1, ''-'' @ ld_to_string (endr r) @ rest)"
      using b by (intro revnum_parse_print) simp_all
    moreover have "svn_revnum_parse (ld_to_string (endr r) @ rest) = Inr (endr r, rest)"
      using b range_ends_number [OF rest] by (intro revnum_parse_print) simp_all
    ultimately show ?thesis
      using False b by (simp add: parse_range_def range_text_def parse_range_end_def)
  qed
qed

lemma rangelist_to_string_Cons:
  "rs \<noteq> [] \<Longrightarrow> svn_rangelist_to_string (r # rs) = range_to_string r @ '','' @ svn_rangelist_to_string rs"
  by (cases rs) simp_all

lemma rangelist_text_chars:
  "\<forall>r \<in> set rl. printable_range r \<Longrightarrow>
   \<forall>c \<in> set (svn_rangelist_to_string rl). isdigit c \<or> c = CHR ''-'' \<or> c = CHR ''*'' \<or> c = CHR '',''"
  by (induction rl rule: svn_rangelist_to_string.induct)
     (auto simp: range_to_string_text range_mark_def dest: range_text_chars(3))

lemma parse_rangelist_loop_range:
  assumes "printable_range r" "range_ends rest"
  shows "parse_rangelist_loop (range_text r @ rest) acc =
    (if deref rest = newline \<or> rest = [] then Inr (acc @ [r\<lparr>inheritable := True\<rparr>], rest)
     else if deref rest = CHR '','' then parse_rangelist_loop (drop 1 rest) (acc @ [r\<lparr>inheritable := True\<rparr>])
     else if deref (drop 1 rest) = CHR '','' then
       parse_rangelist_loop (drop 2 rest) (acc @ [r\<lparr>inheritable := False\<rparr>])
     else if deref (drop 1 rest) = newline \<or> drop 1 rest = [] then
       Inr (acc @ [r\<lparr>inheritable := False\<rparr>], drop 1 rest)
     else Inl SVN_ERR_MERGEINFO_PARSE_ERROR)"
proof -
  obtain d ds where d: "range_text r = d # ds" "isdigit d"
    using range_text_chars [OF assms(1)] by (cases "range_text r") auto
  have "deref (range_text r @ rest) \<noteq> newline" "range_text r @ rest \<noteq> []"
    using d isdigit_not [of d] by simp_all
  with parse_range_print [OF assms] assms(2) show ?thesis
    unfolding parse_rangelist_loop.simps [of "range_text r @ rest" acc]
    by (auto simp: Let_def range_ends_def numeral_2_eq_2)
qed

lemma range_inheritable_id: "inheritable r \<Longrightarrow> r\<lparr>inheritable := True\<rparr> = r"
  "\<not> inheritable r \<Longrightarrow> r\<lparr>inheritable := False\<rparr> = r"
  by (cases r; simp)+

lemma parse_rangelist_loop_print:
  assumes "\<forall>r \<in> set rl. printable_range r" "rl \<noteq> []" "rest = [] \<or> deref rest = newline"
  shows "parse_rangelist_loop (svn_rangelist_to_string rl @ rest) acc = Inr (acc @ rl, rest)"
  using assms
proof (induction rl arbitrary: acc)
  case (Cons r rl)
  have r: "printable_range r" using Cons.prems by simp
  show ?case
  proof (cases "rl = []")
    case True
    have "range_ends (range_mark r @ rest)"
      using Cons.prems(3) by (auto simp: range_ends_def range_mark_def)
    with parse_rangelist_loop_range [OF r this] Cons.prems(3) True show ?thesis
      by (auto simp: range_to_string_text [OF r] range_mark_def range_inheritable_id newline_def)
  next
    case False
    let ?t = "svn_rangelist_to_string rl @ rest"
    have "parse_rangelist_loop (svn_rangelist_to_string (r # rl) @ rest) acc
        = parse_rangelist_loop (range_text r @ range_mark r @ '','' @ ?t) acc"
      using False by (simp add: rangelist_to_string_Cons range_to_string_text [OF r])
    also have "\<dots> = parse_rangelist_loop ?t (acc @ [r])"
      using parse_rangelist_loop_range [OF r, of "range_mark r @ '','' @ ?t" acc]
      by (cases "inheritable r")
         (simp_all add: range_mark_def range_ends_def newline_def range_inheritable_id numeral_2_eq_2)
    also have "\<dots> = Inr (acc @ r # rl, rest)" using Cons False by simp
    finally show ?thesis .
  qed
qed simp

lemma parse_rangelist_print:
  assumes "\<forall>r \<in> set rl. printable_range r" "rest = [] \<or> deref rest = newline"
  shows "parse_rangelist (svn_rangelist_to_string rl @ rest) [] = Inr (rl, rest)"
proof (cases "rl = []")
  case True
  with assms(2) show ?thesis by (cases rest) (auto simp: parse_rangelist_def)
next
  case False
  then obtain r rs where rl: "rl = r # rs" by (cases rl) auto
  then have "svn_rangelist_to_string rl \<noteq> [] \<and> isdigit (hd (svn_rangelist_to_string rl))"
    using range_text_chars [of r] assms(1) by (cases rs) (auto simp: range_to_string_text)
  then obtain d ds where d: "svn_rangelist_to_string rl = d # ds" "isdigit d"
    by (cases "svn_rangelist_to_string rl") auto
  with isdigit_not [OF d(2)] parse_rangelist_loop_print [OF assms(1) False assms(2), of "[]"] show ?thesis
    by (simp add: parse_rangelist_def)
qed

section \<open>Combining the parsed ranges\<close>

text \<open>No two neighbours that adjoin agree in inheritability.\<close>

fun compact :: "svn_rangelist_t \<Rightarrow> bool" where
  "compact (a # b # rl) \<longleftrightarrow> \<not> (endr a = start b \<and> inheritable a = inheritable b) \<and> compact (b # rl)"
| "compact _ = True"

lemma compact_snoc:
  "compact (rl @ [a, b]) \<longleftrightarrow> compact (rl @ [a]) \<and> \<not> (endr a = start b \<and> inheritable a = inheritable b)"
  by (induction rl rule: compact.induct) auto

lemma compact_replace_last:
  "start a' = start a \<Longrightarrow> inheritable a' = inheritable a \<Longrightarrow> compact (rl @ [a']) = compact (rl @ [a])"
  by (induction rl rule: compact.induct) auto

text \<open>The loop at index \<open>i\<close>: \<open>pre @ [l]\<close> has been combined, \<open>rs\<close> is still to be looked at.\<close>

lemma combine_parsed_loop_step:
  "combine_parsed_loop (pre @ l # r # rs) (Suc (length pre)) =
     (if start l \<le> endr r \<and> start r \<le> endr l then
        if start r < endr l \<and> inheritable r \<noteq> inheritable l then Inl SVN_ERR_MERGEINFO_PARSE_ERROR
        else if inheritable l = inheritable r
        then combine_parsed_loop (pre @ l\<lparr>endr := max (endr r) (endr l)\<rparr> # rs) (Suc (length pre))
        else combine_parsed_loop ((pre @ [l]) @ r # rs) (Suc (length (pre @ [l])))
      else combine_parsed_loop ((pre @ [l]) @ r # rs) (Suc (length (pre @ [l]))))"
  by (subst combine_parsed_loop.simps) (simp add: nth_append list_update_append Let_def)

lemma combine_parsed_loop_end:
  "combine_parsed_loop (pre @ [l]) (Suc (length pre)) = Inr (pre @ [l])"
  by (subst combine_parsed_loop.simps) simp

lemma combine_parsed_loop_compact:
  "wf_rangelist (pre @ l # rs) \<Longrightarrow> compact (l # rs) \<Longrightarrow>
   combine_parsed_loop (pre @ l # rs) (Suc (length pre)) = Inr (pre @ l # rs)"
proof (induction rs arbitrary: pre l)
  case Nil
  then show ?case by (simp add: combine_parsed_loop_end)
next
  case (Cons r rs)
  with Cons.IH [of "pre @ [l]" r] show ?case
    by (auto simp: combine_parsed_loop_step valid_range_iff)
qed

lemma combine_parsed_compact:
  assumes "wf_rangelist rl" "compact rl"
  shows "combine_parsed rl = Inr rl"
proof (cases rl)
  case (Cons l rs)
  have "qsort svn_sort_compare_ranges rl = rl"
    using assms(1) by (intro range_cmp.qsort_ordered wf_rangelist_ordered)
  with combine_parsed_loop_compact [of "[]" l rs] assms Cons show ?thesis
    by (simp add: combine_parsed_def)
qed (simp add: combine_parsed_def)

text \<open>Sorted ranges that do not overlap are combined without an error.\<close>

lemma combine_parsed_loop_wf:
  "wf_rangelist (pre @ l # rs) \<Longrightarrow>
   \<exists>out. combine_parsed_loop (pre @ l # rs) (Suc (length pre)) = Inr out"
proof (induction rs arbitrary: pre l)
  case Nil
  then show ?case by (simp add: combine_parsed_loop_end)
next
  case (Cons r rs)
  have v: "start l < endr l" "endr l \<le> start r" "start r < endr r" using Cons.prems
    by (auto simp: valid_range_iff)
  let ?l = "l\<lparr>endr := max (endr r) (endr l)\<rparr>"
  have "wf_rangelist (pre @ ?l # rs)" using Cons.prems v by (auto simp: valid_range_iff)
  then have "\<exists>out. combine_parsed_loop (pre @ ?l # rs) (Suc (length pre)) = Inr out" by (rule Cons.IH)
  moreover have "\<exists>out. combine_parsed_loop ((pre @ [l]) @ r # rs) (Suc (length (pre @ [l]))) = Inr out"
    using Cons.prems by (intro Cons.IH) simp
  ultimately show ?case using v by (simp add: combine_parsed_loop_step)
qed

lemma combine_parsed_wf:
  assumes "wf_rangelist rl"
  shows "\<exists>out. combine_parsed rl = Inr out"
proof (cases rl)
  case (Cons l rs)
  have "qsort svn_sort_compare_ranges rl = rl"
    using assms by (intro range_cmp.qsort_ordered wf_rangelist_ordered)
  with combine_parsed_loop_wf [of "[]" l rs] assms Cons show ?thesis
    by (simp add: combine_parsed_def)
qed (simp add: combine_parsed_def)

text \<open>What the loop makes of sorted forward ranges.\<close>

lemma combine_parsed_loop_sound:
  assumes "combine_parsed_loop (pre @ l # rs) (Suc (length pre)) = Inr out"
    and "wf_rangelist (pre @ [l])" "compact (pre @ [l])"
    and "\<forall>r \<in> set rs. IS_VALID_FORWARD_RANGE r \<and> start l \<le> start r"
    and "sorted_wrt (\<lambda>a b. start a \<le> start b) rs"
  shows "wf_rangelist out \<and> compact out \<and> revs out = revs (pre @ l # rs)
    \<and> inh_revs out = inh_revs (pre @ l # rs) \<and> out \<noteq> []"
  using assms
proof (induction rs arbitrary: pre l)
  case Nil
  then show ?case by (auto simp: combine_parsed_loop_end)
next
  case (Cons r rs)
  have v: "0 \<le> start r" "start r < endr r" "start l \<le> start r" "0 \<le> start l" "start l < endr l"
    "ends_before pre (start l)" "wf_rangelist pre"
    using Cons.prems(2,4) by (auto simp: valid_range_iff ends_before_def)
  show ?case
  proof (cases "start r \<le> endr l \<and> inheritable l = inheritable r")
    case True
    let ?l = "l\<lparr>endr := max (endr r) (endr l)\<rparr>"
    have run: "combine_parsed_loop (pre @ ?l # rs) (Suc (length pre)) = Inr out"
      using Cons.prems(1) True v by (simp add: combine_parsed_loop_step)
    have "wf_rangelist (pre @ [?l])" using v by (auto simp: valid_range_iff ends_before_def)
    moreover have "compact (pre @ [?l])"
      using Cons.prems(3) compact_replace_last [of ?l l pre] by simp
    ultimately have "wf_rangelist out \<and> compact out \<and> revs out = revs (pre @ ?l # rs)
      \<and> inh_revs out = inh_revs (pre @ ?l # rs) \<and> out \<noteq> []"
      using Cons.prems(4,5) by (intro Cons.IH [OF run]) auto
    moreover have "range_revs ?l = range_revs l \<union> range_revs r" using True v by auto
    ultimately show ?thesis using True by auto
  next
    case False
    then have run: "combine_parsed_loop ((pre @ [l]) @ r # rs) (Suc (length (pre @ [l]))) = Inr out"
      and sep: "endr l \<le> start r"
      using Cons.prems(1) v by (auto simp: combine_parsed_loop_step split: if_splits)
    have "wf_rangelist ((pre @ [l]) @ [r])"
      using Cons.prems(2) v sep by (auto simp: valid_range_iff ends_before_def)
    moreover have "compact ((pre @ [l]) @ [r])"
      using Cons.prems(3) False by (auto simp: compact_snoc)
    ultimately have "wf_rangelist out \<and> compact out \<and> revs out = revs ((pre @ [l]) @ r # rs)
      \<and> inh_revs out = inh_revs ((pre @ [l]) @ r # rs) \<and> out \<noteq> []"
      using Cons.prems(4,5) by (intro Cons.IH [OF run]) auto
    then show ?thesis by simp
  qed
qed

lemma ordered_ranges_starts: "range_cmp.ordered rl \<Longrightarrow> sorted_wrt (\<lambda>a b. start a \<le> start b) rl"
  unfolding range_cmp.ordered_def
  by (erule sorted_wrt_mono_rel [rotated]) (auto simp: svn_sort_compare_ranges_def split: if_splits)

lemma revs_set_cong: "set a = set b \<Longrightarrow> revs a = revs b \<and> inh_revs a = inh_revs b"
  by (simp add: revs_def inh_revs_def)

lemma combine_parsed_sound:
  assumes "combine_parsed rl = Inr out" "\<forall>r \<in> set rl. IS_VALID_FORWARD_RANGE r" "rl \<noteq> []"
  shows "wf_rangelist out \<and> compact out \<and> revs out = revs rl \<and> inh_revs out = inh_revs rl \<and> out \<noteq> []"
proof (cases "length rl > 1")
  case False
  with assms(3) obtain r where "rl = [r]" by (cases rl) auto
  with assms show ?thesis by (auto simp: combine_parsed_def)
next
  case True
  let ?q = "qsort svn_sort_compare_ranges rl"
  have set: "set ?q = set rl" by (rule range_cmp.set_qsort)
  then obtain l rs where q: "?q = l # rs" using assms(3) by (cases ?q) auto
  have "sorted_wrt (\<lambda>a b. start a \<le> start b) (l # rs)"
    using ordered_ranges_starts [OF range_cmp.ordered_qsort [of rl]] q by simp
  moreover have run: "combine_parsed_loop ([] @ l # rs) (Suc (length [])) = Inr out"
    using assms(1) True q by (simp add: combine_parsed_def)
  moreover have "\<forall>r \<in> set (l # rs). IS_VALID_FORWARD_RANGE r" using assms(2) set q by auto
  ultimately have "wf_rangelist out \<and> compact out \<and> revs out = revs ([] @ l # rs)
      \<and> inh_revs out = inh_revs ([] @ l # rs) \<and> out \<noteq> []"
    by (intro combine_parsed_loop_sound [OF run]) auto
  with revs_set_cong [OF set] q show ?thesis by simp
qed

section \<open>Mergeinfo is read back\<close>

text \<open>
  An entry that can be written: a canonical filesystem path without newline, and a non-empty
  well-formed rangelist of revisions that fit a \<open>long\<close>. The parser produces rangelists that
  are also compact.
\<close>

definition printable_entry :: "string \<Rightarrow> svn_rangelist_t \<Rightarrow> bool" where
  "printable_entry path rl \<longleftrightarrow> c_string path \<and> newline \<notin> set path \<and> svn_fspath__is_canonical path
     \<and> rl \<noteq> [] \<and> wf_rangelist rl \<and> (\<forall>r \<in> set rl. endr r \<le> LONG_MAX)"

definition printable_mergeinfo :: "svn_mergeinfo_t \<Rightarrow> bool" where
  "printable_mergeinfo mi \<longleftrightarrow> wf_hash mi \<and> (\<forall>(path, rl) \<in> set mi. printable_entry path rl)"

definition wf_mergeinfo_entry :: "string \<Rightarrow> svn_rangelist_t \<Rightarrow> bool" where
  "wf_mergeinfo_entry path rl \<longleftrightarrow> printable_entry path rl \<and> compact rl"

definition wf_mergeinfo :: "svn_mergeinfo_t \<Rightarrow> bool" where
  "wf_mergeinfo mi \<longleftrightarrow> wf_hash mi \<and> (\<forall>(path, rl) \<in> set mi. wf_mergeinfo_entry path rl)"

lemma wf_entry_printable: "printable_entry path rl \<Longrightarrow> \<forall>r \<in> set rl. printable_range r"
  by (auto simp: printable_entry_def printable_range_def dest: wf_rangelist_valid)

lemma rangelist_bound:
  assumes "wf_rangelist out" "revs out = revs rl" "\<forall>r \<in> set rl. endr r \<le> b"
  shows "\<forall>r \<in> set out. endr r \<le> b"
proof
  fix r assume r: "r \<in> set out"
  then have "start r < endr r" using wf_rangelist_valid [OF assms(1) r] by (simp add: valid_range_iff)
  with r have "endr r \<in> revs out" by (auto simp: revs_def range_revs_def)
  with assms(2,3) show "endr r \<le> b" by (fastforce simp: revs_def range_revs_def)
qed

text \<open>What the parser makes of the ranges of an entry.\<close>

definition combined :: "svn_rangelist_t \<Rightarrow> svn_rangelist_t" where
  "combined rl = projr (combine_parsed rl)"

lemma combined_ok:
  assumes "printable_entry path rl"
  shows "combine_parsed rl = Inr (combined rl)" "wf_mergeinfo_entry path (combined rl)"
    "revs (combined rl) = revs rl" "inh_revs (combined rl) = inh_revs rl" "compact rl \<Longrightarrow> combined rl = rl"
proof -
  have w: "wf_rangelist rl" "rl \<noteq> []" "\<forall>r \<in> set rl. endr r \<le> LONG_MAX"
    using assms by (simp_all add: printable_entry_def)
  then show run: "combine_parsed rl = Inr (combined rl)"
    using combine_parsed_wf [of rl] by (auto simp: combined_def)
  have "\<forall>r \<in> set rl. IS_VALID_FORWARD_RANGE r" using w(1) by (auto dest: wf_rangelist_valid)
  note s = combine_parsed_sound [OF run this w(2)]
  then show "revs (combined rl) = revs rl" "inh_revs (combined rl) = inh_revs rl" by simp_all
  show "wf_mergeinfo_entry path (combined rl)"
    using s assms rangelist_bound [of "combined rl" rl LONG_MAX] w(3)
    by (simp add: wf_mergeinfo_entry_def printable_entry_def)
  show "combined rl = rl" if "compact rl"
    using combine_parsed_compact [OF w(1) that] by (simp add: combined_def)
qed

lemma last_colon_none: "CHR '':'' \<notin> set s \<Longrightarrow> last_colon s = None"
  by (induction s) auto

lemma last_colon_append: "CHR '':'' \<notin> set t \<Longrightarrow> last_colon (s @ CHR '':'' # t) = Some (length s)"
  by (induction s) (auto simp: last_colon_none)

lemma fspath_canonicalize_id:
  "c_string p \<Longrightarrow> svn_fspath__is_canonical p \<Longrightarrow> svn_fspath__canonicalize p = Inr p"
  by (cases p) (auto simp: svn_fspath__canonicalize_def svn_fspath__is_canonical_def
      relpath_canonicalize_eq canonical_iff_join segments_def proper_def)

lemma parse_pathname_print:
  assumes "c_string path" "newline \<notin> set path" "svn_fspath__is_canonical path"
    and "CHR '':'' \<notin> set t" "newline \<notin> set t" "rest = [] \<or> deref rest = newline"
  shows "parse_pathname (path @ CHR '':'' # t @ rest) = Inr (path, CHR '':'' # t @ rest)"
proof -
  have "takeWhile (\<lambda>c. c \<noteq> newline) ((path @ CHR '':'' # t) @ rest) = path @ CHR '':'' # t"
    using assms(2,5,6)
    by (cases rest) (auto simp: takeWhile_append takeWhile_eq_all_conv newline_def)
  moreover have "path \<noteq> []" using assms(3) by (auto simp: svn_fspath__is_canonical_def)
  ultimately show ?thesis
    using assms by (simp add: parse_pathname_def last_colon_append fspath_canonicalize_id)
qed

lemma parse_revision_line_print:
  assumes e: "printable_entry path rl" and fresh: "path \<notin> fst ` set hash"
    and rest: "rest = [] \<or> deref rest = newline"
  shows "parse_revision_line (mergeinfo_line None (path, rl) @ rest) hash
    = Inr (drop 1 rest, hash @ [(path, combined rl)])"
proof -
  let ?t = "svn_rangelist_to_string rl"
  have w: "c_string path" "newline \<notin> set path" "svn_fspath__is_canonical path" "rl \<noteq> []"
    using e by (simp_all add: printable_entry_def)
  have t: "\<forall>c \<in> set ?t. isdigit c \<or> c = CHR ''-'' \<or> c = CHR ''*'' \<or> c = CHR '',''"
    by (rule rangelist_text_chars [OF wf_entry_printable [OF e]])
  then have t': "CHR '':'' \<notin> set ?t" "newline \<notin> set ?t"
    by (auto dest!: bspec dest: isdigit_not simp: newline_def)
  have line: "mergeinfo_line None (path, rl) @ rest = path @ CHR '':'' # ?t @ rest"
    using w(3) by (simp add: mergeinfo_line_def svn_fspath__is_canonical_def)
  have new: "apr_hash_get hash path = None" using fresh by (simp add: map_of_eq_None_iff)
  show ?thesis
    unfolding line parse_revision_line_def parse_pathname_print [OF w(1-3) t' rest]
    using parse_rangelist_print [OF wf_entry_printable [OF e] rest] w rest new
    by (auto simp: combined_ok(1) [OF e] apr_hash_set_fresh [OF fresh])
qed

lemma mergeinfo_lines_Cons:
  "es \<noteq> [] \<Longrightarrow> mergeinfo_lines pr (e # es) = mergeinfo_line pr e @ [newline] @ mergeinfo_lines pr es"
  by (cases es) simp_all

lemma parse_top_print:
  assumes "\<forall>(path, rl) \<in> set es. printable_entry path rl" "distinct (map fst (hash @ es))"
  shows "parse_top (mergeinfo_lines None es) hash = Inr (hash @ map (\<lambda>(path, rl). (path, combined rl)) es)"
  using assms
proof (induction es arbitrary: hash)
  case Nil
  then show ?case by (simp add: parse_top.simps)
next
  case (Cons e es)
  obtain path rl where e: "e = (path, rl)" by force
  let ?rest = "if es = [] then [] else newline # mergeinfo_lines None es"
  have lines: "mergeinfo_lines None (e # es) = mergeinfo_line None (path, rl) @ ?rest"
    using mergeinfo_lines_Cons [of es None e] by (simp add: e)
  have "parse_revision_line (mergeinfo_line None (path, rl) @ ?rest) hash
      = Inr (drop 1 ?rest, hash @ [(path, combined rl)])"
    using Cons.prems by (intro parse_revision_line_print) (auto simp: e)
  moreover have "drop 1 ?rest = mergeinfo_lines None es" by simp
  moreover have "mergeinfo_line None (path, rl) @ ?rest \<noteq> []" by (simp add: mergeinfo_line_def)
  moreover have "parse_top (mergeinfo_lines None es) (hash @ [(path, combined rl)])
      = Inr ((hash @ [(path, combined rl)]) @ map (\<lambda>(path, rl). (path, combined rl)) es)"
    using Cons.prems by (intro Cons.IH) (auto simp: e)
  ultimately show ?case
    unfolding lines parse_top.simps [of "mergeinfo_line None (path, rl) @ ?rest"] by (simp add: e)
qed

section \<open>What the parser accepts\<close>

lemma strtol_suffix: "set (snd (strtol str)) \<subseteq> set str"
  by (auto simp: strtol_def Let_def dest!: in_set_dropD set_dropWhileD split: if_splits)

lemma revnum_parse_bounds:
  "svn_revnum_parse str = Inr (r, rest) \<Longrightarrow> 0 \<le> r \<and> r \<le> LONG_MAX \<and> set rest \<subseteq> set str"
proof -
  assume p: "svn_revnum_parse str = Inr (r, rest)"
  then have e: "strtol str = (r, rest)" "0 \<le> r"
    by (auto simp: svn_revnum_parse_def split: prod.splits if_splits)
  have "fst (strtol str) \<le> LONG_MAX"
    by (simp add: strtol_def Let_def LONG_MAX_def LONG_MIN_def)
  with e strtol_suffix [of str] show ?thesis by simp
qed

lemma parse_range_sound:
  assumes "parse_range cur = Inr (r, rest)"
  shows "printable_range r \<and> inheritable r \<and> set rest \<subseteq> set cur"
proof -
  obtain f cur' l where f: "svn_revnum_parse cur = Inr (f, cur')" "f \<noteq> 0"
    and l: "parse_range_end f cur' = Inr (l, rest)" and r: "r = mk_range (f - 1) l True"
    using assms by (auto simp: parse_range_def SVN_ERR_iffs split: if_splits)
  have "f \<le> l \<and> l \<le> LONG_MAX \<and> set rest \<subseteq> set cur'"
    using l revnum_parse_bounds [OF f(1)]
    by (auto simp: parse_range_end_def SVN_ERR_iffs split: if_splits
        dest!: revnum_parse_bounds dest: in_set_dropD)
  with r f(2) revnum_parse_bounds [OF f(1)] show ?thesis
    by (auto simp: printable_range_def valid_range_iff)
qed

lemma parse_rangelist_loop_sound:
  assumes "parse_rangelist_loop cur acc = Inr (rl, rest)"
  shows "set rest \<subseteq> set cur \<and> (\<exists>new. rl = acc @ new \<and> (\<forall>r \<in> set new. printable_range r
    \<and> (CHR ''*'' \<notin> set cur \<longrightarrow> inheritable r)))"
  using assms
proof (induction "length cur" arbitrary: cur acc rule: less_induct)
  case less
  note loop = parse_rangelist_loop.simps [of cur acc]
  show ?case
  proof (cases "cur \<noteq> [] \<and> deref cur \<noteq> newline")
    case False
    with less.prems show ?thesis unfolding loop by (auto split: if_splits)
  next
    case True
    with less.prems obtain r cur' where r: "parse_range cur = Inr (r, cur')"
      unfolding loop by (auto simp: SVN_ERR_Inr_iff)
    note sound = parse_range_sound [OF r] and sh = parse_range_shorter [OF r]
    have run': "(if deref cur' = newline \<or> cur' = [] then Inr (acc @ [r], cur')
          else if deref cur' = CHR '','' then parse_rangelist_loop (drop 1 cur') (acc @ [r])
          else if deref cur' = CHR ''*'' then
            if deref (drop 1 cur') = CHR '','' then
              parse_rangelist_loop (drop 1 (drop 1 cur')) (acc @ [r\<lparr>inheritable := False\<rparr>])
            else if deref (drop 1 cur') = newline \<or> drop 1 cur' = [] then
              Inr (acc @ [r\<lparr>inheritable := False\<rparr>], drop 1 cur')
            else Inl SVN_ERR_MERGEINFO_PARSE_ERROR
          else Inl SVN_ERR_MERGEINFO_PARSE_ERROR) = Inr (rl, rest)"
      using less.prems [unfolded loop] True by (simp only: r SVN_ERR_simps Let_def prod.case if_True simp_thms)
    have star: "deref cur' = CHR ''*'' \<Longrightarrow> CHR ''*'' \<in> set cur"
      using sound by (cases cur') auto
    have mark: "printable_range (r\<lparr>inheritable := False\<rparr>)"
      using sound by (simp add: printable_range_def valid_range_iff)
    have len: "length (drop 1 cur') < length cur" "length (drop 1 (drop 1 cur')) < length cur"
      using sh by simp_all
    show ?thesis
    proof (cases "deref cur' = newline \<or> cur' = []")
      case True
      with run' sound show ?thesis by auto
    next
      case c1: False
      show ?thesis
      proof (cases "deref cur' = CHR '',''")
        case True
        then have "parse_rangelist_loop (drop 1 cur') (acc @ [r]) = Inr (rl, rest)"
          using run' c1 by (simp only: if_False if_True simp_thms)
        moreover have "set (drop 1 cur') \<subseteq> set cur" using sound by (auto dest: in_set_dropD)
        ultimately show ?thesis using less.hyps [OF len(1), of "acc @ [r]"] sound by fastforce
      next
        case c2: False
        then have st: "deref cur' = CHR ''*''" using run' c1 by (auto split: if_splits)
        show ?thesis
        proof (cases "deref (drop 1 cur') = CHR '',''")
          case True
          then have "parse_rangelist_loop (drop 1 (drop 1 cur')) (acc @ [r\<lparr>inheritable := False\<rparr>]) = Inr (rl, rest)"
            using run' c1 c2 st by (simp only: if_False if_True simp_thms)
          from less.hyps [OF len(2) this] sound mark star [OF st] show ?thesis
            by (auto dest: in_set_dropD)
        next
          case False
          with run' c1 c2 st have "rl = acc @ [r\<lparr>inheritable := False\<rparr>]" "rest = drop 1 cur'"
            by (auto split: if_splits)
          with sound mark star [OF st] show ?thesis by (auto dest: in_set_dropD)
        qed
      qed
    qed
  qed
qed

lemma parse_rangelist_sound:
  assumes "parse_rangelist input [] = Inr (rl, rest)"
  shows "set rest \<subseteq> set input" "\<forall>r \<in> set rl. printable_range r"
    "CHR ''*'' \<notin> set input \<Longrightarrow> \<forall>r \<in> set rl. inheritable r"
proof -
  let ?c = "dropWhile (\<lambda>c. c \<noteq> newline \<and> isspace c) input"
  have sub: "set ?c \<subseteq> set input" by (auto dest: set_dropWhileD)
  from assms have "rl = [] \<and> rest = ?c \<or> parse_rangelist_loop ?c [] = Inr (rl, rest)"
    by (auto simp: parse_rangelist_def Let_def split: if_splits)
  with sub parse_rangelist_loop_sound [of ?c "[]" rl rest]
  show "set rest \<subseteq> set input" "\<forall>r \<in> set rl. printable_range r"
    "CHR ''*'' \<notin> set input \<Longrightarrow> \<forall>r \<in> set rl. inheritable r"
    by auto
qed

lemma fspath_canonicalize_eq:
  "svn_fspath__canonicalize s = Inr (CHR ''/'' # join_components (segments s))"
  by (simp add: svn_fspath__canonicalize_def relpath_canonicalize_eq segments_def proper_def)

lemma fspath_canonicalize_sound:
  assumes "c_string s" "svn_fspath__canonicalize s = Inr p"
  shows "svn_fspath__is_canonical p \<and> c_string p \<and> set p \<subseteq> insert (CHR ''/'') (set s)"
proof -
  have p: "p = CHR ''/'' # join_components (segments s)" using assms(2) by (simp add: fspath_canonicalize_eq)
  have all: "\<forall>x \<in> set (segments s). proper x \<and> CHR ''/'' \<notin> set x \<and> c_string x"
    using segments_proper segments_c_string [OF assms(1)] by blast
  have "set x \<subseteq> set s" if "x \<in> set (segments s)" for x
    using that components_chars by (auto simp: segments_def)
  with join_components_chars [of "segments s"] have "set (join_components (segments s)) \<subseteq> insert (CHR ''/'') (set s)"
    by blast
  with canonical_join_components [OF all] show ?thesis
    by (auto simp: p svn_fspath__is_canonical_def)
qed

lemma parse_pathname_sound:
  assumes "c_string input" "parse_pathname input = Inr (p, rest)"
  shows "svn_fspath__is_canonical p" "c_string p" "newline \<notin> set p" "set rest \<subseteq> set input"
proof -
  let ?line = "takeWhile (\<lambda>c. c \<noteq> newline) input"
  obtain i where i: "last_colon ?line = Some i" "svn_fspath__canonicalize (take i input) = Inr p"
    and rest: "rest = drop i input"
    using assms(2) by (auto simp: parse_pathname_def SVN_ERR_iffs split: option.splits if_splits)
  have "take i (?line @ dropWhile (\<lambda>c. c \<noteq> newline) input) = take i ?line"
    using last_colon_less [OF i(1)] by (simp del: takeWhile_dropWhile_id)
  then have "take i input = take i ?line" by (simp only: takeWhile_dropWhile_id)
  then have nl: "newline \<notin> set (take i input)"
    by (metis (mono_tags, lifting) in_set_takeD set_takeWhileD)
  have "c_string (take i input)" using assms(1) by (rule c_string_chars [OF set_take_subset])
  from fspath_canonicalize_sound [OF this i(2)] nl
  show "svn_fspath__is_canonical p" "c_string p" "newline \<notin> set p" by (auto simp: newline_def)
  show "set rest \<subseteq> set input" unfolding rest by (rule set_drop_subset)
qed

text \<open>One line: a single entry is set; a path met for the first time gets a well-formed entry.\<close>

lemma parse_revision_line_sound:
  assumes "c_string input" "parse_revision_line input hash = Inr (rest, hash')"
  obtains path rl where "hash' = apr_hash_set hash path rl" "c_string rest" "set rest \<subseteq> set input"
    "svn_fspath__is_canonical path" "c_string path" "newline \<notin> set path"
    "apr_hash_get hash path = None \<Longrightarrow> wf_mergeinfo_entry path rl"
    "CHR ''*'' \<notin> set input \<Longrightarrow> \<forall>old. apr_hash_get hash path = Some old \<longrightarrow> inheritable_rangelist old \<Longrightarrow>
       inheritable_rangelist rl \<and> rl \<noteq> []"
proof -
  obtain path input1 rl0 input2 rl1 rl where
    p: "parse_pathname input = Inr (path, input1)" and
    r: "parse_rangelist (drop 1 input1) [] = Inr (rl0, input2)" "rl0 \<noteq> []" and
    rest: "rest = (if input2 \<noteq> [] then drop 1 input2 else input2)" and
    c: "combine_parsed rl0 = Inr rl1" and
    m: "(case apr_hash_get hash path of Some old \<Rightarrow> svn_rangelist_merge2 rl1 old | None \<Rightarrow> Inr rl1) = Inr rl"
    and h: "hash' = apr_hash_set hash path rl"
    using assms(2) by (auto simp: parse_revision_line_def SVN_ERR_iffs Let_def split: if_splits)
  note path = parse_pathname_sound [OF assms(1) p] and rs = parse_rangelist_sound [OF r(1)]
  have sub: "set rest \<subseteq> set input" using rest rs(1) path(4) by (auto dest: in_set_dropD split: if_splits)
  have val: "\<forall>x \<in> set rl0. IS_VALID_FORWARD_RANGE x \<and> endr x \<le> LONG_MAX"
    using rs(2) by (simp add: printable_range_def)
  have s: "wf_rangelist rl1" "compact rl1" "revs rl1 = revs rl0" "inh_revs rl1 = inh_revs rl0" "rl1 \<noteq> []"
    using combine_parsed_sound [OF c] val r(2) by auto
  show thesis
  proof (rule that [OF h _ sub path(1-3)])
    show "c_string rest" using assms(1) by (rule c_string_chars [OF sub])
    show "wf_mergeinfo_entry path rl" if "apr_hash_get hash path = None"
      using that m s path rangelist_bound [OF s(1,3)] val by (auto simp: wf_mergeinfo_entry_def printable_entry_def)
    show "inheritable_rangelist rl \<and> rl \<noteq> []" if star: "CHR ''*'' \<notin> set input"
      and old: "\<forall>old. apr_hash_get hash path = Some old \<longrightarrow> inheritable_rangelist old"
    proof -
      have "CHR ''*'' \<notin> set (drop 1 input1)" using star path(4) by (auto dest: in_set_dropD)
      then have "uniform True rl0" using rs(3) by (simp add: uniform_def)
      then have i1: "inheritable_rangelist rl1"
        using s wf_all_inheritable [of rl1] by (simp add: inheritable_rangelist_def uniform_inh_revs)
      show ?thesis
      proof (cases "apr_hash_get hash path")
        case None
        with m i1 s(5) show ?thesis by simp
      next
        case (Some x)
        with old have "inheritable_rangelist x" by simp
        from merge2_inheritable [OF i1 this] m Some have "inheritable_rangelist rl" "revs rl = revs rl1 \<union> revs x"
          by auto
        with s(1,5) wf_rangelist_empty [of rl1] show ?thesis by auto
      qed
    qed
  qed
qed

text \<open>What holds of every entry while the lines of an input without \<open>*\<close> are parsed.\<close>

definition inheritable_entries :: "svn_mergeinfo_t \<Rightarrow> bool" where
  "inheritable_entries h \<longleftrightarrow> wf_hash h \<and> (\<forall>path rl. apr_hash_get h path = Some rl \<longrightarrow>
     svn_fspath__is_canonical path \<and> inheritable_rangelist rl \<and> rl \<noteq> [])"

lemma parse_top_inheritable:
  assumes "parse_top input hash = Inr mi" "c_string input" "CHR ''*'' \<notin> set input" "inheritable_entries hash"
  shows "inheritable_entries mi"
  using assms
proof (induction "length input" arbitrary: input hash rule: less_induct)
  case less
  show ?case
  proof (cases "input = []")
    case True
    with less.prems show ?thesis by (simp add: parse_top.simps)
  next
    case False
    with less.prems(1) obtain rest hash' where line: "parse_revision_line input hash = Inr (rest, hash')"
      and rec: "parse_top rest hash' = Inr mi"
      by (auto simp: parse_top.simps [of input hash] SVN_ERR_iffs)
    from parse_revision_line_sound [OF less.prems(2) line] obtain path rl where
      h: "hash' = apr_hash_set hash path rl" "c_string rest" "set rest \<subseteq> set input"
        "svn_fspath__is_canonical path"
      and good: "CHR ''*'' \<notin> set input \<Longrightarrow>
        \<forall>old. apr_hash_get hash path = Some old \<longrightarrow> inheritable_rangelist old \<Longrightarrow>
        inheritable_rangelist rl \<and> rl \<noteq> []" by metis
    have "inheritable_rangelist rl \<and> rl \<noteq> []"
      using less.prems(3,4) by (intro good) (auto simp: inheritable_entries_def)
    then have "inheritable_entries hash'"
      using less.prems(4) h by (auto simp: inheritable_entries_def)
    moreover have "CHR ''*'' \<notin> set rest" using h(3) less.prems(3) by blast
    ultimately show ?thesis
      using less.hyps [OF parse_revision_line_shorter [OF line] rec h(2)] by blast
  qed
qed

text \<open>No error of the parser is an assertion failure.\<close>

definition parse_error :: "svn_errcode \<Rightarrow> bool" where
  "parse_error e \<longleftrightarrow> e = SVN_ERR_MERGEINFO_PARSE_ERROR \<or> e = SVN_ERR_REVNUM_PARSE_FAILURE"

lemma parse_error_codes:
  "svn_revnum_parse str = Inl e \<Longrightarrow> e = SVN_ERR_REVNUM_PARSE_FAILURE"
  "parse_range cur = Inl e \<Longrightarrow> parse_error e"
  by (auto simp: svn_revnum_parse_def parse_range_def parse_range_end_def SVN_ERR_iffs parse_error_def
      split: prod.splits if_splits)

lemma parse_rangelist_loop_error:
  "parse_rangelist_loop cur acc = Inl e \<Longrightarrow> parse_error e"
proof (induction "length cur" arbitrary: cur acc rule: less_induct)
  case less
  note loop = parse_rangelist_loop.simps [of cur acc]
  show ?case
  proof (cases "parse_range cur")
    case (Inl e')
    with less.prems parse_error_codes(2) [OF Inl] show ?thesis
      unfolding loop by (auto simp: parse_error_def split: if_splits)
  next
    case (Inr x)
    obtain r cur' where x: "x = (r, cur')" by force
    have sh: "length (drop 1 cur') < length cur" "length (drop 1 (drop 1 cur')) < length cur"
      using parse_range_shorter [of cur r cur'] Inr x by simp_all
    have "parse_error e" if "parse_rangelist_loop (drop 1 cur') y = Inl e" for y
      using less.hyps [OF sh(1) that] .
    moreover have "parse_error e" if "parse_rangelist_loop (drop 1 (drop 1 cur')) y = Inl e" for y
      using less.hyps [OF sh(2) that] .
    ultimately show ?thesis
      using less.prems unfolding loop Inr x by (auto simp: Let_def parse_error_def split: if_splits)
  qed
qed

lemma combine_parsed_loop_error: "combine_parsed_loop rl i = Inl e \<Longrightarrow> e = SVN_ERR_MERGEINFO_PARSE_ERROR"
proof (induction rl i rule: combine_parsed_loop.induct)
  case (1 rl i)
  then show ?case
    by (subst (asm) (2) combine_parsed_loop.simps) (auto simp: Let_def split: if_splits)
qed

lemma parse_revision_line_error:
  assumes "parse_revision_line input hash = Inl e"
  shows "parse_error e"
proof -
  have p: "parse_pathname input = Inl x \<Longrightarrow> parse_error x" for x
    by (auto simp: parse_error_def parse_pathname_def fspath_canonicalize_eq split: option.splits if_splits)
  have r: "parse_rangelist s [] = Inl x \<Longrightarrow> parse_error x" for s x
    using parse_rangelist_loop_error by (auto simp: parse_rangelist_def Let_def split: if_splits)
  have c: "combine_parsed rl = Inl x \<Longrightarrow> parse_error x" for rl x
    using combine_parsed_loop_error by (auto simp: combine_parsed_def parse_error_def split: if_splits)
  have k: "parse_error SVN_ERR_MERGEINFO_PARSE_ERROR" by (simp add: parse_error_def)
  have m: "(case apr_hash_get hash q of Some old \<Rightarrow> svn_rangelist_merge2 rl old | None \<Rightarrow> Inr rl) \<noteq> Inl x" for q rl x
    using merge2_total [of rl "the (apr_hash_get hash q)"] by (auto split: option.splits)
  show ?thesis
    using assms m
    by (auto simp: parse_revision_line_def SVN_ERR_Inl_iff Let_def split: if_splits
        intro: p r c k)
qed

lemma parse_top_error: "parse_top input hash = Inl e \<Longrightarrow> parse_error e"
proof (induction "length input" arbitrary: input hash rule: less_induct)
  case less
  then have "parse_revision_line input hash = Inl e \<or>
    (\<exists>rest h. parse_revision_line input hash = Inr (rest, h) \<and> parse_top rest h = Inl e)"
    by (auto simp: parse_top.simps [of input hash] SVN_ERR_Inl_iff split: if_splits)
  then show ?case
    using parse_revision_line_error less.hyps parse_revision_line_shorter by blast
qed

section \<open>Properties of the textual form\<close>

text \<open>
  Printing a rangelist and parsing the text gives the rangelist back, for every list
  of forward ranges whose revisions fit a \<open>long\<close>, in any order and with any inheritability.
\<close>

theorem rangelist_print_parse:
  assumes "\<forall>r \<in> set rangelist. IS_VALID_FORWARD_RANGE r \<and> endr r \<le> LONG_MAX"
  shows "svn_rangelist__parse (svn_rangelist_to_string rangelist) = Inr rangelist"
  using parse_rangelist_print [of rangelist "[]"] assms
  by (simp add: svn_rangelist__parse_def printable_range_def)

theorem rangelist_print_parse_witness:
  "svn_rangelist__parse (svn_rangelist_to_string [mk_range 9 12 False, mk_range 4 5 True])
   = Inr [mk_range 9 12 False, mk_range 4 5 True]"
  by (rule rangelist_print_parse) (simp add: valid_range_iff LONG_MAX_def)

text \<open>
  C12. Printing mergeinfo and parsing the text gives mergeinfo for the same paths that covers
  the same revisions with the same inheritability. This is for tables with distinct keys that
  are canonical filesystem paths without newline (colons are allowed) and values that are
  non-empty well-formed rangelists of revisions that fit a \<open>long\<close>. Neighbouring ranges of
  equal inheritability come back as one range; a rangelist without such neighbours comes back
  as it was.
\<close>

theorem mergeinfo_print_parse:
  assumes "printable_mergeinfo mergeinfo"
  shows "\<exists>str parsed. svn_mergeinfo_to_string mergeinfo = Inr str
    \<and> svn_mergeinfo_parse str = Inr parsed \<and> wf_mergeinfo parsed
    \<and> (\<forall>path. case apr_hash_get mergeinfo path of
         None \<Rightarrow> apr_hash_get parsed path = None
       | Some rl \<Rightarrow> \<exists>rl'. apr_hash_get parsed path = Some rl'
           \<and> revs rl' = revs rl \<and> inh_revs rl' = inh_revs rl \<and> (compact rl \<longrightarrow> rl' = rl))"
proof -
  let ?es = "hash_by_paths mergeinfo" and ?c = "\<lambda>(path, rl). (path, combined rl)"
  have entry: "printable_entry path rl" if "(path, rl) \<in> set mergeinfo" for path rl
    using assms that by (auto simp: printable_mergeinfo_def)
  have "canonical_keys mergeinfo"
    using entry fspath_path_is_canonical by (fastforce simp: canonical_keys_def printable_entry_def)
  then have str: "svn_mergeinfo_to_string mergeinfo = Inr (mergeinfo_lines None ?es)"
    by (simp add: svn_mergeinfo_to_string_def mergeinfo_to_stringbuf_def sort_hash_by_paths)
  have d: "distinct (map fst mergeinfo)" using assms by (simp add: printable_mergeinfo_def wf_hash_def)
  have "mset (map fst ?es) = mset (map fst mergeinfo)" by (simp add: mset_hash_by_paths)
  with d have d': "distinct (map fst ?es)" by (metis mset_eq_imp_distinct_iff)
  have "parse_top (mergeinfo_lines None ?es) [] = Inr (map ?c ?es)"
    using parse_top_print [of ?es "[]"] entry d' by auto
  then have parse: "svn_mergeinfo_parse (mergeinfo_lines None ?es) = Inr (map ?c ?es)"
    by (simp add: svn_mergeinfo_parse_def)
  have "wf_mergeinfo (map ?c ?es)"
    using entry d' combined_ok(2) by (auto simp: wf_mergeinfo_def wf_hash_def comp_def case_prod_beta)
  moreover have "map_of (map ?c ?es) path = map_option combined (map_of mergeinfo path)" for path
    using map_of_map [of combined ?es] map_of_inject_set [OF d' d] by simp
  ultimately show ?thesis
    using str parse combined_ok(3-5) [OF entry [OF map_of_SomeD]] by (auto split: option.splits)
qed

theorem mergeinfo_print_parse_witness:
  "\<exists>str parsed. svn_mergeinfo_to_string
        [(''/trunk'', [mk_range 0 5 True, mk_range 5 6 False]), (''/b:x'', [mk_range 0 1 True, mk_range 1 2 True])] = Inr str
    \<and> svn_mergeinfo_parse str = Inr parsed \<and> wf_mergeinfo parsed
    \<and> (\<forall>path. case apr_hash_get
          [(''/trunk'', [mk_range 0 5 True, mk_range 5 6 False]), (''/b:x'', [mk_range 0 1 True, mk_range 1 2 True])] path of
         None \<Rightarrow> apr_hash_get parsed path = None
       | Some rl \<Rightarrow> \<exists>rl'. apr_hash_get parsed path = Some rl'
           \<and> revs rl' = revs rl \<and> inh_revs rl' = inh_revs rl \<and> (compact rl \<longrightarrow> rl' = rl))"
  by (rule mergeinfo_print_parse)
     (simp add: printable_mergeinfo_def printable_entry_def wf_hash_def newline_def valid_range_iff
        LONG_MAX_def svn_fspath__is_canonical_def relpath_canonical_iff proper_def)

text \<open>
  C25. Whatever mergeinfo the parser returns for a string without \<open>*\<close> is well formed: the
  keys are distinct canonical filesystem paths, and every value is a non-empty rangelist of
  inheritable ranges, also when a path occurs on several lines, which are then merged.
\<close>

theorem mergeinfo_parse_wellformed:
  assumes "c_string input" "CHR ''*'' \<notin> set input" "svn_mergeinfo_parse input = Inr mergeinfo"
  shows "wf_hash mergeinfo \<and> (\<forall>path rangelist. apr_hash_get mergeinfo path = Some rangelist \<longrightarrow>
    svn_fspath__is_canonical path \<and> rangelist \<noteq> [] \<and> wf_rangelist rangelist
    \<and> (\<forall>r \<in> set rangelist. inheritable r))"
proof -
  have "parse_top input [] = Inr mergeinfo"
    using assms(3) by (auto simp: svn_mergeinfo_parse_def split: sum.splits)
  from parse_top_inheritable [OF this assms(1,2)] show ?thesis
    by (auto simp: inheritable_entries_def inheritable_rangelist_def uniform_def)
qed

theorem mergeinfo_parse_wellformed_witness:
  "svn_mergeinfo_parse (''/t:1-4'' @ [newline] @ ''t/:3-6'') = Inr [(''/t'', [mk_range 0 6 True])]
   \<and> wf_hash [(''/t'', [mk_range 0 6 True])] \<and> svn_fspath__is_canonical ''/t''
   \<and> wf_rangelist [mk_range 0 6 True]"
proof -
  have p: "svn_mergeinfo_parse (''/t:1-4'' @ [newline] @ ''t/:3-6'') = Inr [(''/t'', [mk_range 0 6 True])]"
    by code_simp
  from mergeinfo_parse_wellformed [OF _ _ p]
  have "wf_hash [(''/t'', [mk_range 0 6 True])]" "svn_fspath__is_canonical ''/t'' \<and> wf_rangelist [mk_range 0 6 True]"
    by (simp_all add: newline_def del: wf_rangelist_simps)
  with p show ?thesis by blast
qed

text \<open>
  A line for a path that has no entry yet stores a well-formed entry whatever the
  inheritability of its ranges: sorted, not overlapping, without neighbours that could be
  combined, within the range of \<open>long\<close>, under a canonical path; no other entry changes.
\<close>

theorem parse_line_new_entry:
  assumes "c_string input" "parse_revision_line input mergeinfo = Inr (rest, mergeinfo')"
  shows "\<exists>path rangelist. (\<forall>p. p \<noteq> path \<longrightarrow> apr_hash_get mergeinfo' p = apr_hash_get mergeinfo p)
    \<and> apr_hash_get mergeinfo' path = Some rangelist
    \<and> (apr_hash_get mergeinfo path = None \<longrightarrow> wf_mergeinfo_entry path rangelist)"
  by (rule parse_revision_line_sound [OF assms]) auto

theorem parse_line_new_entry_witness:
  "\<exists>path rangelist. (\<forall>p. p \<noteq> path \<longrightarrow>
      apr_hash_get [(''/t'', [mk_range 0 4 True, mk_range 4 6 False])] p = apr_hash_get [] p)
    \<and> apr_hash_get [(''/t'', [mk_range 0 4 True, mk_range 4 6 False])] path = Some rangelist
    \<and> (apr_hash_get ([] :: svn_mergeinfo_t) path = None \<longrightarrow> wf_mergeinfo_entry path rangelist)"
proof (rule parse_line_new_entry)
  show "parse_revision_line ''/t:5-6*,3-4,1-3'' [] = Inr ([], [(''/t'', [mk_range 0 4 True, mk_range 4 6 False])])"
    by code_simp
qed simp

text \<open>
  C26. The parser always returns (its loops end) and only mergeinfo parse errors leave it:
  the exported function fails exactly when the line parser does, then with a mergeinfo parse
  error, although the line parser also fails with revision number errors (and with nothing
  else, so no assertion fails); otherwise it returns what the line parser returns.
\<close>

theorem mergeinfo_parse_errors:
  "case svn_mergeinfo_parse input of
     Inl e \<Rightarrow> e = SVN_ERR_MERGEINFO_PARSE_ERROR
       \<and> (parse_top input [] = Inl SVN_ERR_MERGEINFO_PARSE_ERROR
          \<or> parse_top input [] = Inl SVN_ERR_REVNUM_PARSE_FAILURE)
   | Inr mergeinfo \<Rightarrow> parse_top input [] = Inr mergeinfo"
proof (cases "parse_top input []")
  case (Inl e)
  then show ?thesis using parse_top_error [OF Inl] by (auto simp: svn_mergeinfo_parse_def parse_error_def)
qed (simp add: svn_mergeinfo_parse_def)

text \<open>A revision number error of the line parser, and the error the exported function makes of it.\<close>

theorem mergeinfo_parse_converts:
  "parse_top ''/t:x'' [] = Inl SVN_ERR_REVNUM_PARSE_FAILURE
   \<and> svn_mergeinfo_parse ''/t:x'' = Inl SVN_ERR_MERGEINFO_PARSE_ERROR"
  by code_simp

text \<open>
  Parsing can return a malformed rangelist: when a path occurs twice (here once
  without its leading slash) and the ranges mix inheritability, the merge of the two lines
  leaves a range that ends before it starts.
\<close>

theorem mergeinfo_parse_malformed:
  "svn_mergeinfo_parse (''/t:3-8*'' @ [newline] @ ''t:1-2*,4*,6'')
     = Inr [(''/t'', [mk_range 0 5 False, mk_range 6 5 False, mk_range 5 6 True, mk_range 6 8 False])]
   \<and> \<not> wf_rangelist [mk_range 0 5 False, mk_range 6 5 False, mk_range 5 6 True, mk_range 6 8 False]"
  by code_simp

end
