(* ===== verification/Mergeinfo.thy ===== *)
theory Mergeinfo
  imports Mergeinfo_Syntax
begin

text \<open>
  Mergeinfo as hash tables from source paths to rangelists, and catalogs of mergeinfo
  (libsvn\_subr/mergeinfo.c, with \<open>svn_hash_diff\<close> of hash.c): difference, equality, merging,
  intersection, removal, filters, offsets and formatted output. A NULL table is \<open>None\<close>.
  Tables that the code updates in place are returned updated.
\<close>

section \<open>Difference of hash tables\<close>

datatype svn_hash_diff_key_status =
    svn_hash_diff_key_both
  | svn_hash_diff_key_a
  | svn_hash_diff_key_b

definition hash_has :: "'v apr_hash option \<Rightarrow> string \<Rightarrow> bool" where
  "hash_has hash key = (case hash of None \<Rightarrow> False | Some h \<Rightarrow> apr_hash_get h key \<noteq> None)"

definition svn_hash_diff ::
  "'v apr_hash option \<Rightarrow> 'v apr_hash option \<Rightarrow>
   (string \<Rightarrow> svn_hash_diff_key_status \<Rightarrow> 'b \<Rightarrow> 'b svn_result) \<Rightarrow> 'b \<Rightarrow> 'b svn_result" where
  "svn_hash_diff hash_a hash_b diff_func baton =
     SVN_ERR
       (case hash_a of
          None \<Rightarrow> Inr baton
        | Some a \<Rightarrow> hash_iter (\<lambda>key _ b.
            if hash_has hash_b key
            then diff_func key svn_hash_diff_key_both b
            else diff_func key svn_hash_diff_key_a b) a baton)
       (\<lambda>baton'.
          case hash_b of
            None \<Rightarrow> Inr baton'
          | Some b \<Rightarrow> hash_iter (\<lambda>key _ bt.
              if \<not> hash_has hash_a key
              then diff_func key svn_hash_diff_key_b bt
              else Inr bt) b baton')"

section \<open>Copies and inheritance marks\<close>

definition svn_mergeinfo_dup :: "svn_mergeinfo_t \<Rightarrow> svn_mergeinfo_t" where
  "svn_mergeinfo_dup mergeinfo =
     foldl (\<lambda>new_mergeinfo (path, rangelist).
       apr_hash_set new_mergeinfo path (svn_rangelist_dup rangelist)) [] mergeinfo"

definition svn_mergeinfo_catalog_dup :: "svn_mergeinfo_catalog_t \<Rightarrow> svn_mergeinfo_catalog_t" where
  "svn_mergeinfo_catalog_dup mergeinfo_catalog =
     foldl (\<lambda>new_mergeinfo_catalog (key, val).
       apr_hash_set new_mergeinfo_catalog key (svn_mergeinfo_dup val)) [] mergeinfo_catalog"

text \<open>The rangelists are changed in place: every entry keeps its place in the table.\<close>

definition svn_mergeinfo__set_inheritance ::
  "svn_mergeinfo_t option \<Rightarrow> bool \<Rightarrow> svn_mergeinfo_t option" where
  "svn_mergeinfo__set_inheritance mergeinfo inh =
     map_option (map (\<lambda>(path, rangelist). (path, svn_rangelist__set_inheritance rangelist inh)))
       mergeinfo"

section \<open>Difference and equality of mergeinfo\<close>

record mergeinfo_diff_baton =
  from_info :: "svn_mergeinfo_t option"
  to_info :: "svn_mergeinfo_t option"
  deleted_info :: "svn_mergeinfo_t option"
  added_info :: "svn_mergeinfo_t option"
  consider_inheritance :: bool

text \<open>
  Looking up a path in a table that the caller knows to hold it; a NULL rangelist would be
  dereferenced by the code that uses it and is the failed assertion of the model.
\<close>

definition get_rangelist :: "svn_mergeinfo_t option \<Rightarrow> string \<Rightarrow> svn_rangelist_t svn_result" where
  "get_rangelist info path =
     (case Option.bind info (\<lambda>h. apr_hash_get h path) of
        None \<Rightarrow> Inl SVN_ERR_ASSERTION_FAIL
      | Some rl \<Rightarrow> Inr rl)"

definition set_unless_null ::
  "svn_mergeinfo_t option \<Rightarrow> string \<Rightarrow> svn_rangelist_t \<Rightarrow> svn_mergeinfo_t option" where
  "set_unless_null info path rangelist = map_option (\<lambda>h. apr_hash_set h path rangelist) info"

definition mergeinfo_hash_diff_cb ::
  "string \<Rightarrow> svn_hash_diff_key_status \<Rightarrow> mergeinfo_diff_baton \<Rightarrow> mergeinfo_diff_baton svn_result" where
  "mergeinfo_hash_diff_cb path status cb =
     (if status = svn_hash_diff_key_both then
        SVN_ERR (get_rangelist (from_info cb) path) (\<lambda>from_rangelist.
        SVN_ERR (get_rangelist (to_info cb) path) (\<lambda>to_rangelist.
        SVN_ERR (svn_rangelist_diff from_rangelist to_rangelist (consider_inheritance cb))
          (\<lambda>(deleted_rangelist, added_rangelist).
            let cb1 = (if deleted_info cb \<noteq> None \<and> length deleted_rangelist > 0
                       then cb\<lparr>deleted_info := set_unless_null (deleted_info cb) path deleted_rangelist\<rparr>
                       else cb);
                cb2 = (if added_info cb1 \<noteq> None \<and> length added_rangelist > 0
                       then cb1\<lparr>added_info := set_unless_null (added_info cb1) path added_rangelist\<rparr>
                       else cb1)
            in Inr cb2)))
      else if status = svn_hash_diff_key_a \<and> deleted_info cb \<noteq> None then
        SVN_ERR (get_rangelist (from_info cb) path) (\<lambda>from_rangelist.
        Inr (cb\<lparr>deleted_info := set_unless_null (deleted_info cb) path (svn_rangelist_dup from_rangelist)\<rparr>))
      else if status = svn_hash_diff_key_b \<and> added_info cb \<noteq> None then
        SVN_ERR (get_rangelist (to_info cb) path) (\<lambda>to_rangelist.
        Inr (cb\<lparr>added_info := set_unless_null (added_info cb) path (svn_rangelist_dup to_rangelist)\<rparr>))
      else Inr cb)"

definition walk_mergeinfo_hash_for_diff ::
  "svn_mergeinfo_t option \<Rightarrow> svn_mergeinfo_t option \<Rightarrow> svn_mergeinfo_t option \<Rightarrow>
   svn_mergeinfo_t option \<Rightarrow> bool \<Rightarrow> mergeinfo_diff_baton svn_result" where
  "walk_mergeinfo_hash_for_diff from to deleted added consider =
     svn_hash_diff from to mergeinfo_hash_diff_cb
       \<lparr>from_info = from, to_info = to, deleted_info = deleted, added_info = added,
        consider_inheritance = consider\<rparr>"

definition svn_mergeinfo_diff2 ::
  "svn_mergeinfo_t option \<Rightarrow> svn_mergeinfo_t option \<Rightarrow> bool \<Rightarrow>
   (svn_mergeinfo_t \<times> svn_mergeinfo_t) svn_result" where
  "svn_mergeinfo_diff2 from to consider =
     (case (from, to) of
        (Some f, None) \<Rightarrow> Inr (svn_mergeinfo_dup f, [])
      | (None, Some t) \<Rightarrow> Inr ([], svn_mergeinfo_dup t)
      | (None, None) \<Rightarrow> Inr ([], [])
      | (Some f, Some t) \<Rightarrow>
          SVN_ERR (walk_mergeinfo_hash_for_diff from to (Some []) (Some []) consider) (\<lambda>mdb.
          Inr (the (deleted_info mdb), the (added_info mdb))))"

definition svn_mergeinfo__equals ::
  "svn_mergeinfo_t \<Rightarrow> svn_mergeinfo_t \<Rightarrow> bool \<Rightarrow> bool svn_result" where
  "svn_mergeinfo__equals info1 info2 consider =
     (if length info1 = length info2 then
        SVN_ERR (svn_mergeinfo_diff2 (Some info1) (Some info2) consider) (\<lambda>(deleted, added).
        Inr (length deleted = 0 \<and> length added = 0))
      else Inr False)"

definition svn_mergeinfo_remove2 ::
  "svn_mergeinfo_t option \<Rightarrow> svn_mergeinfo_t option \<Rightarrow> bool \<Rightarrow> svn_mergeinfo_t svn_result" where
  "svn_mergeinfo_remove2 eraser whiteboard consider =
     SVN_ERR (walk_mergeinfo_hash_for_diff whiteboard eraser (Some []) None consider) (\<lambda>mdb.
     Inr (the (deleted_info mdb)))"

section \<open>Merging and intersection\<close>

text \<open>
  The loop over the two sorted arrays of entries; an index into an array is the part of the
  array from it on. The result holds what is left of the changes.
\<close>

fun mergeinfo_merge_loop ::
  "(string \<times> svn_rangelist_t) list \<Rightarrow> (string \<times> svn_rangelist_t) list \<Rightarrow> svn_mergeinfo_t \<Rightarrow>
   ((string \<times> svn_rangelist_t) list \<times> svn_mergeinfo_t) svn_result" where
  "mergeinfo_merge_loop (elt1 # sorted1) (elt2 # sorted2) mergeinfo =
     SVN_ERR (svn_sort_compare_items_as_paths elt1 elt2) (\<lambda>res.
      if res = 0 then
        SVN_ERR (svn_rangelist_merge2 (snd elt1) (snd elt2)) (\<lambda>rl1.
        mergeinfo_merge_loop sorted1 sorted2 (apr_hash_set mergeinfo (fst elt1) rl1))
      else if res < 0 then mergeinfo_merge_loop sorted1 (elt2 # sorted2) mergeinfo
      else mergeinfo_merge_loop (elt1 # sorted1) sorted2
             (apr_hash_set mergeinfo (fst elt2) (snd elt2)))"
| "mergeinfo_merge_loop sorted1 sorted2 mergeinfo = Inr (sorted2, mergeinfo)"

definition svn_mergeinfo_merge2 ::
  "svn_mergeinfo_t \<Rightarrow> svn_mergeinfo_t \<Rightarrow> svn_mergeinfo_t svn_result" where
  "svn_mergeinfo_merge2 mergeinfo changes =
     (if length changes = 0 then Inr mergeinfo
      else
        SVN_ERR (svn_sort__hash mergeinfo svn_sort_compare_items_as_paths) (\<lambda>sorted1.
        SVN_ERR (svn_sort__hash changes svn_sort_compare_items_as_paths) (\<lambda>sorted2.
        SVN_ERR (mergeinfo_merge_loop sorted1 sorted2 mergeinfo) (\<lambda>(remaining, mergeinfo').
        Inr (foldl (\<lambda>h elt. apr_hash_set h (fst elt) (snd elt)) mergeinfo' remaining)))))"

fun catalog_merge_loop ::
  "(string \<times> svn_mergeinfo_t) list \<Rightarrow> (string \<times> svn_mergeinfo_t) list \<Rightarrow> svn_mergeinfo_catalog_t \<Rightarrow>
   ((string \<times> svn_mergeinfo_t) list \<times> svn_mergeinfo_catalog_t) svn_result" where
  "catalog_merge_loop (cat_elt # sorted_cat) (change_elt # sorted_changes) mergeinfo_cat =
     SVN_ERR (svn_sort_compare_items_as_paths cat_elt change_elt) (\<lambda>res.
      if res = 0 then
        SVN_ERR (svn_mergeinfo_merge2 (snd cat_elt) (snd change_elt)) (\<lambda>mergeinfo.
        catalog_merge_loop sorted_cat sorted_changes
          (apr_hash_set mergeinfo_cat (fst cat_elt) mergeinfo))
      else if res < 0 then catalog_merge_loop sorted_cat (change_elt # sorted_changes) mergeinfo_cat
      else catalog_merge_loop (cat_elt # sorted_cat) sorted_changes
             (apr_hash_set mergeinfo_cat (fst change_elt) (svn_mergeinfo_dup (snd change_elt))))"
| "catalog_merge_loop sorted_cat sorted_changes mergeinfo_cat = Inr (sorted_changes, mergeinfo_cat)"

definition svn_mergeinfo_catalog_merge ::
  "svn_mergeinfo_catalog_t \<Rightarrow> svn_mergeinfo_catalog_t \<Rightarrow> svn_mergeinfo_catalog_t svn_result" where
  "svn_mergeinfo_catalog_merge mergeinfo_cat changes_cat =
     SVN_ERR (svn_sort__hash mergeinfo_cat svn_sort_compare_items_as_paths) (\<lambda>sorted_cat.
     SVN_ERR (svn_sort__hash changes_cat svn_sort_compare_items_as_paths) (\<lambda>sorted_changes.
     SVN_ERR (catalog_merge_loop sorted_cat sorted_changes mergeinfo_cat) (\<lambda>(remaining, mergeinfo_cat').
     Inr (foldl (\<lambda>cat elt. apr_hash_set cat (fst elt) (svn_mergeinfo_dup (snd elt)))
            mergeinfo_cat' remaining))))"

definition svn_mergeinfo_intersect2 ::
  "svn_mergeinfo_t \<Rightarrow> svn_mergeinfo_t \<Rightarrow> bool \<Rightarrow> svn_mergeinfo_t svn_result" where
  "svn_mergeinfo_intersect2 mergeinfo1 mergeinfo2 consider =
     hash_iter (\<lambda>path rangelist1 mergeinfo.
       case apr_hash_get mergeinfo2 path of
         None \<Rightarrow> Inr mergeinfo
       | Some rangelist2 \<Rightarrow>
           SVN_ERR (svn_rangelist_intersect rangelist1 rangelist2 consider) (\<lambda>rangelist2'.
           if length rangelist2' > 0
           then Inr (apr_hash_set mergeinfo path (svn_rangelist_dup rangelist2'))
           else Inr mergeinfo)) mergeinfo1 []"

section \<open>Selecting inheritable ranges\<close>

definition svn_rangelist_inheritable2 ::
  "svn_rangelist_t \<Rightarrow> svn_revnum_t \<Rightarrow> svn_revnum_t \<Rightarrow> bool \<Rightarrow> svn_rangelist_t svn_result" where
  "svn_rangelist_inheritable2 rangelist s e inh =
     (if length rangelist > 0 then
        if \<not> SVN_IS_VALID_REVNUM s \<or> \<not> SVN_IS_VALID_REVNUM e \<or> e < s
        then Inr (filter (\<lambda>rng. inheritable rng = inh) rangelist)
        else svn_rangelist_remove (svn_rangelist__initialize s e inh) rangelist True
      else Inr [])"

definition svn_mergeinfo_inheritable2 ::
  "svn_mergeinfo_t \<Rightarrow> string option \<Rightarrow> svn_revnum_t \<Rightarrow> svn_revnum_t \<Rightarrow> bool \<Rightarrow> svn_mergeinfo_t svn_result" where
  "svn_mergeinfo_inheritable2 mergeinfo path s e inh =
     hash_iter (\<lambda>key rangelist inheritable_mergeinfo.
       SVN_ERR (case path of None \<Rightarrow> Inr 0 | Some p \<Rightarrow> svn_path_compare_paths p key) (\<lambda>res.
       SVN_ERR
         (if res = 0
          then svn_rangelist_inheritable2 rangelist s e inh
          else Inr (svn_rangelist_dup rangelist))
         (\<lambda>inheritable_rangelist.
            if length inheritable_rangelist > 0
            then Inr (apr_hash_set inheritable_mergeinfo key inheritable_rangelist)
            else Inr inheritable_mergeinfo))) mergeinfo []"

definition svn_mergeinfo__is_noninheritable :: "svn_mergeinfo_t option \<Rightarrow> bool" where
  "svn_mergeinfo__is_noninheritable mergeinfo =
     (case mergeinfo of
        None \<Rightarrow> False
      | Some h \<Rightarrow> list_ex (\<lambda>(path, rangelist). list_ex (\<lambda>rng. \<not> inheritable rng) rangelist) h)"

text \<open>Removing the entries with an empty rangelist; the flag tells whether there were any.\<close>

definition svn_mergeinfo__remove_empty_rangelists ::
  "svn_mergeinfo_t option \<Rightarrow> bool \<times> svn_mergeinfo_t option" where
  "svn_mergeinfo__remove_empty_rangelists mergeinfo =
     (case mergeinfo of
        None \<Rightarrow> (False, None)
      | Some h \<Rightarrow>
          let (removed_some_ranges, h') =
            foldl (\<lambda>(removed, h') (path, rangelist).
              if length rangelist = 0 then (True, apr_hash_unset h' path) else (removed, h')) (False, h) h
          in (removed_some_ranges, Some h'))"

section \<open>Changing the paths\<close>

definition svn_mergeinfo__remove_prefix_from_catalog ::
  "svn_mergeinfo_catalog_t \<Rightarrow> string \<Rightarrow> svn_mergeinfo_catalog_t svn_result" where
  "svn_mergeinfo__remove_prefix_from_catalog in_catalog prefix_path =
     SVN_ERR_ASSERT (deref prefix_path = CHR ''/'') (
     hash_iter (\<lambda>original_path value out_catalog.
       SVN_ERR (svn_fspath__skip_ancestor prefix_path original_path) (\<lambda>skipped.
       case skipped of
         None \<Rightarrow> Inl SVN_ERR_ASSERTION_FAIL
       | Some new_path \<Rightarrow> Inr (apr_hash_set out_catalog new_path value))) in_catalog [])"

definition svn_mergeinfo__add_suffix_to_mergeinfo ::
  "svn_mergeinfo_t \<Rightarrow> string option \<Rightarrow> svn_mergeinfo_t svn_result" where
  "svn_mergeinfo__add_suffix_to_mergeinfo mergeinfo suffix =
     (case suffix of
        None \<Rightarrow> Inl SVN_ERR_ASSERTION_FAIL
      | Some suffix_relpath \<Rightarrow>
          SVN_ERR_ASSERT (svn_relpath_is_canonical suffix_relpath) (
          hash_iter (\<lambda>fspath rangelist out_mergeinfo.
            SVN_ERR (svn_fspath__join fspath suffix_relpath) (\<lambda>joined.
            Inr (apr_hash_set out_mergeinfo joined rangelist))) mergeinfo []))"

section \<open>Formatted output\<close>

definition opt_prefix :: "string option \<Rightarrow> string" where
  "opt_prefix prefix = (case prefix of None \<Rightarrow> [] | Some s \<Rightarrow> s)"

definition svn_mergeinfo__catalog_to_formatted_string ::
  "svn_mergeinfo_catalog_t option \<Rightarrow> string option \<Rightarrow> string option \<Rightarrow> string svn_result" where
  "svn_mergeinfo__catalog_to_formatted_string catalog key_prefix val_prefix =
     (case catalog of
        Some cat \<Rightarrow>
          if length cat > 0 then
            SVN_ERR (svn_sort__hash cat svn_sort_compare_items_as_paths) (\<lambda>sorted_catalog.
            hash_iter (\<lambda>path1 mergeinfo output_buf.
              SVN_ERR (mergeinfo_to_stringbuf mergeinfo (Some (opt_prefix val_prefix))) (\<lambda>mergeinfo_output_buf.
              Inr (output_buf @ opt_prefix key_prefix @ path1 @ [newline] @ mergeinfo_output_buf @ [newline])))
              sorted_catalog [])
          else Inr [newline]
      | None \<Rightarrow> Inr [newline])"

definition svn_mergeinfo__to_formatted_string ::
  "svn_mergeinfo_t option \<Rightarrow> string option \<Rightarrow> string svn_result" where
  "svn_mergeinfo__to_formatted_string mergeinfo prefix =
     (case mergeinfo of
        Some h \<Rightarrow>
          if length h > 0
          then SVN_ERR (mergeinfo_to_stringbuf h (Some (opt_prefix prefix))) (\<lambda>str. Inr (str @ [newline]))
          else Inr []
      | None \<Rightarrow> Inr [])"

section \<open>Revision bounds, filters and offsets\<close>

text \<open>The body of the loop on the pair of the youngest and the oldest revision seen.\<close>

definition range_endpoints_step ::
  "svn_revnum_t \<times> svn_revnum_t \<Rightarrow> svn_rangelist_t \<Rightarrow> svn_revnum_t \<times> svn_revnum_t" where
  "range_endpoints_step acc rangelist =
     (let (youngest_rev, oldest_rev) = acc in
      if length rangelist > 0 then
        let rng = rangelist ! (length rangelist - 1);
            youngest = (if \<not> SVN_IS_VALID_REVNUM youngest_rev \<or> endr rng > youngest_rev
                        then endr rng else youngest_rev);
            rng' = rangelist ! 0;
            oldest = (if \<not> SVN_IS_VALID_REVNUM oldest_rev \<or> start rng' < oldest_rev
                      then start rng' else oldest_rev)
        in (youngest, oldest)
      else acc)"

definition svn_mergeinfo__get_range_endpoints ::
  "svn_mergeinfo_t option \<Rightarrow> svn_revnum_t \<times> svn_revnum_t" where
  "svn_mergeinfo__get_range_endpoints mergeinfo =
     (case mergeinfo of
        None \<Rightarrow> (SVN_INVALID_REVNUM, SVN_INVALID_REVNUM)
      | Some h \<Rightarrow> foldl (\<lambda>acc (path, rangelist). range_endpoints_step acc rangelist)
                   (SVN_INVALID_REVNUM, SVN_INVALID_REVNUM) h)"

definition svn_mergeinfo__filter_mergeinfo_by_ranges ::
  "svn_mergeinfo_t option \<Rightarrow> svn_revnum_t \<Rightarrow> svn_revnum_t \<Rightarrow> bool \<Rightarrow> svn_mergeinfo_t svn_result" where
  "svn_mergeinfo__filter_mergeinfo_by_ranges mergeinfo youngest_rev oldest_rev include_range =
     SVN_ERR_ASSERT (SVN_IS_VALID_REVNUM youngest_rev) (
     SVN_ERR_ASSERT (SVN_IS_VALID_REVNUM oldest_rev) (
     SVN_ERR_ASSERT (oldest_rev < youngest_rev) (
     case mergeinfo of
       None \<Rightarrow> Inr []
     | Some h \<Rightarrow>
         let filter_rangelist = svn_rangelist__initialize oldest_rev youngest_rev True in
         hash_iter (\<lambda>path rangelist filtered_mergeinfo.
           if length rangelist > 0 then
             SVN_ERR (rangelist_intersect_or_remove filter_rangelist rangelist (\<not> include_range) False)
               (\<lambda>new_rangelist.
                  if length new_rangelist > 0
                  then Inr (apr_hash_set filtered_mergeinfo path new_rangelist)
                  else Inr filtered_mergeinfo)
           else Inr filtered_mergeinfo) h [])))"

definition svn_mergeinfo__filter_catalog_by_ranges ::
  "svn_mergeinfo_catalog_t \<Rightarrow> svn_revnum_t \<Rightarrow> svn_revnum_t \<Rightarrow> bool \<Rightarrow> svn_mergeinfo_catalog_t svn_result" where
  "svn_mergeinfo__filter_catalog_by_ranges catalog youngest_rev oldest_rev include_range =
     hash_iter (\<lambda>path mergeinfo filtered_cat.
       SVN_ERR (svn_mergeinfo__filter_mergeinfo_by_ranges (Some mergeinfo) youngest_rev oldest_rev include_range)
         (\<lambda>filtered_mergeinfo.
            if length filtered_mergeinfo > 0
            then Inr (apr_hash_set filtered_cat path filtered_mergeinfo)
            else Inr filtered_cat)) catalog []"

text \<open>
  The ranges that are kept are changed in place and shared between the input and the
  output: the results are the adjusted mergeinfo and what the input holds afterwards.
\<close>

definition adjusts_range :: "svn_revnum_t \<Rightarrow> svn_merge_range_t \<Rightarrow> bool" where
  "adjusts_range offset rng \<longleftrightarrow> start rng + offset > 0 \<and> endr rng + offset > 0"

definition adjust_range :: "svn_revnum_t \<Rightarrow> svn_merge_range_t \<Rightarrow> svn_merge_range_t" where
  "adjust_range offset rng =
     (if adjusts_range offset rng then
        rng\<lparr>start := (if start rng + offset < 0 then 0 else start rng + offset),
            endr := (if endr rng + offset < 0 then 0 else endr rng + offset)\<rparr>
      else rng)"

definition svn_mergeinfo__adjust_mergeinfo_rangelists ::
  "svn_mergeinfo_t option \<Rightarrow> svn_revnum_t \<Rightarrow> svn_mergeinfo_t \<times> svn_mergeinfo_t option" where
  "svn_mergeinfo__adjust_mergeinfo_rangelists mergeinfo offset =
     (case mergeinfo of
        None \<Rightarrow> ([], None)
      | Some h \<Rightarrow>
          (foldl (\<lambda>adjusted_mergeinfo (path, rangelist).
             let adjusted_rangelist = map (adjust_range offset) (filter (adjusts_range offset) rangelist) in
             if length adjusted_rangelist > 0 then apr_hash_set adjusted_mergeinfo path adjusted_rangelist
             else adjusted_mergeinfo) [] h,
           Some (map (\<lambda>(path, rangelist). (path, map (adjust_range offset) rangelist)) h)))"

definition svn_mergeinfo_sort :: "svn_mergeinfo_t \<Rightarrow> svn_mergeinfo_t" where
  "svn_mergeinfo_sort input = map (\<lambda>(path, rl). (path, qsort svn_sort_compare_ranges rl)) input"

section \<open>Mergeinfo of a history\<close>

record svn_location_segment_t =
  range_start :: svn_revnum_t
  range_end :: svn_revnum_t
  seg_path :: "string option"

definition segment_step :: "svn_mergeinfo_t \<Rightarrow> svn_location_segment_t \<Rightarrow> svn_mergeinfo_t" where
  "segment_step mergeinfo segment =
     (case seg_path segment of
        None \<Rightarrow> mergeinfo
      | Some path \<Rightarrow>
          let source_path = ''/'' @ path;
              path_ranges = (case apr_hash_get mergeinfo source_path of None \<Rightarrow> [] | Some rl \<Rightarrow> rl)
          in if range_start segment = 0 \<and> range_end segment = 0 then mergeinfo
             else apr_hash_set mergeinfo source_path
                    (path_ranges @ [\<lparr>start = max (range_start segment - 1) 0,
                                     endr = range_end segment, inheritable = True\<rparr>]))"

definition svn_mergeinfo__mergeinfo_from_segments ::
  "svn_location_segment_t list \<Rightarrow> svn_mergeinfo_t" where
  "svn_mergeinfo__mergeinfo_from_segments segs = foldl segment_step [] segs"

definition svn_rangelist__merge_many ::
  "svn_rangelist_t \<Rightarrow> svn_mergeinfo_t \<Rightarrow> svn_rangelist_t svn_result" where
  "svn_rangelist__merge_many merged_rangelist merge_history =
     (if length merge_history > 0
      then hash_iter (\<lambda>path subtree_rangelist merged. svn_rangelist_merge2 merged subtree_rangelist)
             merge_history merged_rangelist
      else Inr merged_rangelist)"

section \<open>Words for inheritance and depth\<close>

datatype svn_mergeinfo_inheritance_t =
    svn_mergeinfo_explicit
  | svn_mergeinfo_inherited
  | svn_mergeinfo_nearest_ancestor

fun svn_inheritance_to_word :: "svn_mergeinfo_inheritance_t \<Rightarrow> string" where
  "svn_inheritance_to_word svn_mergeinfo_inherited = ''inherited''"
| "svn_inheritance_to_word svn_mergeinfo_nearest_ancestor = ''nearest-ancestor''"
| "svn_inheritance_to_word svn_mergeinfo_explicit = ''explicit''"

definition svn_inheritance_from_word :: "string \<Rightarrow> svn_mergeinfo_inheritance_t" where
  "svn_inheritance_from_word word =
     (if word = ''inherited'' then svn_mergeinfo_inherited
      else if word = ''nearest-ancestor'' then svn_mergeinfo_nearest_ancestor
      else svn_mergeinfo_explicit)"

datatype svn_depth_t =
    svn_depth_unknown
  | svn_depth_exclude
  | svn_depth_empty
  | svn_depth_files
  | svn_depth_immediates
  | svn_depth_infinity

fun svn_depth_to_word :: "svn_depth_t \<Rightarrow> string" where
  "svn_depth_to_word svn_depth_exclude = ''exclude''"
| "svn_depth_to_word svn_depth_unknown = ''unknown''"
| "svn_depth_to_word svn_depth_empty = ''empty''"
| "svn_depth_to_word svn_depth_files = ''files''"
| "svn_depth_to_word svn_depth_immediates = ''immediates''"
| "svn_depth_to_word svn_depth_infinity = ''infinity''"

definition svn_depth_from_word :: "string \<Rightarrow> svn_depth_t" where
  "svn_depth_from_word word =
     (if word = ''exclude'' then svn_depth_exclude
      else if word = ''unknown'' then svn_depth_unknown
      else if word = ''empty'' then svn_depth_empty
      else if word = ''files'' then svn_depth_files
      else if word = ''immediates'' then svn_depth_immediates
      else if word = ''infinity'' then svn_depth_infinity
      else svn_depth_unknown)"

section \<open>The difference walk\<close>

text \<open>What the walk stores for a path, from the two rangelists it may have.\<close>

definition keep_nonempty :: "svn_rangelist_t \<Rightarrow> svn_rangelist_t option" where
  "keep_nonempty rl = (if rl = [] then None else Some rl)"

definition diff_entry ::
  "(svn_rangelist_t \<Rightarrow> svn_rangelist_t \<Rightarrow> svn_rangelist_t) \<Rightarrow> svn_mergeinfo_t \<Rightarrow>
   string \<Rightarrow> svn_rangelist_t \<Rightarrow> svn_rangelist_t option" where
  "diff_entry f t path rl = (case map_of t path of None \<Rightarrow> Some rl | Some rl' \<Rightarrow> keep_nonempty (f rl rl'))"

definition common_entry ::
  "(svn_rangelist_t \<Rightarrow> svn_rangelist_t \<Rightarrow> svn_rangelist_t) \<Rightarrow> svn_mergeinfo_t \<Rightarrow>
   string \<Rightarrow> svn_rangelist_t \<Rightarrow> svn_rangelist_t option" where
  "common_entry f t path rl = (case map_of t path of None \<Rightarrow> None | Some rl' \<Rightarrow> keep_nonempty (f rl rl'))"

definition fresh_entry :: "svn_mergeinfo_t \<Rightarrow> string \<Rightarrow> svn_rangelist_t \<Rightarrow> svn_rangelist_t option" where
  "fresh_entry f path rl = (if map_of f path = None then Some rl else None)"

lemmas entry_defs = diff_entry_def common_entry_def fresh_entry_def keep_nonempty_def

lemma get_rangelist_Some [simp]: "map_of h p = Some rl \<Longrightarrow> get_rangelist (Some h) p = Inr rl"
  by (simp add: get_rangelist_def)

lemma hash_has_Some [simp]: "hash_has (Some h) k \<longleftrightarrow> map_of h k \<noteq> None" "\<not> hash_has None k"
  by (auto simp: hash_has_def)

text \<open>The first loop: over the entries of the table diffed from.\<close>

lemma diff_walk_first:
  assumes "wf_hash f" and "\<forall>(p, rl) \<in> set f. map_of F p = Some rl"
    and "\<forall>(p, rl) \<in> set f. \<forall>rl'. map_of t p = Some rl' \<longrightarrow>
      svn_rangelist_diff rl rl' (consider_inheritance cb) = Inr (D rl rl', A rl rl')"
    and "from_info cb = Some F" "to_info cb = Some t" "deleted_info cb = Some d"
    and "fst ` set f \<inter> fst ` set d = {}"
    and "\<forall>a. added_info cb = Some a \<longrightarrow> fst ` set f \<inter> fst ` set a = {}"
  shows "hash_iter (\<lambda>key _ b.
      if hash_has (Some t) key then mergeinfo_hash_diff_cb key svn_hash_diff_key_both b
      else mergeinfo_hash_diff_cb key svn_hash_diff_key_a b) f cb =
    Inr (cb\<lparr>deleted_info := Some (d @ collected f (diff_entry D t)),
             added_info := map_option (\<lambda>a. a @ collected f (common_entry A t)) (added_info cb)\<rparr>)"
  using assms
proof (induction f arbitrary: cb d)
  case Nil
  then show ?case by (cases "added_info cb") simp_all
next
  case (Cons e f)
  obtain p rl where e: "e = (p, rl)" by fastforce
  let ?d = "d @ (case diff_entry D t p rl of None \<Rightarrow> [] | Some x \<Rightarrow> [(p, x)])"
  let ?cb = "cb\<lparr>deleted_info := Some ?d, added_info := map_option (\<lambda>a. a @
     (case common_entry A t p rl of None \<Rightarrow> [] | Some x \<Rightarrow> [(p, x)])) (added_info cb)\<rparr>"
  have fresh: "p \<notin> fst ` set d" "\<And>a. added_info cb = Some a \<Longrightarrow> p \<notin> fst ` set a"
    using Cons.prems(7,8) by (auto simp: e)
  have step: "(if hash_has (Some t) p then mergeinfo_hash_diff_cb p svn_hash_diff_key_both cb
      else mergeinfo_hash_diff_cb p svn_hash_diff_key_a cb) = Inr ?cb"
    using Cons.prems(2-6) fresh
    by (cases "map_of t p"; cases "added_info cb")
       (auto simp: e mergeinfo_hash_diff_cb_def entry_defs set_unless_null_def apr_hash_set_fresh Let_def)
  have "wf_hash f" and p: "p \<notin> fst ` set f" using Cons.prems(1) by (auto simp: e wf_hash_Cons)
  moreover have "fst ` set f \<inter> fst ` set ?d = {}"
    using Cons.prems(7) p by (cases "diff_entry D t p rl") (simp_all add: e)
  moreover have "\<forall>a. added_info ?cb = Some a \<longrightarrow> fst ` set f \<inter> fst ` set a = {}"
    using Cons.prems(8) p by (cases "added_info cb"; cases "common_entry A t p rl") (simp_all add: e)
  ultimately have "hash_iter (\<lambda>key _ b.
      if hash_has (Some t) key then mergeinfo_hash_diff_cb key svn_hash_diff_key_both b
      else mergeinfo_hash_diff_cb key svn_hash_diff_key_a b) f ?cb =
    Inr (?cb\<lparr>deleted_info := Some (?d @ collected f (diff_entry D t)),
             added_info := map_option (\<lambda>a. a @ collected f (common_entry A t)) (added_info ?cb)\<rparr>)"
    using Cons.prems(2-5) by (intro Cons.IH) (auto simp: e)
  with step show ?case
    by (cases "added_info cb") (auto simp: e simp del: hash_has_Some split: option.splits)
qed

text \<open>The second loop: over the entries of the other table.\<close>

lemma diff_walk_second:
  assumes "wf_hash t" and "\<forall>(p, rl) \<in> set t. map_of T p = Some rl"
    and "to_info cb = Some T"
    and "\<forall>a. added_info cb = Some a \<longrightarrow>
      (\<forall>k \<in> fst ` set t. map_of F k = None \<longrightarrow> k \<notin> fst ` set a)"
  shows "hash_iter (\<lambda>key _ b.
      if \<not> hash_has (Some F) key then mergeinfo_hash_diff_cb key svn_hash_diff_key_b b else Inr b) t cb =
    Inr (cb\<lparr>added_info := map_option (\<lambda>a. a @ collected t (fresh_entry F)) (added_info cb)\<rparr>)"
  using assms
proof (induction t arbitrary: cb)
  case Nil
  then show ?case by (cases "added_info cb") simp_all
next
  case (Cons e t)
  obtain p rl where e: "e = (p, rl)" by fastforce
  let ?cb = "cb\<lparr>added_info := map_option (\<lambda>a. a @
     (case fresh_entry F p rl of None \<Rightarrow> [] | Some x \<Rightarrow> [(p, x)])) (added_info cb)\<rparr>"
  have step: "(if \<not> hash_has (Some F) p then mergeinfo_hash_diff_cb p svn_hash_diff_key_b cb
      else Inr cb) = Inr ?cb"
    using Cons.prems(2-4)
    by (cases "map_of F p"; cases "added_info cb")
       (auto simp: e mergeinfo_hash_diff_cb_def entry_defs set_unless_null_def apr_hash_set_fresh)
  have "wf_hash t" and p: "p \<notin> fst ` set t" using Cons.prems(1) by (auto simp: e wf_hash_Cons)
  moreover have "\<forall>a. added_info ?cb = Some a \<longrightarrow>
      (\<forall>k \<in> fst ` set t. map_of F k = None \<longrightarrow> k \<notin> fst ` set a)"
    using Cons.prems(4) p by (cases "added_info cb"; cases "fresh_entry F p rl") (auto simp add: e simp del: set_map)
  ultimately have "hash_iter (\<lambda>key _ b.
      if \<not> hash_has (Some F) key then mergeinfo_hash_diff_cb key svn_hash_diff_key_b b else Inr b) t ?cb =
    Inr (?cb\<lparr>added_info := map_option (\<lambda>a. a @ collected t (fresh_entry F)) (added_info ?cb)\<rparr>)"
    using Cons.prems(2,3) by (intro Cons.IH) (auto simp: e)
  with step show ?case
    by (cases "added_info cb") (auto simp: e simp del: hash_has_Some split: option.splits)
qed

lemma walk_for_diff:
  assumes "wf_hash f" "wf_hash t"
    and "\<forall>(p, rl) \<in> set f. \<forall>rl'. map_of t p = Some rl' \<longrightarrow>
      svn_rangelist_diff rl rl' c = Inr (D rl rl', A rl rl')"
  shows "walk_mergeinfo_hash_for_diff (Some f) (Some t) (Some []) (map_option (\<lambda>_. []) u) c =
    Inr \<lparr>from_info = Some f, to_info = Some t, deleted_info = Some (collected f (diff_entry D t)),
         added_info = map_option (\<lambda>_. collected f (common_entry A t) @ collected t (fresh_entry f)) u,
         consider_inheritance = c\<rparr>"
proof -
  have f: "\<forall>(p, rl) \<in> set f. map_of f p = Some rl" and t: "\<forall>(p, rl) \<in> set t. map_of t p = Some rl"
    using assms(1,2) by (auto simp: wf_hash_map_of)
  have k: "\<forall>k \<in> fst ` set t. map_of f k = None \<longrightarrow> k \<notin> fst ` set (collected f (common_entry A t))"
    using keys_collected [of f "common_entry A t"] by (auto simp: map_of_eq_None_iff)
  show ?thesis
    unfolding walk_mergeinfo_hash_for_diff_def svn_hash_diff_def option.case
    using assms f t k
    by (subst diff_walk_first [where D = D and A = A and F = f and d = "[]"]; cases u)
       (simp_all add: diff_walk_second [where T = t] del: hash_has_Some)
qed

section \<open>Mergeinfo as sets of revisions of paths\<close>

definition mi_revs :: "svn_mergeinfo_t \<Rightarrow> (string \<times> svn_revnum_t) set" where
  "mi_revs m = {(p, r). \<exists>rl. map_of m p = Some rl \<and> r \<in> revs rl}"

text \<open>Distinct source paths, and for each a rangelist that is not empty.\<close>

definition wf_info :: "(svn_rangelist_t \<Rightarrow> bool) \<Rightarrow> svn_mergeinfo_t \<Rightarrow> bool" where
  "wf_info P m \<longleftrightarrow> wf_hash m \<and> (\<forall>(p, rl) \<in> set m. c_string p \<and> rl \<noteq> [] \<and> P rl)"

lemma mi_revs_iff: "(p, r) \<in> mi_revs m \<longleftrightarrow> (\<exists>rl. map_of m p = Some rl \<and> r \<in> revs rl)"
  by (simp add: mi_revs_def)

lemma mi_revs_Nil [simp]: "mi_revs [] = {}"
  by (simp add: mi_revs_def)

lemma wf_info_Nil [simp]: "wf_info P []"
  by (simp add: wf_info_def)

lemma wf_infoD:
  assumes "wf_info P m"
  shows "wf_hash m" "map_of m p = Some rl \<Longrightarrow> c_string p \<and> rl \<noteq> [] \<and> P rl"
  using assms by (auto simp: wf_info_def dest: map_of_SomeD)

lemma wf_infoI:
  assumes "wf_hash m" "\<And>p rl. map_of m p = Some rl \<Longrightarrow> c_string p \<and> rl \<noteq> [] \<and> P rl"
  shows "wf_info P m"
  unfolding wf_info_def using assms(1) by (auto simp: wf_hash_map_of dest: assms(2))

lemma wf_hash_append:
  "wf_hash (a @ b) \<longleftrightarrow> wf_hash a \<and> wf_hash b \<and> fst ` set a \<inter> fst ` set b = {}"
  by (simp add: wf_hash_def)

lemma mi_revs_eqI:
  "(\<And>p r. (\<exists>rl. map_of m p = Some rl \<and> r \<in> revs rl) \<longleftrightarrow> (p, r) \<in> S) \<Longrightarrow> mi_revs m = S"
  by (auto simp: mi_revs_def)

lemma foldl_collected:
  assumes "wf_hash h" "fst ` set h \<inter> fst ` set out = {}"
  shows "foldl (\<lambda>h (k, v). apr_hash_set h k (f v)) out h = out @ map (\<lambda>(k, v). (k, f v)) h"
  using assms
proof (induction h arbitrary: out)
  case (Cons e h)
  then show ?case by (cases e) (auto simp: wf_hash_Cons apr_hash_set_fresh)
qed simp

lemma mergeinfo_dup_id: "wf_hash m \<Longrightarrow> svn_mergeinfo_dup m = m"
  using foldl_collected [of m "[]" svn_rangelist_dup]
  by (simp add: svn_mergeinfo_dup_def comp_def case_prod_beta)

lemma catalog_dup_id:
  "wf_hash cat \<Longrightarrow> \<forall>(p, m) \<in> set cat. wf_hash m \<Longrightarrow> svn_mergeinfo_catalog_dup cat = cat"
  using foldl_collected [of cat "[]" svn_mergeinfo_dup]
  by (auto simp: svn_mergeinfo_catalog_dup_def mergeinfo_dup_id intro!: map_idI)

text \<open>
  A class of rangelists on which removal and intersection work; the operations on mergeinfo
  then work path by path.
\<close>

locale rangelist_class =
  revision_partition revs P "[]"
    "\<lambda>e w. svn_rangelist_remove e w c" "\<lambda>a b. svn_rangelist_intersect a b c"
  for P :: "svn_rangelist_t \<Rightarrow> bool" and c :: bool
begin

definition removed :: "svn_rangelist_t \<Rightarrow> svn_rangelist_t \<Rightarrow> svn_rangelist_t" where
  "removed e w = projr (svn_rangelist_remove e w c)"

definition common :: "svn_rangelist_t \<Rightarrow> svn_rangelist_t \<Rightarrow> svn_rangelist_t" where
  "common a b = projr (svn_rangelist_intersect a b c)"

lemma removed_ok:
  assumes "P e" "P w"
  shows "svn_rangelist_remove e w c = Inr (removed e w)" "P (removed e w)"
    "revs (removed e w) = revs w - revs e"
proof -
  obtain r where "svn_rangelist_remove e w c = Inr r \<and> P r \<and> revs r = revs w - revs e"
    using remove_ok [OF assms] ..
  then show "svn_rangelist_remove e w c = Inr (removed e w)" "P (removed e w)"
    "revs (removed e w) = revs w - revs e" by (simp_all add: removed_def)
qed

lemma common_ok:
  assumes "P e" "P w"
  shows "svn_rangelist_intersect e w c = Inr (common e w)" "P (common e w)"
    "revs (common e w) = revs w \<inter> revs e"
proof -
  obtain r where "svn_rangelist_intersect e w c = Inr r \<and> P r \<and> revs r = revs w \<inter> revs e"
    using intersect_ok [OF assms] ..
  then show "svn_rangelist_intersect e w c = Inr (common e w)" "P (common e w)"
    "revs (common e w) = revs w \<inter> revs e" by (simp_all add: common_def)
qed

lemma rangelist_diff_ok: "P a \<Longrightarrow> P b \<Longrightarrow> svn_rangelist_diff a b c = Inr (removed b a, removed a b)"
  by (simp add: svn_rangelist_diff_def removed_ok)

abbreviation mi_deleted :: "svn_mergeinfo_t \<Rightarrow> svn_mergeinfo_t \<Rightarrow> svn_mergeinfo_t" where
  "mi_deleted f t \<equiv> collected f (diff_entry (\<lambda>a b. removed b a) t)"

abbreviation mi_added :: "svn_mergeinfo_t \<Rightarrow> svn_mergeinfo_t \<Rightarrow> svn_mergeinfo_t" where
  "mi_added f t \<equiv> collected f (common_entry removed t) @ collected t (fresh_entry f)"

lemma walk_ok:
  assumes "wf_info P f" "wf_info P t"
  shows "walk_mergeinfo_hash_for_diff (Some f) (Some t) (Some []) (map_option (\<lambda>_. []) u) c =
    Inr \<lparr>from_info = Some f, to_info = Some t, deleted_info = Some (mi_deleted f t),
         added_info = map_option (\<lambda>_. mi_added f t) u, consider_inheritance = c\<rparr>"
proof (rule walk_for_diff)
  show "wf_hash f" "wf_hash t" using assms by (simp_all add: wf_infoD)
  show "\<forall>(p, rl) \<in> set f. \<forall>rl'. map_of t p = Some rl' \<longrightarrow>
      svn_rangelist_diff rl rl' c = Inr (removed rl' rl, removed rl rl')"
    using assms wf_infoD(2) [OF assms(2)] by (auto simp: wf_info_def rangelist_diff_ok)
qed

lemma mi_deleted_ok:
  assumes "wf_info P f" "wf_info P t"
  shows "wf_info P (mi_deleted f t)" "mi_revs (mi_deleted f t) = mi_revs f - mi_revs t"
proof -
  note w = wf_infoD [OF assms(1)] wf_infoD(2) [OF assms(2)]
  show "wf_info P (mi_deleted f t)"
    using w by (intro wf_infoI)
      (auto simp: wf_hash_collected map_of_collected entry_defs removed_ok Option.bind_eq_Some_conv
         split: option.splits if_splits)
  show "mi_revs (mi_deleted f t) = mi_revs f - mi_revs t"
  proof (rule mi_revs_eqI)
    fix p r
    show "(\<exists>rl. map_of (mi_deleted f t) p = Some rl \<and> r \<in> revs rl) \<longleftrightarrow> (p, r) \<in> mi_revs f - mi_revs t"
    proof (cases "map_of f p"; cases "map_of t p")
      fix a b assume ab: "map_of f p = Some a" "map_of t p = Some b"
      then have "revs (removed b a) = revs a - revs b" using w by (simp add: removed_ok)
      then show ?thesis using ab w(1) by (auto simp: map_of_collected mi_revs_iff entry_defs)
    qed (use w(1) in \<open>auto simp: map_of_collected mi_revs_iff entry_defs\<close>)
  qed
qed

lemma mi_added_ok:
  assumes "wf_info P f" "wf_info P t"
  shows "wf_info P (mi_added f t)" "mi_revs (mi_added f t) = mi_revs t - mi_revs f"
proof -
  note wf = wf_infoD [OF assms(1)] and wt = wf_infoD [OF assms(2)]
  have look: "map_of (mi_added f t) p =
    (case (map_of f p, map_of t p) of
       (_, None) \<Rightarrow> None | (None, Some b) \<Rightarrow> Some b | (Some a, Some b) \<Rightarrow> keep_nonempty (removed a b))" for p
    using wf(1) wt(1)
    by (auto simp: map_of_append map_add_def map_of_collected entry_defs split: option.splits)
  have "wf_hash (mi_added f t)"
    unfolding wf_hash_append using wf_hash_collected [OF wf(1)] wf_hash_collected [OF wt(1)]
    by (force simp: in_collected fresh_entry_def map_of_eq_None_iff split: if_splits)
  then show "wf_info P (mi_added f t)"
    using wf(2) wt(2)
    by (intro wf_infoI) (auto simp only: look, auto simp: keep_nonempty_def removed_ok split: option.splits if_splits)
  show "mi_revs (mi_added f t) = mi_revs t - mi_revs f"
  proof (rule mi_revs_eqI, unfold look)
    fix p r
    show "(\<exists>rl. (case (map_of f p, map_of t p) of
       (_, None) \<Rightarrow> None | (None, Some b) \<Rightarrow> Some b | (Some a, Some b) \<Rightarrow> keep_nonempty (removed a b)) =
          Some rl \<and> r \<in> revs rl) \<longleftrightarrow> (p, r) \<in> mi_revs t - mi_revs f"
    proof (cases "map_of f p"; cases "map_of t p")
      fix a b assume ab: "map_of f p = Some a" "map_of t p = Some b"
      then have "revs (removed a b) = revs b - revs a" using wf wt by (simp add: removed_ok)
      then show ?thesis using ab by (auto simp: mi_revs_iff keep_nonempty_def)
    qed (auto simp: mi_revs_iff)
  qed
qed

lemma mergeinfo_diff_ok:
  assumes "wf_info P f" "wf_info P t"
  shows "svn_mergeinfo_diff2 (Some f) (Some t) c = Inr (mi_deleted f t, mi_added f t)"
  using walk_ok [OF assms, of "Some undefined"] by (simp add: svn_mergeinfo_diff2_def)

lemma mergeinfo_remove_ok:
  assumes "wf_info P e" "wf_info P w"
  shows "svn_mergeinfo_remove2 (Some e) (Some w) c = Inr (mi_deleted w e)"
  using walk_ok [OF assms(2,1), of None] by (simp add: svn_mergeinfo_remove2_def)

lemma mergeinfo_intersect_ok:
  assumes "wf_info P a" "wf_info P b"
  shows "\<exists>m. svn_mergeinfo_intersect2 a b c = Inr m \<and> wf_info P m \<and> mi_revs m = mi_revs b \<inter> mi_revs a"
proof -
  note wa = wf_infoD [OF assms(1)] and wb = wf_infoD [OF assms(2)]
  let ?m = "collected a (common_entry common b)"
  have "svn_mergeinfo_intersect2 a b c = Inr ?m"
    unfolding svn_mergeinfo_intersect2_def
    using wa wb assms(1)
    by (intro hash_iter_collected collectsI)
       (auto simp: wf_hash_map_of common_ok entry_defs split: option.splits)
  moreover have "wf_info P ?m"
    using wa wb by (intro wf_infoI)
      (auto simp: wf_hash_collected map_of_collected entry_defs common_ok Option.bind_eq_Some_conv
         split: option.splits if_splits)
  moreover have "mi_revs ?m = mi_revs b \<inter> mi_revs a"
  proof (rule mi_revs_eqI)
    fix p r
    show "(\<exists>rl. map_of ?m p = Some rl \<and> r \<in> revs rl) \<longleftrightarrow> (p, r) \<in> mi_revs b \<inter> mi_revs a"
    proof (cases "map_of a p"; cases "map_of b p")
      fix x y assume xy: "map_of a p = Some x" "map_of b p = Some y"
      then have "revs (common x y) = revs y \<inter> revs x" using wa wb by (simp add: common_ok)
      then show ?thesis using xy wa(1) by (auto simp: map_of_collected mi_revs_iff entry_defs)
    qed (use wa(1) in \<open>auto simp: map_of_collected mi_revs_iff entry_defs\<close>)
  qed
  ultimately show ?thesis by blast
qed

lemma mi_revs_empty: "wf_info P m \<Longrightarrow> mi_revs m = {} \<longleftrightarrow> m = []"
proof (cases m)
  case (Cons e m')
  obtain p rl where e: "e = (p, rl)" by fastforce
  assume "wf_info P m"
  then have "rl \<noteq> []" "P rl" by (auto simp: Cons e wf_info_def)
  then obtain r where "r \<in> revs rl" using covered_empty by blast
  then have "(p, r) \<in> mi_revs m" by (auto simp: mi_revs_iff Cons e)
  then show ?thesis using Cons by auto
qed simp

sublocale mi: revision_partition mi_revs "wf_info P" "[]"
    "\<lambda>e w. svn_mergeinfo_remove2 (Some e) (Some w) c" "\<lambda>a b. svn_mergeinfo_intersect2 a b c"
  using mi_revs_empty mergeinfo_intersect_ok
  by unfold_locales (auto simp: mergeinfo_remove_ok mi_deleted_ok)

end

section \<open>Merging sorted tables\<close>

definition strictly_sorted :: "(string \<times> 'v) list \<Rightarrow> bool" where
  "strictly_sorted xs \<longleftrightarrow> sorted_wrt (\<lambda>a b. items_path_order a b < 0) xs"

definition c_keys :: "'v apr_hash \<Rightarrow> bool" where
  "c_keys h \<longleftrightarrow> (\<forall>k \<in> fst ` set h. c_string k)"

lemma compare_items_eq:
  "c_string (fst a) \<Longrightarrow> c_string (fst b) \<Longrightarrow> items_path_order a b = 0 \<longleftrightarrow> fst a = fst b"
  by (simp add: items_path_order_def compare_paths_path_cmp c_bytes_c_string path_cmp_eq)

lemma compare_items_same: "fst a = fst b \<Longrightarrow> items_path_order a b = 0"
  by (simp add: items_path_order_def path_cmp.cmp_refl)

lemma strictly_sorted_simps [simp]:
  "strictly_sorted []"
  "strictly_sorted (e # xs) \<longleftrightarrow> (\<forall>x \<in> set xs. items_path_order e x < 0) \<and> strictly_sorted xs"
  by (simp_all add: strictly_sorted_def)

lemma ordered_strict:
  "items_path_cmp.ordered xs \<Longrightarrow> wf_hash xs \<Longrightarrow> c_keys xs \<Longrightarrow> strictly_sorted xs"
proof (induction xs)
  case (Cons e xs)
  have "items_path_order e x < 0" if "x \<in> set xs" for x
    using Cons.prems that compare_items_eq [of e x]
    by (fastforce simp: items_path_cmp.ordered_def wf_hash_def c_keys_def)
  with Cons show ?case by (simp add: items_path_cmp.ordered_def wf_hash_def c_keys_def)
qed simp

lemma hash_by_paths_strict:
  assumes "wf_hash h" "c_keys h"
  shows "strictly_sorted (hash_by_paths h)"
proof (cases "items_sorted items_path_order h")
  case True
  then show ?thesis by (simp add: hash_by_paths_def strictly_sorted_def items_path_cmp.items_sorted_strict)
next
  case False
  have "mset (map fst (hash_by_paths h)) = mset (map fst h)" by (simp add: mset_hash_by_paths)
  then have "wf_hash (hash_by_paths h)" using assms(1) by (metis mset_eq_imp_distinct_iff wf_hash_def)
  moreover have "c_keys (hash_by_paths h)" using assms(2) by (simp add: c_keys_def)
  ultimately show ?thesis using False
    by (simp add: hash_by_paths_def ordered_strict items_path_cmp.ordered_qsort)
qed

lemma strictly_sorted_fresh:
  "\<forall>x \<in> set xs. items_path_order e x < 0 \<Longrightarrow> fst e \<notin> fst ` set xs"
  using compare_items_same by fastforce

lemma strictly_sorted_wf: "strictly_sorted xs \<Longrightarrow> wf_hash xs"
  by (induction xs) (auto simp: wf_hash_def dest!: strictly_sorted_fresh)

text \<open>The common shape of the two loops, over the merge of two values and the copy of one.\<close>

fun table_merge_loop ::
  "('v \<Rightarrow> 'v \<Rightarrow> 'v svn_result) \<Rightarrow> ('v \<Rightarrow> 'v) \<Rightarrow> (string \<times> 'v) list \<Rightarrow> (string \<times> 'v) list \<Rightarrow>
   'v apr_hash \<Rightarrow> ((string \<times> 'v) list \<times> 'v apr_hash) svn_result" where
  "table_merge_loop mrg cp (e1 # s1) (e2 # s2) h =
     (if items_path_order e1 e2 = 0 then
        SVN_ERR (mrg (snd e1) (snd e2)) (\<lambda>v. table_merge_loop mrg cp s1 s2 (apr_hash_set h (fst e1) v))
      else if items_path_order e1 e2 < 0 then table_merge_loop mrg cp s1 (e2 # s2) h
      else table_merge_loop mrg cp (e1 # s1) s2 (apr_hash_set h (fst e2) (cp (snd e2))))"
| "table_merge_loop mrg cp s1 s2 h = Inr (s2, h)"

lemma mergeinfo_merge_loop_table:
  "canonical_keys s1 \<Longrightarrow> canonical_keys s2 \<Longrightarrow>
   mergeinfo_merge_loop s1 s2 h = table_merge_loop svn_rangelist_merge2 id s1 s2 h"
  by (induction s1 s2 h rule: mergeinfo_merge_loop.induct)
     (auto simp: svn_sort_compare_items_as_paths_def items_path_order_def compare_paths_canonical
       SVN_ERR_def split: sum.splits)

lemma catalog_merge_loop_table:
  "canonical_keys s1 \<Longrightarrow> canonical_keys s2 \<Longrightarrow>
   catalog_merge_loop s1 s2 h = table_merge_loop svn_mergeinfo_merge2 svn_mergeinfo_dup s1 s2 h"
  by (induction s1 s2 h rule: catalog_merge_loop.induct)
     (auto simp: svn_sort_compare_items_as_paths_def items_path_order_def compare_paths_canonical
       SVN_ERR_def split: sum.splits)

lemma canonical_keys_sorted [simp]: "canonical_keys (hash_by_paths h) = canonical_keys h"
  by (simp add: canonical_keys_def)

lemma foldl_set_copies:
  "wf_hash xs \<Longrightarrow> wf_hash h \<Longrightarrow>
   wf_hash (foldl (\<lambda>h e. apr_hash_set h (fst e) (cp (snd e))) h xs)
   \<and> map_of (foldl (\<lambda>h e. apr_hash_set h (fst e) (cp (snd e))) h xs) p =
      (case map_of xs p of None \<Rightarrow> map_of h p | Some v \<Rightarrow> Some (cp v))"
proof (induction xs arbitrary: h)
  case (Cons e xs)
  obtain k v where e: "e = (k, v)" by fastforce
  have "k \<notin> fst ` set xs" "wf_hash xs" using Cons.prems(1) by (auto simp: e wf_hash_Cons)
  moreover from this have "map_of xs k = None" by (simp add: map_of_eq_None_iff)
  ultimately show ?case using Cons.IH [of "apr_hash_set h k (cp v)"] Cons.prems(2)
    by (auto simp: e split: option.splits)
qed simp

definition table_merged ::
  "('v \<Rightarrow> 'v \<Rightarrow> 'v) \<Rightarrow> ('v \<Rightarrow> 'v) \<Rightarrow> 'v option \<Rightarrow> 'v option \<Rightarrow> 'v option" where
  "table_merged M cp x y = (case y of None \<Rightarrow> x
     | Some b \<Rightarrow> (case x of None \<Rightarrow> Some (cp b) | Some a \<Rightarrow> Some (M a b)))"

lemma table_merged_simps [simp]:
  "table_merged M cp x None = x"
  "table_merged M cp None (Some b) = Some (cp b)"
  "table_merged M cp (Some a) (Some b) = Some (M a b)"
  by (simp_all add: table_merged_def)

lemma table_merge_loop_ok:
  assumes "strictly_sorted s1" "strictly_sorted s2" "c_keys s1" "c_keys s2" "wf_hash h"
    and "\<forall>(p, a) \<in> set s1. \<forall>(q, b) \<in> set s2. p = q \<longrightarrow> mrg a b = Inr (M a b)"
    and "\<forall>(p, a) \<in> set s1. map_of h p = Some a"
    and "\<forall>(q, b) \<in> set s2. q \<notin> fst ` set s1 \<longrightarrow> map_of h q = None"
  shows "\<exists>rest h'. table_merge_loop mrg cp s1 s2 h = Inr (rest, h')
    \<and> wf_hash (foldl (\<lambda>h e. apr_hash_set h (fst e) (cp (snd e))) h' rest)
    \<and> (\<forall>p. map_of (foldl (\<lambda>h e. apr_hash_set h (fst e) (cp (snd e))) h' rest) p =
         table_merged M cp (map_of h p) (map_of s2 p))"
  using assms
proof (induction mrg cp s1 s2 h rule: table_merge_loop.induct [case_names Both First Second])
  case (Both mrg cp e1 s1 e2 s2 h)
  obtain k1 a k2 b where e: "e1 = (k1, a)" "e2 = (k2, b)" by (cases e1, cases e2)
  have fresh: "k1 \<notin> fst ` set s1" "k2 \<notin> fst ` set s2" "strictly_sorted s1" "strictly_sorted s2"
    using Both.prems(1,2) strictly_sorted_fresh [of s1 e1] strictly_sorted_fresh [of s2 e2]
    by (auto simp: e)
  consider "items_path_order e1 e2 = 0" | "items_path_order e1 e2 < 0"
    | "items_path_order e1 e2 > 0" by linarith
  then show ?case
  proof cases
    case 1
    then have k: "k1 = k2" using compare_items_eq [of e1 e2] Both.prems(3,4) by (simp add: e c_keys_def)
    have m: "mrg a b = Inr (M a b)" using Both.prems(6) by (simp add: e k)
    have "map_of s2 k2 = None" using fresh by (simp add: map_of_eq_None_iff)
    moreover have "map_of h k2 = Some a" using Both.prems(7) by (simp add: e k)
    moreover have "\<exists>rest h'. table_merge_loop mrg cp s1 s2 (apr_hash_set h (fst e1) (M a b)) = Inr (rest, h')
      \<and> wf_hash (foldl (\<lambda>h e. apr_hash_set h (fst e) (cp (snd e))) h' rest)
      \<and> (\<forall>p. map_of (foldl (\<lambda>h e. apr_hash_set h (fst e) (cp (snd e))) h' rest) p =
           table_merged M cp (map_of (apr_hash_set h (fst e1) (M a b)) p) (map_of s2 p))"
    proof (rule Both.IH(1) [OF 1])
      show "mrg (snd e1) (snd e2) = Inr (M a b)" using m by (simp add: e)
      show "c_keys s1" "c_keys s2" using Both.prems(3,4) by (simp_all add: c_keys_def)
      show "\<forall>(p, a) \<in> set s1. \<forall>(q, b) \<in> set s2. p = q \<longrightarrow> mrg a b = Inr (M a b)"
        using Both.prems(6) by auto
      show "\<forall>(p, c) \<in> set s1. map_of (apr_hash_set h (fst e1) (M a b)) p = Some c"
        using Both.prems(7) fresh(1) by (force simp: e)
      show "\<forall>(q, c) \<in> set s2. q \<notin> fst ` set s1 \<longrightarrow> map_of (apr_hash_set h (fst e1) (M a b)) q = None"
        using Both.prems(8) fresh(2) by (force simp: e k)
    qed (use Both.prems(5) fresh in simp_all)
    ultimately show ?thesis using 1 m by (auto simp: e k)
  next
    case 2
    then have "k1 \<noteq> k2" "k1 \<notin> fst ` set s2"
      using compare_items_same [of e1 e2] strictly_sorted_fresh [of s2 e1]
        Both.prems(2) items_path_cmp.cmp_less_trans [of e1 e2] by (force simp: e)+
    then have "\<forall>(q, b) \<in> set (e2 # s2). q \<notin> fst ` set s1 \<longrightarrow> map_of h q = None"
      using Both.prems(8) by (force simp: e)
    moreover have "c_keys s1" using Both.prems(3) by (simp add: c_keys_def)
    ultimately have "\<exists>rest h'. table_merge_loop mrg cp s1 (e2 # s2) h = Inr (rest, h')
      \<and> wf_hash (foldl (\<lambda>h e. apr_hash_set h (fst e) (cp (snd e))) h' rest)
      \<and> (\<forall>p. map_of (foldl (\<lambda>h e. apr_hash_set h (fst e) (cp (snd e))) h' rest) p =
           table_merged M cp (map_of h p) (map_of (e2 # s2) p))"
      using Both.prems fresh 2 by (intro Both.IH(2)) simp_all
    then show ?thesis using 2 by simp
  next
    case 3
    then have lt: "items_path_order e2 e1 < 0" using items_path_cmp.cmp_neg_iff by blast
    then have "k2 \<noteq> k1" "k2 \<notin> fst ` set s1"
      using compare_items_same [of e2 e1] strictly_sorted_fresh [of s1 e2]
        Both.prems(1) items_path_cmp.cmp_less_trans [of e2 e1] by (force simp: e)+
    moreover have "map_of s2 k2 = None" using fresh by (simp add: map_of_eq_None_iff)
    moreover have "map_of h k2 = None" using calculation Both.prems(8) by (simp add: e)
    moreover have "\<exists>rest h'. table_merge_loop mrg cp (e1 # s1) s2 (apr_hash_set h (fst e2) (cp (snd e2))) = Inr (rest, h')
      \<and> wf_hash (foldl (\<lambda>h e. apr_hash_set h (fst e) (cp (snd e))) h' rest)
      \<and> (\<forall>p. map_of (foldl (\<lambda>h e. apr_hash_set h (fst e) (cp (snd e))) h' rest) p =
           table_merged M cp (map_of (apr_hash_set h (fst e2) (cp (snd e2))) p) (map_of s2 p))"
    proof (rule Both.IH(3))
      show "\<forall>(p, c) \<in> set (e1 # s1). map_of (apr_hash_set h (fst e2) (cp (snd e2))) p = Some c"
        using Both.prems(7) calculation(1,2) by (force simp: e)
      show "\<forall>(q, c) \<in> set s2. q \<notin> fst ` set (e1 # s1) \<longrightarrow>
          map_of (apr_hash_set h (fst e2) (cp (snd e2))) q = None"
        using Both.prems(8) fresh(2) by (force simp: e)
    qed (use 3 Both.prems fresh in \<open>auto simp: c_keys_def\<close>)
    ultimately show ?thesis using 3 by (auto simp: e)
  qed
next
  case (First mrg cp s2 h)
  have "map_of h p = None" if "map_of s2 p = Some b" for p b
    using First.prems(8) map_of_SomeD [OF that] by fastforce
  then show ?case
    using foldl_set_copies [OF strictly_sorted_wf, of s2 h cp] First.prems
    by (auto simp: table_merged_def split: option.splits)
next
  case (Second mrg cp s1 h)
  then show ?case by simp
qed

lemma table_merge_ok:
  assumes "wf_hash m" "wf_hash ch" "c_keys m" "c_keys ch"
    and mrg: "\<And>p a b. map_of m p = Some a \<Longrightarrow> map_of ch p = Some b \<Longrightarrow> mrg a b = Inr (M a b)"
  shows "\<exists>h. SVN_ERR (table_merge_loop mrg cp (hash_by_paths m) (hash_by_paths ch) m)
      (\<lambda>(rest, h'). Inr (foldl (\<lambda>h e. apr_hash_set h (fst e) (cp (snd e))) h' rest)) = Inr h
    \<and> wf_hash h \<and> (\<forall>p. map_of h p = table_merged M cp (map_of m p) (map_of ch p))"
proof -
  let ?s = hash_by_paths
  have st: "strictly_sorted (?s m)" "strictly_sorted (?s ch)" using assms by (simp_all add: hash_by_paths_strict)
  have "set (?s ch) = set ch" by simp
  then have mo: "map_of (?s ch) p = map_of ch p" for p
    using wf_hash_map_of [OF strictly_sorted_wf [OF st(2)]] wf_hash_map_of [OF assms(2)]
    by (metis option.exhaust)
  have "\<exists>rest h'. table_merge_loop mrg cp (?s m) (?s ch) m = Inr (rest, h')
    \<and> wf_hash (foldl (\<lambda>h e. apr_hash_set h (fst e) (cp (snd e))) h' rest)
    \<and> (\<forall>p. map_of (foldl (\<lambda>h e. apr_hash_set h (fst e) (cp (snd e))) h' rest) p =
         table_merged M cp (map_of m p) (map_of (?s ch) p))"
    using assms st by (intro table_merge_loop_ok)
      (auto simp: c_keys_def wf_hash_map_of map_of_eq_None_iff)
  then show ?thesis by (auto simp: mo)
qed

lemma wf_info_c_keys: "wf_info P m \<Longrightarrow> c_keys m"
  by (auto simp: wf_info_def c_keys_def)

lemma wf_hash_length: "wf_hash m \<Longrightarrow> length m = card (fst ` set m)"
  using distinct_card [of "map fst m"] by (simp add: wf_hash_def)

context rangelist_class
begin

lemma mi_keys: "wf_info P m \<Longrightarrow> fst ` mi_revs m = fst ` set m"
proof -
  assume m: "wf_info P m"
  have "\<exists>r. r \<in> revs rl" if "(p, rl) \<in> set m" for p rl
  proof -
    have "rl \<noteq> []" "P rl" using m that by (auto simp: wf_info_def)
    then show ?thesis using covered_empty by blast
  qed
  then show ?thesis using m by (force simp: mi_revs_def wf_info_def wf_hash_map_of [symmetric])
qed

text \<open>Equality of mergeinfo is equality of what it covers.\<close>

lemma mergeinfo_equals_ok:
  assumes "wf_info P a" "wf_info P b"
  shows "svn_mergeinfo__equals a b c = Inr (mi_revs a = mi_revs b)"
proof (cases "length a = length b")
  case True
  have "mi_deleted a b = [] \<and> mi_added a b = [] \<longleftrightarrow> mi_revs a - mi_revs b = {} \<and> mi_revs b - mi_revs a = {}"
    using mi_revs_empty mi_deleted_ok [OF assms] mi_added_ok [OF assms] by metis
  with True show ?thesis by (auto simp: svn_mergeinfo__equals_def mergeinfo_diff_ok [OF assms])
next
  case False
  then have "mi_revs a \<noteq> mi_revs b"
    using mi_keys [OF assms(1)] mi_keys [OF assms(2)] assms wf_hash_length by (metis wf_infoD(1))
  with False show ?thesis by (simp add: svn_mergeinfo__equals_def)
qed

text \<open>What the results of the set operations cover, their paths have as well.\<close>

lemma canonical_keys_covered:
  assumes "wf_info P a" "canonical_keys b" "fst ` mi_revs a \<subseteq> fst ` set b"
  shows "canonical_keys a"
proof -
  have "fst ` set a \<subseteq> fst ` set b" using assms(3) unfolding mi_keys [OF assms(1)] .
  with assms(2) show ?thesis unfolding canonical_keys_def by (meson subsetD)
qed

end

text \<open>
  Merging tables. A class of rangelists with a condition on two of them under which the code
  merges them: then tables are merged path by path, if the condition holds for every path
  that both tables have.
\<close>

definition mi_inh_revs :: "svn_mergeinfo_t \<Rightarrow> (string \<times> svn_revnum_t) set" where
  "mi_inh_revs m = {(p, r). \<exists>rl. map_of m p = Some rl \<and> r \<in> inh_revs rl}"

definition common_paths :: "('v \<Rightarrow> 'v \<Rightarrow> bool) \<Rightarrow> 'v apr_hash \<Rightarrow> 'v apr_hash \<Rightarrow> bool" where
  "common_paths R m ch \<longleftrightarrow> (\<forall>(p, a) \<in> set m. \<forall>(q, b) \<in> set ch. p = q \<longrightarrow> R a b)"

lemma common_pathsD:
  "common_paths R m ch \<Longrightarrow> map_of m p = Some a \<Longrightarrow> map_of ch p = Some b \<Longrightarrow> R a b"
  by (fastforce simp: common_paths_def dest: map_of_SomeD)

locale mergeable_class = rangelist_class +
  fixes R :: "svn_rangelist_t \<Rightarrow> svn_rangelist_t \<Rightarrow> bool"
  assumes merge_ok: "P a \<Longrightarrow> P b \<Longrightarrow> R a b \<Longrightarrow>
    \<exists>r. svn_rangelist_merge2 a b = Inr r \<and> P r \<and> revs r = revs a \<union> revs b
      \<and> inh_revs r = inh_revs a \<union> inh_revs b"
begin

definition merged :: "svn_rangelist_t \<Rightarrow> svn_rangelist_t \<Rightarrow> svn_rangelist_t" where
  "merged a b = projr (svn_rangelist_merge2 a b)"

lemma merged_ok:
  assumes "P a" "P b" "R a b"
  shows "svn_rangelist_merge2 a b = Inr (merged a b)" "P (merged a b)"
    "revs (merged a b) = revs a \<union> revs b" "inh_revs (merged a b) = inh_revs a \<union> inh_revs b"
proof -
  obtain r where "svn_rangelist_merge2 a b = Inr r \<and> P r \<and> revs r = revs a \<union> revs b
      \<and> inh_revs r = inh_revs a \<union> inh_revs b"
    using merge_ok [OF assms] ..
  then show "svn_rangelist_merge2 a b = Inr (merged a b)" "P (merged a b)"
    "revs (merged a b) = revs a \<union> revs b" "inh_revs (merged a b) = inh_revs a \<union> inh_revs b"
    by (simp_all add: merged_def)
qed

lemma merged_ne: "P a \<Longrightarrow> P b \<Longrightarrow> R a b \<Longrightarrow> a \<noteq> [] \<Longrightarrow> merged a b \<noteq> []"
  using merged_ok(3) [of a b] covered_empty [of a] by auto

lemma mergeinfo_merge_table:
  assumes "wf_info P m" "wf_info P ch" "canonical_keys m" "canonical_keys ch" "common_paths R m ch"
  shows "\<exists>h. svn_mergeinfo_merge2 m ch = Inr h \<and> wf_hash h
    \<and> (\<forall>p. map_of h p = table_merged merged id (map_of m p) (map_of ch p))"
proof (cases "ch = []")
  case True
  then show ?thesis using assms by (simp add: svn_mergeinfo_merge2_def wf_infoD)
next
  case False
  have "\<exists>h. SVN_ERR (table_merge_loop svn_rangelist_merge2 id (hash_by_paths m) (hash_by_paths ch) m)
      (\<lambda>(rest, h'). Inr (foldl (\<lambda>h e. apr_hash_set h (fst e) (id (snd e))) h' rest)) = Inr h
    \<and> wf_hash h \<and> (\<forall>p. map_of h p = table_merged merged id (map_of m p) (map_of ch p))"
    using assms common_pathsD [OF assms(5)]
    by (intro table_merge_ok) (auto simp: wf_infoD wf_info_c_keys dest: wf_infoD(2) intro!: merged_ok)
  with False assms(3,4) show ?thesis
    by (simp add: svn_mergeinfo_merge2_def sort_hash_by_paths mergeinfo_merge_loop_table)
qed

lemma mergeinfo_merge_ok:
  assumes "wf_info P m" "wf_info P ch" "canonical_keys m" "canonical_keys ch" "common_paths R m ch"
  shows "\<exists>h. svn_mergeinfo_merge2 m ch = Inr h \<and> wf_info P h \<and> canonical_keys h
    \<and> mi_revs h = mi_revs m \<union> mi_revs ch \<and> mi_inh_revs h = mi_inh_revs m \<union> mi_inh_revs ch"
proof -
  note w = wf_infoD(2) [OF assms(1)] wf_infoD(2) [OF assms(2)] and R = common_pathsD [OF assms(5)]
  obtain h where h: "svn_mergeinfo_merge2 m ch = Inr h" "wf_hash h"
    "\<And>p. map_of h p = table_merged merged id (map_of m p) (map_of ch p)"
    using mergeinfo_merge_table [OF assms] by blast
  have wf: "wf_info P h"
    using h(2) w R
    by (intro wf_infoI) (auto simp: h(3) table_merged_def merged_ok merged_ne split: option.splits)
  have both: "(\<exists>rl. map_of h p = Some rl \<and> r \<in> revs rl) \<longleftrightarrow> (p, r) \<in> mi_revs m \<union> mi_revs ch"
    "(\<exists>rl. map_of h p = Some rl \<and> r \<in> inh_revs rl) \<longleftrightarrow> (p, r) \<in> mi_inh_revs m \<union> mi_inh_revs ch" for p r
  proof -
    have "revs (merged a b) = revs a \<union> revs b \<and> inh_revs (merged a b) = inh_revs a \<union> inh_revs b"
      if "map_of m p = Some a" "map_of ch p = Some b" for a b
      using that w R by (simp add: merged_ok)
    then show "(\<exists>rl. map_of h p = Some rl \<and> r \<in> revs rl) \<longleftrightarrow> (p, r) \<in> mi_revs m \<union> mi_revs ch"
      "(\<exists>rl. map_of h p = Some rl \<and> r \<in> inh_revs rl) \<longleftrightarrow> (p, r) \<in> mi_inh_revs m \<union> mi_inh_revs ch"
      by (cases "map_of m p"; cases "map_of ch p"; simp add: h(3) mi_revs_iff mi_inh_revs_def)+
  qed
  then have "mi_revs h = mi_revs m \<union> mi_revs ch" "mi_inh_revs h = mi_inh_revs m \<union> mi_inh_revs ch"
    by (auto simp: mi_revs_def mi_inh_revs_def)
  moreover have "canonical_keys h"
  proof -
    have "path_is_canonical k" if "k \<in> fst ` set h" for k
    proof -
      have "map_of h k \<noteq> None" using that by (simp add: map_of_eq_None_iff)
      then have "map_of m k \<noteq> None \<or> map_of ch k \<noteq> None"
        by (auto simp: h(3) table_merged_def split: option.splits)
      then have "k \<in> fst ` set m \<or> k \<in> fst ` set ch" by (simp add: map_of_eq_None_iff)
      then show ?thesis using assms(3,4) unfolding canonical_keys_def by (metis (no_types))
    qed
    then show ?thesis unfolding canonical_keys_def by (intro ballI)
  qed
  ultimately show ?thesis using h(1) wf by blast
qed

text \<open>Merging catalogs merges the mergeinfo of each of their paths.\<close>

lemma catalog_merge_ok:
  assumes "wf_hash cat" "c_keys cat" "canonical_keys cat" "wf_hash ch" "c_keys ch" "canonical_keys ch"
    and "\<forall>(k, m) \<in> set cat. wf_info P m \<and> canonical_keys m" "\<forall>(k, m) \<in> set ch. wf_info P m \<and> canonical_keys m"
    and "common_paths (common_paths R) cat ch"
  shows "\<exists>r. svn_mergeinfo_catalog_merge cat ch = Inr r \<and> wf_hash r
    \<and> (\<forall>k. case map_of r k of
         None \<Rightarrow> map_of cat k = None \<and> map_of ch k = None
       | Some m \<Rightarrow> wf_info P m
           \<and> mi_revs m = (case map_of cat k of None \<Rightarrow> {} | Some a \<Rightarrow> mi_revs a)
               \<union> (case map_of ch k of None \<Rightarrow> {} | Some b \<Rightarrow> mi_revs b)
           \<and> mi_inh_revs m = (case map_of cat k of None \<Rightarrow> {} | Some a \<Rightarrow> mi_inh_revs a)
               \<union> (case map_of ch k of None \<Rightarrow> {} | Some b \<Rightarrow> mi_inh_revs b))"
proof -
  have w: "map_of cat k = Some m \<Longrightarrow> wf_info P m \<and> canonical_keys m"
    "map_of ch k = Some m \<Longrightarrow> wf_info P m \<and> canonical_keys m" for k m
    using assms(7,8) by (auto dest: map_of_SomeD)
  define M where "M a b = projr (svn_mergeinfo_merge2 a b)" for a b
  have M: "svn_mergeinfo_merge2 a b = Inr (M a b) \<and> wf_info P (M a b) \<and> mi_revs (M a b) = mi_revs a \<union> mi_revs b
      \<and> mi_inh_revs (M a b) = mi_inh_revs a \<union> mi_inh_revs b"
    if "map_of cat k = Some a" "map_of ch k = Some b" for k a b
    using mergeinfo_merge_ok [of a b] w [of k] that common_pathsD [OF assms(9) that] by (auto simp: M_def)
  have "\<exists>h. SVN_ERR (table_merge_loop svn_mergeinfo_merge2 svn_mergeinfo_dup
        (hash_by_paths cat) (hash_by_paths ch) cat)
      (\<lambda>(rest, h'). Inr (foldl (\<lambda>h e. apr_hash_set h (fst e) (svn_mergeinfo_dup (snd e))) h' rest)) = Inr h
    \<and> wf_hash h \<and> (\<forall>p. map_of h p = table_merged M svn_mergeinfo_dup (map_of cat p) (map_of ch p))"
    using assms(1,2,4,5) M by (intro table_merge_ok) auto
  then obtain h where h: "svn_mergeinfo_catalog_merge cat ch = Inr h" "wf_hash h"
    "\<And>p. map_of h p = table_merged M svn_mergeinfo_dup (map_of cat p) (map_of ch p)"
    using assms(3,6) by (auto simp: svn_mergeinfo_catalog_merge_def sort_hash_by_paths catalog_merge_loop_table)
  have dup: "svn_mergeinfo_dup b = b" if "wf_info P b" for b using wf_infoD(1) [OF that] by (rule mergeinfo_dup_id)
  have "case map_of h k of
         None \<Rightarrow> map_of cat k = None \<and> map_of ch k = None
       | Some m \<Rightarrow> wf_info P m
           \<and> mi_revs m = (case map_of cat k of None \<Rightarrow> {} | Some a \<Rightarrow> mi_revs a)
               \<union> (case map_of ch k of None \<Rightarrow> {} | Some b \<Rightarrow> mi_revs b)
           \<and> mi_inh_revs m = (case map_of cat k of None \<Rightarrow> {} | Some a \<Rightarrow> mi_inh_revs a)
               \<union> (case map_of ch k of None \<Rightarrow> {} | Some b \<Rightarrow> mi_inh_revs b)" for k
    using w [of k] M [of k] dup by (cases "map_of cat k"; cases "map_of ch k") (simp_all add: h(3))
  with h(1,2) show ?thesis by blast
qed

end

text \<open>
  Two rangelists that the code merges without mixing inheritability: all changes are
  inheritable, or no range of the rangelist is.
\<close>

definition mergeable_ranges :: "svn_rangelist_t \<Rightarrow> svn_rangelist_t \<Rightarrow> bool" where
  "mergeable_ranges rl ch \<longleftrightarrow> (\<forall>c \<in> set ch. inheritable c) \<or> (\<forall>r \<in> set rl. \<not> inheritable r)"

interpretation wfi: mergeable_class wf_rangelist False mergeable_ranges
  by unfold_locales (rule merge2_ok, simp_all add: mergeable_ranges_def)

interpretation inh: mergeable_class inheritable_rangelist False "\<lambda>_ _. True"
proof unfold_locales
  fix a b assume ab: "inheritable_rangelist a" "inheritable_rangelist b"
  then have "inh_revs a = revs a" "inh_revs b = revs b"
    by (simp_all add: inheritable_rangelist_def uniform_inh_revs)
  with merge2_inheritable [OF ab]
  show "\<exists>r. svn_rangelist_merge2 a b = Inr r \<and> inheritable_rangelist r \<and> revs r = revs a \<union> revs b
      \<and> inh_revs r = inh_revs a \<union> inh_revs b"
    by (auto simp: inheritable_rangelist_def uniform_inh_revs)
qed

text \<open>Mergeinfo with canonical paths and inheritable ranges has the whole algebra.\<close>

definition plain_info :: "svn_mergeinfo_t \<Rightarrow> bool" where
  "plain_info m \<longleftrightarrow> wf_info inheritable_rangelist m \<and> canonical_keys m"

lemma plain_infoI:
  assumes "wf_info inheritable_rangelist m" "plain_info w" "mi_revs m \<subseteq> mi_revs w"
  shows "plain_info m"
proof -
  have "fst ` mi_revs m \<subseteq> fst ` set w" using assms(2,3) inh.mi_keys [of w] by (auto simp: plain_info_def)
  with assms inh.canonical_keys_covered [of m w] show ?thesis by (simp add: plain_info_def)
qed

interpretation info: revision_algebra mi_revs plain_info "[]"
    "\<lambda>e w. svn_mergeinfo_remove2 (Some e) (Some w) False" "\<lambda>a b. svn_mergeinfo_intersect2 a b False"
    svn_mergeinfo_merge2
proof unfold_locales
  show "plain_info []" by (simp add: plain_info_def)
  show "mi_revs m = {} \<longleftrightarrow> m = []" if "plain_info m" for m
    using that inh.mi_revs_empty by (simp add: plain_info_def)
  show "\<exists>r. svn_mergeinfo_remove2 (Some e) (Some w) False = Inr r \<and> plain_info r
      \<and> mi_revs r = mi_revs w - mi_revs e" if "plain_info e" "plain_info w" for e w
    using that inh.mi.remove_ok [of e w] plain_infoI [OF _ that(2)] by (auto simp: plain_info_def)
  show "\<exists>r. svn_mergeinfo_intersect2 e w False = Inr r \<and> plain_info r
      \<and> mi_revs r = mi_revs w \<inter> mi_revs e" if "plain_info e" "plain_info w" for e w
    using that inh.mi.intersect_ok [of e w] plain_infoI [OF _ that(2)] by (auto simp: plain_info_def)
  show "\<exists>r. svn_mergeinfo_merge2 a b = Inr r \<and> plain_info r \<and> mi_revs r = mi_revs a \<union> mi_revs b"
    if "plain_info a" "plain_info b" for a b
    using that inh.mergeinfo_merge_ok [of a b] by (auto simp: plain_info_def common_paths_def)
qed

section \<open>Bounds, filters and histories\<close>

lemma mi_revs_snoc:
  "wf_hash (h @ [(p, rl)]) \<Longrightarrow> mi_revs (h @ [(p, rl)]) = mi_revs h \<union> {p} \<times> revs rl"
proof -
  assume "wf_hash (h @ [(p, rl)])"
  then have "map_of h p = None" by (simp add: wf_hash_append map_of_eq_None_iff)
  then show ?thesis by (auto simp: mi_revs_def map_of_append map_add_def split: option.splits if_splits)
qed

definition endpoints_of :: "svn_revnum_t \<times> svn_revnum_t \<Rightarrow> (string \<times> svn_revnum_t) set \<Rightarrow> bool" where
  "endpoints_of acc S \<longleftrightarrow> (if S = {} then acc = (SVN_INVALID_REVNUM, SVN_INVALID_REVNUM)
     else 0 \<le> snd acc \<and> (\<forall>(p, r) \<in> S. snd acc < r \<and> r \<le> fst acc)
       \<and> fst acc \<in> snd ` S \<and> snd acc + 1 \<in> snd ` S)"

lemma wf_rangelist_bounds:
  assumes "wf_rangelist rl" "rl \<noteq> []"
  shows "0 \<le> start (hd rl)" "\<forall>r \<in> revs rl. start (hd rl) < r \<and> r \<le> endr (last rl)"
    "endr (last rl) \<in> revs rl" "start (hd rl) + 1 \<in> revs rl"
  using assms
proof (induction rl)
  case (Cons r rl)
  { case 1 then show ?case by (simp add: valid_range_iff) }
  { case 2
    then have v: "start r < endr r" "\<forall>s \<in> set rl. endr r \<le> start s" by (simp_all add: valid_range_iff)
    show ?case
    proof (cases "rl = []")
      case True
      then show ?thesis by simp
    next
      case False
      with 2 have b: "\<forall>x \<in> revs rl. start (hd rl) < x \<and> x \<le> endr (last rl)" "endr (last rl) \<in> revs rl"
        using Cons.IH(2,3) by simp_all
      moreover have "endr r \<le> start (hd rl)" using v(2) False by simp
      ultimately have "endr r < endr (last rl)" by force
      with b v(1) \<open>endr r \<le> start (hd rl)\<close> False show ?thesis by fastforce
    qed }
  { case 3 then show ?case using Cons.IH(3) by (cases "rl = []") (simp_all add: valid_range_iff) }
  { case 4 then show ?case by (simp add: valid_range_iff) }
qed simp_all

lemma endpoints_step:
  assumes "endpoints_of acc S" "wf_rangelist rl" "rl \<noteq> []"
  shows "endpoints_of (range_endpoints_step acc rl) (S \<union> {p} \<times> revs rl)"
proof -
  note b = wf_rangelist_bounds [OF assms(2,3)]
  obtain y old where acc: "acc = (y, old)" by fastforce
  have ne: "S \<union> {p} \<times> revs rl \<noteq> {}" using b(3) by auto
  have st: "range_endpoints_step acc rl =
      (if S = {} then (endr (last rl), start (hd rl))
       else (max y (endr (last rl)), min old (start (hd rl))))"
  proof (cases "S = {}")
    case True
    then have "y = -1" "old = -1" using assms(1) by (simp_all add: endpoints_of_def acc)
    with True assms(3) show ?thesis
      by (simp add: acc range_endpoints_step_def SVN_IS_VALID_REVNUM_def last_conv_nth hd_conv_nth)
  next
    case False
    then have "0 \<le> old" "y \<in> snd ` S" "\<forall>(p, r) \<in> S. old < r" using assms(1)
      by (auto simp: endpoints_of_def acc)
    then have "0 \<le> old" "0 \<le> y" by force+
    with False assms(3) show ?thesis
      by (auto simp: acc range_endpoints_step_def SVN_IS_VALID_REVNUM_def last_conv_nth hd_conv_nth Let_def)
  qed
  show ?thesis
  proof (cases "S = {}")
    case True
    with b ne show ?thesis by (auto simp: st endpoints_of_def image_iff)
  next
    case False
    with assms(1) have o: "0 \<le> old" "\<forall>(p, r) \<in> S. old < r \<and> r \<le> y" "y \<in> snd ` S" "old + 1 \<in> snd ` S"
      by (auto simp: endpoints_of_def acc)
    have "max y (endr (last rl)) \<in> snd ` (S \<union> {p} \<times> revs rl)"
      "min old (start (hd rl)) + 1 \<in> snd ` (S \<union> {p} \<times> revs rl)"
      using o(3,4) b(3,4) by (auto simp: max_def min_def image_Un image_iff)
    moreover have "\<forall>(q, r) \<in> S \<union> {p} \<times> revs rl.
        min old (start (hd rl)) < r \<and> r \<le> max y (endr (last rl))"
      using o(2) b(2) by fastforce
    ultimately show ?thesis using False o(1) b(1) by (simp add: st endpoints_of_def)
  qed
qed

lemma range_endpoints_ok:
  "wf_info wf_rangelist m \<Longrightarrow> endpoints_of (svn_mergeinfo__get_range_endpoints (Some m)) (mi_revs m)"
proof (induction m rule: rev_induct)
  case Nil
  then show ?case by (simp add: svn_mergeinfo__get_range_endpoints_def endpoints_of_def)
next
  case (snoc e m)
  obtain p rl where e: "e = (p, rl)" by fastforce
  have w: "wf_info wf_rangelist m" "wf_hash (m @ [(p, rl)])" "wf_rangelist rl" "rl \<noteq> []"
    using snoc.prems by (auto simp: e wf_info_def wf_hash_def)
  from endpoints_step [OF snoc.IH [OF w(1)] w(3,4), of p] w(2) show ?case
    by (simp add: e mi_revs_snoc svn_mergeinfo__get_range_endpoints_def)
qed

lemma mi_revs_keep:
  assumes "wf_hash m"
  shows "mi_revs (collected m (\<lambda>p rl. keep_nonempty (f rl))) =
    {(p, r). \<exists>rl. map_of m p = Some rl \<and> r \<in> revs (f rl)}"
proof (rule mi_revs_eqI)
  fix p r
  have "(\<exists>rl. keep_nonempty X = Some rl \<and> r \<in> revs rl) \<longleftrightarrow> r \<in> revs X" for X
    by (simp add: keep_nonempty_def)
  then show "(\<exists>rl. map_of (collected m (\<lambda>p rl. keep_nonempty (f rl))) p = Some rl \<and> r \<in> revs rl) \<longleftrightarrow>
      (p, r) \<in> {(p, r). \<exists>rl. map_of m p = Some rl \<and> r \<in> revs (f rl)}"
    using assms by (cases "map_of m p") (simp_all add: map_of_collected)
qed

text \<open>Filtering by a range of revisions.\<close>

lemma filter_collected:
  assumes "wf_info wf_rangelist m" "0 \<le> oldest" "oldest < youngest"
  shows "svn_mergeinfo__filter_mergeinfo_by_ranges (Some m) youngest oldest inc =
    Inr (collected m (\<lambda>p rl. keep_nonempty (setop (\<not> inc) False [mk_range oldest youngest True] rl)))"
  using assms
  by (auto simp: svn_mergeinfo__filter_mergeinfo_by_ranges_def SVN_IS_VALID_REVNUM_def Let_def
      svn_rangelist__initialize_def intersect_or_remove_setop valid_range_iff keep_nonempty_def wf_info_def
      intro!: hash_iter_collected collectsI)

lemma filter_ok:
  assumes "wf_info wf_rangelist m" "0 \<le> oldest" "oldest < youngest"
  shows "\<exists>f. svn_mergeinfo__filter_mergeinfo_by_ranges (Some m) youngest oldest inc = Inr f
    \<and> wf_info wf_rangelist f
    \<and> mi_revs f = {(p, r) \<in> mi_revs m. (oldest < r \<and> r \<le> youngest) = inc}"
proof -
  let ?g = "\<lambda>p rl. keep_nonempty (setop (\<not> inc) False [mk_range oldest youngest True] rl)"
  note w = wf_infoD [OF assms(1)]
  have e: "wf_rangelist [mk_range oldest youngest True]" using assms by (simp add: valid_range_iff)
  have s: "revs (setop (\<not> inc) False [mk_range oldest youngest True] rl) =
      {r \<in> revs rl. (oldest < r \<and> r \<le> youngest) = inc}"
    "wf_rangelist (setop (\<not> inc) False [mk_range oldest youngest True] rl)" if "wf_rangelist rl" for rl
    using revs_setop [OF e that] setop_wf [OF e that] by (cases inc; auto)+
  have "wf_info wf_rangelist (collected m ?g)"
    using w s(2) by (intro wf_infoI)
      (auto simp: wf_hash_collected map_of_collected Option.bind_eq_Some_conv keep_nonempty_def split: if_splits)
  moreover have "mi_revs (collected m ?g) = {(p, r) \<in> mi_revs m. (oldest < r \<and> r \<le> youngest) = inc}"
    unfolding mi_revs_keep [OF w(1)] using w(2) s(1) by (auto simp: mi_revs_def)
  ultimately show ?thesis using filter_collected [OF assms] by blast
qed

text \<open>The mergeinfo of a history.\<close>

definition segment_revs :: "svn_location_segment_t \<Rightarrow> (string \<times> svn_revnum_t) set" where
  "segment_revs s = {(p, r). \<exists>path. seg_path s = Some path \<and> p = ''/'' @ path
     \<and> range_start s \<le> r \<and> r \<le> range_end s \<and> 1 \<le> r}"

lemma segment_step_revs: "mi_revs (segment_step m s) = mi_revs m \<union> segment_revs s"
  by (auto simp: segment_step_def segment_revs_def mi_revs_def Let_def revs_def split: option.splits if_splits)

lemma segments_revs: "mi_revs (svn_mergeinfo__mergeinfo_from_segments segs) = (\<Union>s \<in> set segs. segment_revs s)"
  by (induction segs rule: rev_induct)
     (simp_all add: svn_mergeinfo__mergeinfo_from_segments_def segment_step_revs Un_commute)

definition wf_segment :: "svn_location_segment_t \<Rightarrow> bool" where
  "wf_segment s \<longleftrightarrow> 0 \<le> range_start s \<and> range_start s \<le> range_end s
     \<and> (case seg_path s of None \<Rightarrow> True | Some p \<Rightarrow> c_string p)"

definition ascending :: "svn_location_segment_t list \<Rightarrow> bool" where
  "ascending segs \<longleftrightarrow> sorted_wrt (\<lambda>s t. range_end s < range_start t) segs"

lemma segments_wf:
  assumes "list_all wf_segment segs" "ascending segs"
  shows "wf_info inheritable_rangelist (svn_mergeinfo__mergeinfo_from_segments segs)
    \<and> (\<forall>p rl rng. map_of (svn_mergeinfo__mergeinfo_from_segments segs) p = Some rl \<longrightarrow> rng \<in> set rl \<longrightarrow>
         (\<exists>s \<in> set segs. endr rng = range_end s))"
  using assms
proof (induction segs rule: rev_induct)
  case Nil
  then show ?case by (simp add: svn_mergeinfo__mergeinfo_from_segments_def)
next
  case (snoc s segs)
  let ?m = "svn_mergeinfo__mergeinfo_from_segments segs"
  have m: "svn_mergeinfo__mergeinfo_from_segments (segs @ [s]) = segment_step ?m s"
    by (simp add: svn_mergeinfo__mergeinfo_from_segments_def)
  have IH: "wf_info inheritable_rangelist ?m"
    "\<And>p rl rng. map_of ?m p = Some rl \<Longrightarrow> rng \<in> set rl \<Longrightarrow> \<exists>s \<in> set segs. endr rng = range_end s"
    using snoc by (auto simp: ascending_def sorted_wrt_snoc)
  have s: "wf_segment s" "\<And>t. t \<in> set segs \<Longrightarrow> range_end t < range_start s"
    using snoc.prems by (auto simp: ascending_def sorted_wrt_snoc)
  show ?case
  proof (cases "seg_path s = None \<or> (range_start s = 0 \<and> range_end s = 0)")
    case True
    then have "segment_step ?m s = ?m" by (auto simp: segment_step_def Let_def split: option.splits)
    then show ?thesis using IH by (auto simp: m)
  next
    case False
    then obtain path where p: "seg_path s = Some path" by auto
    let ?rng = "mk_range (max (range_start s - 1) 0) (range_end s) True"
    let ?rl = "case map_of ?m (''/'' @ path) of None \<Rightarrow> [] | Some rl \<Rightarrow> rl"
    have st: "segment_step ?m s = apr_hash_set ?m (''/'' @ path) (?rl @ [?rng])"
      using False by (auto simp: segment_step_def p Let_def)
    have rl: "inheritable_rangelist ?rl \<and> (\<forall>r \<in> set ?rl. endr r < range_start s)"
    proof (cases "map_of ?m (''/'' @ path)")
      case (Some rl)
      then have "inheritable_rangelist rl" using wf_infoD(2) [OF IH(1)] by blast
      moreover have "endr r < range_start s" if "r \<in> set rl" for r
        using IH(2) [OF Some that] s(2) by auto
      ultimately show ?thesis by (simp only: Some option.case) blast
    qed (simp add: inheritable_rangelist_def)
    have "inheritable_rangelist (?rl @ [?rng])"
      using rl s(1) False unfolding inheritable_rangelist_def
      by (fastforce simp: valid_range_iff wf_segment_def p)
    moreover have "c_string (''/'' @ path)" using s(1) by (simp add: wf_segment_def p)
    ultimately have "wf_info inheritable_rangelist (segment_step ?m s)"
      using wf_infoD [OF IH(1)] by (intro wf_infoI) (auto simp: st split: if_splits)
    moreover have "\<exists>t \<in> set (segs @ [s]). endr rng = range_end t"
      if "map_of (segment_step ?m s) q = Some rl" "rng \<in> set rl" for q rl rng
      using that IH(2) by (fastforce simp: st split: if_splits option.splits)
    ultimately show ?thesis by (auto simp: m)
  qed
qed

lemma merge_many_all: "svn_rangelist__merge_many rl h = irl.merge_all rl (map snd h)"
proof -
  have "hash_iter (\<lambda>path subtree_rangelist merged. svn_rangelist_merge2 merged subtree_rangelist) h rl =
      irl.merge_all rl (map snd h)"
    by (induction h arbitrary: rl) (auto simp: SVN_ERR_def split: sum.splits)
  then show ?thesis by (simp add: svn_rangelist__merge_many_def)
qed

lemma filter_inheritable:
  assumes "wf_rangelist rl"
  shows "inheritable_rangelist (filter inheritable rl)" "revs (filter inheritable rl) = inh_revs rl"
  using assms by (induction rl) (auto simp: inheritable_rangelist_def)

lemma inheritable2_collected:
  assumes "wf_info wf_rangelist m" "s < 0 \<or> e < 0 \<or> e < s"
  shows "svn_mergeinfo_inheritable2 m None s e True =
    Inr (collected m (\<lambda>p rl. keep_nonempty (filter inheritable rl)))"
  using assms
  by (auto simp: svn_mergeinfo_inheritable2_def svn_rangelist_inheritable2_def SVN_IS_VALID_REVNUM_def
      keep_nonempty_def wf_info_def intro!: hash_iter_collected collectsI)

section \<open>Properties\<close>

text \<open>
  C1. Merging mergeinfo with well-formed rangelists under canonical paths: if for every path
  that both tables have all changes are inheritable or no range of the table is, the merge
  returns mergeinfo of the same kind, and a path has a revision in the result, or has it
  inheritably, exactly when it has it so in one of the two. (Where a path mixes
  inheritability otherwise, the merge can leave a malformed rangelist.)
\<close>

theorem mergeinfo_merge_union:
  assumes "wf_info wf_rangelist mergeinfo" "canonical_keys mergeinfo"
    and "wf_info wf_rangelist changes" "canonical_keys changes"
    and "common_paths mergeable_ranges mergeinfo changes"
  shows "\<exists>m. svn_mergeinfo_merge2 mergeinfo changes = Inr m
    \<and> wf_info wf_rangelist m \<and> canonical_keys m
    \<and> mi_revs m = mi_revs mergeinfo \<union> mi_revs changes
    \<and> mi_inh_revs m = mi_inh_revs mergeinfo \<union> mi_inh_revs changes"
  using assms by (intro wfi.mergeinfo_merge_ok)

theorem mergeinfo_merge_union_witness:
  "\<exists>m. svn_mergeinfo_merge2 [(''/b'', [mk_range 0 3 False]), (''/a'', [mk_range 4 5 True])]
      [(''/b'', [mk_range 2 6 True]), (''/c'', [mk_range 1 9 False])] = Inr m
    \<and> wf_info wf_rangelist m \<and> canonical_keys m
    \<and> mi_revs m = mi_revs [(''/b'', [mk_range 0 3 False]), (''/a'', [mk_range 4 5 True])]
        \<union> mi_revs [(''/b'', [mk_range 2 6 True]), (''/c'', [mk_range 1 9 False])]
    \<and> mi_inh_revs m = mi_inh_revs [(''/b'', [mk_range 0 3 False]), (''/a'', [mk_range 4 5 True])]
        \<union> mi_inh_revs [(''/b'', [mk_range 2 6 True]), (''/c'', [mk_range 1 9 False])]"
  by (rule mergeinfo_merge_union)
     (simp_all add: wf_info_def wf_hash_def valid_range_iff common_paths_def mergeable_ranges_def
        path_is_canonical_def strlen_def deref_at_def)

text \<open>
  C19. Merging catalogs merges, for every path of either catalog, the mergeinfo the two
  catalogs have for it; no other path appears. The paths of the catalogs and of their
  mergeinfo are canonical, the rangelists well formed, and for every path of mergeinfo that
  both catalogs have under the same path, all changes are inheritable or no range that they
  are merged into is.
\<close>

theorem catalog_merge_union:
  assumes "wf_hash cat" "c_keys cat" "canonical_keys cat"
    and "wf_hash changes" "c_keys changes" "canonical_keys changes"
    and "\<forall>(k, m) \<in> set cat. wf_info wf_rangelist m \<and> canonical_keys m"
    and "\<forall>(k, m) \<in> set changes. wf_info wf_rangelist m \<and> canonical_keys m"
    and "common_paths (common_paths mergeable_ranges) cat changes"
  shows "\<exists>r. svn_mergeinfo_catalog_merge cat changes = Inr r \<and> wf_hash r
    \<and> (\<forall>k. case map_of r k of
         None \<Rightarrow> map_of cat k = None \<and> map_of changes k = None
       | Some m \<Rightarrow> wf_info wf_rangelist m
           \<and> mi_revs m = (case map_of cat k of None \<Rightarrow> {} | Some a \<Rightarrow> mi_revs a)
               \<union> (case map_of changes k of None \<Rightarrow> {} | Some b \<Rightarrow> mi_revs b)
           \<and> mi_inh_revs m = (case map_of cat k of None \<Rightarrow> {} | Some a \<Rightarrow> mi_inh_revs a)
               \<union> (case map_of changes k of None \<Rightarrow> {} | Some b \<Rightarrow> mi_inh_revs b))"
  using assms by (rule wfi.catalog_merge_ok)

theorem catalog_merge_union_witness:
  "\<exists>r. svn_mergeinfo_catalog_merge [(''A'', [(''/t'', [mk_range 0 3 False])])]
        [(''B'', []), (''A'', [(''/t'', [mk_range 2 6 True])])] = Inr r \<and> wf_hash r
    \<and> (\<forall>k. case map_of r k of
         None \<Rightarrow> map_of [(''A'', [(''/t'', [mk_range 0 3 False])])] k = None
           \<and> map_of [(''B'', []), (''A'', [(''/t'', [mk_range 2 6 True])])] k = None
       | Some m \<Rightarrow> wf_info wf_rangelist m
           \<and> mi_revs m =
             (case map_of [(''A'', [(''/t'', [mk_range 0 3 False])])] k of None \<Rightarrow> {} | Some a \<Rightarrow> mi_revs a)
             \<union> (case map_of [(''B'', []), (''A'', [(''/t'', [mk_range 2 6 True])])] k of
                  None \<Rightarrow> {} | Some b \<Rightarrow> mi_revs b)
           \<and> mi_inh_revs m =
             (case map_of [(''A'', [(''/t'', [mk_range 0 3 False])])] k of None \<Rightarrow> {} | Some a \<Rightarrow> mi_inh_revs a)
             \<union> (case map_of [(''B'', []), (''A'', [(''/t'', [mk_range 2 6 True])])] k of
                  None \<Rightarrow> {} | Some b \<Rightarrow> mi_inh_revs b))"
  by (rule catalog_merge_union)
     (simp_all add: wf_info_def wf_hash_def valid_range_iff c_keys_def common_paths_def mergeable_ranges_def
        path_is_canonical_def strlen_def deref_at_def)

text \<open>
  C17. The difference of two mergeinfo tables, inheritance not considered: both parts are
  well formed (so no path is left with an empty rangelist), the deleted part covers exactly
  what only the first table covers, the added part exactly what only the second covers.
\<close>

theorem mergeinfo_diff_exact:
  assumes "wf_info wf_rangelist from" "wf_info wf_rangelist to"
  shows "\<exists>deleted added. svn_mergeinfo_diff2 (Some from) (Some to) False = Inr (deleted, added)
    \<and> wf_info wf_rangelist deleted \<and> wf_info wf_rangelist added
    \<and> mi_revs deleted = mi_revs from - mi_revs to \<and> mi_revs added = mi_revs to - mi_revs from"
  using wfi.mergeinfo_diff_ok [OF assms] wfi.mi_deleted_ok [OF assms] wfi.mi_added_ok [OF assms] by blast

theorem mergeinfo_diff_exact_witness:
  "\<exists>deleted added. svn_mergeinfo_diff2 (Some [(''/a'', [mk_range 0 3 False])])
      (Some [(''/b'', [mk_range 4 5 True]), (''/a'', [mk_range 2 6 True])]) False = Inr (deleted, added)
    \<and> wf_info wf_rangelist deleted \<and> wf_info wf_rangelist added
    \<and> mi_revs deleted = mi_revs [(''/a'', [mk_range 0 3 False])]
        - mi_revs [(''/b'', [mk_range 4 5 True]), (''/a'', [mk_range 2 6 True])]
    \<and> mi_revs added = mi_revs [(''/b'', [mk_range 4 5 True]), (''/a'', [mk_range 2 6 True])]
        - mi_revs [(''/a'', [mk_range 0 3 False])]"
  by (rule mergeinfo_diff_exact) (simp_all add: wf_info_def wf_hash_def valid_range_iff)

text \<open>
  C16. For mergeinfo whose ranges are all inheritable, under canonical paths, a difference
  can be applied: removing the deleted part from the first table and merging the added part
  gives mergeinfo that the equality test takes for the second table.
\<close>

theorem mergeinfo_diff_apply:
  assumes "wf_info inheritable_rangelist from" "canonical_keys from"
    and "wf_info inheritable_rangelist to" "canonical_keys to"
  shows "\<exists>deleted added kept patched.
    svn_mergeinfo_diff2 (Some from) (Some to) False = Inr (deleted, added)
    \<and> svn_mergeinfo_remove2 (Some deleted) (Some from) False = Inr kept
    \<and> svn_mergeinfo_merge2 kept added = Inr patched
    \<and> svn_mergeinfo__equals patched to False = Inr True"
proof -
  note wf = assms(1,3) and del = inh.mi_deleted_ok [OF assms(1,3)] and add = inh.mi_added_ok [OF assms(1,3)]
  have ft: "plain_info from" "plain_info to" using assms by (simp_all add: plain_info_def)
  have d: "plain_info (inh.mi_deleted from to)" using del plain_infoI [OF del(1) ft(1)] by blast
  have a: "plain_info (inh.mi_added from to)" using add plain_infoI [OF add(1) ft(2)] by blast
  obtain kept where k: "svn_mergeinfo_remove2 (Some (inh.mi_deleted from to)) (Some from) False = Inr kept"
    "plain_info kept" "mi_revs kept = mi_revs from - mi_revs (inh.mi_deleted from to)"
    using info.remove_ok [OF d ft(1)] by blast
  obtain patched where p: "svn_mergeinfo_merge2 kept (inh.mi_added from to) = Inr patched"
    "plain_info patched" "mi_revs patched = mi_revs kept \<union> mi_revs (inh.mi_added from to)"
    using info.merge_total [OF k(2) a] by blast
  have "mi_revs patched = mi_revs to" using p(3) k(3) del(2) add(2) by blast
  then have "svn_mergeinfo__equals patched to False = Inr True"
    using inh.mergeinfo_equals_ok [OF _ assms(3)] p(2) by (simp add: plain_info_def)
  with k(1) p(1) inh.mergeinfo_diff_ok [OF wf] show ?thesis by blast
qed

theorem mergeinfo_diff_apply_witness:
  "\<exists>deleted added kept patched.
    svn_mergeinfo_diff2 (Some [(''/a'', [mk_range 0 3 True])])
      (Some [(''/b'', [mk_range 4 5 True]), (''/a'', [mk_range 2 6 True])]) False = Inr (deleted, added)
    \<and> svn_mergeinfo_remove2 (Some deleted) (Some [(''/a'', [mk_range 0 3 True])]) False = Inr kept
    \<and> svn_mergeinfo_merge2 kept added = Inr patched
    \<and> svn_mergeinfo__equals patched
        [(''/b'', [mk_range 4 5 True]), (''/a'', [mk_range 2 6 True])] False = Inr True"
  by (rule mergeinfo_diff_apply)
     (simp_all add: wf_info_def wf_hash_def inheritable_rangelist_def valid_range_iff
        path_is_canonical_def strlen_def deref_at_def)

text \<open>
  C18. The equality test, inheritance not considered, decides whether two mergeinfo tables
  cover the same revisions of the same paths, whatever the order of the tables and however
  the revisions are split into ranges.
\<close>

theorem mergeinfo_equals_exact:
  assumes "wf_info wf_rangelist info1" "wf_info wf_rangelist info2"
  shows "svn_mergeinfo__equals info1 info2 False = Inr (mi_revs info1 = mi_revs info2)"
  using assms by (rule wfi.mergeinfo_equals_ok)

theorem mergeinfo_equals_exact_witness:
  "svn_mergeinfo__equals [(''/a'', [mk_range 0 3 True])] [(''/a'', [mk_range 0 1 True, mk_range 1 3 True])] False =
     Inr (mi_revs [(''/a'', [mk_range 0 3 True])] = mi_revs [(''/a'', [mk_range 0 1 True, mk_range 1 3 True])])"
  by (rule mergeinfo_equals_exact) (simp_all add: wf_info_def wf_hash_def valid_range_iff)

text \<open>
  Intersection and removal of mergeinfo split a table in two: for every path, the two
  results together cover what the table covers, they have nothing in common, and the
  intersection covers what both tables cover.
\<close>

theorem mergeinfo_intersect_remove_partition:
  assumes "wf_info wf_rangelist other" "wf_info wf_rangelist info"
  shows "\<exists>i r. svn_mergeinfo_intersect2 other info False = Inr i
    \<and> svn_mergeinfo_remove2 (Some other) (Some info) False = Inr r
    \<and> wf_info wf_rangelist i \<and> wf_info wf_rangelist r
    \<and> mi_revs i = mi_revs info \<inter> mi_revs other
    \<and> mi_revs r \<union> mi_revs i = mi_revs info \<and> mi_revs r \<inter> mi_revs i = {}"
  using wfi.mi.intersect_ok [OF assms] wfi.mi.remove_ok [OF assms] wfi.mi.partition [OF assms] by blast

theorem mergeinfo_intersect_remove_partition_witness:
  "\<exists>i r. svn_mergeinfo_intersect2 [(''/a'', [mk_range 0 3 True])] [(''/a'', [mk_range 2 6 True])] False = Inr i
    \<and> svn_mergeinfo_remove2 (Some [(''/a'', [mk_range 0 3 True])]) (Some [(''/a'', [mk_range 2 6 True])]) False = Inr r
    \<and> wf_info wf_rangelist i \<and> wf_info wf_rangelist r
    \<and> mi_revs i = mi_revs [(''/a'', [mk_range 2 6 True])] \<inter> mi_revs [(''/a'', [mk_range 0 3 True])]
    \<and> mi_revs r \<union> mi_revs i = mi_revs [(''/a'', [mk_range 2 6 True])] \<and> mi_revs r \<inter> mi_revs i = {}"
  by (rule mergeinfo_intersect_remove_partition) (simp_all add: wf_info_def wf_hash_def valid_range_iff)

text \<open>
  C38. Filtering mergeinfo by a range of revisions keeps exactly the revisions inside the
  range, or exactly those outside it; bounds that are invalid or not in order are refused
  by an assertion before anything is computed.
\<close>

theorem mergeinfo_filter_exact:
  assumes "wf_info wf_rangelist mergeinfo"
  shows "if 0 \<le> oldest \<and> oldest < youngest then
      \<exists>f. svn_mergeinfo__filter_mergeinfo_by_ranges (Some mergeinfo) youngest oldest inc = Inr f
        \<and> wf_info wf_rangelist f
        \<and> mi_revs f = {(p, r) \<in> mi_revs mergeinfo. (oldest < r \<and> r \<le> youngest) = inc}
    else svn_mergeinfo__filter_mergeinfo_by_ranges (Some mergeinfo) youngest oldest inc =
      Inl SVN_ERR_ASSERTION_FAIL"
proof (cases "0 \<le> oldest \<and> oldest < youngest")
  case True
  then show ?thesis using filter_ok [OF assms] by simp
next
  case False
  then show ?thesis
    by (auto simp: svn_mergeinfo__filter_mergeinfo_by_ranges_def SVN_IS_VALID_REVNUM_def SVN_ERR_ASSERT_def)
qed

theorem mergeinfo_filter_exact_witness:
  "\<exists>f. svn_mergeinfo__filter_mergeinfo_by_ranges (Some [(''/a'', [mk_range 0 9 True])]) 5 3 False = Inr f
    \<and> wf_info wf_rangelist f
    \<and> mi_revs f = {(p, r) \<in> mi_revs [(''/a'', [mk_range 0 9 True])]. (3 < r \<and> r \<le> 5) = False}"
  using mergeinfo_filter_exact [of "[(''/a'', [mk_range 0 9 True])]" 3 5 False]
  by (simp add: wf_info_def wf_hash_def valid_range_iff)

text \<open>
  The endpoints of mergeinfo bound every revision it covers and are reached: the oldest
  is the one before the first covered revision, the youngest is the last; empty mergeinfo
  has invalid endpoints.
\<close>

theorem range_endpoints_bound:
  assumes "wf_info wf_rangelist mergeinfo"
    and "svn_mergeinfo__get_range_endpoints (Some mergeinfo) = (youngest, oldest)"
  shows "if mergeinfo = [] then youngest = SVN_INVALID_REVNUM \<and> oldest = SVN_INVALID_REVNUM
    else 0 \<le> oldest \<and> (\<forall>p r. (p, r) \<in> mi_revs mergeinfo \<longrightarrow> oldest < r \<and> r \<le> youngest)
      \<and> (\<exists>p. (p, youngest) \<in> mi_revs mergeinfo) \<and> (\<exists>p. (p, oldest + 1) \<in> mi_revs mergeinfo)"
  using range_endpoints_ok [OF assms(1)] assms(2) wfi.mi_revs_empty [OF assms(1)]
  by (force simp: endpoints_of_def split: if_splits)

theorem range_endpoints_bound_witness:
  "svn_mergeinfo__get_range_endpoints (Some [(''/a'', [mk_range 2 3 True, mk_range 5 9 True])]) = (9, 2)
    \<and> (0::int) \<le> 2
    \<and> (\<exists>p. (p, 9) \<in> mi_revs [(''/a'', [mk_range 2 3 True, mk_range 5 9 True])])
    \<and> (\<exists>p. (p, 3) \<in> mi_revs [(''/a'', [mk_range 2 3 True, mk_range 5 9 True])])"
proof -
  have e: "svn_mergeinfo__get_range_endpoints (Some [(''/a'', [mk_range 2 3 True, mk_range 5 9 True])]) = (9, 2)"
    by (simp add: svn_mergeinfo__get_range_endpoints_def range_endpoints_step_def SVN_IS_VALID_REVNUM_def)
  from range_endpoints_bound [OF _ e] show ?thesis
    unfolding e by (simp add: wf_info_def wf_hash_def valid_range_iff)
qed

text \<open>
  C36. The mergeinfo of a list of location segments covers, under the path of each segment
  with a leading slash, exactly the revisions of the segment other than revision 0; when the
  segments are in ascending order, the result is well-formed inheritable mergeinfo.
\<close>

theorem mergeinfo_from_segments_correct:
  "mi_revs (svn_mergeinfo__mergeinfo_from_segments segs) =
      {(p, r). \<exists>s \<in> set segs. \<exists>path. seg_path s = Some path \<and> p = ''/'' @ path
         \<and> range_start s \<le> r \<and> r \<le> range_end s \<and> 1 \<le> r}
   \<and> (list_all wf_segment segs \<and> ascending segs \<longrightarrow>
      wf_info inheritable_rangelist (svn_mergeinfo__mergeinfo_from_segments segs))"
  using segments_wf by (auto simp: segments_revs segment_revs_def)

theorem mergeinfo_from_segments_correct_witness:
  "wf_info inheritable_rangelist (svn_mergeinfo__mergeinfo_from_segments
     [\<lparr>range_start = 0, range_end = 0, seg_path = Some []\<rparr>, \<lparr>range_start = 1, range_end = 4, seg_path = None\<rparr>,
      \<lparr>range_start = 5, range_end = 7, seg_path = Some ''t''\<rparr>])"
  by (rule mergeinfo_from_segments_correct [THEN conjunct2, rule_format])
     (simp add: wf_segment_def ascending_def)

text \<open>
  Merging all rangelists of a history into one returns a rangelist that covers exactly
  the revisions of the rangelist and of all paths of the history.
\<close>

theorem merge_many_union:
  assumes "inheritable_rangelist rangelist" "wf_info inheritable_rangelist history"
  shows "\<exists>merged. svn_rangelist__merge_many rangelist history = Inr merged
    \<and> inheritable_rangelist merged \<and> revs merged = revs rangelist \<union> snd ` mi_revs history"
proof -
  have "\<forall>b \<in> set (map snd history). inheritable_rangelist b" using assms(2) by (auto simp: wf_info_def)
  moreover have "(\<Union>b \<in> set (map snd history). revs b) = snd ` mi_revs history"
    using assms(2) by (force simp: mi_revs_def wf_info_def wf_hash_map_of [symmetric])
  ultimately show ?thesis
    using irl.merge_all_total [OF assms(1), of "map snd history"] unfolding merge_many_all by simp
qed

theorem merge_many_union_witness:
  "\<exists>merged. svn_rangelist__merge_many [mk_range 1 2 True]
      [(''/a'', [mk_range 0 3 True]), (''/b'', [mk_range 2 9 True])] = Inr merged
    \<and> inheritable_rangelist merged
    \<and> revs merged = revs [mk_range 1 2 True]
        \<union> snd ` mi_revs [(''/a'', [mk_range 0 3 True]), (''/b'', [mk_range 2 9 True])]"
  by (rule merge_many_union)
     (simp_all add: wf_info_def wf_hash_def inheritable_rangelist_def valid_range_iff)

text \<open>
  Asking for the inheritable part of mergeinfo without a valid range keeps exactly the
  revisions covered inheritably, drops the paths that have none, and leaves nothing
  non-inheritable.
\<close>

theorem mergeinfo_inheritable_exact:
  assumes "wf_info wf_rangelist mergeinfo" "s < 0 \<or> e < 0 \<or> e < s"
  shows "\<exists>out. svn_mergeinfo_inheritable2 mergeinfo None s e True = Inr out
    \<and> wf_info inheritable_rangelist out \<and> \<not> svn_mergeinfo__is_noninheritable (Some out)
    \<and> mi_revs out = {(p, r). \<exists>rl. map_of mergeinfo p = Some rl \<and> r \<in> inh_revs rl}"
proof -
  let ?out = "collected mergeinfo (\<lambda>p rl. keep_nonempty (filter inheritable rl))"
  note w = wf_infoD [OF assms(1)]
  have wf: "wf_info inheritable_rangelist ?out"
    using w filter_inheritable(1) by (intro wf_infoI)
      (auto simp: wf_hash_collected map_of_collected Option.bind_eq_Some_conv keep_nonempty_def split: if_splits)
  moreover have "\<not> svn_mergeinfo__is_noninheritable (Some ?out)"
    using wf by (auto simp: svn_mergeinfo__is_noninheritable_def list_ex_iff wf_info_def
        inheritable_rangelist_def uniform_def)
  moreover have "mi_revs ?out = {(p, r). \<exists>rl. map_of mergeinfo p = Some rl \<and> r \<in> inh_revs rl}"
    using w(1) by (simp add: mi_revs_keep inh_revs_def)
  ultimately show ?thesis using inheritable2_collected [OF assms] by blast
qed

theorem mergeinfo_inheritable_exact_witness:
  "\<exists>out. svn_mergeinfo_inheritable2 [(''/a'', [mk_range 0 3 True, mk_range 5 6 False])] None (-1) (-1) True = Inr out
    \<and> wf_info inheritable_rangelist out \<and> \<not> svn_mergeinfo__is_noninheritable (Some out)
    \<and> mi_revs out = {(p, r). \<exists>rl. map_of [(''/a'', [mk_range 0 3 True, mk_range 5 6 False])] p = Some rl
        \<and> r \<in> inh_revs rl}"
  by (rule mergeinfo_inheritable_exact) (simp_all add: wf_info_def wf_hash_def valid_range_iff)

text \<open>
  Adding an offset to mergeinfo drops more than the revisions that the offset moves
  below the first revision: a range whose start becomes 0 is dropped as a whole, although
  its revisions are all positive, and the input table itself is changed.
\<close>

theorem mergeinfo_adjust_drops_positive:
  "svn_mergeinfo__adjust_mergeinfo_rangelists
     (Some [(''/a'', [mk_range 2 9 True, mk_range 10 12 True])]) (-2) =
   ([(''/a'', [mk_range 8 10 True])], Some [(''/a'', [mk_range 2 9 True, mk_range 8 10 True])])"
  by (simp add: svn_mergeinfo__adjust_mergeinfo_rangelists_def adjusts_range_def adjust_range_def)

text \<open>
  The words for the kinds of inheritance and for depths read back as the values they
  were written for.
\<close>

theorem words_round_trip:
  "svn_inheritance_from_word (svn_inheritance_to_word inherit) = inherit
   \<and> svn_depth_from_word (svn_depth_to_word depth) = depth"
  by (cases inherit; cases depth) (simp_all add: svn_inheritance_from_word_def svn_depth_from_word_def)

end
