(* ===== verification/Txdelta.thy ===== *)
theory Txdelta
  imports Prelude "HOL-Library.Word"
begin

text \<open>
  Text deltas (libsvn\_delta/text\_delta.c): the instructions and windows, building a list of
  instructions, and applying a window to a source view. Sizes are 64-bit words, a buffer is
  a list of bytes as long as its allocation, and an access outside of a buffer is the error
  \<open>C_OUT_OF_BOUNDS\<close>. An \<open>assert\<close> that fails is \<open>SVN_ERR_ASSERTION_FAIL\<close>.
\<close>

unbundle bit_operations_syntax

section \<open>Instructions and windows\<close>

type_synonym byte = "8 word"
type_synonym apr_size_t = "64 word"

text \<open>A signed 64-bit integer, kept as its bits; \<open>sint\<close> reads it.\<close>

type_synonym svn_filesize_t = "64 word"

definition SVN_DELTA_WINDOW_SIZE :: apr_size_t where
  "SVN_DELTA_WINDOW_SIZE = 102400"

datatype svn_delta_action = svn_txdelta_source | svn_txdelta_target | svn_txdelta_new

record svn_txdelta_op_t =
  action_code :: svn_delta_action
  offset :: apr_size_t
  oplen :: apr_size_t

text \<open>The field \<open>num_ops\<close> is the length of the list \<open>ops\<close>.\<close>

record svn_txdelta_window_t =
  sview_offset :: svn_filesize_t
  sview_len :: apr_size_t
  tview_len :: apr_size_t
  src_ops :: nat
  ops :: "svn_txdelta_op_t list"
  new_data :: "byte list"

section \<open>Building instructions\<close>

record svn_txdelta__ops_baton_t =
  bsrc_ops :: nat
  bops :: "svn_txdelta_op_t list"
  bnew_data :: "byte list"

definition svn_txdelta__make_window :: "svn_txdelta__ops_baton_t \<Rightarrow> svn_txdelta_window_t" where
  "svn_txdelta__make_window build_baton =
     \<lparr>sview_offset = 0, sview_len = 0, tview_len = 0, src_ops = bsrc_ops build_baton,
      ops = bops build_baton, new_data = bnew_data build_baton\<rparr>"

definition svn_txdelta_window_dup :: "svn_txdelta_window_t \<Rightarrow> svn_txdelta_window_t" where
  "svn_txdelta_window_dup window =
     (svn_txdelta__make_window \<lparr>bsrc_ops = src_ops window, bops = ops window, bnew_data = new_data window\<rparr>)
       \<lparr>sview_offset := sview_offset window, sview_len := sview_len window,
        tview_len := tview_len window\<rparr>"

text \<open>
  Adding an instruction, merged into the last one where possible. The new data are the
  first bytes of the buffer that the caller passes; a buffer that is shorter than the
  instruction is read outside.
\<close>

definition insert_op ::
  "svn_txdelta__ops_baton_t \<Rightarrow> svn_delta_action \<Rightarrow> apr_size_t \<Rightarrow> apr_size_t \<Rightarrow> byte list \<Rightarrow>
   svn_txdelta__ops_baton_t" where
  "insert_op build_baton opcode off len data =
     (let append_op =
        build_baton\<lparr>
          bsrc_ops := (if opcode = svn_txdelta_source then bsrc_ops build_baton + 1 else bsrc_ops build_baton),
          bops := bops build_baton @
            [\<lparr>action_code = opcode,
              offset = (if opcode = svn_txdelta_new then of_nat (length (bnew_data build_baton)) else off),
              oplen = len\<rparr>],
          bnew_data := (if opcode = svn_txdelta_new then bnew_data build_baton @ take (unat len) data
                        else bnew_data build_baton)\<rparr>
      in if bops build_baton \<noteq> [] then
           let op = last (bops build_baton) in
           if action_code op = opcode \<and> (opcode = svn_txdelta_new \<or> offset op + oplen op = off)
           then build_baton\<lparr>
                  bops := butlast (bops build_baton) @ [op\<lparr>oplen := oplen op + len\<rparr>],
                  bnew_data := (if opcode = svn_txdelta_new then bnew_data build_baton @ take (unat len) data
                                else bnew_data build_baton)\<rparr>
           else append_op
         else append_op)"

definition svn_txdelta__insert_op ::
  "svn_txdelta__ops_baton_t \<Rightarrow> svn_delta_action \<Rightarrow> apr_size_t \<Rightarrow> apr_size_t \<Rightarrow> byte list \<Rightarrow>
   svn_txdelta__ops_baton_t svn_result" where
  "svn_txdelta__insert_op build_baton opcode off len data =
     (if opcode = svn_txdelta_new \<and> unat len > length data then Inl C_OUT_OF_BOUNDS
      else Inr (insert_op build_baton opcode off len data))"

lemma insert_op_copy [simp]:
  "opcode \<noteq> svn_txdelta_new \<Longrightarrow> svn_txdelta__insert_op b opcode off len data = Inr (insert_op b opcode off len data)"
  by (simp add: svn_txdelta__insert_op_def)

text \<open>Removing up to \<open>max_len\<close> bytes from the end; \<open>len\<close> counts what is removed so far.\<close>

function remove_copy_loop ::
  "svn_txdelta__ops_baton_t \<Rightarrow> apr_size_t \<Rightarrow> apr_size_t \<Rightarrow> apr_size_t \<times> svn_txdelta__ops_baton_t" where
  "remove_copy_loop build_baton max_len len =
     (if bops build_baton \<noteq> [] then
        let op = last (bops build_baton) in
        if action_code op = svn_txdelta_target then (len, build_baton)
        else if oplen op + len > max_len then
          if action_code op = svn_txdelta_new then
            (max_len, build_baton\<lparr>
               bnew_data := take (length (bnew_data build_baton) - unat (max_len - len)) (bnew_data build_baton),
               bops := butlast (bops build_baton) @ [op\<lparr>oplen := oplen op - (max_len - len)\<rparr>]\<rparr>)
          else (len, build_baton)
        else
          remove_copy_loop (build_baton\<lparr>
              bnew_data := (if action_code op = svn_txdelta_new
                then take (length (bnew_data build_baton) - unat (oplen op)) (bnew_data build_baton)
                else bnew_data build_baton),
              bops := butlast (bops build_baton)\<rparr>) max_len (len + oplen op)
      else (len, build_baton))"
  by pat_completeness auto
termination
  by (relation "measure (\<lambda>(b, max_len, len). length (bops b))") (auto simp: Let_def)

declare remove_copy_loop.simps [simp del]

definition svn_txdelta__remove_copy ::
  "svn_txdelta__ops_baton_t \<Rightarrow> apr_size_t \<Rightarrow> apr_size_t \<times> svn_txdelta__ops_baton_t" where
  "svn_txdelta__remove_copy build_baton max_len = remove_copy_loop build_baton max_len 0"

section \<open>Copying\<close>

text \<open>A block of bytes written at a position of a buffer.\<close>

definition write_block :: "byte list \<Rightarrow> nat \<Rightarrow> byte list \<Rightarrow> byte list svn_result" where
  "write_block buf pos bs =
     (if pos + length bs \<le> length buf then Inr (take pos buf @ bs @ drop (pos + length bs) buf)
      else Inl C_OUT_OF_BOUNDS)"

definition read_block :: "byte list \<Rightarrow> nat \<Rightarrow> nat \<Rightarrow> byte list svn_result" where
  "read_block buf pos len =
     (if pos + len \<le> length buf then Inr (take len (drop pos buf)) else Inl C_OUT_OF_BOUNDS)"

definition memcpy :: "byte list \<Rightarrow> nat \<Rightarrow> byte list \<Rightarrow> nat \<Rightarrow> nat \<Rightarrow> byte list svn_result" where
  "memcpy tbuf target sbuf source len = SVN_ERR (read_block sbuf source len) (write_block tbuf target)"

text \<open>The byte-wise loop between two buffers.\<close>

fun copy_loop :: "byte list \<Rightarrow> nat \<Rightarrow> byte list \<Rightarrow> nat \<Rightarrow> nat \<Rightarrow> byte list svn_result" where
  "copy_loop tbuf target sbuf source 0 = Inr tbuf"
| "copy_loop tbuf target sbuf source (Suc n) =
     (if source < length sbuf \<and> target < length tbuf
      then copy_loop (tbuf[target := sbuf ! source]) (Suc target) sbuf (Suc source) n
      else Inl C_OUT_OF_BOUNDS)"

definition fast_memcpy :: "byte list \<Rightarrow> nat \<Rightarrow> byte list \<Rightarrow> nat \<Rightarrow> nat \<Rightarrow> byte list svn_result" where
  "fast_memcpy tbuf target sbuf source len =
     (if len > 7 then memcpy tbuf target sbuf source len
      else copy_loop tbuf target sbuf source len)"

text \<open>
  Copying inside one buffer: the loop over 32-bit chunks, where the platform allows
  unaligned accesses, and the byte-wise loop. The chunk loop returns the position it
  reached.
\<close>

function chunk_loop :: "byte list \<Rightarrow> nat \<Rightarrow> nat \<Rightarrow> nat \<Rightarrow> (byte list \<times> nat \<times> nat) svn_result" where
  "chunk_loop buf target source end_pos =
     (if source + 4 \<le> end_pos then
        SVN_ERR (memcpy buf target buf source 4) (\<lambda>buf'.
        chunk_loop buf' (target + 4) (source + 4) end_pos)
      else Inr (buf, target, source))"
  by pat_completeness auto
termination
  by (relation "measure (\<lambda>(buf, t, s, e). e - s)") auto

declare chunk_loop.simps [simp del]

fun pattern_loop :: "byte list \<Rightarrow> nat \<Rightarrow> nat \<Rightarrow> nat \<Rightarrow> byte list svn_result" where
  "pattern_loop buf target source 0 = Inr buf"
| "pattern_loop buf target source (Suc n) =
     (if source < length buf \<and> target < length buf
      then pattern_loop (buf[target := buf ! source]) (Suc target) (Suc source) n
      else Inl C_OUT_OF_BOUNDS)"

definition patterning_copy :: "bool \<Rightarrow> byte list \<Rightarrow> nat \<Rightarrow> nat \<Rightarrow> nat \<Rightarrow> byte list svn_result" where
  "patterning_copy unaligned buf target source len =
     (let end_pos = source + len in
      if unaligned \<and> end_pos + 4 \<le> target then
        SVN_ERR (chunk_loop buf target source end_pos) (\<lambda>(buf', target', source').
        pattern_loop buf' target' source' (end_pos - source'))
      else pattern_loop buf target source len)"

section \<open>Applying a window\<close>

fun apply_instructions_loop ::
  "bool \<Rightarrow> svn_txdelta_window_t \<Rightarrow> byte list \<Rightarrow> svn_txdelta_op_t list \<Rightarrow> byte list \<Rightarrow>
   apr_size_t \<Rightarrow> apr_size_t \<Rightarrow> (byte list \<times> apr_size_t) svn_result" where
  "apply_instructions_loop unaligned window sbuf [] tbuf tpos tlen =
     SVN_ERR_ASSERT (tpos = tview_len window) (Inr (tbuf, tpos))"
| "apply_instructions_loop unaligned window sbuf (op # rest) tbuf tpos tlen =
     (let buf_len = (if oplen op < tlen - tpos then oplen op else tlen - tpos) in
      SVN_ERR_ASSERT (tpos + oplen op \<le> tview_len window) (
      SVN_ERR
        (case action_code op of
           svn_txdelta_source \<Rightarrow>
             SVN_ERR_ASSERT (offset op + oplen op \<le> sview_len window)
               (fast_memcpy tbuf (unat tpos) sbuf (unat (offset op)) (unat buf_len))
         | svn_txdelta_target \<Rightarrow>
             SVN_ERR_ASSERT (offset op < tpos)
               (patterning_copy unaligned tbuf (unat tpos) (unat (offset op)) (unat buf_len))
         | svn_txdelta_new \<Rightarrow>
             SVN_ERR_ASSERT (unat (offset op + oplen op) \<le> length (new_data window))
               (fast_memcpy tbuf (unat tpos) (new_data window) (unat (offset op)) (unat buf_len)))
        (\<lambda>tbuf'.
           let tpos' = tpos + oplen op in
           if tpos' \<ge> tlen then Inr (tbuf', tlen)
           else apply_instructions_loop unaligned window sbuf rest tbuf' tpos' tlen)))"

text \<open>The target buffer and the number of bytes written.\<close>

definition svn_txdelta_apply_instructions ::
  "bool \<Rightarrow> svn_txdelta_window_t \<Rightarrow> byte list \<Rightarrow> byte list \<Rightarrow> apr_size_t \<Rightarrow>
   (byte list \<times> apr_size_t) svn_result" where
  "svn_txdelta_apply_instructions unaligned window sbuf tbuf tlen =
     apply_instructions_loop unaligned window sbuf (ops window) tbuf 0 tlen"

section \<open>Applying windows to streams\<close>

text \<open>
  The state of an applicator: the rest of the source stream, what is written to the target
  stream and whether it is closed, and the two buffers with their allocated sizes. The
  bytes that go into the checksum are those of the target.
\<close>

record apply_baton =
  ab_source :: "byte list"
  ab_target :: "byte list"
  ab_closed :: bool
  ab_sbuf :: "byte list"
  sbuf_size :: apr_size_t
  sbuf_offset :: svn_filesize_t
  sbuf_len :: apr_size_t
  ab_tbuf :: "byte list"
  tbuf_size :: apr_size_t

definition svn_txdelta_apply :: "byte list \<Rightarrow> apply_baton" where
  "svn_txdelta_apply source =
     \<lparr>ab_source = source, ab_target = [], ab_closed = False, ab_sbuf = [], sbuf_size = 0,
      sbuf_offset = 0, sbuf_len = 0, ab_tbuf = [], tbuf_size = 0\<rparr>"

definition APR_ALIGN_DEFAULT :: "apr_size_t \<Rightarrow> apr_size_t" where
  "APR_ALIGN_DEFAULT n = (n + 7) AND NOT 7"

text \<open>
  A buffer of a pool starts with arbitrary contents: \<open>junk\<close> is the byte it is filled with.
\<close>

definition size_buffer ::
  "byte \<Rightarrow> byte list \<Rightarrow> apr_size_t \<Rightarrow> apr_size_t \<Rightarrow> (byte list \<times> apr_size_t) svn_result" where
  "size_buffer junk buf buf_size view_len =
     (if view_len > buf_size then
        let doubled = buf_size * 2;
            new_size = (if doubled < view_len then view_len else doubled)
        in SVN_ERR_ASSERT (APR_ALIGN_DEFAULT new_size \<ge> new_size)
             (Inr (replicate (unat new_size) junk, new_size))
      else Inr (buf, buf_size))"

text \<open>
  The comparisons of two \<open>svn_filesize_t\<close> values are signed; a sum with an \<open>apr_size_t\<close> is
  converted to that unsigned type, and so is the value it is compared with.
\<close>

definition view_check :: "svn_txdelta_window_t \<Rightarrow> apply_baton \<Rightarrow> bool" where
  "view_check window ab \<longleftrightarrow>
     sview_len window = 0
     \<or> (sint (sview_offset window) \<ge> sint (sbuf_offset ab)
        \<and> sview_offset window + sview_len window \<ge> sbuf_offset ab + sbuf_len ab)"

text \<open>Preparing the source buffer: what is left of the last view moves to the beginning.\<close>

definition slide_source :: "byte \<Rightarrow> svn_txdelta_window_t \<Rightarrow> apply_baton \<Rightarrow> apply_baton svn_result" where
  "slide_source junk window ab =
     (if sview_offset window \<noteq> sbuf_offset ab \<or> sview_len window > sbuf_size ab then
        let old_sbuf = ab_sbuf ab in
        SVN_ERR (size_buffer junk (ab_sbuf ab) (sbuf_size ab) (sview_len window)) (\<lambda>(buf, bsize).
        if sbuf_offset ab + sbuf_len ab > sview_offset window then
          let st = sview_offset window - sbuf_offset ab in
          SVN_ERR (memcpy buf 0 old_sbuf (unat st) (unat (sbuf_len ab - st))) (\<lambda>buf'.
          Inr (ab\<lparr>ab_sbuf := buf', sbuf_size := bsize, sbuf_len := sbuf_len ab - st,
                  sbuf_offset := sview_offset window\<rparr>))
        else Inr (ab\<lparr>ab_sbuf := buf, sbuf_size := bsize, sbuf_len := 0, sbuf_offset := sview_offset window\<rparr>))
      else Inr ab)"

text \<open>Reading the rest of the view from the source stream.\<close>

definition fill_source :: "svn_txdelta_window_t \<Rightarrow> apply_baton \<Rightarrow> apply_baton svn_result" where
  "fill_source window ab =
     (if sbuf_len ab < sview_len window then
        let want = unat (sview_len window - sbuf_len ab); got = take want (ab_source ab) in
        SVN_ERR (write_block (ab_sbuf ab) (unat (sbuf_len ab)) got) (\<lambda>buf.
        if length got \<noteq> want then Inl SVN_ERR_INCOMPLETE_DATA
        else Inr (ab\<lparr>ab_sbuf := buf, ab_source := drop want (ab_source ab), sbuf_len := sview_len window\<rparr>))
      else Inr ab)"

definition apply_window ::
  "bool \<Rightarrow> byte \<Rightarrow> svn_txdelta_window_t option \<Rightarrow> apply_baton \<Rightarrow> apply_baton svn_result" where
  "apply_window unaligned junk win ab =
     (case win of
        None \<Rightarrow> Inr (ab\<lparr>ab_closed := True\<rparr>)
      | Some window \<Rightarrow>
          SVN_ERR_ASSERT (view_check window ab) (
          SVN_ERR (size_buffer junk (ab_tbuf ab) (tbuf_size ab) (tview_len window)) (\<lambda>(tb, tsize).
          SVN_ERR (slide_source junk window (ab\<lparr>ab_tbuf := tb, tbuf_size := tsize\<rparr>)) (\<lambda>ab1.
          SVN_ERR (fill_source window ab1) (\<lambda>ab2.
          SVN_ERR (svn_txdelta_apply_instructions unaligned window (ab_sbuf ab2) (ab_tbuf ab2) (tview_len window))
            (\<lambda>(tb', len).
               SVN_ERR_ASSERT (len = tview_len window) (
               SVN_ERR (read_block tb' 0 (unat len)) (\<lambda>out.
               Inr (ab2\<lparr>ab_tbuf := tb', ab_target := ab_target ab2 @ out\<rparr>)))))))))"

section \<open>The meaning of a window\<close>

text \<open>
  Copying from the target repeats the text from the offset to the end of the target for as
  long as needed.
\<close>

definition pattern_bytes :: "byte list \<Rightarrow> nat \<Rightarrow> nat \<Rightarrow> byte list" where
  "pattern_bytes tgt off len = map (\<lambda>i. tgt ! (off + i mod (length tgt - off))) [0..<len]"

definition op_bytes :: "byte list \<Rightarrow> byte list \<Rightarrow> byte list \<Rightarrow> svn_txdelta_op_t \<Rightarrow> byte list" where
  "op_bytes src new tgt op =
     (case action_code op of
        svn_txdelta_source \<Rightarrow> take (unat (oplen op)) (drop (unat (offset op)) src)
      | svn_txdelta_target \<Rightarrow> pattern_bytes tgt (unat (offset op)) (unat (oplen op))
      | svn_txdelta_new \<Rightarrow> take (unat (oplen op)) (drop (unat (offset op)) new))"

fun ops_text :: "byte list \<Rightarrow> byte list \<Rightarrow> byte list \<Rightarrow> svn_txdelta_op_t list \<Rightarrow> byte list" where
  "ops_text src new tgt [] = tgt"
| "ops_text src new tgt (op # rest) = ops_text src new (tgt @ op_bytes src new tgt op) rest"

definition window_text :: "svn_txdelta_window_t \<Rightarrow> byte list \<Rightarrow> byte list" where
  "window_text window src = ops_text src (new_data window) [] (ops window)"

text \<open>
  Well-formed instructions as svn\_delta.h describes them: no empty instruction, copies stay
  inside the views, copies from the target start before the current position, new data are
  used from the beginning to the end. The numbers are the position in the target and in the
  new data.
\<close>

fun wf_ops :: "nat \<Rightarrow> nat \<Rightarrow> nat \<Rightarrow> nat \<Rightarrow> svn_txdelta_op_t list \<Rightarrow> nat \<Rightarrow> bool" where
  "wf_ops slen nlen tpos npos [] tlen = (tpos = tlen \<and> npos = nlen)"
| "wf_ops slen nlen tpos npos (op # rest) tlen =
     (oplen op \<noteq> 0 \<and>
      (case action_code op of
         svn_txdelta_source \<Rightarrow>
           unat (offset op) + unat (oplen op) \<le> slen
           \<and> wf_ops slen nlen (tpos + unat (oplen op)) npos rest tlen
       | svn_txdelta_target \<Rightarrow>
           unat (offset op) < tpos \<and> wf_ops slen nlen (tpos + unat (oplen op)) npos rest tlen
       | svn_txdelta_new \<Rightarrow>
           unat (offset op) = npos \<and> npos + unat (oplen op) \<le> nlen
           \<and> wf_ops slen nlen (tpos + unat (oplen op)) (npos + unat (oplen op)) rest tlen))"

definition wf_window :: "svn_txdelta_window_t \<Rightarrow> bool" where
  "wf_window window \<longleftrightarrow>
     length (new_data window) < 2 ^ 63 \<and> unat (sview_len window) < 2 ^ 63 \<and> unat (tview_len window) < 2 ^ 63
     \<and> wf_ops (unat (sview_len window)) (length (new_data window)) 0 0 (ops window) (unat (tview_len window))"

section \<open>Copying loops\<close>

lemma copy_loop_block:
  "source + n \<le> length sbuf \<Longrightarrow> target + n \<le> length tbuf \<Longrightarrow>
   copy_loop tbuf target sbuf source n =
     Inr (take target tbuf @ take n (drop source sbuf) @ drop (target + n) tbuf)"
proof (induction n arbitrary: tbuf target source)
  case (Suc n)
  have "sbuf ! source # take n (drop (Suc source) sbuf) = take (Suc n) (drop source sbuf)"
    using Suc.prems(1) by (simp add: take_Suc Cons_nth_drop_Suc [symmetric])
  with Suc show ?case by (simp add: take_Suc_conv_app_nth)
qed simp

lemma memcpy_block:
  "source + n \<le> length sbuf \<Longrightarrow> target + n \<le> length tbuf \<Longrightarrow>
   memcpy tbuf target sbuf source n =
     Inr (take target tbuf @ take n (drop source sbuf) @ drop (target + n) tbuf)"
  by (simp add: memcpy_def read_block_def write_block_def)

lemma fast_memcpy_block:
  "source + n \<le> length sbuf \<Longrightarrow> target + n \<le> length tbuf \<Longrightarrow>
   fast_memcpy tbuf target sbuf source n =
     Inr (take target tbuf @ take n (drop source sbuf) @ drop (target + n) tbuf)"
  by (simp add: fast_memcpy_def memcpy_block copy_loop_block)

lemma length_pattern_bytes [simp]: "length (pattern_bytes tgt off len) = len"
  by (simp add: pattern_bytes_def)

lemma pattern_bytes_Suc:
  assumes "off < length tgt"
  shows "pattern_bytes tgt off (Suc n) = tgt ! off # pattern_bytes (tgt @ [tgt ! off]) (Suc off) n"
proof (rule nth_equalityI)
  fix i assume "i < length (pattern_bytes tgt off (Suc n))"
  then have i: "i < Suc n" by simp
  let ?p = "length tgt - off"
  have t: "pattern_bytes tgt off (Suc n) ! i = tgt ! (off + i mod ?p)"
    using i by (simp add: pattern_bytes_def del: upt_Suc)
  show "pattern_bytes tgt off (Suc n) ! i = (tgt ! off # pattern_bytes (tgt @ [tgt ! off]) (Suc off) n) ! i"
  proof (cases i)
    case (Suc j)
    have p: "?p > 0" using assms by simp
    have j: "pattern_bytes (tgt @ [tgt ! off]) (Suc off) n ! j = (tgt @ [tgt ! off]) ! (Suc off + j mod ?p)"
      using i Suc assms by (simp add: pattern_bytes_def)
    show ?thesis
    proof (cases "Suc (j mod ?p) = ?p")
      case True
      then have "Suc j mod ?p = 0" using p by (metis mod_Suc mod_self)
      moreover have "Suc off + j mod ?p = length tgt" using True assms by linarith
      ultimately show ?thesis using Suc j t by (simp add: nth_append)
    next
      case False
      then have m: "Suc j mod ?p = Suc (j mod ?p)" using p by (simp add: mod_Suc)
      have "j mod ?p < ?p" using p by simp
      with False have "Suc off + j mod ?p < length tgt" by linarith
      then show ?thesis using Suc j t m by (simp add: nth_append)
    qed
  qed (use t in simp)
qed simp

lemma pattern_loop_block:
  "source < target \<Longrightarrow> target + n \<le> length buf \<Longrightarrow>
   pattern_loop buf target source n =
     Inr (take target buf @ pattern_bytes (take target buf) source n @ drop (target + n) buf)"
proof (induction n arbitrary: buf target source)
  case 0
  then show ?case by (simp add: pattern_bytes_def)
next
  case (Suc n)
  have "pattern_bytes (take target buf) source (Suc n) =
      buf ! source # pattern_bytes (take target buf @ [buf ! source]) (Suc source) n"
    using Suc.prems by (subst pattern_bytes_Suc) simp_all
  with Suc show ?case by (simp add: take_Suc_conv_app_nth)
qed

lemma pattern_loop_add:
  "pattern_loop buf target source (m + n) =
     SVN_ERR (pattern_loop buf target source m) (\<lambda>buf'. pattern_loop buf' (target + m) (source + m) n)"
  by (induction m arbitrary: buf target source) simp_all

lemma pattern_bytes_take:
  "off + n \<le> length tgt \<Longrightarrow> pattern_bytes tgt off n = take n (drop off tgt)"
  by (rule nth_equalityI) (simp_all add: pattern_bytes_def)

text \<open>A chunk whose source ends before its target is four steps of the byte-wise loop.\<close>

lemma chunk_step:
  "source + 4 \<le> target \<Longrightarrow> target + 4 \<le> length buf \<Longrightarrow>
   memcpy buf target buf source 4 = pattern_loop buf target source 4"
  by (simp add: memcpy_block pattern_loop_block pattern_bytes_take drop_take)

lemma chunk_loop_pattern:
  "end_pos + 4 \<le> target + 4 \<Longrightarrow> source \<le> end_pos \<Longrightarrow> target + (end_pos - source) \<le> length buf \<Longrightarrow>
   SVN_ERR (chunk_loop buf target source end_pos) (\<lambda>(buf', target', source').
     pattern_loop buf' target' source' (end_pos - source')) =
   pattern_loop buf target source (end_pos - source)"
proof (induction buf target source end_pos rule: chunk_loop.induct)
  case (1 buf target source end_pos)
  show ?case
  proof (cases "source + 4 \<le> end_pos")
    case True
    have c: "memcpy buf target buf source 4 = pattern_loop buf target source 4"
      using True "1.prems" by (intro chunk_step) auto
    obtain buf' where b: "memcpy buf target buf source 4 = Inr buf'" "length buf' = length buf"
      using True "1.prems" by (simp add: memcpy_block)
    have "pattern_loop buf target source (4 + (end_pos - (source + 4))) =
        pattern_loop buf' (target + 4) (source + 4) (end_pos - (source + 4))"
      unfolding pattern_loop_add using b(1) c by simp
    moreover have "4 + (end_pos - (source + 4)) = end_pos - source" using True by simp
    moreover have "chunk_loop buf target source end_pos = chunk_loop buf' (target + 4) (source + 4) end_pos"
      using True b(1) by (subst chunk_loop.simps) simp
    ultimately show ?thesis using "1.IH" [OF True b(1)] True "1.prems" b(2) by simp
  next
    case False
    then show ?thesis by (subst chunk_loop.simps) simp
  qed
qed

lemma patterning_copy_block:
  assumes "source < target" "target + n \<le> length buf"
  shows "patterning_copy unaligned buf target source n =
     Inr (take target buf @ pattern_bytes (take target buf) source n @ drop (target + n) buf)"
proof -
  have "patterning_copy unaligned buf target source n = pattern_loop buf target source n"
    using chunk_loop_pattern [of "source + n" target source buf] assms
    by (simp add: patterning_copy_def Let_def)
  with assms show ?thesis by (simp add: pattern_loop_block)
qed

section \<open>Applying well-formed windows\<close>

lemma wf_ops_bounds: "wf_ops slen nlen tpos npos os tlen \<Longrightarrow> tpos \<le> tlen \<and> npos \<le> nlen"
  by (induction slen nlen tpos npos os tlen rule: wf_ops.induct) (auto split: svn_delta_action.splits)

lemma ops_text_append: "ops_text src new tgt (as @ bs) = ops_text src new (ops_text src new tgt as) bs"
  by (induction as arbitrary: tgt) simp_all

lemma ops_text_prefix: "\<exists>rest. ops_text src new tgt os = tgt @ rest"
proof (induction os arbitrary: tgt)
  case (Cons op os)
  from Cons [of "tgt @ op_bytes src new tgt op"] show ?case by auto
qed simp

lemma take_pattern_bytes: "n \<le> len \<Longrightarrow> take n (pattern_bytes tgt off len) = pattern_bytes tgt off n"
  by (simp add: pattern_bytes_def take_map)

definition wf_op :: "nat \<Rightarrow> nat \<Rightarrow> nat \<Rightarrow> svn_txdelta_op_t \<Rightarrow> bool" where
  "wf_op slen nlen tpos op \<longleftrightarrow> (case action_code op of
      svn_txdelta_source \<Rightarrow> unat (offset op) + unat (oplen op) \<le> slen
    | svn_txdelta_target \<Rightarrow> unat (offset op) < tpos
    | svn_txdelta_new \<Rightarrow> unat (offset op) + unat (oplen op) \<le> nlen)"

lemma wf_ops_ConsD:
  assumes "wf_ops slen nlen tpos npos (op # os) tlen"
  shows "wf_op slen nlen tpos op" "oplen op \<noteq> 0"
    "\<exists>npos'. wf_ops slen nlen (tpos + unat (oplen op)) npos' os tlen"
  using assms by (auto simp: wf_op_def split: svn_delta_action.splits)

lemma length_op_bytes:
  assumes "wf_op slen nlen (length tgt) op" "slen \<le> length src" "nlen \<le> length new"
  shows "length (op_bytes src new tgt op) = unat (oplen op)"
  using assms by (auto simp: wf_op_def op_bytes_def split: svn_delta_action.splits)

lemma wf_ops_length:
  "wf_ops slen nlen (length tgt) npos os tlen \<Longrightarrow> slen \<le> length src \<Longrightarrow> nlen \<le> length new \<Longrightarrow>
   length (ops_text src new tgt os) = tlen"
proof (induction os arbitrary: tgt npos)
  case (Cons op os)
  obtain npos' where "wf_ops slen nlen (length tgt + unat (oplen op)) npos' os tlen"
    using wf_ops_ConsD(3) [OF Cons.prems(1)] by blast
  with Cons.IH [of "tgt @ op_bytes src new tgt op" npos'] Cons.prems(2,3)
    length_op_bytes [OF wf_ops_ConsD(1) [OF Cons.prems(1)]]
  show ?case by simp
qed simp

lemma unat_add_small: "unat a + unat b < 2 ^ 64 \<Longrightarrow> unat (a + b) = unat a + unat (b :: 64 word)"
  by (simp add: unat_word_ariths)

lemma unat_min_len:
  "unat (tpos :: 64 word) \<le> unat tlen \<Longrightarrow>
   unat (if len < tlen - tpos then len else tlen - tpos) = min (unat len) (unat tlen - unat tpos)"
  using unat_sub [of tpos tlen] by (auto simp: word_less_nat_alt word_le_nat_alt min_def)

text \<open>One instruction writes its bytes, cut off at the end of the buffer.\<close>

lemma copy_op:
  assumes wf: "wf_op (unat (sview_len w)) (length (new_data w)) (length tgt) op"
    and len: "unat (sview_len w) < 2 ^ 63" "length (new_data w) < 2 ^ 63"
    and buf: "take (length tgt) tbuf = tgt" "length tgt + n \<le> length tbuf" "n \<le> unat (oplen op)"
    and src: "unat (sview_len w) \<le> length src" and tpos: "unat tpos = length tgt"
  shows "(case action_code op of
           svn_txdelta_source \<Rightarrow>
             SVN_ERR_ASSERT (offset op + oplen op \<le> sview_len w)
               (fast_memcpy tbuf (unat tpos) src (unat (offset op)) n)
         | svn_txdelta_target \<Rightarrow>
             SVN_ERR_ASSERT (offset op < tpos)
               (patterning_copy unaligned tbuf (unat tpos) (unat (offset op)) n)
         | svn_txdelta_new \<Rightarrow>
             SVN_ERR_ASSERT (unat (offset op + oplen op) \<le> length (new_data w))
               (fast_memcpy tbuf (unat tpos) (new_data w) (unat (offset op)) n)) =
    Inr (tgt @ take n (op_bytes src (new_data w) tgt op) @ drop (length tgt + n) tbuf)"
proof (cases "action_code op")
  case svn_txdelta_source
  then have "unat (offset op) + unat (oplen op) \<le> unat (sview_len w)" using wf by (simp add: wf_op_def)
  moreover from this have "offset op + oplen op \<le> sview_len w"
    using len(1) by (simp add: word_le_nat_alt unat_add_small)
  ultimately show ?thesis using svn_txdelta_source buf src tpos
    by (simp add: fast_memcpy_block op_bytes_def min_def)
next
  case svn_txdelta_target
  then show ?thesis using wf buf tpos
    by (simp add: wf_op_def patterning_copy_block op_bytes_def take_pattern_bytes word_less_nat_alt)
next
  case svn_txdelta_new
  then have "unat (offset op) + unat (oplen op) \<le> length (new_data w)" using wf by (simp add: wf_op_def)
  moreover from this have "unat (offset op + oplen op) \<le> length (new_data w)"
    using len(2) by (simp add: unat_add_small)
  ultimately show ?thesis using svn_txdelta_new buf tpos
    by (simp add: fast_memcpy_block op_bytes_def min_def)
qed

lemma apply_loop_ok:
  assumes "wf_ops (unat (sview_len w)) (length (new_data w)) (length tgt) npos os (unat (tview_len w))"
    and "unat (sview_len w) < 2 ^ 63" "length (new_data w) < 2 ^ 63" "unat (tview_len w) < 2 ^ 63"
    and "unat (sview_len w) \<le> length src"
    and "take (length tgt) tbuf = tgt" "unat tlen \<le> length tbuf"
    and "unat tpos = length tgt" "length tgt \<le> unat tlen"
  shows "apply_instructions_loop unaligned w src os tbuf tpos tlen =
    (let m = min (unat tlen) (unat (tview_len w))
     in Inr (take m (ops_text src (new_data w) tgt os) @ drop m tbuf, of_nat m))"
  using assms
proof (induction os arbitrary: tgt npos tbuf tpos)
  case Nil
  then have "tpos = tview_len w" by (simp add: word_unat_eq_iff)
  moreover have "tgt @ drop (length tgt) tbuf = tbuf" using Nil.prems(6) by (metis append_take_drop_id)
  ultimately show ?case using Nil.prems by (auto simp: Let_def min_def)
next
  case (Cons op os)
  note wf = wf_ops_ConsD [OF Cons.prems(1)]
  let ?n = "min (unat (oplen op)) (unat tlen - unat tpos)"
  let ?bytes = "op_bytes src (new_data w) tgt op"
  let ?tbuf = "tgt @ take ?n ?bytes @ drop (length tgt + ?n) tbuf"
  obtain npos' where rest: "wf_ops (unat (sview_len w)) (length (new_data w))
      (length tgt + unat (oplen op)) npos' os (unat (tview_len w))" using wf(3) by blast
  have fits: "length tgt + unat (oplen op) \<le> unat (tview_len w)" using wf_ops_bounds [OF rest] by simp
  then have sum: "unat (tpos + oplen op) = length tgt + unat (oplen op)"
    using Cons.prems(4,8) by (simp add: unat_add_small)
  have lb: "length ?bytes = unat (oplen op)" using length_op_bytes [OF wf(1)] Cons.prems(5) by simp
  have blen: "unat (if oplen op < tlen - tpos then oplen op else tlen - tpos) = ?n"
    using Cons.prems(8,9) by (intro unat_min_len) simp
  have copy: "(case action_code op of
           svn_txdelta_source \<Rightarrow>
             SVN_ERR_ASSERT (offset op + oplen op \<le> sview_len w)
               (fast_memcpy tbuf (unat tpos) src (unat (offset op)) ?n)
         | svn_txdelta_target \<Rightarrow>
             SVN_ERR_ASSERT (offset op < tpos)
               (patterning_copy unaligned tbuf (unat tpos) (unat (offset op)) ?n)
         | svn_txdelta_new \<Rightarrow>
             SVN_ERR_ASSERT (unat (offset op + oplen op) \<le> length (new_data w))
               (fast_memcpy tbuf (unat tpos) (new_data w) (unat (offset op)) ?n)) = Inr ?tbuf"
    using wf(1) Cons.prems(2-9) by (intro copy_op) auto
  have step: "apply_instructions_loop unaligned w src (op # os) tbuf tpos tlen =
     (if tpos + oplen op \<ge> tlen then Inr (?tbuf, tlen)
      else apply_instructions_loop unaligned w src os ?tbuf (tpos + oplen op) tlen)"
    using fits sum copy unfolding apply_instructions_loop.simps Let_def blen
    by (simp add: word_le_nat_alt)
  obtain more where more: "ops_text src (new_data w) (tgt @ ?bytes) os = (tgt @ ?bytes) @ more"
    using ops_text_prefix by blast
  show ?case
  proof (cases "tpos + oplen op \<ge> tlen")
    case True
    then have "unat tlen \<le> length tgt + unat (oplen op)" using sum by (simp add: word_le_nat_alt)
    then have "min (unat tlen) (unat (tview_len w)) = unat tlen" "?n = unat tlen - length tgt"
      using fits Cons.prems(8) by auto
    then show ?thesis
      using True step more lb Cons.prems(8,9) by (simp add: Let_def)
  next
    case False
    then have lt: "length tgt + unat (oplen op) < unat tlen" using sum by (simp add: word_le_nat_alt not_le)
    then have n: "?n = unat (oplen op)" using Cons.prems(8) by auto
    have tb: "?tbuf = (tgt @ ?bytes) @ drop (length tgt + unat (oplen op)) tbuf" using n lb by simp
    have "apply_instructions_loop unaligned w src os ?tbuf (tpos + oplen op) tlen =
      (let m = min (unat tlen) (unat (tview_len w))
       in Inr (take m (ops_text src (new_data w) (tgt @ ?bytes) os) @ drop m ?tbuf, of_nat m))"
      using Cons.prems(2-5,7) rest lb sum lt by (intro Cons.IH) (auto simp: tb)
    moreover have "drop (min (unat tlen) (unat (tview_len w))) ?tbuf = drop (min (unat tlen) (unat (tview_len w))) tbuf"
      using lt fits lb unfolding tb by (auto simp: min_def)
    ultimately show ?thesis using False step by simp
  qed
qed

lemma apply_instructions_ok:
  assumes "wf_window w" "unat (sview_len w) \<le> length src" "unat tlen \<le> length tbuf"
  shows "svn_txdelta_apply_instructions unaligned w src tbuf tlen =
    (let m = min (unat tlen) (unat (tview_len w))
     in Inr (take m (window_text w src) @ drop m tbuf, of_nat m))"
  using assms apply_loop_ok [of w "[]" 0 "ops w" src tbuf tlen 0 unaligned]
  by (simp add: wf_window_def svn_txdelta_apply_instructions_def window_text_def)

lemma length_window_text:
  "wf_window w \<Longrightarrow> unat (sview_len w) \<le> length src \<Longrightarrow> length (window_text w src) = unat (tview_len w)"
  using wf_ops_length [of "unat (sview_len w)" "length (new_data w)" "[]" 0 "ops w"]
  by (simp add: wf_window_def window_text_def)

section \<open>Applying a sequence of windows\<close>

lemma apr_align_ge:
  assumes "unat n < 2 ^ 63"
  shows "APR_ALIGN_DEFAULT n \<ge> n"
proof -
  let ?x = "n + 7"
  have "(?x AND NOT 7) AND (?x AND 7) = 0"
    by (rule bit_word_eqI) (auto simp: bit_simps)
  then have "(?x AND NOT 7) + (?x AND 7) = (?x AND NOT 7) OR (?x AND 7)"
    by (simp add: disjunctive_add_eq_or)
  also have "\<dots> = ?x" by (rule bit_word_eqI) (auto simp: bit_simps)
  finally have eq: "(?x AND NOT 7) = ?x - (?x AND 7)" by (simp add: algebra_simps)
  have "?x AND 7 \<le> 7" by (rule word_and_le1)
  then have "unat (?x AND 7) \<le> 7" by (simp add: word_le_nat_alt)
  moreover have "unat ?x = unat n + 7" using assms by (simp add: unat_word_ariths)
  moreover have "?x AND 7 \<le> ?x" by (rule word_and_le2)
  ultimately have "unat (?x - (?x AND 7)) \<ge> unat n" by (simp add: unat_sub)
  then show ?thesis unfolding APR_ALIGN_DEFAULT_def eq word_le_nat_alt .
qed

text \<open>Buffers never get longer than twice the largest view.\<close>

abbreviation max_view :: nat where
  "max_view \<equiv> 102400"

lemma size_buffer_ok:
  assumes "length buf = unat bsize" "unat bsize \<le> 2 * max_view" "unat view \<le> max_view"
  shows "\<exists>buf' bsize'. size_buffer junk buf bsize view = Inr (buf', bsize')
    \<and> length buf' = unat bsize' \<and> unat bsize' \<le> 2 * max_view \<and> unat view \<le> unat bsize'
    \<and> (view \<le> bsize \<longrightarrow> buf' = buf \<and> bsize' = bsize)"
proof (cases "view > bsize")
  case True
  let ?new = "if bsize * 2 < view then view else bsize * 2"
  have d: "unat (bsize * 2) = 2 * unat bsize" using assms(2) by (simp add: unat_word_ariths)
  have b: "unat ?new \<le> 2 * max_view" "unat view \<le> unat ?new"
    using assms(3) True d by (auto simp: word_less_nat_alt)
  then have "APR_ALIGN_DEFAULT ?new \<ge> ?new" by (intro apr_align_ge) simp
  then have "size_buffer junk buf bsize view = Inr (replicate (unat ?new) junk, ?new)"
    using True by (simp add: size_buffer_def Let_def)
  with b True show ?thesis by auto
next
  case False
  with assms show ?thesis by (auto simp: size_buffer_def word_less_nat_alt word_le_nat_alt)
qed

text \<open>Only the bytes of the source view matter.\<close>

lemma ops_text_source:
  "wf_ops slen nlen tpos npos os tlen \<Longrightarrow> take slen src = take slen src' \<Longrightarrow> slen \<le> length src \<Longrightarrow>
   slen \<le> length src' \<Longrightarrow> ops_text src new tgt os = ops_text src' new tgt os"
proof (induction os arbitrary: tpos npos tgt)
  case (Cons op os)
  obtain npos' where rest: "wf_ops slen nlen (tpos + unat (oplen op)) npos' os tlen"
    using wf_ops_ConsD(3) [OF Cons.prems(1)] by blast
  have "take n (drop off src) = take n (drop off src')" if "off + n \<le> slen" for off n
  proof -
    have "take n (drop off (take slen src)) = take n (drop off (take slen src'))" using Cons.prems(2) by simp
    then show ?thesis using that by (simp add: drop_take min_def split: if_splits)
  qed
  then have "op_bytes src new tgt op = op_bytes src' new tgt op"
    using wf_ops_ConsD(1) [OF Cons.prems(1)]
    by (simp add: op_bytes_def wf_op_def split: svn_delta_action.splits)
  with Cons.IH [OF rest Cons.prems(2-4)] show ?case by simp
qed simp

lemma window_text_source:
  "wf_window w \<Longrightarrow> take (unat (sview_len w)) src = take (unat (sview_len w)) src' \<Longrightarrow>
   unat (sview_len w) \<le> length src \<Longrightarrow> unat (sview_len w) \<le> length src' \<Longrightarrow>
   window_text w src = window_text w src'"
  by (auto simp: window_text_def wf_window_def intro: ops_text_source)

text \<open>
  What the applicator knows of its source \<open>S\<close>: the buffer holds \<open>l\<close> bytes from offset \<open>from\<close>
  on, and the stream continues after them.
\<close>

definition apply_inv :: "byte list \<Rightarrow> nat \<Rightarrow> nat \<Rightarrow> apply_baton \<Rightarrow> bool" where
  "apply_inv S st l ab \<longleftrightarrow>
     unat (sbuf_offset ab) = st \<and> unat (sbuf_len ab) = l \<and> st + l \<le> length S \<and> length S < 2 ^ 62
     \<and> ab_source ab = drop (st + l) S \<and> take l (ab_sbuf ab) = take l (drop st S)
     \<and> l \<le> length (ab_sbuf ab) \<and> length (ab_sbuf ab) = unat (sbuf_size ab) \<and> unat (sbuf_size ab) \<le> 2 * max_view
     \<and> length (ab_tbuf ab) = unat (tbuf_size ab) \<and> unat (tbuf_size ab) \<le> 2 * max_view"

text \<open>
  The view of a window that follows on a view: it starts in or right after the last view
  and, unless it is empty, does not end before it.
\<close>

definition follows :: "byte list \<Rightarrow> nat \<Rightarrow> nat \<Rightarrow> svn_txdelta_window_t \<Rightarrow> bool" where
  "follows S st l w \<longleftrightarrow>
     wf_window w \<and> unat (sview_len w) \<le> max_view \<and> unat (tview_len w) \<le> max_view
     \<and> st \<le> unat (sview_offset w) \<and> unat (sview_offset w) \<le> st + l
     \<and> (sview_len w = 0 \<or> st + l \<le> unat (sview_offset w) + unat (sview_len w))
     \<and> unat (sview_offset w) + unat (sview_len w) \<le> length S"

definition next_len :: "nat \<Rightarrow> nat \<Rightarrow> svn_txdelta_window_t \<Rightarrow> nat" where
  "next_len st l w = (if sview_len w = 0 then st + l - unat (sview_offset w) else unat (sview_len w))"

definition source_view :: "byte list \<Rightarrow> svn_txdelta_window_t \<Rightarrow> byte list" where
  "source_view S w = take (unat (sview_len w)) (drop (unat (sview_offset w)) S)"

lemma sint_small: "unat (x :: 64 word) < 2 ^ 63 \<Longrightarrow> sint x = int (unat x)"
proof -
  assume "unat x < 2 ^ 63"
  then have "uint x < 2 ^ 63" by (simp add: uint_nat del: of_nat_unat)
  moreover have "- (2 ^ 63) \<le> uint x" by (rule order_trans [OF _ uint_ge_0]) simp
  ultimately show ?thesis by (simp add: sint_uint signed_take_bit_int_eq_self)
qed

lemma view_check_ok:
  assumes "apply_inv S st l ab" "follows S st l w"
  shows "view_check w ab"
proof (cases "sview_len w = 0")
  case False
  have "unat (sview_offset w + sview_len w) = unat (sview_offset w) + unat (sview_len w)"
    "unat (sbuf_offset ab + sbuf_len ab) = st + l"
    using assms by (auto simp: apply_inv_def follows_def intro!: unat_add_small)
  then have "sbuf_offset ab + sbuf_len ab \<le> sview_offset w + sview_len w"
    using assms False by (simp add: apply_inv_def follows_def word_le_nat_alt)
  moreover have "sint (sbuf_offset ab) \<le> sint (sview_offset w)"
    using assms by (simp add: apply_inv_def follows_def sint_small del: of_nat_unat)
  ultimately show ?thesis by (simp add: view_check_def)
qed (simp add: view_check_def)

lemma slide_source_ok:
  assumes inv: "apply_inv S st l ab" and f: "follows S st l w"
  shows "\<exists>ab'. slide_source junk w ab = Inr ab'
    \<and> apply_inv S (unat (sview_offset w)) (st + l - unat (sview_offset w)) ab'
    \<and> unat (sview_len w) \<le> length (ab_sbuf ab') \<and> ab_target ab' = ab_target ab
    \<and> ab_tbuf ab' = ab_tbuf ab \<and> ab_closed ab' = ab_closed ab"
proof (cases "sview_offset w \<noteq> sbuf_offset ab \<or> sview_len w > sbuf_size ab")
  case True
  note i = inv [unfolded apply_inv_def] and fw = f [unfolded follows_def]
  obtain buf bsize where b: "size_buffer junk (ab_sbuf ab) (sbuf_size ab) (sview_len w) = Inr (buf, bsize)"
    "length buf = unat bsize" "unat bsize \<le> 2 * max_view" "unat (sview_len w) \<le> unat bsize"
    "sview_len w \<le> sbuf_size ab \<longrightarrow> buf = ab_sbuf ab \<and> bsize = sbuf_size ab"
    using size_buffer_ok [of "ab_sbuf ab" "sbuf_size ab" "sview_len w" junk] i fw by blast
  let ?o = "unat (sview_offset w)"
  have sum: "unat (sbuf_offset ab + sbuf_len ab) = st + l" using i by (intro unat_add_small [THEN trans]) auto
  have le: "sbuf_offset ab \<le> sview_offset w" using i fw by (simp add: word_le_nat_alt)
  then have st: "unat (sview_offset w - sbuf_offset ab) = ?o - st" using i by (simp add: unat_sub)
  show ?thesis
  proof (cases "st + l > ?o")
    case over: True
    then have cond: "sbuf_offset ab + sbuf_len ab > sview_offset w" using sum by (simp add: word_less_nat_alt)
    have "sview_offset w - sbuf_offset ab \<le> sbuf_len ab" using st i over by (simp add: word_le_nat_alt)
    then have rem: "unat (sbuf_len ab - (sview_offset w - sbuf_offset ab)) = st + l - ?o"
      using st i fw by (simp add: unat_sub)
    have fit: "st + l - ?o \<le> length buf"
    proof (cases "sview_len w \<le> sbuf_size ab")
      case True
      then have "buf = ab_sbuf ab" using b(5) by simp
      moreover have "st + l - ?o \<le> l" using fw by linarith
      ultimately show ?thesis using i by simp
    next
      case False
      then have "sview_len w \<noteq> 0" by (auto simp: not_le)
      then show ?thesis using fw b(2,4) by auto
    qed
    let ?buf = "take (st + l - ?o) (drop (?o - st) (ab_sbuf ab)) @ drop (st + l - ?o) buf"
    have cp: "memcpy buf 0 (ab_sbuf ab) (unat (sview_offset w - sbuf_offset ab))
        (unat (sbuf_len ab - (sview_offset w - sbuf_offset ab))) = Inr ?buf"
      using st rem fit i over fw by (subst memcpy_block) auto
    have "drop (?o - st) (take l (ab_sbuf ab)) = drop (?o - st) (take l (drop st S))" using i by simp
    then have "take (st + l - ?o) (drop (?o - st) (ab_sbuf ab)) = take (st + l - ?o) (drop ?o S)"
      using fw by (simp add: drop_take add.commute)
    then have "apply_inv S ?o (st + l - ?o) (ab\<lparr>ab_sbuf := ?buf, sbuf_size := bsize,
        sbuf_len := sbuf_len ab - (sview_offset w - sbuf_offset ab), sbuf_offset := sview_offset w\<rparr>)"
      using i fw rem fit b(2,3) over by (auto simp: apply_inv_def)
    moreover have "unat (sview_len w) \<le> length ?buf" using b(2,4) fit i over fw by auto
    ultimately show ?thesis using True b(1) cond cp by (simp add: slide_source_def Let_def)
  next
    case False
    then have "\<not> sbuf_offset ab + sbuf_len ab > sview_offset w" using sum by (simp add: word_less_nat_alt)
    moreover have "?o = st + l" using False fw by simp
    ultimately show ?thesis using True b i fw by (auto simp: slide_source_def Let_def apply_inv_def)
  qed
next
  case False
  then have "slide_source junk w ab = Inr ab" "unat (sview_offset w) = st"
    using inv by (auto simp: slide_source_def apply_inv_def)
  with inv f False show ?thesis by (auto simp: apply_inv_def follows_def word_less_nat_alt)
qed

lemma fill_source_ok:
  assumes inv: "apply_inv S st l ab" and w: "sview_len w = 0 \<or> l \<le> unat (sview_len w)"
    and s: "st + unat (sview_len w) \<le> length S" and buf: "unat (sview_len w) \<le> length (ab_sbuf ab)"
  shows "\<exists>ab'. fill_source w ab = Inr ab'
    \<and> apply_inv S st (if sview_len w = 0 then l else unat (sview_len w)) ab'
    \<and> ab_target ab' = ab_target ab \<and> ab_tbuf ab' = ab_tbuf ab \<and> length (ab_sbuf ab') = length (ab_sbuf ab)
    \<and> ab_closed ab' = ab_closed ab"
proof (cases "sbuf_len ab < sview_len w")
  case True
  note i = inv [unfolded apply_inv_def]
  have lt: "l < unat (sview_len w)" using True i by (simp add: word_less_nat_alt)
  let ?want = "unat (sview_len w) - l"
  let ?buf = "take l (ab_sbuf ab) @ take ?want (drop (st + l) S) @ drop (l + ?want) (ab_sbuf ab)"
  have want: "unat (sview_len w - sbuf_len ab) = ?want" using True i by (simp add: unat_sub)
  have len: "length (take ?want (drop (st + l) S)) = ?want" using s lt by simp
  have "fill_source w ab = Inr (ab\<lparr>ab_sbuf := ?buf, ab_source := drop ?want (drop (st + l) S), sbuf_len := sview_len w\<rparr>)"
    using True want len buf lt i by (simp add: fill_source_def Let_def write_block_def)
  moreover have "take (unat (sview_len w)) ?buf = take (unat (sview_len w)) (drop st S)"
    using i lt len take_add [of l ?want "drop st S"] by (simp add: add.commute)
  ultimately show ?thesis
    using i lt len buf s by (auto simp: apply_inv_def add.commute)
next
  case False
  then have "sview_len w = 0 \<or> unat (sview_len w) = l"
    using w inv by (auto simp: apply_inv_def word_less_nat_alt)
  with False inv show ?thesis by (auto simp: fill_source_def)
qed

lemma apply_window_ok:
  assumes inv: "apply_inv S st l ab" and f: "follows S st l w"
  shows "\<exists>ab'. apply_window unaligned junk (Some w) ab = Inr ab'
    \<and> apply_inv S (unat (sview_offset w)) (next_len st l w) ab'
    \<and> ab_target ab' = ab_target ab @ window_text w (source_view S w) \<and> ab_closed ab' = ab_closed ab"
proof -
  note fw = f [unfolded follows_def]
  obtain tb tsize where tb: "size_buffer junk (ab_tbuf ab) (tbuf_size ab) (tview_len w) = Inr (tb, tsize)"
    "length tb = unat tsize" "unat tsize \<le> 2 * max_view" "unat (tview_len w) \<le> length tb"
    using size_buffer_ok [of "ab_tbuf ab" "tbuf_size ab" "tview_len w" junk] inv fw by (auto simp: apply_inv_def)
  let ?ab = "ab\<lparr>ab_tbuf := tb, tbuf_size := tsize\<rparr>"
  have inv': "apply_inv S st l ?ab" using inv tb by (simp add: apply_inv_def)
  obtain ab1 where ab1: "slide_source junk w ?ab = Inr ab1"
    "apply_inv S (unat (sview_offset w)) (st + l - unat (sview_offset w)) ab1"
    "unat (sview_len w) \<le> length (ab_sbuf ab1)" "ab_target ab1 = ab_target ab" "ab_tbuf ab1 = tb"
    "ab_closed ab1 = ab_closed ab"
    using slide_source_ok [OF inv' f] by auto
  have "sview_len w = 0 \<or> st + l - unat (sview_offset w) \<le> unat (sview_len w)" using fw by auto
  then obtain ab2 where ab2: "fill_source w ab1 = Inr ab2"
    "apply_inv S (unat (sview_offset w)) (next_len st l w) ab2"
    "ab_target ab2 = ab_target ab" "ab_tbuf ab2 = tb" "unat (sview_len w) \<le> length (ab_sbuf ab2)"
    "ab_closed ab2 = ab_closed ab"
    using fill_source_ok [OF ab1(2) _ _ ab1(3)] fw ab1(3-6) unfolding next_len_def by metis
  have "take (unat (sview_len w)) (ab_sbuf ab2) = take (unat (sview_len w)) (drop (unat (sview_offset w)) S)"
    using ab2(2) by (auto simp: apply_inv_def next_len_def split: if_splits)
  then have same: "window_text w (ab_sbuf ab2) = window_text w (source_view S w)"
    using fw ab2(5) by (intro window_text_source) (auto simp: source_view_def)
  have len: "length (window_text w (source_view S w)) = unat (tview_len w)"
    using fw by (intro length_window_text) (auto simp: source_view_def)
  have "svn_txdelta_apply_instructions unaligned w (ab_sbuf ab2) (ab_tbuf ab2) (tview_len w) =
      Inr (window_text w (source_view S w) @ drop (unat (tview_len w)) tb, tview_len w)"
    using apply_instructions_ok [of w "ab_sbuf ab2" "tview_len w" tb unaligned] fw ab2(4,5) tb(4) same len
    by simp
  moreover have "apply_inv S (unat (sview_offset w)) (next_len st l w)
      (ab2\<lparr>ab_tbuf := window_text w (source_view S w) @ drop (unat (tview_len w)) tb,
           ab_target := ab_target ab @ window_text w (source_view S w)\<rparr>)"
    using ab2(2) tb len ab2(4) by (simp add: apply_inv_def)
  ultimately show ?thesis
    using view_check_ok [OF inv f] tb(1) ab1(1) ab2(1,3,6) len
    by (simp add: apply_window_def read_block_def)
qed

text \<open>The windows of a delta, one after the other, and then the end.\<close>

fun apply_all ::
  "bool \<Rightarrow> byte \<Rightarrow> svn_txdelta_window_t list \<Rightarrow> apply_baton \<Rightarrow> apply_baton svn_result" where
  "apply_all unaligned junk [] ab = apply_window unaligned junk None ab"
| "apply_all unaligned junk (w # ws) ab =
     SVN_ERR (apply_window unaligned junk (Some w) ab) (apply_all unaligned junk ws)"

fun follow_all :: "byte list \<Rightarrow> nat \<Rightarrow> nat \<Rightarrow> svn_txdelta_window_t list \<Rightarrow> bool" where
  "follow_all S st l [] = True"
| "follow_all S st l (w # ws) =
     (follows S st l w \<and> follow_all S (unat (sview_offset w)) (next_len st l w) ws)"

lemma apply_all_ok:
  "apply_inv S st l ab \<Longrightarrow> follow_all S st l ws \<Longrightarrow>
   \<exists>ab'. apply_all unaligned junk ws ab = Inr ab' \<and> ab_closed ab'
     \<and> ab_target ab' = ab_target ab @ concat (map (\<lambda>w. window_text w (source_view S w)) ws)"
proof (induction ws arbitrary: st l ab)
  case Nil
  then show ?case by (simp add: apply_window_def)
next
  case (Cons w ws)
  then obtain ab1 where "apply_window unaligned junk (Some w) ab = Inr ab1"
    "apply_inv S (unat (sview_offset w)) (next_len st l w) ab1"
    "ab_target ab1 = ab_target ab @ window_text w (source_view S w)"
    using apply_window_ok by fastforce
  with Cons.IH Cons.prems(2) show ?case by fastforce
qed

lemma apply_inv_start: "length S < 2 ^ 62 \<Longrightarrow> apply_inv S 0 0 (svn_txdelta_apply S)"
  by (simp add: apply_inv_def svn_txdelta_apply_def)

section \<open>Building instructions keeps the text\<close>

text \<open>
  The text of the instructions built so far, and their well-formedness for a target of
  \<open>tlen\<close> bytes.
\<close>

definition baton_text :: "byte list \<Rightarrow> svn_txdelta__ops_baton_t \<Rightarrow> byte list" where
  "baton_text src b = ops_text src (bnew_data b) [] (bops b)"

definition wf_baton :: "nat \<Rightarrow> svn_txdelta__ops_baton_t \<Rightarrow> nat \<Rightarrow> bool" where
  "wf_baton slen b tlen \<longleftrightarrow> wf_ops slen (length (bnew_data b)) 0 0 (bops b) tlen"

text \<open>The total length of the instructions, and of those that take new data.\<close>

definition ops_len :: "svn_txdelta_op_t list \<Rightarrow> nat" where
  "ops_len os = sum_list (map (\<lambda>op. unat (oplen op)) os)"

definition new_len :: "svn_txdelta_op_t list \<Rightarrow> nat" where
  "new_len os = ops_len (filter (\<lambda>op. action_code op = svn_txdelta_new) os)"

lemma len_simps [simp]:
  "ops_len [] = 0" "ops_len (op # os) = unat (oplen op) + ops_len os"
  "ops_len (os @ os') = ops_len os + ops_len os'"
  "new_len [] = 0"
  "new_len (op # os) = (if action_code op = svn_txdelta_new then unat (oplen op) else 0) + new_len os"
  "new_len (os @ os') = new_len os + new_len os'"
  by (simp_all add: ops_len_def new_len_def)

text \<open>What an instruction at the end of a list must satisfy.\<close>

definition op_at :: "nat \<Rightarrow> nat \<Rightarrow> nat \<Rightarrow> svn_txdelta_op_t \<Rightarrow> bool" where
  "op_at slen tpos npos op \<longleftrightarrow> oplen op \<noteq> 0 \<and> (case action_code op of
      svn_txdelta_source \<Rightarrow> unat (offset op) + unat (oplen op) \<le> slen
    | svn_txdelta_target \<Rightarrow> unat (offset op) < tpos
    | svn_txdelta_new \<Rightarrow> unat (offset op) = npos)"

fun ops_at :: "nat \<Rightarrow> nat \<Rightarrow> nat \<Rightarrow> svn_txdelta_op_t list \<Rightarrow> bool" where
  "ops_at slen tpos npos [] = True"
| "ops_at slen tpos npos (op # os) =
     (op_at slen tpos npos op \<and>
      ops_at slen (tpos + unat (oplen op))
        (npos + (if action_code op = svn_txdelta_new then unat (oplen op) else 0)) os)"

lemma wf_ops_iff:
  "wf_ops slen nlen tpos npos os tlen \<longleftrightarrow>
     ops_at slen tpos npos os \<and> tlen = tpos + ops_len os \<and> nlen = npos + new_len os"
  by (induction slen nlen tpos npos os tlen rule: wf_ops.induct)
     (auto simp: op_at_def split: svn_delta_action.splits)

lemma ops_at_append:
  "ops_at slen tpos npos (os @ os') \<longleftrightarrow>
     ops_at slen tpos npos os \<and> ops_at slen (tpos + ops_len os) (npos + new_len os) os'"
  by (induction os arbitrary: tpos npos) (auto simp: add.assoc)

definition news_in :: "nat \<Rightarrow> svn_txdelta_op_t list \<Rightarrow> bool" where
  "news_in nlen os \<longleftrightarrow>
     (\<forall>op \<in> set os. action_code op = svn_txdelta_new \<longrightarrow> unat (offset op) + unat (oplen op) \<le> nlen)"

lemma news_in_ops_at: "ops_at slen tpos npos os \<Longrightarrow> npos + new_len os \<le> nlen \<Longrightarrow> news_in nlen os"
  by (induction os arbitrary: tpos npos) (fastforce simp: news_in_def op_at_def)+

lemma ops_text_new: "news_in (length new) os \<Longrightarrow> ops_text src (new @ extra) tgt os = ops_text src new tgt os"
proof (induction os arbitrary: tgt)
  case (Cons op os)
  have "op_bytes src (new @ extra) tgt op = op_bytes src new tgt op"
    using Cons.prems by (auto simp: op_bytes_def news_in_def split: svn_delta_action.splits)
  with Cons show ?case by (simp add: news_in_def)
qed simp

lemma new_len_le: "new_len os \<le> ops_len os"
  by (induction os) auto

lemma ops_text_length:
  "ops_at slen (length tgt) npos os \<Longrightarrow> slen \<le> length src \<Longrightarrow> npos + new_len os \<le> length new \<Longrightarrow>
   length (ops_text src new tgt os) = length tgt + ops_len os"
  using wf_ops_length [of slen "npos + new_len os" tgt npos os "length tgt + ops_len os" src new]
  by (simp add: wf_ops_iff)

lemma pattern_bytes_add:
  "off < length tgt \<Longrightarrow> pattern_bytes tgt off (m + n) =
     pattern_bytes tgt off m @ pattern_bytes (tgt @ pattern_bytes tgt off m) (off + m) n"
proof (induction m arbitrary: tgt off)
  case 0
  then show ?case by (simp add: pattern_bytes_def)
next
  case (Suc m)
  then show ?case using Suc.IH [of "Suc off" "tgt @ [tgt ! off]"] by (simp add: pattern_bytes_Suc)
qed


lemma wf_baton_iff:
  "wf_baton slen b tlen \<longleftrightarrow>
     ops_at slen 0 0 (bops b) \<and> tlen = ops_len (bops b) \<and> length (bnew_data b) = new_len (bops b)"
  by (simp add: wf_baton_def wf_ops_iff)

lemma baton_text_length: "wf_baton slen b tlen \<Longrightarrow> slen \<le> length src \<Longrightarrow> length (baton_text src b) = tlen"
  using ops_text_length [of slen "[]" 0 "bops b" src "bnew_data b"] by (simp add: wf_baton_iff baton_text_def)

lemma baton_text_snoc:
  assumes "wf_baton slen b tlen"
  shows "ops_text src (bnew_data b @ d) [] (bops b @ [op]) =
    baton_text src b @ op_bytes src (bnew_data b @ d) (baton_text src b) op"
proof -
  have "news_in (length (bnew_data b)) (bops b)"
    using assms by (auto simp: wf_baton_iff intro: news_in_ops_at)
  then show ?thesis by (simp add: ops_text_append ops_text_new baton_text_def)
qed

text \<open>What an instruction to be added stands for.\<close>

definition insert_bytes ::
  "byte list \<Rightarrow> byte list \<Rightarrow> svn_delta_action \<Rightarrow> nat \<Rightarrow> nat \<Rightarrow> byte list \<Rightarrow> byte list" where
  "insert_bytes src tgt opcode off len data = (case opcode of
      svn_txdelta_source \<Rightarrow> take len (drop off src)
    | svn_txdelta_target \<Rightarrow> pattern_bytes tgt off len
    | svn_txdelta_new \<Rightarrow> take len data)"

definition insertable :: "nat \<Rightarrow> nat \<Rightarrow> svn_delta_action \<Rightarrow> nat \<Rightarrow> nat \<Rightarrow> byte list \<Rightarrow> bool" where
  "insertable slen tlen opcode off len data \<longleftrightarrow> len \<noteq> 0 \<and> tlen + len < 2 ^ 63 \<and> slen < 2 ^ 63 \<and> (case opcode of
      svn_txdelta_source \<Rightarrow> off + len \<le> slen
    | svn_txdelta_target \<Rightarrow> off < tlen
    | svn_txdelta_new \<Rightarrow> len \<le> length data)"

definition mergeable :: "svn_txdelta_op_t \<Rightarrow> svn_delta_action \<Rightarrow> apr_size_t \<Rightarrow> bool" where
  "mergeable op opcode off \<longleftrightarrow>
     action_code op = opcode \<and> (opcode = svn_txdelta_new \<or> offset op + oplen op = off)"

definition added_data :: "svn_delta_action \<Rightarrow> apr_size_t \<Rightarrow> byte list \<Rightarrow> byte list" where
  "added_data opcode len data = (if opcode = svn_txdelta_new then take (unat len) data else [])"

lemma insert_op_append:
  assumes "bops b = [] \<or> \<not> mergeable (last (bops b)) opcode off"
  shows "bops (insert_op b opcode off len data) = bops b @
      [\<lparr>action_code = opcode,
        offset = (if opcode = svn_txdelta_new then of_nat (length (bnew_data b)) else off), oplen = len\<rparr>]"
    and "bnew_data (insert_op b opcode off len data) = bnew_data b @ added_data opcode len data"
  using assms by (auto simp: insert_op_def mergeable_def added_data_def Let_def)

lemma insert_op_merge:
  assumes "bops b = os @ [op]" "mergeable op opcode off"
  shows "bops (insert_op b opcode off len data) = os @ [op\<lparr>oplen := oplen op + len\<rparr>]"
    and "bnew_data (insert_op b opcode off len data) = bnew_data b @ added_data opcode len data"
  using assms by (auto simp: insert_op_def mergeable_def added_data_def Let_def)

lemma insert_op_ok:
  assumes wf: "wf_baton slen b tlen" and src: "slen \<le> length src"
    and ins: "insertable slen tlen opcode (unat off) (unat len) data"
  shows "wf_baton slen (insert_op b opcode off len data) (tlen + unat len)
    \<and> baton_text src (insert_op b opcode off len data) =
        baton_text src b @ insert_bytes src (baton_text src b) opcode (unat off) (unat len) data"
proof (cases "bops b = [] \<or> \<not> mergeable (last (bops b)) opcode off")
  case True
  let ?op = "\<lparr>action_code = opcode,
      offset = (if opcode = svn_txdelta_new then of_nat (length (bnew_data b)) else off), oplen = len\<rparr>"
  note b = insert_op_append [OF True, of len data]
  have w: "ops_at slen 0 0 (bops b)" "tlen = ops_len (bops b)" "length (bnew_data b) = new_len (bops b)"
    using wf by (simp_all add: wf_baton_iff)
  have nl: "length (bnew_data b) < 2 ^ 63"
    using w(2,3) new_len_le [of "bops b"] ins by (simp add: insertable_def)
  then have o: "unat (of_nat (length (bnew_data b)) :: 64 word) = length (bnew_data b)"
    by (simp add: unat_of_nat)
  have "len \<noteq> 0" using ins by (auto simp: insertable_def)
  then have "wf_baton slen (insert_op b opcode off len data) (tlen + unat len)"
    using w o ins by (auto simp: wf_baton_iff b ops_at_append op_at_def insertable_def added_data_def
        split: svn_delta_action.splits)
  moreover have "op_bytes src (bnew_data b @ added_data opcode len data) (baton_text src b) ?op =
      insert_bytes src (baton_text src b) opcode (unat off) (unat len) data"
    using o by (cases opcode) (simp_all add: op_bytes_def insert_bytes_def added_data_def)
  ultimately show ?thesis
    using baton_text_snoc [OF wf] by (simp add: baton_text_def [of _ "insert_op _ _ _ _ _"] b)
next
  case False
  then obtain os op where os: "bops b = os @ [op]" and m: "mergeable op opcode off"
    by (metis append_butlast_last_id)
  note b = insert_op_merge [OF os m, of len data]
  let ?d = "added_data opcode len data" and ?t = "ops_text src (bnew_data b) [] os"
  let ?op = "op\<lparr>oplen := oplen op + len\<rparr>"
  have w: "ops_at slen 0 0 os" "op_at slen (ops_len os) (new_len os) op"
    "tlen = ops_len os + unat (oplen op)" "length (bnew_data b) = new_len (os @ [op])"
    using wf by (simp_all add: wf_baton_iff os ops_at_append)
  have sum: "unat (oplen op + len) = unat (oplen op) + unat len"
    using ins w(3) by (intro unat_add_small) (simp add: insertable_def)
  have ne: "oplen op + len \<noteq> 0" using sum ins by (auto simp: insertable_def simp flip: unat_eq_0)
  have nl: "new_len os \<le> ops_len os" by (rule new_len_le)
  have len_t: "length ?t = ops_len os"
    using ops_text_length [of slen "[]" 0 os src "bnew_data b"] w src by simp
  have old: "baton_text src b = ?t @ op_bytes src (bnew_data b) ?t op"
    by (simp add: baton_text_def os ops_text_append)
  have news: "news_in (length (bnew_data b)) os" using w(1,4) by (auto intro: news_in_ops_at)
  have new: "baton_text src (insert_op b opcode off len data) =
      ?t @ op_bytes src (bnew_data b @ ?d) ?t ?op"
    by (simp add: baton_text_def b ops_text_append ops_text_new [OF news])
  have act: "action_code op = opcode" using m by (simp add: mergeable_def)
  have off: "unat off = unat (offset op) + unat (oplen op)" if "opcode \<noteq> svn_txdelta_new"
  proof -
    have "offset op + oplen op = off" using m that by (auto simp: mergeable_def)
    moreover have "unat (offset op) + unat (oplen op) < 2 ^ 64"
      using w(2,3) ins that act by (auto simp: op_at_def insertable_def split: svn_delta_action.splits)
    ultimately show ?thesis using unat_add_small [of "offset op" "oplen op"] by simp
  qed
  have "op_at slen (ops_len os) (new_len os) ?op"
    using w(2) ins ne sum off act by (cases opcode) (auto simp: op_at_def insertable_def)
  then have "wf_baton slen (insert_op b opcode off len data) (tlen + unat len)"
    using w ins act by (auto simp: wf_baton_iff b ops_at_append added_data_def sum insertable_def)
  moreover have "op_bytes src (bnew_data b @ ?d) ?t ?op = op_bytes src (bnew_data b) ?t op @
      insert_bytes src (baton_text src b) opcode (unat off) (unat len) data"
  proof (cases opcode)
    case svn_txdelta_source
    then show ?thesis using off act sum
      by (simp add: op_bytes_def insert_bytes_def take_add add.commute [of "unat (offset op)"])
  next
    case svn_txdelta_target
    then have "unat (offset op) < length ?t" using w(2) act len_t by (simp add: op_at_def)
    then show ?thesis using svn_txdelta_target off act sum old
      by (simp add: op_bytes_def insert_bytes_def pattern_bytes_add)
  next
    case svn_txdelta_new
    then have "unat (offset op) = new_len os" "length (bnew_data b) = new_len os + unat (oplen op)"
      using w(2,4) act by (simp_all add: op_at_def)
    then show ?thesis using svn_txdelta_new act sum
      by (simp add: op_bytes_def insert_bytes_def added_data_def)
  qed
  ultimately show ?thesis using old new by simp
qed

lemma insertable_in_bounds:
  "insertable slen tlen opcode o1 (unat len) data \<Longrightarrow>
   svn_txdelta__insert_op b opcode off len data = Inr (insert_op b opcode off len data)"
  by (auto simp: svn_txdelta__insert_op_def insertable_def)

text \<open>Removing from the end keeps the text before.\<close>

lemma remove_copy_loop_ok:
  assumes "wf_baton slen b tlen" "slen \<le> length src" "tlen + unat len < 2 ^ 63" "unat len \<le> unat max_len"
    and "remove_copy_loop b max_len len = (removed, b')"
  shows "unat len \<le> unat removed \<and> unat removed \<le> unat max_len
    \<and> unat removed - unat len \<le> tlen
    \<and> wf_baton slen b' (tlen - (unat removed - unat len))
    \<and> baton_text src b' = take (tlen - (unat removed - unat len)) (baton_text src b)"
  using assms
proof (induction b max_len len arbitrary: tlen rule: remove_copy_loop.induct)
  case (1 b max_len len)
  note loop = remove_copy_loop.simps [of b max_len len]
  have all: "take tlen (baton_text src b) = baton_text src b"
    using baton_text_length [OF "1.prems"(1,2)] by simp
  show ?case
  proof (cases "bops b = []")
    case True
    then show ?thesis using "1.prems" all by (auto simp: loop)
  next
    case False
    then obtain os op where os: "bops b = os @ [op]" by (metis append_butlast_last_id)
    have w: "ops_at slen 0 0 os" "op_at slen (ops_len os) (new_len os) op"
      "tlen = ops_len os + unat (oplen op)" "length (bnew_data b) = new_len (os @ [op])"
      using "1.prems"(1) by (simp_all add: wf_baton_iff os ops_at_append)
    have sum: "unat (oplen op + len) = unat (oplen op) + unat len"
      using "1.prems"(3) w(3) by (intro unat_add_small) simp
    let ?t = "ops_text src (bnew_data b) [] os"
    have len_t: "length ?t = ops_len os"
      using ops_text_length [of slen "[]" 0 os src "bnew_data b"] w "1.prems"(2) by simp
    have txt_b: "baton_text src b = ?t @ op_bytes src (bnew_data b) ?t op"
      by (simp add: baton_text_def os ops_text_append)
    have npos: "unat (offset op) = new_len os" if "action_code op = svn_txdelta_new"
      using w(2) that by (simp add: op_at_def)
    consider (target) "action_code op = svn_txdelta_target"
      | (cut) "action_code op = svn_txdelta_new" "oplen op + len > max_len"
      | (keep) "action_code op = svn_txdelta_source" "oplen op + len > max_len"
      | (whole) "action_code op \<noteq> svn_txdelta_target" "\<not> oplen op + len > max_len"
      by (cases "action_code op") auto
    then show ?thesis
    proof cases
      case target
      then have "remove_copy_loop b max_len len = (len, b)" by (simp add: loop os)
      then show ?thesis using "1.prems" all by auto
    next
      case keep
      then have "remove_copy_loop b max_len len = (len, b)" by (simp add: loop os)
      then show ?thesis using "1.prems" all by auto
    next
      case cut
      let ?k = "unat max_len - unat len"
      have k: "unat (max_len - len) = ?k" "?k < unat (oplen op)"
        using "1.prems"(4) cut(2) sum by (auto simp: word_less_nat_alt unat_sub word_le_nat_alt)
      then have lk: "unat (oplen op - (max_len - len)) = unat (oplen op) - ?k"
        by (subst unat_sub) (auto simp: word_le_nat_alt)
      let ?new = "take (length (bnew_data b) - ?k) (bnew_data b)"
      let ?op = "op\<lparr>oplen := oplen op - (max_len - len)\<rparr>"
      have r: "removed = max_len" "b' = b\<lparr>bnew_data := ?new, bops := os @ [?op]\<rparr>"
        using "1.prems"(5) cut k by (auto simp: loop os)
      have nl: "length (bnew_data b) = new_len os + unat (oplen op)" using w(4) cut by simp
      have news: "news_in (length ?new) os"
        using w(1) nl k(2) by (intro news_in_ops_at [of slen 0 0]) auto
      have "ops_text src ?new [] os = ?t"
        using ops_text_new [OF news, of src "drop (length (bnew_data b) - ?k) (bnew_data b)" "[]"] by simp
      moreover have "op_bytes src ?new ?t ?op = take (unat (oplen op) - ?k) (op_bytes src (bnew_data b) ?t op)"
        using cut(1) npos lk nl k(2) by (simp add: op_bytes_def drop_take min_def)
      ultimately have "baton_text src b' = ?t @ take (unat (oplen op) - ?k) (op_bytes src (bnew_data b) ?t op)"
        by (simp add: r baton_text_def ops_text_append)
      then have "baton_text src b' = take (tlen - ?k) (baton_text src b)"
        using len_t w(3) k(2) by (simp add: txt_b)
      moreover have "oplen op - (max_len - len) \<noteq> 0" using lk k(2) by (auto simp flip: unat_eq_0)
      then have "wf_baton slen b' (tlen - ?k)"
        using w cut(1) lk k(2) nl npos by (auto simp: wf_baton_iff r ops_at_append op_at_def)
      ultimately show ?thesis using r(1) "1.prems"(4) k(2) w(3) by simp
    next
      case whole
      let ?new = "if action_code op = svn_txdelta_new
        then take (length (bnew_data b) - unat (oplen op)) (bnew_data b) else bnew_data b"
      let ?b = "b\<lparr>bnew_data := ?new, bops := os\<rparr>"
      have step: "remove_copy_loop b max_len len = remove_copy_loop ?b max_len (len + oplen op)"
        using whole by (simp add: loop os)
      have butlast: "butlast (bops b) = os" by (simp add: os)
      have nl: "length ?new = new_len os" using w(4) by simp
      have sum': "unat (len + oplen op) = unat (oplen op) + unat len" using sum by (simp add: add.commute)
      have wf: "wf_baton slen ?b (ops_len os)" using w(1) nl by (simp add: wf_baton_iff)
      have news: "news_in (length ?new) os" using w(1) nl by (intro news_in_ops_at [of slen 0 0]) auto
      have "ops_text src ?new [] os = ?t"
        using ops_text_new [OF news, of src "drop (length ?new) (bnew_data b)" "[]"] nl w(4)
        by (cases "action_code op") auto
      then have tb: "baton_text src ?b = ?t" by (simp add: baton_text_def)
      have le: "unat (len + oplen op) \<le> unat max_len" using whole(2) sum sum' by (simp add: word_less_nat_alt)
      have "unat (len + oplen op) \<le> unat removed \<and> unat removed \<le> unat max_len
        \<and> unat removed - unat (len + oplen op) \<le> ops_len os
        \<and> wf_baton slen b' (ops_len os - (unat removed - unat (len + oplen op)))
        \<and> baton_text src b' = take (ops_len os - (unat removed - unat (len + oplen op))) (baton_text src ?b)"
        using False whole wf "1.prems"(2,3,5) w(3) sum' le step
        by (intro "1.IH" [of op, unfolded butlast]) (simp_all add: os)
      then show ?thesis using tb txt_b len_t w(3) sum' by (auto simp: add.assoc)
    qed
  qed
qed

section \<open>Properties\<close>

text \<open>
  C20. Applying the instructions of a well-formed window: for a source view that is there
  and a target buffer that holds as many bytes as the caller says, no assertion fails and no
  access is out of bounds, on platforms with and without unaligned accesses; the buffer gets
  the text of the window, cut off at the given length, and nothing else of it changes; the
  length returned is the number of bytes written.
\<close>

theorem apply_instructions_exact:
  assumes "wf_window w" "unat (sview_len w) \<le> length src" "unat tlen \<le> length buf"
  shows "\<exists>m. m = min (unat tlen) (unat (tview_len w))
    \<and> svn_txdelta_apply_instructions unaligned w src buf tlen =
        Inr (take m (window_text w src) @ drop m buf, of_nat m)
    \<and> length (window_text w src) = unat (tview_len w)"
  using apply_instructions_ok [OF assms] length_window_text [OF assms(1,2)] by (simp add: Let_def)

theorem apply_instructions_exact_witness:
  "\<exists>m. m = min (unat (5 :: apr_size_t)) (unat (5 :: apr_size_t))
    \<and> svn_txdelta_apply_instructions True
        \<lparr>sview_offset = 0, sview_len = 2, tview_len = 5, src_ops = 1,
         ops = [\<lparr>action_code = svn_txdelta_source, offset = 0, oplen = 2\<rparr>,
                \<lparr>action_code = svn_txdelta_target, offset = 1, oplen = 3\<rparr>], new_data = []\<rparr>
        [10, 11] [0, 0, 0, 0, 0, 9] 5 =
        Inr (take m (window_text
          \<lparr>sview_offset = 0, sview_len = 2, tview_len = 5, src_ops = 1,
           ops = [\<lparr>action_code = svn_txdelta_source, offset = 0, oplen = 2\<rparr>,
                  \<lparr>action_code = svn_txdelta_target, offset = 1, oplen = 3\<rparr>], new_data = []\<rparr> [10, 11])
          @ drop m [0, 0, 0, 0, 0, 9], of_nat m)
    \<and> length (window_text
          \<lparr>sview_offset = 0, sview_len = 2, tview_len = 5, src_ops = 1,
           ops = [\<lparr>action_code = svn_txdelta_source, offset = 0, oplen = 2\<rparr>,
                  \<lparr>action_code = svn_txdelta_target, offset = 1, oplen = 3\<rparr>], new_data = []\<rparr> [10, 11]) =
        unat (5 :: apr_size_t)"
  using apply_instructions_exact [of "\<lparr>sview_offset = 0, sview_len = 2, tview_len = 5, src_ops = 1,
         ops = [\<lparr>action_code = svn_txdelta_source, offset = 0, oplen = 2\<rparr>,
                \<lparr>action_code = svn_txdelta_target, offset = 1, oplen = 3\<rparr>], new_data = []\<rparr>"
       "[10, 11]" 5 "[0, 0, 0, 0, 0, 9]" True]
  by (simp add: wf_window_def)

text \<open>
  C35. Applying a whole delta to a source shorter than \<open>2 ^ 62\<close> bytes, for windows that are well
  formed, not larger than the window size, and whose source views lie in the source and follow on
  one another: each starts in or right after the view before it, so that there is no gap, and
  does not end before it unless it is empty. Then the applicator never fails, whatever the fresh
  buffers contain, and the target stream gets the concatenation of the texts of the windows,
  each built from its view of the source; at the end the target is closed. (The applicator does
  not check all of this; what it does with other views is shown at the end of this theory.)
\<close>

theorem apply_delta_correct:
  assumes "length source < 2 ^ 62" "follow_all source 0 0 windows"
  shows "\<exists>ab. apply_all unaligned junk windows (svn_txdelta_apply source) = Inr ab \<and> ab_closed ab
    \<and> ab_target ab = concat (map (\<lambda>w. window_text w (source_view source w)) windows)"
  using apply_all_ok [OF apply_inv_start [OF assms(1)] assms(2)] by (simp add: svn_txdelta_apply_def)

theorem apply_delta_correct_witness:
  "\<exists>ab. apply_all False 0
      [\<lparr>sview_offset = 0, sview_len = 2, tview_len = 1, src_ops = 1,
        ops = [\<lparr>action_code = svn_txdelta_source, offset = 1, oplen = 1\<rparr>], new_data = []\<rparr>,
       \<lparr>sview_offset = 1, sview_len = 2, tview_len = 1, src_ops = 0,
        ops = [\<lparr>action_code = svn_txdelta_new, offset = 0, oplen = 1\<rparr>], new_data = [7]\<rparr>]
      (svn_txdelta_apply [1, 2, 3]) = Inr ab \<and> ab_closed ab
    \<and> ab_target ab = concat (map (\<lambda>w. window_text w (source_view [1, 2, 3] w))
      [\<lparr>sview_offset = 0, sview_len = 2, tview_len = 1, src_ops = 1,
        ops = [\<lparr>action_code = svn_txdelta_source, offset = 1, oplen = 1\<rparr>], new_data = []\<rparr>,
       \<lparr>sview_offset = 1, sview_len = 2, tview_len = 1, src_ops = 0,
        ops = [\<lparr>action_code = svn_txdelta_new, offset = 0, oplen = 1\<rparr>], new_data = [7]\<rparr>])"
  by (rule apply_delta_correct) (simp_all add: follows_def next_len_def wf_window_def)

text \<open>
  The copying routines agree with their plain versions: the block copy with a
  byte-wise loop for short lengths is a plain copy, and the copy inside the target buffer
  in 32-bit chunks repeats the pattern exactly as the byte-wise loop does.
\<close>

theorem copies_equivalent:
  assumes "target + n \<le> length buf"
  shows "(source < target \<longrightarrow>
      patterning_copy True buf target source n = patterning_copy False buf target source n
      \<and> patterning_copy False buf target source n =
        Inr (take target buf @ pattern_bytes (take target buf) source n @ drop (target + n) buf))
    \<and> (pos + n \<le> length src \<longrightarrow> fast_memcpy buf target src pos n = memcpy buf target src pos n)"
  using assms by (auto simp: patterning_copy_block fast_memcpy_block memcpy_block)

theorem copies_equivalent_witness:
  "patterning_copy True [1, 2, 0, 0, 0, 0, 0] 2 0 5 = patterning_copy False [1, 2, 0, 0, 0, 0, 0] 2 0 5
   \<and> fast_memcpy [1, 2, 0, 0, 0, 0, 0] 2 [5, 6, 7, 8, 9] 0 5 = memcpy [1, 2, 0, 0, 0, 0, 0] 2 [5, 6, 7, 8, 9] 0 5"
  using copies_equivalent [of 2 5 "[1, 2, 0, 0, 0, 0, 0]" 0 0 "[5, 6, 7, 8, 9]"] by simp

text \<open>
  C37. Building instructions: adding an instruction, merged with the last one or not, reads
  nothing outside the new data, appends exactly its bytes to the text and keeps the list well
  formed; removing from the end removes at most what was asked for, returns how much, and
  leaves the text before it.
\<close>

theorem ops_builder_text:
  assumes "wf_baton slen b tlen" "slen \<le> length src" "tlen < 2 ^ 63"
  shows "(insertable slen tlen opcode (unat off) (unat len) data \<longrightarrow>
      (\<exists>b'. svn_txdelta__insert_op b opcode off len data = Inr b'
        \<and> wf_baton slen b' (tlen + unat len)
        \<and> baton_text src b' =
            baton_text src b @ insert_bytes src (baton_text src b) opcode (unat off) (unat len) data))
    \<and> (\<forall>removed b'. svn_txdelta__remove_copy b max_len = (removed, b') \<longrightarrow>
        removed \<le> max_len \<and> unat removed \<le> tlen \<and> wf_baton slen b' (tlen - unat removed)
        \<and> baton_text src b' = take (tlen - unat removed) (baton_text src b))"
proof -
  have "\<exists>b'. svn_txdelta__insert_op b opcode off len data = Inr b'
      \<and> wf_baton slen b' (tlen + unat len)
      \<and> baton_text src b' = baton_text src b @ insert_bytes src (baton_text src b) opcode (unat off) (unat len) data"
    if "insertable slen tlen opcode (unat off) (unat len) data"
    using insert_op_ok [OF assms(1,2) that] insertable_in_bounds [OF that] by blast
  then show ?thesis
    using remove_copy_loop_ok [OF assms(1,2), of 0 max_len] assms(3)
    by (auto simp: svn_txdelta__remove_copy_def word_le_nat_alt)
qed

theorem ops_builder_text_witness:
  "\<exists>b'. svn_txdelta__insert_op
     \<lparr>bsrc_ops = 1, bops = [\<lparr>action_code = svn_txdelta_source, offset = 0, oplen = 1\<rparr>], bnew_data = []\<rparr>
     svn_txdelta_new 0 2 [8, 9] = Inr b'
   \<and> wf_baton 3 b' (1 + unat (2 :: apr_size_t))
   \<and> baton_text [4, 5, 6] b' = baton_text [4, 5, 6]
     \<lparr>bsrc_ops = 1, bops = [\<lparr>action_code = svn_txdelta_source, offset = 0, oplen = 1\<rparr>], bnew_data = []\<rparr>
   @ insert_bytes [4, 5, 6] (baton_text [4, 5, 6]
     \<lparr>bsrc_ops = 1, bops = [\<lparr>action_code = svn_txdelta_source, offset = 0, oplen = 1\<rparr>], bnew_data = []\<rparr>)
     svn_txdelta_new (unat (0 :: apr_size_t)) (unat (2 :: apr_size_t)) [8, 9]"
  using ops_builder_text [of 3
     "\<lparr>bsrc_ops = 1, bops = [\<lparr>action_code = svn_txdelta_source, offset = 0, oplen = 1\<rparr>], bnew_data = []\<rparr>"
     1 "[4, 5, 6]" svn_txdelta_new 0 2 "[8, 9]" 0]
  by (simp add: wf_baton_def insertable_def)

text \<open>
  The applicator relies on views that follow on one another and does not check it: a
  window with an empty source view that starts before the last view passes the check for
  backward views, and preparing the source buffer then accesses memory outside of it; a
  view that starts after the end of the last one is filled with the wrong bytes of the
  source, here the first byte instead of the third.
\<close>

theorem apply_window_unchecked_views:
  "apply_all True 0
      [\<lparr>sview_offset = 0, sview_len = 2, tview_len = 1, src_ops = 0,
        ops = [\<lparr>action_code = svn_txdelta_new, offset = 0, oplen = 1\<rparr>], new_data = [7]\<rparr>,
       \<lparr>sview_offset = 1, sview_len = 2, tview_len = 1, src_ops = 0,
        ops = [\<lparr>action_code = svn_txdelta_new, offset = 0, oplen = 1\<rparr>], new_data = [7]\<rparr>,
       \<lparr>sview_offset = 0, sview_len = 0, tview_len = 1, src_ops = 0,
        ops = [\<lparr>action_code = svn_txdelta_new, offset = 0, oplen = 1\<rparr>], new_data = [7]\<rparr>]
      (svn_txdelta_apply [1, 2, 3]) = Inl C_OUT_OF_BOUNDS
   \<and> map_sum id ab_target (apply_all True 0
      [\<lparr>sview_offset = 2, sview_len = 1, tview_len = 1, src_ops = 1,
        ops = [\<lparr>action_code = svn_txdelta_source, offset = 0, oplen = 1\<rparr>], new_data = []\<rparr>]
      (svn_txdelta_apply [1, 2, 3])) = Inr [1]"
  by (simp add: svn_txdelta_apply_def apply_window_def view_check_def size_buffer_def APR_ALIGN_DEFAULT_def
      slide_source_def fill_source_def svn_txdelta_apply_instructions_def fast_memcpy_def memcpy_def
      read_block_def write_block_def word_le_nat_alt word_less_nat_alt)

end
