(* ===== verification/Xdelta.thy ===== *)
theory Xdelta
  imports Txdelta
begin

text \<open>
  Computing the instructions of one window (libsvn\_delta/xdelta.c): blocks of the source are
  kept in a hash table under a rolling checksum, the target is searched for them, and matches
  are extended in both directions. Positions and sizes are natural numbers: a window has at
  most \<open>SVN_DELTA_WINDOW_SIZE\<close> bytes on each side, and the theorems assume less than \<open>2 ^ 32\<close>.
\<close>

section \<open>The rolling checksum\<close>

definition MATCH_BLOCKSIZE :: nat where
  "MATCH_BLOCKSIZE = 64"

definition NO_POSITION :: "32 word" where
  "NO_POSITION = - 1"

definition adler32_replace :: "32 word \<Rightarrow> byte \<Rightarrow> byte \<Rightarrow> 32 word" where
  "adler32_replace adler32 c_out c_in =
     (let a1 = adler32 - of_nat MATCH_BLOCKSIZE * 0x10000 * ucast c_out;
          a2 = a1 - ucast c_out;
          a3 = a2 + ucast c_in
      in a3 + a3 * 0x10000)"

fun adler_loop :: "byte list \<Rightarrow> 32 word \<Rightarrow> 32 word \<Rightarrow> 32 word \<times> 32 word" where
  "adler_loop [] s1 s2 = (s1, s2)"
| "adler_loop (c # inp) s1 s2 = adler_loop inp (s1 + ucast c) (s2 + (s1 + ucast c))"

definition init_adler32 :: "byte list \<Rightarrow> nat \<Rightarrow> 32 word svn_result" where
  "init_adler32 data pos =
     SVN_ERR (read_block data pos MATCH_BLOCKSIZE) (\<lambda>inp.
     case adler_loop inp 0 0 of (s1, s2) \<Rightarrow> Inr (s2 * 0x10000 + s1))"

section \<open>The table of blocks\<close>

record block =
  adlersum :: "32 word"
  block_pos :: "32 word"

record blocks =
  bmax :: "32 word"
  bdata :: "byte list"
  slots :: "block list"

definition hash_func :: "32 word \<Rightarrow> 32 word" where
  "hash_func adler = adler XOR drop_bit 12 adler"

definition slot_at :: "blocks \<Rightarrow> 32 word \<Rightarrow> block svn_result" where
  "slot_at blocks h = (if unat h < length (slots blocks) then Inr (slots blocks ! unat h) else Inl C_OUT_OF_BOUNDS)"

definition same_block :: "byte list \<Rightarrow> nat \<Rightarrow> byte list \<Rightarrow> nat \<Rightarrow> bool svn_result" where
  "same_block x i y j =
     SVN_ERR (read_block x i MATCH_BLOCKSIZE) (\<lambda>bs.
     SVN_ERR (read_block y j MATCH_BLOCKSIZE) (\<lambda>bs'. Inr (bs = bs')))"

text \<open>
  The search from a slot on. A loop that has seen as many slots as there are without an end
  goes around for ever.
\<close>

fun add_block_loop :: "nat \<Rightarrow> blocks \<Rightarrow> 32 word \<Rightarrow> 32 word \<Rightarrow> 32 word \<Rightarrow> blocks svn_result" where
  "add_block_loop 0 blocks adler pos h = Inl C_DIVERGES"
| "add_block_loop (Suc fuel) blocks adler pos h =
     SVN_ERR (slot_at blocks h) (\<lambda>slot.
     if block_pos slot = NO_POSITION
     then Inr (blocks\<lparr>slots := (slots blocks)[unat h := \<lparr>adlersum = adler, block_pos = pos\<rparr>]\<rparr>)
     else SVN_ERR
       (if adlersum slot = adler then same_block (bdata blocks) (unat (block_pos slot)) (bdata blocks) (unat pos)
        else Inr False)
       (\<lambda>same. if same then Inr blocks
               else add_block_loop fuel blocks adler pos ((h + 1) AND bmax blocks)))"

definition add_block :: "blocks \<Rightarrow> 32 word \<Rightarrow> 32 word \<Rightarrow> blocks svn_result" where
  "add_block blocks adler pos =
     add_block_loop (length (slots blocks)) blocks adler pos (hash_func adler AND bmax blocks)"

fun find_block_loop :: "nat \<Rightarrow> blocks \<Rightarrow> 32 word \<Rightarrow> byte list \<Rightarrow> nat \<Rightarrow> 32 word \<Rightarrow> 32 word svn_result" where
  "find_block_loop 0 blocks adler data i h = Inl C_DIVERGES"
| "find_block_loop (Suc fuel) blocks adler data i h =
     SVN_ERR (slot_at blocks h) (\<lambda>slot.
     if block_pos slot = NO_POSITION then Inr NO_POSITION
     else SVN_ERR
       (if adlersum slot = adler then same_block (bdata blocks) (unat (block_pos slot)) data i
        else Inr False)
       (\<lambda>same. if same then Inr (block_pos slot)
               else find_block_loop fuel blocks adler data i ((h + 1) AND bmax blocks)))"

definition find_block :: "blocks \<Rightarrow> 32 word \<Rightarrow> byte list \<Rightarrow> nat \<Rightarrow> 32 word svn_result" where
  "find_block blocks adler data i =
     find_block_loop (length (slots blocks)) blocks adler data i (hash_func adler AND bmax blocks)"

text \<open>The number of slots starts at one and is doubled until it exceeds the number of blocks.\<close>

function slots_loop :: "nat \<Rightarrow> nat \<Rightarrow> nat" where
  "slots_loop nblocks k = (if 2 ^ k \<le> nblocks then slots_loop nblocks (k + 1) else 2 ^ k)"
  by pat_completeness auto
termination
proof (relation "measure (\<lambda>(n, k). n - k)")
  fix n k :: nat
  assume "2 ^ k \<le> n"
  moreover have "k < 2 ^ k" by (rule less_exp)
  ultimately have "k < n" by linarith
  then show "((n, k + 1), n, k) \<in> measure (\<lambda>(n, k). n - k)" by simp
qed simp

declare slots_loop.simps [simp del]

function add_blocks_loop :: "byte list \<Rightarrow> nat \<Rightarrow> blocks \<Rightarrow> blocks svn_result" where
  "add_blocks_loop data i blocks =
     (if i + MATCH_BLOCKSIZE \<le> length data then
        SVN_ERR (init_adler32 data i) (\<lambda>adler.
        SVN_ERR (add_block blocks adler (of_nat i)) (\<lambda>blocks'.
        add_blocks_loop data (i + MATCH_BLOCKSIZE) blocks'))
      else Inr blocks)"
  by pat_completeness auto
termination
  by (relation "measure (\<lambda>(data, i, blocks). length data - i)") (auto simp: MATCH_BLOCKSIZE_def)

declare add_blocks_loop.simps [simp del]

definition init_blocks_table :: "byte list \<Rightarrow> blocks svn_result" where
  "init_blocks_table data =
     (let wnslots = slots_loop (length data div MATCH_BLOCKSIZE + 1) 0 * 2;
          nslots = of_nat wnslots :: 32 word
      in SVN_ERR_ASSERT (unat nslots = wnslots) (
         add_blocks_loop data 0
           \<lparr>bmax = nslots - 1, bdata = data,
            slots = replicate (unat nslots) \<lparr>adlersum = 0, block_pos = NO_POSITION\<rparr>\<rparr>))"

section \<open>Matching\<close>

text \<open>
  The comparisons go by eight bytes first where unaligned access is possible. A pointer is a
  buffer and a position in it; the second pair of loops reads before the position.
\<close>

function match_loop :: "nat \<Rightarrow> byte list \<Rightarrow> nat \<Rightarrow> byte list \<Rightarrow> nat \<Rightarrow> nat \<Rightarrow> nat \<Rightarrow> nat svn_result" where
  "match_loop step a i b j max_len pos =
     (if 0 < step \<and> pos + step \<le> max_len then
        SVN_ERR (read_block a (i + pos) step) (\<lambda>x.
        SVN_ERR (read_block b (j + pos) step) (\<lambda>y.
        if x \<noteq> y then Inr pos else match_loop step a i b j max_len (pos + step)))
      else Inr pos)"
  by pat_completeness auto
termination
  by (relation "measure (\<lambda>(step, a, i, b, j, max_len, pos). max_len - pos)") auto

declare match_loop.simps [simp del]

definition match_length :: "bool \<Rightarrow> byte list \<Rightarrow> nat \<Rightarrow> byte list \<Rightarrow> nat \<Rightarrow> nat \<Rightarrow> nat svn_result" where
  "match_length unaligned a i b j max_len =
     SVN_ERR (if unaligned then match_loop 8 a i b j max_len 0 else Inr 0) (match_loop 1 a i b j max_len)"

definition read_before :: "byte list \<Rightarrow> nat \<Rightarrow> nat \<Rightarrow> nat \<Rightarrow> byte list svn_result" where
  "read_before a i pos n = (if pos \<le> i then read_block a (i - pos) n else Inl C_OUT_OF_BOUNDS)"

text \<open>The loop leaves with the first position that is too far or where the bytes differ.\<close>

function reverse_loop :: "nat \<Rightarrow> byte list \<Rightarrow> nat \<Rightarrow> byte list \<Rightarrow> nat \<Rightarrow> nat \<Rightarrow> nat \<Rightarrow> nat svn_result" where
  "reverse_loop step a i b j max_len pos =
     (if 0 < step \<and> pos \<le> max_len then
        SVN_ERR (read_before a i pos step) (\<lambda>x.
        SVN_ERR (read_before b j pos step) (\<lambda>y.
        if x \<noteq> y then Inr pos else reverse_loop step a i b j max_len (pos + step)))
      else Inr pos)"
  by pat_completeness auto
termination
  by (relation "measure (\<lambda>(step, a, i, b, j, max_len, pos). Suc max_len - pos)") auto

declare reverse_loop.simps [simp del]

definition reverse_match_length :: "bool \<Rightarrow> byte list \<Rightarrow> nat \<Rightarrow> byte list \<Rightarrow> nat \<Rightarrow> nat \<Rightarrow> nat svn_result" where
  "reverse_match_length unaligned a i b j max_len =
     SVN_ERR (if unaligned then SVN_ERR (reverse_loop 8 a i b j max_len 8) (\<lambda>pos. Inr (pos - 8)) else Inr 0) (\<lambda>pos.
     SVN_ERR (reverse_loop 1 a i b j max_len (pos + 1)) (\<lambda>pos'.
     Inr (if pos' \<le> max_len then pos' - 1 else max_len)))"

text \<open>Going back while the bytes before agree; the result has the positions and the length added.\<close>

function back_loop ::
  "byte list \<Rightarrow> byte list \<Rightarrow> nat \<Rightarrow> nat \<Rightarrow> nat \<Rightarrow> nat \<Rightarrow> (nat \<times> nat \<times> nat) svn_result" where
  "back_loop a b pending_insert_start apos bpos delta =
     (if apos > 0 \<and> bpos > pending_insert_start then
        SVN_ERR (read_block a (apos - 1) 1) (\<lambda>x.
        SVN_ERR (read_block b (bpos - 1) 1) (\<lambda>y.
        if x = y then back_loop a b pending_insert_start (apos - 1) (bpos - 1) (delta + 1)
        else Inr (apos, bpos, delta)))
      else Inr (apos, bpos, delta))"
  by pat_completeness auto
termination
  by (relation "measure (\<lambda>(a, b, p, apos, bpos, d). apos)") auto

declare back_loop.simps [simp del]

text \<open>
  A match: the position in the source, the position in the target and the length. The
  differences of sizes and positions are exact: a block that was found lies inside of the
  source, and the caller has checked that a block fits into the rest of the target.
\<close>

definition find_match ::
  "bool \<Rightarrow> blocks \<Rightarrow> 32 word \<Rightarrow> byte list \<Rightarrow> byte list \<Rightarrow> nat \<Rightarrow> nat \<Rightarrow> (nat \<times> nat \<times> nat) option svn_result" where
  "find_match unaligned blocks rolling a b bpos pending_insert_start =
     SVN_ERR (find_block blocks rolling b bpos) (\<lambda>p.
     if p = NO_POSITION then Inr None
     else
       let apos = unat p;
           max_delta = (if length a - apos - MATCH_BLOCKSIZE < length b - bpos - MATCH_BLOCKSIZE
                        then length a - apos - MATCH_BLOCKSIZE else length b - bpos - MATCH_BLOCKSIZE)
       in SVN_ERR (match_length unaligned a (apos + MATCH_BLOCKSIZE) b (bpos + MATCH_BLOCKSIZE) max_delta) (\<lambda>delta.
          SVN_ERR (back_loop a b pending_insert_start apos bpos delta) (\<lambda>(apos', bpos', delta').
          Inr (Some (apos', bpos', MATCH_BLOCKSIZE + delta')))))"

section \<open>The delta\<close>

definition store_delta_trailer ::
  "bool \<Rightarrow> svn_txdelta__ops_baton_t \<Rightarrow> byte list \<Rightarrow> byte list \<Rightarrow> nat \<Rightarrow> svn_txdelta__ops_baton_t svn_result" where
  "store_delta_trailer unaligned build_baton a b start =
     (let max_len = (if length a > length b - start then length b - start else length a) in
      if max_len = 0 then Inr build_baton
      else SVN_ERR (reverse_match_length unaligned a (length a) b (length b) max_len) (\<lambda>m.
        let end_match = (if m \<le> 4 then 0 else m) in
        SVN_ERR
          (if length b - start > end_match
           then svn_txdelta__insert_op build_baton svn_txdelta_new (of_nat start)
                  (of_nat (length b - start - end_match)) (drop start b)
           else Inr build_baton) (\<lambda>baton1.
        if end_match \<noteq> 0
        then svn_txdelta__insert_op baton1 svn_txdelta_source (of_nat (length a - end_match)) (of_nat end_match) []
        else Inr baton1)))"

text \<open>
  What to do before a match is stored: the bytes between the matches become new data, or
  else the match may replace the end of what is there.
\<close>

definition before_match ::
  "bool \<Rightarrow> svn_txdelta__ops_baton_t \<Rightarrow> byte list \<Rightarrow> byte list \<Rightarrow> nat \<Rightarrow> nat \<Rightarrow> nat \<Rightarrow> nat \<Rightarrow>
   (svn_txdelta__ops_baton_t \<times> nat \<times> nat \<times> nat) svn_result" where
  "before_match unaligned build_baton a b pending_insert_start apos lo matchlen =
     (if lo - pending_insert_start > 0
      then SVN_ERR (svn_txdelta__insert_op build_baton svn_txdelta_new 0 (of_nat (lo - pending_insert_start))
                      (drop pending_insert_start b)) (\<lambda>build_baton'.
           Inr (build_baton', apos, lo, matchlen))
      else SVN_ERR (reverse_match_length unaligned a apos b lo (if apos < lo then apos else lo)) (\<lambda>len.
        if len > 0 then
          case svn_txdelta__remove_copy build_baton (of_nat len) of (removed, build_baton') \<Rightarrow>
            Inr (build_baton', apos - unat removed, lo - unat removed, matchlen + unat removed)
        else Inr (build_baton, apos, lo, matchlen)))"

lemma back_loop_sum:
  "back_loop a b p apos bpos d = Inr (apos', bpos', d') \<Longrightarrow> bpos' + d' = bpos + d"
proof (induction a b p apos bpos d rule: back_loop.induct)
  case (1 a b p apos bpos d)
  show ?case
    using "1.prems" "1.IH" unfolding back_loop.simps [of a b p apos bpos d]
    by (fastforce simp: SVN_ERR_Inr_iff split: if_splits)
qed

lemma find_match_progress:
  "find_match u bs rolling a b lo p = Inr (Some (apos, lo', len)) \<Longrightarrow> lo < lo' + len"
  by (auto simp: find_match_def SVN_ERR_Inr_iff Let_def MATCH_BLOCKSIZE_def dest!: back_loop_sum split: if_splits)

lemma before_match_progress:
  "before_match u bb a b p apos lo len = Inr (bb', apos', lo', len') \<Longrightarrow> lo + len \<le> lo' + len'"
  by (auto simp: before_match_def SVN_ERR_Inr_iff split: if_splits prod.splits)

function compute_loop ::
  "bool \<Rightarrow> blocks \<Rightarrow> byte list \<Rightarrow> byte list \<Rightarrow> svn_txdelta__ops_baton_t \<Rightarrow> nat \<Rightarrow> nat \<Rightarrow> 32 word \<Rightarrow>
   (svn_txdelta__ops_baton_t \<times> nat) svn_result" where
  "compute_loop unaligned blocks a b build_baton lo pending_insert_start rolling =
     (if lo < length b then
        SVN_ERR (if lo + MATCH_BLOCKSIZE \<le> length b
                 then find_match unaligned blocks rolling a b lo pending_insert_start else Inr None) (\<lambda>m.
        case m of
          None \<Rightarrow>
            SVN_ERR (if lo + MATCH_BLOCKSIZE < length b
                     then SVN_ERR (read_block b lo 1) (\<lambda>c_out.
                          SVN_ERR (read_block b (lo + MATCH_BLOCKSIZE) 1) (\<lambda>c_in.
                          Inr (adler32_replace rolling (hd c_out) (hd c_in))))
                     else Inr rolling) (\<lambda>rolling'.
            compute_loop unaligned blocks a b build_baton (lo + 1) pending_insert_start rolling')
        | Some (apos, lo1, matchlen) \<Rightarrow>
            SVN_ERR (before_match unaligned build_baton a b pending_insert_start apos lo1 matchlen)
              (\<lambda>(baton1, apos1, lo2, matchlen1).
            let lo3 = lo2 + matchlen1 in
            SVN_ERR (svn_txdelta__insert_op baton1 svn_txdelta_source (of_nat apos1) (of_nat matchlen1) []) (\<lambda>baton2.
               SVN_ERR (if lo3 + MATCH_BLOCKSIZE \<le> length b then init_adler32 b lo3 else Inr rolling) (\<lambda>rolling'.
               compute_loop unaligned blocks a b baton2 lo3 lo3 rolling'))))
      else Inr (build_baton, pending_insert_start))"
  by pat_completeness auto
termination
  by (relation "measure (\<lambda>(u, bs, a, b, bb, lo, p, r). length b - lo)")
     (auto split: if_splits dest!: find_match_progress before_match_progress)

declare compute_loop.simps [simp del]

definition compute_delta ::
  "bool \<Rightarrow> svn_txdelta__ops_baton_t \<Rightarrow> byte list \<Rightarrow> byte list \<Rightarrow> svn_txdelta__ops_baton_t svn_result" where
  "compute_delta unaligned build_baton a b =
     SVN_ERR (match_length unaligned a 0 b 0 (if length a > length b then length b else length a)) (\<lambda>m.
     SVN_ERR
       (if m > 4 \<or> m = length b
        then SVN_ERR (svn_txdelta__insert_op build_baton svn_txdelta_source 0 (of_nat m) []) (\<lambda>build_baton'.
             Inr (build_baton', m))
        else Inr (build_baton, 0)) (\<lambda>(baton1, lo).
        if length b - lo < MATCH_BLOCKSIZE \<or> length a < MATCH_BLOCKSIZE
        then store_delta_trailer unaligned baton1 a b lo
        else
          SVN_ERR (init_blocks_table a) (\<lambda>blocks.
          SVN_ERR (init_adler32 b lo) (\<lambda>rolling.
          SVN_ERR (compute_loop unaligned blocks a b baton1 lo lo rolling)
            (\<lambda>(baton2, pending_insert_start).
               store_delta_trailer unaligned baton2 a b pending_insert_start)))))"

text \<open>The source and the target are one buffer; the source comes first.\<close>

definition svn_txdelta__xdelta ::
  "bool \<Rightarrow> svn_txdelta__ops_baton_t \<Rightarrow> byte list \<Rightarrow> nat \<Rightarrow> nat \<Rightarrow> svn_txdelta__ops_baton_t svn_result" where
  "svn_txdelta__xdelta unaligned build_baton data source_len target_len =
     SVN_ERR_ASSERT (source_len \<noteq> 0) (
     SVN_ERR (read_block data 0 source_len) (\<lambda>a.
     SVN_ERR (read_block data source_len target_len) (\<lambda>b.
     compute_delta unaligned build_baton a b)))"

section \<open>Matching is exact\<close>

lemma take_drop_add:
  "take (m + n) (drop i a) = take m (drop i a) @ take n (drop (i + m) a)"
  by (simp add: take_add add.commute)

text \<open>
  The first \<open>m\<close> bytes agree, and they cannot be extended within the limit.
\<close>

definition longest_match :: "byte list \<Rightarrow> nat \<Rightarrow> byte list \<Rightarrow> nat \<Rightarrow> nat \<Rightarrow> nat \<Rightarrow> bool" where
  "longest_match a i b j max_len m \<longleftrightarrow>
     m \<le> max_len \<and> take m (drop i a) = take m (drop j b) \<and> (m < max_len \<longrightarrow> a ! (i + m) \<noteq> b ! (j + m))"

lemma match_loop_ok:
  "0 < step \<Longrightarrow> i + max_len \<le> length a \<Longrightarrow> j + max_len \<le> length b \<Longrightarrow> pos \<le> max_len \<Longrightarrow>
   take pos (drop i a) = take pos (drop j b) \<Longrightarrow>
   \<exists>m. match_loop step a i b j max_len pos = Inr m \<and> m \<le> max_len \<and> take m (drop i a) = take m (drop j b)
     \<and> (step = 1 \<longrightarrow> longest_match a i b j max_len m)"
proof (induction step a i b j max_len pos rule: match_loop.induct)
  case (1 step a i b j max_len pos)
  note loop = match_loop.simps [of step a i b j max_len pos]
  show ?case
  proof (cases "pos + step \<le> max_len")
    case False
    then show ?thesis using "1.prems" by (auto simp: loop longest_match_def)
  next
    case True
    let ?x = "take step (drop (i + pos) a)" and ?y = "take step (drop (j + pos) b)"
    have r: "read_block a (i + pos) step = Inr ?x" "read_block b (j + pos) step = Inr ?y"
      using True "1.prems" by (simp_all add: read_block_def)
    show ?thesis
    proof (cases "?x = ?y")
      case same: True
      have "take (pos + step) (drop i a) = take (pos + step) (drop j b)"
        using "1.prems"(5) same by (simp only: take_drop_add)
      then show ?thesis
        using "1.IH" [OF _ r _ "1.prems"(1-3)] True same r by (simp add: loop "1.prems"(1))
    next
      case False
      then have "longest_match a i b j max_len pos" if "step = 1"
        using True "1.prems" that by (simp add: longest_match_def take_Suc_conv_app_nth hd_drop_conv_nth take_Suc drop_eq_Nil)
      with False True "1.prems" r show ?thesis by (simp add: loop)
    qed
  qed
qed

lemma match_length_ok:
  assumes "i + max_len \<le> length a" "j + max_len \<le> length b"
  shows "\<exists>m. match_length unaligned a i b j max_len = Inr m \<and> longest_match a i b j max_len m"
proof -
  obtain pos where "(if unaligned then match_loop 8 a i b j max_len 0 else Inr 0) = Inr pos"
    "pos \<le> max_len" "take pos (drop i a) = take pos (drop j b)"
    using match_loop_ok [of 8 i max_len a j b 0] assms by (cases unaligned) auto
  with match_loop_ok [of 1 i max_len a j b pos] assms show ?thesis by (auto simp: match_length_def)
qed

lemma longest_match_unique:
  assumes "longest_match a i b j n m" "longest_match a i b j n m'" "i + n \<le> length a" "j + n \<le> length b"
  shows "m = m'"
proof -
  have "\<not> k < l" if "longest_match a i b j n k" "longest_match a i b j n l" for k l
  proof
    assume "k < l"
    then have "take l (drop i a) ! k = take l (drop j b) ! k" "k < n" "l \<le> n" "a ! (i + k) \<noteq> b ! (j + k)"
      using that by (auto simp: longest_match_def)
    moreover have "take l (drop i a) ! k = a ! (i + k)" "take l (drop j b) ! k = b ! (j + k)"
      using \<open>k < l\<close> \<open>l \<le> n\<close> assms(3,4) by simp_all
    ultimately show False by simp
  qed
  with assms(1,2) show ?thesis by (meson linorder_neqE_nat)
qed

text \<open>The same for the bytes before two positions.\<close>

definition ends_agree :: "byte list \<Rightarrow> nat \<Rightarrow> byte list \<Rightarrow> nat \<Rightarrow> nat \<Rightarrow> bool" where
  "ends_agree a i b j n \<longleftrightarrow> take n (drop (i - n) a) = take n (drop (j - n) b)"

definition longest_reverse_match :: "byte list \<Rightarrow> nat \<Rightarrow> byte list \<Rightarrow> nat \<Rightarrow> nat \<Rightarrow> nat \<Rightarrow> bool" where
  "longest_reverse_match a i b j max_len m \<longleftrightarrow>
     m \<le> max_len \<and> ends_agree a i b j m \<and> (m < max_len \<longrightarrow> a ! (i - m - 1) \<noteq> b ! (j - m - 1))"

lemma longest_reverse_match_unique:
  assumes "longest_reverse_match a i b j n m" "longest_reverse_match a i b j n m'"
    and "n \<le> i" "i \<le> length a" "n \<le> j" "j \<le> length b"
  shows "m = m'"
proof -
  have "\<not> k < l" if "longest_reverse_match a i b j n k" "longest_reverse_match a i b j n l" for k l
  proof
    assume "k < l"
    then have "take l (drop (i - l) a) ! (l - k - 1) = take l (drop (j - l) b) ! (l - k - 1)" "k < n" "l \<le> n"
      "a ! (i - k - 1) \<noteq> b ! (j - k - 1)"
      using that by (auto simp: longest_reverse_match_def ends_agree_def)
    moreover have "i - l + (l - k - 1) = i - k - 1" "j - l + (l - k - 1) = j - k - 1"
      using \<open>k < l\<close> \<open>l \<le> n\<close> assms(3,5) by simp_all
    moreover have "take l (drop (i - l) a) ! (l - k - 1) = a ! (i - l + (l - k - 1))"
      "take l (drop (j - l) b) ! (l - k - 1) = b ! (j - l + (l - k - 1))"
      using \<open>k < l\<close> \<open>l \<le> n\<close> assms(3-6) by simp_all
    ultimately show False by simp
  qed
  with assms(1,2) show ?thesis by (meson linorder_neqE_nat)
qed

lemma ends_agree_extend:
  assumes "n + step \<le> i" "n + step \<le> j" "ends_agree a i b j n"
    and "take step (drop (i - (n + step)) a) = take step (drop (j - (n + step)) b)"
  shows "ends_agree a i b j (n + step)"
proof -
  have "i - (n + step) + step = i - n" "j - (n + step) + step = j - n" using assms(1,2) by simp_all
  then show ?thesis
    using assms(3,4) take_drop_add [of step n "i - (n + step)" a] take_drop_add [of step n "j - (n + step)" b]
    by (simp add: ends_agree_def add.commute)
qed

lemma reverse_loop_ok:
  "0 < step \<Longrightarrow> max_len \<le> i \<Longrightarrow> i \<le> length a \<Longrightarrow> max_len \<le> j \<Longrightarrow> j \<le> length b \<Longrightarrow> step \<le> pos \<Longrightarrow>
   pos \<le> max_len + step \<Longrightarrow> ends_agree a i b j (pos - step) \<Longrightarrow>
   \<exists>m. reverse_loop step a i b j max_len pos = Inr m \<and> step \<le> m \<and> m \<le> max_len + step
     \<and> ends_agree a i b j (m - step)
     \<and> (step = 1 \<longrightarrow> m \<le> max_len \<longrightarrow> a ! (i - m) \<noteq> b ! (j - m))"
proof (induction step a i b j max_len pos rule: reverse_loop.induct)
  case (1 step a i b j max_len pos)
  note loop = reverse_loop.simps [of step a i b j max_len pos]
  show ?case
  proof (cases "pos \<le> max_len")
    case False
    then show ?thesis using "1.prems" by (auto simp: loop)
  next
    case True
    let ?x = "take step (drop (i - pos) a)" and ?y = "take step (drop (j - pos) b)"
    have r: "read_before a i pos step = Inr ?x" "read_before b j pos step = Inr ?y"
      using True "1.prems" by (simp_all add: read_before_def read_block_def)
    show ?thesis
    proof (cases "?x = ?y")
      case same: True
      have "ends_agree a i b j (pos - step + step)"
        using True "1.prems" same by (intro ends_agree_extend) simp_all
      then have "ends_agree a i b j (pos + step - step)" using "1.prems"(6) by simp
      then show ?thesis
        using "1.IH" [OF _ r _ "1.prems"(1-5)] True same r "1.prems" by (simp add: loop)
    next
      case False
      have "a ! (i - pos) \<noteq> b ! (j - pos)" if "step = 1"
        using False True "1.prems" that by (auto simp: take_Suc hd_drop_conv_nth)
      with False True "1.prems" r show ?thesis by (simp add: loop)
    qed
  qed
qed

lemma reverse_match_length_ok:
  assumes "max_len \<le> i" "i \<le> length a" "max_len \<le> j" "j \<le> length b"
  shows "\<exists>m. reverse_match_length unaligned a i b j max_len = Inr m \<and> longest_reverse_match a i b j max_len m"
proof -
  have zero: "ends_agree a i b j 0" by (simp add: ends_agree_def)
  obtain pos where pos: "(if unaligned then SVN_ERR (reverse_loop 8 a i b j max_len 8) (\<lambda>pos. Inr (pos - 8)) else Inr 0) = Inr pos"
    "pos \<le> max_len" "ends_agree a i b j pos"
  proof (cases unaligned)
    case True
    obtain m where "reverse_loop 8 a i b j max_len 8 = Inr m" "8 \<le> m" "m \<le> max_len + 8" "ends_agree a i b j (m - 8)"
      using reverse_loop_ok [of 8 max_len i a j b 8] assms zero by auto
    with that [of "m - 8"] True show thesis by auto
  next
    case False
    with that [of 0] zero show thesis by simp
  qed
  obtain m where m: "reverse_loop 1 a i b j max_len (pos + 1) = Inr m" "1 \<le> m" "m \<le> max_len + 1"
    "ends_agree a i b j (m - 1)" "m \<le> max_len \<longrightarrow> a ! (i - m) \<noteq> b ! (j - m)"
    using reverse_loop_ok [of 1 max_len i a j b "pos + 1"] assms pos(2,3) by auto
  have "ends_agree a i b j max_len" if "\<not> m \<le> max_len"
  proof -
    from that m(3) have "m = max_len + 1" by simp
    with m(4) show ?thesis by simp
  qed
  then have "longest_reverse_match a i b j max_len (if m \<le> max_len then m - 1 else max_len)"
    using m by (auto simp: longest_reverse_match_def)
  then show ?thesis using pos(1) m(1) by (simp add: reverse_match_length_def)
qed

lemma back_loop_ok:
  "apos + n \<le> length a \<Longrightarrow> bpos + n \<le> length b \<Longrightarrow> take n (drop apos a) = take n (drop bpos b) \<Longrightarrow> p \<le> bpos \<Longrightarrow>
   \<exists>k. back_loop a b p apos bpos d = Inr (apos - k, bpos - k, d + k) \<and> k \<le> apos \<and> p + k \<le> bpos
     \<and> take (n + k) (drop (apos - k) a) = take (n + k) (drop (bpos - k) b)"
proof (induction a b p apos bpos d arbitrary: n rule: back_loop.induct)
  case (1 a b p apos bpos d)
  note loop = back_loop.simps [of a b p apos bpos d]
  show ?case
  proof (cases "apos > 0 \<and> bpos > p")
    case False
    then show ?thesis using "1.prems" by (intro exI [of _ 0]) (auto simp: loop)
  next
    case True
    let ?x = "take 1 (drop (apos - 1) a)" and ?y = "take 1 (drop (bpos - 1) b)"
    have r: "read_block a (apos - 1) 1 = Inr ?x" "read_block b (bpos - 1) 1 = Inr ?y"
      using True "1.prems" by (simp_all add: read_block_def)
    show ?thesis
    proof (cases "?x = ?y")
      case False
      then show ?thesis using "1.prems" True r by (intro exI [of _ 0]) (auto simp: loop)
    next
      case same: True
      have "p \<le> bpos - 1" using True by linarith
      have "take (1 + n) (drop (apos - 1) a) = take (1 + n) (drop (bpos - 1) b)"
        using same "1.prems"(3) True by (simp only: take_drop_add) simp
      then obtain k where "back_loop a b p (apos - 1) (bpos - 1) (d + 1) = Inr (apos - 1 - k, bpos - 1 - k, d + 1 + k)"
        "k \<le> apos - 1" "p + k \<le> bpos - 1"
        "take (1 + n + k) (drop (apos - 1 - k) a) = take (1 + n + k) (drop (bpos - 1 - k) b)"
        using "1.IH" [OF True r same, of "1 + n"] \<open>p \<le> bpos - 1\<close> True "1.prems" by auto
      moreover from this have "Suc k \<le> apos" "p + Suc k \<le> bpos" using True by linarith+
      ultimately show ?thesis using True r same by (intro exI [of _ "Suc k"]) (simp add: loop)
    qed
  qed
qed

section \<open>The table of blocks is exact\<close>

definition block_text :: "byte list \<Rightarrow> nat \<Rightarrow> byte list" where
  "block_text data i = take MATCH_BLOCKSIZE (drop i data)"

definition checksum :: "byte list \<Rightarrow> 32 word" where
  "checksum inp = (case adler_loop inp 0 0 of (s1, s2) \<Rightarrow> s2 * 0x10000 + s1)"

lemma init_adler32_ok: "i + MATCH_BLOCKSIZE \<le> length data \<Longrightarrow> init_adler32 data i = Inr (checksum (block_text data i))"
  by (simp add: init_adler32_def read_block_def checksum_def block_text_def split: prod.splits)

lemma same_block_ok:
  "i + MATCH_BLOCKSIZE \<le> length x \<Longrightarrow> j + MATCH_BLOCKSIZE \<le> length y \<Longrightarrow>
   same_block x i y j = Inr (block_text x i = block_text y j)"
  by (simp add: same_block_def read_block_def block_text_def)

text \<open>
  The table has a power of two slots; the block in a slot lies inside of the data, its checksum
  is the one that is kept, and all slots from the first choice for the checksum up to it are used.
\<close>

definition used :: "blocks \<Rightarrow> nat \<Rightarrow> bool" where
  "used t s \<longleftrightarrow> block_pos (slots t ! s) \<noteq> NO_POSITION"

definition home :: "blocks \<Rightarrow> 32 word \<Rightarrow> nat" where
  "home t adler = unat (hash_func adler AND bmax t)"

definition wf_slot :: "blocks \<Rightarrow> nat \<Rightarrow> bool" where
  "wf_slot t s \<longleftrightarrow> used t s \<longrightarrow>
     unat (block_pos (slots t ! s)) + MATCH_BLOCKSIZE \<le> length (bdata t)
     \<and> adlersum (slots t ! s) = checksum (block_text (bdata t) (unat (block_pos (slots t ! s))))
     \<and> (\<exists>d < length (slots t). s = (home t (adlersum (slots t ! s)) + d) mod length (slots t)
           \<and> (\<forall>e<d. used t ((home t (adlersum (slots t ! s)) + e) mod length (slots t))))"

definition wf_table :: "nat \<Rightarrow> blocks \<Rightarrow> bool" where
  "wf_table k t \<longleftrightarrow> k \<le> 32 \<and> length (slots t) = 2 ^ k \<and> bmax t = mask k \<and> (\<forall>s < 2 ^ k. wf_slot t s)"

definition in_table :: "blocks \<Rightarrow> byte list \<Rightarrow> bool" where
  "in_table t text \<longleftrightarrow> (\<exists>s < length (slots t). used t s \<and> block_text (bdata t) (unat (block_pos (slots t ! s))) = text)"

lemma unat_and_mask: "k \<le> 32 \<Longrightarrow> unat ((h :: 32 word) AND mask k) = unat h mod 2 ^ k"
  unfolding take_bit_eq_mask [symmetric] unsigned_take_bit_eq by (simp add: take_bit_eq_mod)

lemma next_slot:
  assumes "k \<le> 32"
  shows "unat ((h + 1) AND mask k :: 32 word) = (unat h + 1) mod 2 ^ k"
proof -
  have "unat (h + 1) = (unat h + 1) mod 2 ^ 32" by (simp add: unat_word_ariths)
  moreover have "(2 :: nat) ^ k dvd 2 ^ 32" using assms by (intro le_imp_power_dvd)
  ultimately show ?thesis using assms by (simp add: unat_and_mask mod_mod_cancel)
qed

lemma home_less: "wf_table k t \<Longrightarrow> home t adler < 2 ^ k"
  by (simp add: wf_table_def home_def unat_and_mask)

lemma slot_at_ok: "unat h < length (slots t) \<Longrightarrow> slot_at t h = Inr (slots t ! unat h)"
  by (simp add: slot_at_def)

text \<open>
  A search starts at the first choice and stops after \<open>d\<close> steps, at an unused slot or at a
  block with the same checksum and contents.
\<close>

definition found :: "blocks \<Rightarrow> 32 word \<Rightarrow> byte list \<Rightarrow> nat \<Rightarrow> bool" where
  "found t adler tx s \<longleftrightarrow> used t s \<and> adlersum (slots t ! s) = adler
     \<and> block_text (bdata t) (unat (block_pos (slots t ! s))) = tx"

definition stops_after :: "blocks \<Rightarrow> 32 word \<Rightarrow> byte list \<Rightarrow> nat \<Rightarrow> nat \<Rightarrow> bool" where
  "stops_after t adler tx h d \<longleftrightarrow>
     (\<forall>e<d. used t ((h + e) mod length (slots t)) \<and> \<not> found t adler tx ((h + e) mod length (slots t)))
     \<and> (used t ((h + d) mod length (slots t)) \<longrightarrow> found t adler tx ((h + d) mod length (slots t)))"

lemma stops_after_step:
  assumes "wf_table k t" "unat h < 2 ^ k" "stops_after t adler tx (unat h) d"
  shows "d = 0 \<and> (\<not> used t (unat h) \<or> found t adler tx (unat h))
    \<or> (\<exists>d'. d = Suc d' \<and> used t (unat h) \<and> \<not> found t adler tx (unat h)
         \<and> stops_after t adler tx (unat ((h + 1) AND bmax t)) d'
         \<and> (unat ((h + 1) AND bmax t) + d') mod 2 ^ k = (unat h + d) mod 2 ^ k
         \<and> unat ((h + 1) AND bmax t) < 2 ^ k)"
proof (cases d)
  case 0
  then show ?thesis using assms by (auto simp: stops_after_def wf_table_def)
next
  case (Suc d')
  have t: "k \<le> 32" "length (slots t) = 2 ^ k" "bmax t = mask k" using assms(1) by (simp_all add: wf_table_def)
  have step: "(unat ((h + 1) AND mask k) + e) mod 2 ^ k = (unat h + Suc e) mod 2 ^ k" for e
    using next_slot [OF t(1)] by (simp add: mod_add_left_eq)
  have first: "used t (unat h) \<and> \<not> found t adler tx (unat h)"
    using assms(2,3) t(2) unfolding stops_after_def Suc by (metis add_0_right mod_less zero_less_Suc)
  have "stops_after t adler tx (unat ((h + 1) AND mask k)) d'"
    using assms(3) unfolding stops_after_def t(2) Suc step by auto
  then show ?thesis using first step Suc t by (auto simp: unat_and_mask)
qed

lemma find_block_loop_ok:
  assumes "wf_table k t" "i + MATCH_BLOCKSIZE \<le> length data"
  shows "unat h < 2 ^ k \<Longrightarrow> d < fuel \<Longrightarrow> stops_after t adler (block_text data i) (unat h) d \<Longrightarrow>
    find_block_loop fuel t adler data i h = Inr (block_pos (slots t ! ((unat h + d) mod 2 ^ k)))"
proof (induction fuel arbitrary: h d)
  case (Suc fuel)
  let ?slot = "slots t ! unat h"
  have s: "slot_at t h = Inr ?slot" using Suc.prems(1) assms(1) by (simp add: slot_at_ok wf_table_def)
  have pos: "unat (block_pos ?slot) + MATCH_BLOCKSIZE \<le> length (bdata t)" if "used t (unat h)"
    using assms(1) Suc.prems(1) that by (auto simp: wf_table_def wf_slot_def)
  show ?case
    using stops_after_step [OF assms(1) Suc.prems(1,3)]
  proof
    assume "d = 0 \<and> (\<not> used t (unat h) \<or> found t adler (block_text data i) (unat h))"
    then show ?thesis
      using s Suc.prems(1) pos assms(2) by (auto simp: used_def found_def same_block_ok)
  next
    assume "\<exists>d'. d = Suc d' \<and> used t (unat h) \<and> \<not> found t adler (block_text data i) (unat h)
         \<and> stops_after t adler (block_text data i) (unat ((h + 1) AND bmax t)) d'
         \<and> (unat ((h + 1) AND bmax t) + d') mod 2 ^ k = (unat h + d) mod 2 ^ k
         \<and> unat ((h + 1) AND bmax t) < 2 ^ k"
    then obtain d' where d: "d = Suc d'" "used t (unat h)" "\<not> found t adler (block_text data i) (unat h)"
      "stops_after t adler (block_text data i) (unat ((h + 1) AND bmax t)) d'"
      "(unat ((h + 1) AND bmax t) + d') mod 2 ^ k = (unat h + d) mod 2 ^ k" "unat ((h + 1) AND bmax t) < 2 ^ k"
      by blast
    have "find_block_loop (Suc fuel) t adler data i h = find_block_loop fuel t adler data i ((h + 1) AND bmax t)"
      using s d(2,3) pos assms(2) by (auto simp: used_def found_def same_block_ok)
    with Suc.IH [OF d(6) _ d(4)] Suc.prems(2) d(1,5) show ?thesis by simp
  qed
qed simp

lemma add_block_loop_ok:
  assumes "wf_table k t" "unat pos + MATCH_BLOCKSIZE \<le> length (bdata t)"
  shows "unat h < 2 ^ k \<Longrightarrow> d < fuel \<Longrightarrow> stops_after t adler (block_text (bdata t) (unat pos)) (unat h) d \<Longrightarrow>
    add_block_loop fuel t adler pos h = Inr (if used t ((unat h + d) mod 2 ^ k) then t
      else t\<lparr>slots := (slots t)[(unat h + d) mod 2 ^ k := \<lparr>adlersum = adler, block_pos = pos\<rparr>]\<rparr>)"
proof (induction fuel arbitrary: h d)
  case (Suc fuel)
  let ?slot = "slots t ! unat h"
  let ?tx = "block_text (bdata t) (unat pos)"
  have s: "slot_at t h = Inr ?slot" using Suc.prems(1) assms(1) by (simp add: slot_at_ok wf_table_def)
  have p: "unat (block_pos ?slot) + MATCH_BLOCKSIZE \<le> length (bdata t)" if "used t (unat h)"
    using assms(1) Suc.prems(1) that by (auto simp: wf_table_def wf_slot_def)
  show ?case
    using stops_after_step [OF assms(1) Suc.prems(1,3)]
  proof
    assume "d = 0 \<and> (\<not> used t (unat h) \<or> found t adler ?tx (unat h))"
    then show ?thesis
      using s Suc.prems(1) p assms(2) by (auto simp: used_def found_def same_block_ok)
  next
    assume "\<exists>d'. d = Suc d' \<and> used t (unat h) \<and> \<not> found t adler ?tx (unat h)
         \<and> stops_after t adler ?tx (unat ((h + 1) AND bmax t)) d'
         \<and> (unat ((h + 1) AND bmax t) + d') mod 2 ^ k = (unat h + d) mod 2 ^ k
         \<and> unat ((h + 1) AND bmax t) < 2 ^ k"
    then obtain d' where d: "d = Suc d'" "used t (unat h)" "\<not> found t adler ?tx (unat h)"
      "stops_after t adler ?tx (unat ((h + 1) AND bmax t)) d'"
      "(unat ((h + 1) AND bmax t) + d') mod 2 ^ k = (unat h + d) mod 2 ^ k" "unat ((h + 1) AND bmax t) < 2 ^ k"
      by blast
    have "add_block_loop (Suc fuel) t adler pos h = add_block_loop fuel t adler pos ((h + 1) AND bmax t)"
      using s d(2,3) p assms(2) by (auto simp: used_def found_def same_block_ok)
    with Suc.IH [OF d(6) _ d(4)] Suc.prems(2) d(1,5) show ?thesis by simp
  qed
qed simp

text \<open>A table that is not full always stops a search.\<close>

lemma stops_after_exists:
  assumes "wf_table k t" "h < 2 ^ k" "\<exists>s < 2 ^ k. \<not> used t s"
  shows "\<exists>d < 2 ^ k. stops_after t adler tx h d"
proof -
  let ?stop = "\<lambda>d. \<not> used t ((h + d) mod 2 ^ k) \<or> found t adler tx ((h + d) mod 2 ^ k)"
  obtain s where s: "s < 2 ^ k" "\<not> used t s" using assms(3) by blast
  define d0 where "d0 = (s + 2 ^ k - h) mod 2 ^ k"
  have "(h + d0) mod 2 ^ k = (h + (s + 2 ^ k - h)) mod 2 ^ k" by (simp add: d0_def mod_add_right_eq)
  then have "(h + d0) mod 2 ^ k = s" using assms(2) s(1) by simp
  then have "?stop d0" using s(2) by simp
  define d where "d = (LEAST d. ?stop d)"
  have "?stop d" unfolding d_def using \<open>?stop d0\<close> by (rule LeastI)
  have "d \<le> d0" unfolding d_def using \<open>?stop d0\<close> by (rule Least_le)
  have "d0 < 2 ^ k" by (simp add: d0_def)
  have "\<not> ?stop e" if "e < d" for e using that not_less_Least unfolding d_def by blast
  with \<open>?stop d\<close> have "stops_after t adler tx h d" using assms(1) by (auto simp: stops_after_def wf_table_def)
  then show ?thesis using \<open>d \<le> d0\<close> \<open>d0 < 2 ^ k\<close> by (intro exI [of _ d]) simp
qed

lemma stops_at_block:
  assumes "wf_table k t" "stops_after t (checksum tx) tx (home t (checksum tx)) d"
  shows "used t ((home t (checksum tx) + d) mod 2 ^ k) \<longleftrightarrow> in_table t tx"
proof
  assume u: "used t ((home t (checksum tx) + d) mod 2 ^ k)"
  then have "found t (checksum tx) tx ((home t (checksum tx) + d) mod 2 ^ k)"
    using assms by (simp add: stops_after_def wf_table_def)
  then show "in_table t tx"
    using assms(1) by (auto simp: found_def in_table_def wf_table_def intro!: exI [of _ "(home t (checksum tx) + d) mod 2 ^ k"])
next
  assume "in_table t tx"
  then obtain s where s: "s < 2 ^ k" "used t s" "block_text (bdata t) (unat (block_pos (slots t ! s))) = tx"
    using assms(1) by (auto simp: in_table_def wf_table_def)
  then have w: "wf_slot t s" using assms(1) by (simp add: wf_table_def)
  with s(2,3) have a: "adlersum (slots t ! s) = checksum tx" by (simp add: wf_slot_def)
  have l: "length (slots t) = 2 ^ k" using assms(1) by (simp add: wf_table_def)
  have "\<exists>d < 2 ^ k. s = (home t (checksum tx) + d) mod 2 ^ k \<and> (\<forall>e<d. used t ((home t (checksum tx) + e) mod 2 ^ k))"
    using w s(2) unfolding wf_slot_def a l by blast
  then obtain d' where d': "s = (home t (checksum tx) + d') mod 2 ^ k"
    "\<forall>e<d'. used t ((home t (checksum tx) + e) mod 2 ^ k)" by blast
  have "found t (checksum tx) tx s" using s a by (simp add: found_def)
  then have "\<not> d' < d" using assms d'(1) by (auto simp: stops_after_def wf_table_def)
  then show "used t ((home t (checksum tx) + d) mod 2 ^ k)"
    using d' s(2) by (cases "d = d'") auto
qed

lemma find_block_ok:
  assumes "wf_table k t" "\<exists>s < 2 ^ k. \<not> used t s" "i + MATCH_BLOCKSIZE \<le> length data"
  shows "\<exists>p. find_block t (checksum (block_text data i)) data i = Inr p
    \<and> (p \<noteq> NO_POSITION \<longleftrightarrow> in_table t (block_text data i))
    \<and> (p \<noteq> NO_POSITION \<longrightarrow> unat p + MATCH_BLOCKSIZE \<le> length (bdata t) \<and> block_text (bdata t) (unat p) = block_text data i)"
proof -
  let ?tx = "block_text data i"
  let ?h = "home t (checksum ?tx)"
  have h: "unat (hash_func (checksum ?tx) AND bmax t) = ?h" by (simp add: home_def)
  obtain d where d: "d < 2 ^ k" "stops_after t (checksum ?tx) ?tx ?h d"
    using stops_after_exists [OF assms(1) home_less [OF assms(1)] assms(2)] by blast
  let ?s = "(?h + d) mod 2 ^ k"
  have "find_block t (checksum ?tx) data i = Inr (block_pos (slots t ! ?s))"
    using find_block_loop_ok [OF assms(1,3), of "hash_func (checksum ?tx) AND bmax t" d] d
      home_less [OF assms(1)] assms(1)
    by (simp add: find_block_def h wf_table_def)
  moreover have "used t ?s \<longleftrightarrow> in_table t ?tx" using stops_at_block [OF assms(1) d(2)] .
  moreover have "unat (block_pos (slots t ! ?s)) + MATCH_BLOCKSIZE \<le> length (bdata t)
      \<and> block_text (bdata t) (unat (block_pos (slots t ! ?s))) = ?tx" if "used t ?s"
    using that assms(1) d(2) by (auto simp: wf_table_def wf_slot_def stops_after_def found_def)
  ultimately show ?thesis by (auto simp: used_def)
qed

definition used_slots :: "blocks \<Rightarrow> nat set" where
  "used_slots t = {s. s < length (slots t) \<and> used t s}"

lemma free_slot:
  assumes "wf_table k t" "card (used_slots t) < 2 ^ k"
  shows "\<exists>s < 2 ^ k. \<not> used t s"
proof (rule ccontr)
  assume "\<not> ?thesis"
  then have "used_slots t = {..<2 ^ k}" using assms(1) by (auto simp: used_slots_def wf_table_def)
  with assms(2) show False by simp
qed

text \<open>Storing a block in the unused slot where its search stops.\<close>

definition store :: "blocks \<Rightarrow> nat \<Rightarrow> 32 word \<Rightarrow> 32 word \<Rightarrow> blocks" where
  "store t s adler pos = t\<lparr>slots := (slots t)[s := \<lparr>adlersum = adler, block_pos = pos\<rparr>]\<rparr>"

lemma store_simps [simp]:
  "bmax (store t s adler pos) = bmax t" "bdata (store t s adler pos) = bdata t"
  "length (slots (store t s adler pos)) = length (slots t)"
  "home (store t s adler pos) x = home t x"
  by (simp_all add: store_def home_def)

lemma store_slot:
  "s < length (slots t) \<Longrightarrow> slots (store t s adler pos) ! s = \<lparr>adlersum = adler, block_pos = pos\<rparr>"
  "s' \<noteq> s \<Longrightarrow> slots (store t s adler pos) ! s' = slots t ! s'"
  by (simp_all add: store_def)

lemma used_store:
  "s < length (slots t) \<Longrightarrow> pos \<noteq> NO_POSITION \<Longrightarrow> used (store t s adler pos) s' \<longleftrightarrow> used t s' \<or> s' = s"
  by (cases "s' = s") (auto simp: used_def store_slot)

lemma wf_store:
  assumes "wf_table k t" "d < 2 ^ k" "pos \<noteq> NO_POSITION" "unat pos + MATCH_BLOCKSIZE \<le> length (bdata t)"
    and "adler = checksum (block_text (bdata t) (unat pos))"
    and "\<forall>e<d. used t ((home t adler + e) mod 2 ^ k)"
  shows "wf_table k (store t ((home t adler + d) mod 2 ^ k) adler pos)"
proof -
  let ?s = "(home t adler + d) mod 2 ^ k"
  let ?t = "store t ?s adler pos"
  have l: "length (slots t) = 2 ^ k" "?s < length (slots t)" using assms(1) by (simp_all add: wf_table_def)
  have u: "used ?t s' \<longleftrightarrow> used t s' \<or> s' = ?s" for s' using used_store [OF l(2) assms(3)] .
  have "wf_slot ?t s'" if "s' < 2 ^ k" for s'
  proof (cases "s' = ?s")
    case True
    have "slots ?t ! ?s = \<lparr>adlersum = adler, block_pos = pos\<rparr>" using l(2) by (rule store_slot)
    moreover have "\<exists>d' < 2 ^ k. ?s = (home t adler + d') mod 2 ^ k \<and> (\<forall>e<d'. used ?t ((home t adler + e) mod 2 ^ k))"
      using assms(2,6) u by blast
    ultimately show ?thesis using assms(4,5) l(1) by (simp add: True wf_slot_def)
  next
    case False
    have "wf_slot t s'" using assms(1) that by (simp add: wf_table_def)
    then show ?thesis
      using False l(1) unfolding wf_slot_def u store_slot(2) [OF False] store_simps by blast
  qed
  then show ?thesis using assms(1) by (simp add: wf_table_def)
qed

lemma in_table_store:
  assumes "s < length (slots t)" "pos \<noteq> NO_POSITION" "\<not> used t s"
  shows "in_table (store t s adler pos) tx \<longleftrightarrow> in_table t tx \<or> tx = block_text (bdata t) (unat pos)"
proof
  assume "in_table (store t s adler pos) tx"
  then obtain s' where s': "s' < length (slots t)" "used t s' \<or> s' = s"
    "block_text (bdata t) (unat (block_pos (slots (store t s adler pos) ! s'))) = tx"
    by (auto simp: in_table_def used_store [OF assms(1,2)])
  then show "in_table t tx \<or> tx = block_text (bdata t) (unat pos)"
    using assms(1) by (cases "s' = s") (auto simp: in_table_def store_slot)
next
  assume "in_table t tx \<or> tx = block_text (bdata t) (unat pos)"
  then show "in_table (store t s adler pos) tx"
  proof
    assume "in_table t tx"
    then obtain s' where "s' < length (slots t)" "used t s'" "block_text (bdata t) (unat (block_pos (slots t ! s'))) = tx"
      by (auto simp: in_table_def)
    moreover from this assms(3) have "s' \<noteq> s" by auto
    ultimately show ?thesis using used_store [OF assms(1,2)] by (auto simp: in_table_def store_slot)
  next
    assume "tx = block_text (bdata t) (unat pos)"
    then show ?thesis
      using assms(1) used_store [OF assms(1,2)] by (auto simp: in_table_def store_slot intro!: exI [of _ s])
  qed
qed

lemma card_used_store:
  assumes "s < length (slots t)" "pos \<noteq> NO_POSITION"
  shows "card (used_slots (store t s adler pos)) \<le> card (used_slots t) + 1"
proof -
  have "used_slots (store t s adler pos) = insert s (used_slots t)"
    using assms(1) used_store [OF assms] by (auto simp: used_slots_def)
  then show ?thesis by (simp add: card_insert_le_m1 used_slots_def card_insert_if)
qed

lemma add_block_ok:
  assumes "wf_table k t" "card (used_slots t) < 2 ^ k"
    and "pos \<noteq> NO_POSITION" "unat pos + MATCH_BLOCKSIZE \<le> length (bdata t)"
  shows "\<exists>t'. add_block t (checksum (block_text (bdata t) (unat pos))) pos = Inr t' \<and> wf_table k t' \<and> bdata t' = bdata t
    \<and> card (used_slots t') \<le> card (used_slots t) + 1
    \<and> (\<forall>tx. in_table t' tx \<longleftrightarrow> in_table t tx \<or> tx = block_text (bdata t) (unat pos))"
proof -
  let ?tx = "block_text (bdata t) (unat pos)"
  let ?h = "home t (checksum ?tx)"
  have h: "unat (hash_func (checksum ?tx) AND bmax t) = ?h" by (simp add: home_def)
  obtain d where d: "d < 2 ^ k" "stops_after t (checksum ?tx) ?tx ?h d"
    using stops_after_exists [OF assms(1) home_less [OF assms(1)] free_slot [OF assms(1,2)]] by blast
  let ?s = "(?h + d) mod 2 ^ k"
  have l: "length (slots t) = 2 ^ k" "?s < length (slots t)" using assms(1) by (simp_all add: wf_table_def)
  have r: "add_block t (checksum ?tx) pos = Inr (if used t ?s then t else store t ?s (checksum ?tx) pos)"
    using add_block_loop_ok [OF assms(1,4), of "hash_func (checksum ?tx) AND bmax t" d] d
      home_less [OF assms(1)] l(1)
    by (simp add: add_block_def h store_def)
  show ?thesis
  proof (cases "used t ?s")
    case True
    then have "in_table t ?tx" using stops_at_block [OF assms(1) d(2)] by simp
    with r True assms(1) show ?thesis by auto
  next
    case False
    have "wf_table k (store t ?s (checksum ?tx) pos)"
      using d(2) l(1) by (intro wf_store [OF assms(1) d(1) assms(3,4) refl]) (auto simp: stops_after_def)
    then show ?thesis
      using r False card_used_store [OF l(2) assms(3)] in_table_store [OF l(2) assms(3) False] by simp
  qed
qed

lemma add_blocks_loop_ok:
  "wf_table k t \<Longrightarrow> bdata t = data \<Longrightarrow> length data < 2 ^ 32 \<Longrightarrow> i = m * MATCH_BLOCKSIZE \<Longrightarrow>
   card (used_slots t) \<le> m \<Longrightarrow> length data div MATCH_BLOCKSIZE < 2 ^ k \<Longrightarrow>
   \<exists>t'. add_blocks_loop data i t = Inr t' \<and> wf_table k t' \<and> bdata t' = data
     \<and> card (used_slots t') \<le> max m (length data div MATCH_BLOCKSIZE)
     \<and> (\<forall>tx. in_table t' tx \<longleftrightarrow> in_table t tx
        \<or> (\<exists>j\<ge>m. j * MATCH_BLOCKSIZE + MATCH_BLOCKSIZE \<le> length data \<and> tx = block_text data (j * MATCH_BLOCKSIZE)))"
proof (induction data i t arbitrary: m rule: add_blocks_loop.induct)
  case (1 data i t)
  note loop = add_blocks_loop.simps [of data i t]
  show ?case
  proof (cases "i + MATCH_BLOCKSIZE \<le> length data")
    case False
    have "\<not> j * MATCH_BLOCKSIZE + MATCH_BLOCKSIZE \<le> length data" if "j \<ge> m" for j
      using False "1.prems"(4) mult_le_mono1 [OF that, of MATCH_BLOCKSIZE] by linarith
    moreover have "add_blocks_loop data i t = Inr t" using False by (simp add: loop)
    ultimately show ?thesis using "1.prems" by auto
  next
    case True
    have iu: "unat (of_nat i :: 32 word) = i" using True "1.prems"(3) by (simp add: unat_of_nat MATCH_BLOCKSIZE_def)
    have np: "(of_nat i :: 32 word) \<noteq> NO_POSITION"
    proof
      assume "(of_nat i :: 32 word) = NO_POSITION"
      then have "i = unat NO_POSITION" using iu by simp
      then show False using True "1.prems"(3) by (simp add: NO_POSITION_def MATCH_BLOCKSIZE_def unsigned_minus_1_eq_mask mask_eq_exp_minus_1)
    qed
    have "m < length data div MATCH_BLOCKSIZE"
      using True "1.prems"(4) by (simp add: MATCH_BLOCKSIZE_def less_eq_div_iff_mult_less_eq Suc_le_eq [symmetric])
    then have "card (used_slots t) < 2 ^ k" using "1.prems"(5,6) by simp
    then obtain t1 where t1: "add_block t (checksum (block_text data i)) (of_nat i) = Inr t1" "wf_table k t1" "bdata t1 = data"
      "card (used_slots t1) \<le> Suc m" "\<And>tx. in_table t1 tx \<longleftrightarrow> in_table t tx \<or> tx = block_text data i"
      using add_block_ok [OF "1.prems"(1) _ np] "1.prems"(2,5) True iu by fastforce
    have s: "init_adler32 data i = Inr (checksum (block_text data i))" using True by (rule init_adler32_ok)
    obtain t' where t': "add_blocks_loop data (i + MATCH_BLOCKSIZE) t1 = Inr t'" "wf_table k t'" "bdata t' = data"
      "card (used_slots t') \<le> max (Suc m) (length data div MATCH_BLOCKSIZE)"
      "\<And>tx. in_table t' tx \<longleftrightarrow> in_table t1 tx \<or> (\<exists>j\<ge>Suc m. j * MATCH_BLOCKSIZE + MATCH_BLOCKSIZE \<le> length data
          \<and> tx = block_text data (j * MATCH_BLOCKSIZE))"
      using "1.IH" [OF True s t1(1,2,3) "1.prems"(3), of "Suc m"] "1.prems"(4,6) t1(4) by auto
    have "(\<exists>j\<ge>m. j * MATCH_BLOCKSIZE + MATCH_BLOCKSIZE \<le> length data \<and> tx = block_text data (j * MATCH_BLOCKSIZE)) \<longleftrightarrow>
        tx = block_text data i \<or> (\<exists>j\<ge>Suc m. j * MATCH_BLOCKSIZE + MATCH_BLOCKSIZE \<le> length data
          \<and> tx = block_text data (j * MATCH_BLOCKSIZE))" for tx
      using True "1.prems"(4) by (metis Suc_leD le_antisym not_less_eq_eq order_refl)
    then show ?thesis
      using t' t1(5) True s t1(1) \<open>m < length data div MATCH_BLOCKSIZE\<close> by (auto simp: loop)
  qed
qed

lemma slots_loop_power: "\<exists>k. slots_loop n j = 2 ^ k \<and> n < 2 ^ k \<and> (2 ^ k \<le> 2 * n \<or> k = j)"
proof (induction n j rule: slots_loop.induct)
  case (1 n j)
  show ?case
  proof (cases "2 ^ j \<le> n")
    case True
    from "1.IH" [OF this] obtain k where "slots_loop n (j + 1) = 2 ^ k" "n < 2 ^ k" "2 ^ k \<le> 2 * n \<or> k = j + 1" by blast
    then show ?thesis using True by (auto simp: slots_loop.simps [of n j])
  qed (auto simp: slots_loop.simps [of n j])
qed

text \<open>The table holds exactly the blocks at multiples of the block size, and is never full.\<close>

lemma init_blocks_table_ok:
  assumes "length data < 2 ^ 32"
  shows "\<exists>k t. init_blocks_table data = Inr t \<and> wf_table k t \<and> bdata t = data \<and> (\<exists>s < 2 ^ k. \<not> used t s)
    \<and> (\<forall>tx. in_table t tx \<longleftrightarrow>
        (\<exists>j. j * MATCH_BLOCKSIZE + MATCH_BLOCKSIZE \<le> length data \<and> tx = block_text data (j * MATCH_BLOCKSIZE)))"
proof -
  let ?n = "length data div MATCH_BLOCKSIZE + 1"
  obtain k where k: "slots_loop ?n 0 = 2 ^ k" "?n < 2 ^ k" "2 ^ k \<le> 2 * ?n \<or> k = 0" using slots_loop_power by blast
  have n: "?n \<le> 2 ^ 26" using assms by (simp add: MATCH_BLOCKSIZE_def)
  have "(2 :: nat) ^ k \<le> 2 ^ 27" using k(3) n by (cases "k = 0") auto
  then have k27: "k \<le> 27" by (rule power_le_imp_le_exp [rotated]) simp
  then have small: "(2 :: nat) ^ Suc k \<le> 2 ^ 28" by (intro power_increasing) simp_all
  then have u: "unat (of_nat (2 ^ Suc k) :: 32 word) = 2 ^ Suc k"
    by (subst unat_of_nat) (simp del: power_Suc)
  let ?t = "\<lparr>bmax = of_nat (2 ^ Suc k) - 1, bdata = data,
      slots = replicate (2 ^ Suc k) \<lparr>adlersum = 0, block_pos = NO_POSITION\<rparr>\<rparr>"
  have unused: "\<not> used ?t s" if "s < 2 ^ Suc k" for s using that by (simp add: used_def del: power_Suc)
  then have "wf_table (Suc k) ?t"
    using k27 by (auto simp: wf_table_def wf_slot_def mask_eq_exp_minus_1 simp del: power_Suc)
  moreover have "used_slots ?t = {}" using unused by (auto simp: used_slots_def simp del: power_Suc)
  moreover have "\<not> in_table ?t tx" for tx using unused by (auto simp: in_table_def simp del: power_Suc)
  ultimately obtain t where t: "add_blocks_loop data 0 ?t = Inr t" "wf_table (Suc k) t" "bdata t = data"
    "card (used_slots t) \<le> length data div MATCH_BLOCKSIZE"
    "\<And>tx. in_table t tx \<longleftrightarrow> (\<exists>j. j * MATCH_BLOCKSIZE + MATCH_BLOCKSIZE \<le> length data \<and> tx = block_text data (j * MATCH_BLOCKSIZE))"
    using add_blocks_loop_ok [of "Suc k" ?t data 0 0] assms k(2) by (auto simp del: replicate.simps)
  have "\<exists>s < 2 ^ Suc k. \<not> used t s" using t(4) k(2) by (intro free_slot [OF t(2)]) simp
  moreover have "init_blocks_table data = Inr t"
    using t(1) k(1) u by (simp add: init_blocks_table_def Let_def mult.commute)
  ultimately show ?thesis using t by blast
qed

section \<open>The rolling checksum is the checksum\<close>

lemma adler_loop_start:
  "adler_loop inp s1 s2 = (case adler_loop inp 0 0 of (a1, a2) \<Rightarrow> (a1 + s1, a2 + of_nat (length inp) * s1 + s2))"
proof (induction inp arbitrary: s1 s2)
  case (Cons c inp)
  obtain a1 a2 where a: "adler_loop inp 0 0 = (a1, a2)" by fastforce
  show ?case
    using Cons [of "s1 + ucast c" "s2 + (s1 + ucast c)"] Cons [of "ucast c" "ucast c"]
    by (simp add: a algebra_simps)
qed simp

lemma adler_loop_snoc:
  "adler_loop (inp @ [c]) s1 s2 = (case adler_loop inp s1 s2 of (a1, a2) \<Rightarrow> (a1 + ucast c, a2 + (a1 + ucast c)))"
  by (induction inp arbitrary: s1 s2) simp_all

lemma checksum_roll:
  assumes "length inp + 1 = MATCH_BLOCKSIZE"
  shows "adler32_replace (checksum (c # inp)) c d = checksum (inp @ [d])"
proof -
  obtain a1 a2 where a: "adler_loop inp 0 0 = (a1, a2)" by fastforce
  have l: "length inp = 63" using assms by (simp add: MATCH_BLOCKSIZE_def)
  have "checksum (c # inp) = (a2 + 64 * ucast c) * 0x10000 + (a1 + ucast c)"
    using adler_loop_start [of inp "ucast c" "ucast c"] by (simp add: checksum_def a l algebra_simps)
  moreover have "checksum (inp @ [d]) = (a2 + (a1 + ucast d)) * 0x10000 + (a1 + ucast d)"
    by (simp add: checksum_def adler_loop_snoc a)
  moreover have "(a2 * 0x10000) * 0x10000 = (0 :: 32 word)"
  proof -
    have "(0x10000 :: 32 word) * 0x10000 = 0" by simp
    then show ?thesis by (simp only: mult.assoc mult_zero_right)
  qed
  ultimately show ?thesis
    by (simp add: adler32_replace_def MATCH_BLOCKSIZE_def Let_def algebra_simps)
qed

lemma roll_block:
  assumes "lo + MATCH_BLOCKSIZE < length b"
  shows "adler32_replace (checksum (block_text b lo)) (b ! lo) (b ! (lo + MATCH_BLOCKSIZE)) = checksum (block_text b (lo + 1))"
proof -
  let ?inp = "take 63 (drop (lo + 1) b)"
  have lo: "lo + 64 < length b" using assms by (simp add: MATCH_BLOCKSIZE_def)
  have "block_text b lo = b ! lo # ?inp"
    using lo take_drop_add [of 1 63 lo b] by (simp add: block_text_def MATCH_BLOCKSIZE_def take_Suc hd_drop_conv_nth)
  moreover have "block_text b (lo + 1) = ?inp @ [b ! (lo + 64)]"
    using lo take_drop_add [of 63 1 "lo + 1" b] by (simp add: block_text_def MATCH_BLOCKSIZE_def take_Suc hd_drop_conv_nth add.commute)
  moreover have "length ?inp + 1 = MATCH_BLOCKSIZE" using lo by (simp add: MATCH_BLOCKSIZE_def)
  ultimately show ?thesis using checksum_roll by (simp add: MATCH_BLOCKSIZE_def)
qed

section \<open>The instructions give the target\<close>

text \<open>The instructions so far are those for the first \<open>p\<close> bytes of the target.\<close>

definition delta_inv :: "byte list \<Rightarrow> byte list \<Rightarrow> svn_txdelta__ops_baton_t \<Rightarrow> nat \<Rightarrow> bool" where
  "delta_inv a b bb p \<longleftrightarrow> length a < 2 ^ 32 \<and> length b < 2 ^ 32 \<and> p \<le> length b
     \<and> wf_baton (length a) bb p \<and> baton_text a bb = take p b"

lemma unat_of_nat_small: "n < 2 ^ 32 \<Longrightarrow> unat (of_nat n :: 64 word) = n"
  by (simp add: unat_of_nat)

lemma take_step: "p \<le> q \<Longrightarrow> take p b @ take (q - p) (drop p b) = take q b"
  using take_add [of p "q - p" b] by simp

lemma insert_new_inv:
  assumes "delta_inv a b bb p" "p < q" "q \<le> length b"
  shows "svn_txdelta__insert_op bb svn_txdelta_new off (of_nat (q - p)) (drop p b)
      = Inr (insert_op bb svn_txdelta_new off (of_nat (q - p)) (drop p b))"
    and "delta_inv a b (insert_op bb svn_txdelta_new off (of_nat (q - p)) (drop p b)) q"
proof -
  have u: "unat (of_nat (q - p) :: 64 word) = q - p"
    using assms by (intro unat_of_nat_small) (auto simp: delta_inv_def intro: less_imp_diff_less)
  have "insertable (length a) p svn_txdelta_new (unat off) (unat (of_nat (q - p) :: 64 word)) (drop p b)"
    using assms unfolding u by (simp add: insertable_def delta_inv_def)
  from insertable_in_bounds [OF this] insert_op_ok [OF _ order_refl this] assms u
  show "svn_txdelta__insert_op bb svn_txdelta_new off (of_nat (q - p)) (drop p b)
      = Inr (insert_op bb svn_txdelta_new off (of_nat (q - p)) (drop p b))"
    "delta_inv a b (insert_op bb svn_txdelta_new off (of_nat (q - p)) (drop p b)) q"
    by (auto simp: delta_inv_def insert_bytes_def take_step)
qed

lemma insert_source_inv:
  assumes "delta_inv a b bb p" "0 < len" "apos + len \<le> length a" "p + len \<le> length b"
    and "take len (drop apos a) = take len (drop p b)"
  shows "delta_inv a b (insert_op bb svn_txdelta_source (of_nat apos) (of_nat len) []) (p + len)"
proof -
  have u: "unat (of_nat len :: 64 word) = len" "unat (of_nat apos :: 64 word) = apos"
    using assms by (auto simp: delta_inv_def intro!: unat_of_nat_small)
  have "insertable (length a) p svn_txdelta_source (unat (of_nat apos :: 64 word)) (unat (of_nat len :: 64 word)) []"
    using assms unfolding u by (simp add: insertable_def delta_inv_def)
  from insert_op_ok [OF _ order_refl this] assms u show ?thesis
    by (auto simp: delta_inv_def insert_bytes_def take_add)
qed

lemma remove_copy_inv:
  assumes "delta_inv a b bb p" "svn_txdelta__remove_copy bb max_len = (removed, bb')"
  shows "unat removed \<le> unat max_len \<and> unat removed \<le> p \<and> delta_inv a b bb' (p - unat removed)"
  using remove_copy_loop_ok [of "length a" bb p a 0 max_len removed bb'] assms
  by (auto simp: delta_inv_def svn_txdelta__remove_copy_def)

lemma store_delta_trailer_ok:
  assumes "delta_inv a b bb p" "a \<noteq> []"
  shows "\<exists>bb'. store_delta_trailer u bb a b p = Inr bb' \<and> delta_inv a b bb' (length b)"
proof -
  let ?max = "if length a > length b - p then length b - p else length a"
  have p: "p \<le> length b" using assms(1) by (simp add: delta_inv_def)
  show ?thesis
  proof (cases "?max = 0")
    case True
    then have "p = length b" using assms(2) p by (auto split: if_splits)
    with True assms(1) show ?thesis by (auto simp: store_delta_trailer_def)
  next
    case False
    have mx: "?max \<le> length a" "?max \<le> length b" by auto
    obtain m where m: "reverse_match_length u a (length a) b (length b) ?max = Inr m"
      "longest_reverse_match a (length a) b (length b) ?max m"
      using reverse_match_length_ok [OF mx(1) order_refl mx(2) order_refl] by blast
    define e where "e = (if m \<le> 4 then 0 else m)"
    have e: "e \<le> length a" "e \<le> length b - p" "ends_agree a (length a) b (length b) e"
      using m(2) by (auto simp: e_def longest_reverse_match_def ends_agree_def split: if_splits)
    define bb1 where "bb1 = (if length b - p > e
      then insert_op bb svn_txdelta_new (of_nat p) (of_nat (length b - p - e)) (drop p b) else bb)"
    have inv1: "delta_inv a b bb1 (length b - e)"
    proof (cases "length b - p > e")
      case True
      then have "length b - p - e = length b - e - p" "p < length b - e" by simp_all
      then show ?thesis using insert_new_inv(2) [OF assms(1), of "length b - e" "of_nat p"] True by (simp add: bb1_def)
    next
      case False
      then have "length b - e = p" using e(2) p by simp
      with False assms(1) show ?thesis by (simp add: bb1_def)
    qed
    have eq: "length b - p - e = length b - e - p" by simp
    have "svn_txdelta__insert_op bb svn_txdelta_new (of_nat p) (of_nat (length b - p - e)) (drop p b)
        = Inr (insert_op bb svn_txdelta_new (of_nat p) (of_nat (length b - p - e)) (drop p b))" if "length b - p > e"
      unfolding eq by (rule insert_new_inv(1) [OF assms(1)]) (use that in linarith)+
    then have bb1: "(if length b - p > e
        then svn_txdelta__insert_op bb svn_txdelta_new (of_nat p) (of_nat (length b - p - e)) (drop p b)
        else Inr bb) = Inr bb1" unfolding bb1_def by (cases "length b - p > e") (simp_all only: if_True if_False)
    have r: "store_delta_trailer u bb a b p = Inr (if e \<noteq> 0
        then insert_op bb1 svn_txdelta_source (of_nat (length a - e)) (of_nat e) [] else bb1)"
      unfolding store_delta_trailer_def Let_def
      by (simp only: False if_False m(1) SVN_ERR_simps e_def [symmetric] bb1) simp
    show ?thesis
    proof (cases "e = 0")
      case True
      with r inv1 show ?thesis by simp
    next
      case nz: False
      have "take e (drop (length a - e) a) = take e (drop (length b - e) b)" using e(3) by (simp add: ends_agree_def)
      then have "delta_inv a b (insert_op bb1 svn_txdelta_source (of_nat (length a - e)) (of_nat e) []) (length b - e + e)"
        using nz e by (intro insert_source_inv inv1) simp_all
      with r nz e(2) show ?thesis by simp
    qed
  qed
qed

text \<open>A match: equal bytes, not before the pending data, beyond the current block.\<close>

definition is_match :: "byte list \<Rightarrow> byte list \<Rightarrow> nat \<Rightarrow> nat \<Rightarrow> nat \<times> nat \<times> nat \<Rightarrow> bool" where
  "is_match a b p lo m \<longleftrightarrow> (case m of (apos, lo', len) \<Rightarrow>
     apos + len \<le> length a \<and> lo' + len \<le> length b \<and> p \<le> lo' \<and> lo < lo' + len \<and> 0 < len
     \<and> take len (drop apos a) = take len (drop lo' b))"

lemma find_match_ok:
  assumes "wf_table k t" "bdata t = a" "\<exists>s < 2 ^ k. \<not> used t s" "lo + MATCH_BLOCKSIZE \<le> length b" "p \<le> lo"
  shows "\<exists>r. find_match u t (checksum (block_text b lo)) a b lo p = Inr r
    \<and> (r = None \<longleftrightarrow> \<not> in_table t (block_text b lo)) \<and> (\<forall>m. r = Some m \<longrightarrow> is_match a b p lo m)"
proof -
  obtain q where q: "find_block t (checksum (block_text b lo)) b lo = Inr q"
    "q \<noteq> NO_POSITION \<longleftrightarrow> in_table t (block_text b lo)"
    "q \<noteq> NO_POSITION \<longrightarrow> unat q + MATCH_BLOCKSIZE \<le> length a \<and> block_text a (unat q) = block_text b lo"
    using find_block_ok [OF assms(1,3,4)] assms(2) by blast
  show ?thesis
  proof (cases "q = NO_POSITION")
    case True
    with q show ?thesis by (simp add: find_match_def)
  next
    case False
    let ?max = "if length a - unat q - MATCH_BLOCKSIZE < length b - lo - MATCH_BLOCKSIZE
                then length a - unat q - MATCH_BLOCKSIZE else length b - lo - MATCH_BLOCKSIZE"
    have b: "unat q + MATCH_BLOCKSIZE \<le> length a" "block_text a (unat q) = block_text b lo" using q(3) False by simp_all
    have mx: "unat q + MATCH_BLOCKSIZE + ?max \<le> length a" "lo + MATCH_BLOCKSIZE + ?max \<le> length b"
      using b(1) assms(4) by auto
    obtain d where d: "match_length u a (unat q + MATCH_BLOCKSIZE) b (lo + MATCH_BLOCKSIZE) ?max = Inr d" "d \<le> ?max"
      "take d (drop (unat q + MATCH_BLOCKSIZE) a) = take d (drop (lo + MATCH_BLOCKSIZE) b)"
      using match_length_ok [OF mx, of u] by (auto simp: longest_match_def)
    have "take (MATCH_BLOCKSIZE + d) (drop (unat q) a) = take (MATCH_BLOCKSIZE + d) (drop lo b)"
      using b(2) d(3) by (simp only: take_drop_add block_text_def)
    moreover have "unat q + (MATCH_BLOCKSIZE + d) \<le> length a" "lo + (MATCH_BLOCKSIZE + d) \<le> length b"
      using mx d(2) by linarith+
    ultimately obtain j where j: "back_loop a b p (unat q) lo d = Inr (unat q - j, lo - j, d + j)" "j \<le> unat q" "p + j \<le> lo"
      "take (MATCH_BLOCKSIZE + d + j) (drop (unat q - j) a) = take (MATCH_BLOCKSIZE + d + j) (drop (lo - j) b)"
      using back_loop_ok [of "unat q" "MATCH_BLOCKSIZE + d" a lo b p d] assms(5) by blast
    have "find_match u t (checksum (block_text b lo)) a b lo p = Inr (Some (unat q - j, lo - j, MATCH_BLOCKSIZE + (d + j)))"
      using q(1) False d(1) j(1) by (simp add: find_match_def Let_def)
    moreover have "is_match a b p lo (unat q - j, lo - j, MATCH_BLOCKSIZE + (d + j))"
      using j(2-4) \<open>unat q + (MATCH_BLOCKSIZE + d) \<le> length a\<close> \<open>lo + (MATCH_BLOCKSIZE + d) \<le> length b\<close>
      by (simp add: is_match_def MATCH_BLOCKSIZE_def add.assoc)
    ultimately show ?thesis using q(2) False by simp
  qed
qed

lemma before_match_ok:
  assumes "delta_inv a b bb p" "is_match a b p lo (apos, lo1, len)"
  shows "\<exists>bb' apos' lo' len'. before_match u bb a b p apos lo1 len = Inr (bb', apos', lo', len')
    \<and> delta_inv a b bb' lo' \<and> is_match a b 0 lo (apos', lo', len')"
proof (cases "lo1 - p > 0")
  case True
  then show ?thesis
    using assms insert_new_inv [OF assms(1), of lo1 0] by (auto simp: before_match_def is_match_def)
next
  case False
  then have p: "lo1 = p" using assms(2) by (simp add: is_match_def)
  let ?max = "if apos < lo1 then apos else lo1"
  have mx: "?max \<le> apos" "apos \<le> length a" "?max \<le> lo1" "lo1 \<le> length b" using assms(2) by (auto simp: is_match_def)
  obtain n where n: "reverse_match_length u a apos b lo1 ?max = Inr n" "n \<le> ?max" "ends_agree a apos b lo1 n"
    using reverse_match_length_ok [of ?max apos a lo1 b u] mx unfolding longest_reverse_match_def by blast
  show ?thesis
  proof (cases "n > 0")
    case no: False
    then show ?thesis using False n(1) assms p by (auto simp: before_match_def is_match_def)
  next
    case True
    obtain removed bb' where r: "svn_txdelta__remove_copy bb (of_nat n) = (removed, bb')" by fastforce
    have "n < 2 ^ 32" using n(2) assms by (auto simp: is_match_def delta_inv_def split: if_splits)
    then have u: "unat (of_nat n :: 64 word) = n" by (rule unat_of_nat_small)
    let ?r = "unat removed"
    have rr: "?r \<le> n" "?r \<le> p" "delta_inv a b bb' (p - ?r)" using remove_copy_inv [OF assms(1) r] u by auto
    have le: "?r \<le> apos" "?r \<le> lo1" using rr(1) n(2) by (auto split: if_splits)
    have "take ?r (drop (apos - ?r) a) = take ?r (drop (lo1 - ?r) b)"
    proof -
      have "drop (n - ?r) (take n (drop (apos - n) a)) = drop (n - ?r) (take n (drop (lo1 - n) b))"
        using n(3) by (simp add: ends_agree_def)
      moreover have "n - (n - ?r) = ?r" "apos - n + (n - ?r) = apos - ?r" "lo1 - n + (n - ?r) = lo1 - ?r"
        using rr(1) n(2) by (auto split: if_splits)
      ultimately show ?thesis by (simp add: drop_take add.commute)
    qed
    then have "take (?r + len) (drop (apos - ?r) a) = take (?r + len) (drop (lo1 - ?r) b)"
      using le assms(2) by (simp add: take_drop_add is_match_def)
    then have "is_match a b 0 lo (apos - ?r, lo1 - ?r, len + ?r)"
      using le assms(2) by (simp add: is_match_def add.commute)
    then show ?thesis using False n(1) True r rr(3) p by (auto simp: before_match_def)
  qed
qed

lemma compute_loop_ok:
  assumes "wf_table k t" "bdata t = a" "\<exists>s < 2 ^ k. \<not> used t s"
  shows "delta_inv a b bb p \<Longrightarrow> p \<le> lo \<Longrightarrow> lo \<le> length b \<Longrightarrow>
    (lo + MATCH_BLOCKSIZE \<le> length b \<longrightarrow> rolling = checksum (block_text b lo)) \<Longrightarrow>
    \<exists>bb' p'. compute_loop u t a b bb lo p rolling = Inr (bb', p') \<and> delta_inv a b bb' p'"
proof (induction "length b - lo" arbitrary: bb lo p rolling rule: less_induct)
  case less
  note loop = compute_loop.simps [of u t a b bb lo p rolling]
  show ?case
  proof (cases "lo < length b")
    case False
    then have "compute_loop u t a b bb lo p rolling = Inr (bb, p)" by (simp add: loop)
    then show ?thesis using less.prems(1) by blast
  next
    case True
    let ?m = "if lo + MATCH_BLOCKSIZE \<le> length b then find_match u t rolling a b lo p else Inr None"
    obtain r where r: "?m = Inr r" "\<forall>m. r = Some m \<longrightarrow> is_match a b p lo m"
      using find_match_ok [OF assms, of lo b p u] less.prems(2,4) by (cases "lo + MATCH_BLOCKSIZE \<le> length b") auto
    show ?thesis
    proof (cases r)
      case None
      let ?roll = "if lo + MATCH_BLOCKSIZE < length b
                     then SVN_ERR (read_block b lo 1) (\<lambda>c_out.
                          SVN_ERR (read_block b (lo + MATCH_BLOCKSIZE) 1) (\<lambda>c_in.
                          Inr (adler32_replace rolling (hd c_out) (hd c_in))))
                     else Inr rolling"
      obtain rolling' where roll: "?roll = Inr rolling'"
        "lo + 1 + MATCH_BLOCKSIZE \<le> length b \<longrightarrow> rolling' = checksum (block_text b (lo + 1))"
        using roll_block [of lo b] less.prems(4)
        by (cases "lo + MATCH_BLOCKSIZE < length b") (auto simp: read_block_def take_Suc hd_drop_conv_nth)
      have "\<exists>bb' p'. compute_loop u t a b bb (lo + 1) p rolling' = Inr (bb', p') \<and> delta_inv a b bb' p'"
        using less.hyps [of "lo + 1" bb p rolling'] less.prems(1,2) True roll(2) by simp
      then show ?thesis using True r(1) None roll(1) by (simp add: loop)
    next
      case (Some m)
      obtain apos lo1 len where m: "m = (apos, lo1, len)" using prod_cases3 by blast
      obtain bb1 apos1 lo2 len1 where bm: "before_match u bb a b p apos lo1 len = Inr (bb1, apos1, lo2, len1)"
        "delta_inv a b bb1 lo2" "is_match a b 0 lo (apos1, lo2, len1)"
        using before_match_ok [OF less.prems(1), of lo apos lo1 len u] r(2) Some m by blast
      let ?lo = "lo2 + len1"
      let ?bb = "insert_op bb1 svn_txdelta_source (of_nat apos1) (of_nat len1) []"
      have inv: "delta_inv a b ?bb ?lo" using bm(3) by (intro insert_source_inv bm(2)) (simp_all add: is_match_def)
      obtain rolling' where roll: "(if ?lo + MATCH_BLOCKSIZE \<le> length b then init_adler32 b ?lo else Inr rolling) = Inr rolling'"
        "?lo + MATCH_BLOCKSIZE \<le> length b \<longrightarrow> rolling' = checksum (block_text b ?lo)"
        using init_adler32_ok [of ?lo b] by (cases "?lo + MATCH_BLOCKSIZE \<le> length b") auto
      have "\<exists>bb' p'. compute_loop u t a b ?bb ?lo ?lo rolling' = Inr (bb', p') \<and> delta_inv a b bb' p'"
      proof (rule less.hyps [OF _ inv order_refl _ roll(2)])
        show "length b - ?lo < length b - lo" "?lo \<le> length b" using bm(3) True by (auto simp: is_match_def)
      qed
      then show ?thesis using True r(1) Some m bm(1) roll(1) by (simp add: loop Let_def)
    qed
  qed
qed

lemma compute_delta_ok:
  assumes "length a < 2 ^ 32" "length b < 2 ^ 32" "a \<noteq> []" "b \<noteq> []"
  shows "\<exists>bb. compute_delta u \<lparr>bsrc_ops = 0, bops = [], bnew_data = []\<rparr> a b = Inr bb \<and> delta_inv a b bb (length b)"
proof -
  let ?bb = "\<lparr>bsrc_ops = 0, bops = [], bnew_data = []\<rparr>"
  have start: "delta_inv a b ?bb 0" using assms by (simp add: delta_inv_def wf_baton_def baton_text_def)
  let ?max = "if length a > length b then length b else length a"
  have mx: "0 + ?max \<le> length a" "0 + ?max \<le> length b" by auto
  obtain m where m: "match_length u a 0 b 0 ?max = Inr m" "m \<le> ?max" "take m a = take m b"
    using match_length_ok [of 0 ?max a 0 b u] mx unfolding longest_match_def by auto
  define bb lo where "bb = (if m > 4 \<or> m = length b then insert_op ?bb svn_txdelta_source 0 (of_nat m) [] else ?bb)"
    and "lo = (if m > 4 \<or> m = length b then m else 0)"
  have inv: "delta_inv a b bb lo"
    using start insert_source_inv [OF start, of m 0] m(2,3) assms(4) by (auto simp: bb_def lo_def split: if_splits)
  have step: "compute_delta u ?bb a b =
     (if length b - lo < MATCH_BLOCKSIZE \<or> length a < MATCH_BLOCKSIZE then store_delta_trailer u bb a b lo
      else SVN_ERR (init_blocks_table a) (\<lambda>blocks.
          SVN_ERR (init_adler32 b lo) (\<lambda>rolling.
          SVN_ERR (compute_loop u blocks a b bb lo lo rolling)
            (\<lambda>(baton2, pending_insert_start). store_delta_trailer u baton2 a b pending_insert_start))))"
    using m(1) by (simp add: compute_delta_def Let_def bb_def lo_def)
  show ?thesis
  proof (cases "length b - lo < MATCH_BLOCKSIZE \<or> length a < MATCH_BLOCKSIZE")
    case True
    then show ?thesis using store_delta_trailer_ok [OF inv assms(3), of u] by (simp add: step)
  next
    case False
    then have lo: "lo + MATCH_BLOCKSIZE \<le> length b" using inv unfolding delta_inv_def by linarith
    obtain k t where t: "init_blocks_table a = Inr t" "wf_table k t" "bdata t = a" "\<exists>s < 2 ^ k. \<not> used t s"
      using init_blocks_table_ok [OF assms(1)] by blast
    obtain bb' p' where "compute_loop u t a b bb lo lo (checksum (block_text b lo)) = Inr (bb', p')" "delta_inv a b bb' p'"
      using compute_loop_ok [OF t(2-4) inv order_refl] lo by fastforce
    moreover from this obtain bb'' where "store_delta_trailer u bb' a b p' = Inr bb''" "delta_inv a b bb'' (length b)"
      using store_delta_trailer_ok [OF _ assms(3)] by blast
    ultimately show ?thesis using False t(1) init_adler32_ok [OF lo] by (simp add: step)
  qed
qed

section \<open>Properties\<close>

text \<open>
  C14. The delta of one window is right: for a source and a target that are not empty, the
  computation ends without a failed assertion or an access out of bounds, with and without
  unaligned access, and the instructions are well formed for the two sizes and give exactly
  the target when they are applied to the source.
\<close>

theorem xdelta_correct:
  assumes "0 < source_len" "0 < target_len" "source_len + target_len \<le> length data"
    and "source_len < 2 ^ 32" "target_len < 2 ^ 32"
  shows "\<exists>b. svn_txdelta__xdelta unaligned \<lparr>bsrc_ops = 0, bops = [], bnew_data = []\<rparr> data source_len target_len = Inr b
    \<and> wf_baton source_len b target_len
    \<and> baton_text (take source_len data) b = take target_len (drop source_len data)"
proof -
  let ?a = "take source_len data" and ?b = "take target_len (drop source_len data)"
  have "length ?a = source_len" "length ?b = target_len" using assms(3) by simp_all
  moreover from this have "?a \<noteq> []" "?b \<noteq> []" using assms(1,2) by fastforce+
  ultimately obtain b where "compute_delta unaligned \<lparr>bsrc_ops = 0, bops = [], bnew_data = []\<rparr> ?a ?b = Inr b"
    "delta_inv ?a ?b b target_len"
    using compute_delta_ok [of ?a ?b unaligned] assms(4,5) by auto
  then show ?thesis
    using assms(1,3) \<open>length ?a = source_len\<close> \<open>length ?b = target_len\<close>
    by (simp add: svn_txdelta__xdelta_def read_block_def delta_inv_def)
qed

theorem xdelta_correct_witness:
  "\<exists>b. svn_txdelta__xdelta True \<lparr>bsrc_ops = 0, bops = [], bnew_data = []\<rparr> [1, 2, 3, 4, 5, 6, 1, 2, 3, 4, 5, 9] 6 6 = Inr b
    \<and> wf_baton 6 b 6 \<and> baton_text (take 6 [1, 2, 3, 4, 5, 6, 1, 2, 3, 4, 5, 9]) b =
        take 6 (drop 6 [1, 2, 3, 4, 5, 6, 1, 2, 3, 4, 5, 9])"
  by (rule xdelta_correct) simp_all

text \<open>
  C21. The table of blocks implements the set of the source blocks at multiples of the block
  size: building it never runs into the endless search of a full table, and looking up the
  contents at a position of the target finds a block exactly when the set has one with these
  contents, and then one with these contents.
\<close>

theorem block_table_exact:
  assumes "length a < 2 ^ 32"
  shows "\<exists>blocks. init_blocks_table a = Inr blocks \<and>
    (\<forall>b lo. lo + MATCH_BLOCKSIZE \<le> length b \<longrightarrow>
      (\<exists>rolling p. init_adler32 b lo = Inr rolling \<and> find_block blocks rolling b lo = Inr p
        \<and> (p \<noteq> NO_POSITION \<longleftrightarrow> (\<exists>j. j * MATCH_BLOCKSIZE + MATCH_BLOCKSIZE \<le> length a
              \<and> block_text b lo = block_text a (j * MATCH_BLOCKSIZE)))
        \<and> (p \<noteq> NO_POSITION \<longrightarrow> unat p + MATCH_BLOCKSIZE \<le> length a \<and> block_text a (unat p) = block_text b lo)))"
proof -
  obtain k t where t: "init_blocks_table a = Inr t" "wf_table k t" "bdata t = a" "\<exists>s < 2 ^ k. \<not> used t s"
    "\<And>tx. in_table t tx \<longleftrightarrow> (\<exists>j. j * MATCH_BLOCKSIZE + MATCH_BLOCKSIZE \<le> length a \<and> tx = block_text a (j * MATCH_BLOCKSIZE))"
    using init_blocks_table_ok [OF assms] by blast
  then show ?thesis using find_block_ok [OF t(2,4)] init_adler32_ok by (intro exI [of _ t]) auto
qed

theorem block_table_exact_witness:
  "\<exists>blocks. init_blocks_table (replicate 128 7) = Inr blocks \<and>
    (\<exists>rolling p. init_adler32 (replicate 65 7) 1 = Inr rolling \<and> find_block blocks rolling (replicate 65 7) 1 = Inr p
      \<and> p \<noteq> NO_POSITION)"
proof -
  have "\<exists>j. j * 64 + 64 \<le> (128 :: nat) \<and> block_text (replicate 65 7) 1 = block_text (replicate 128 7) (j * 64)"
    by (rule exI [of _ 0]) (simp add: block_text_def MATCH_BLOCKSIZE_def take_replicate)
  then show ?thesis
    using block_table_exact [of "replicate 128 7"]
    by (auto simp: MATCH_BLOCKSIZE_def dest!: spec [of _ "replicate 65 7"] spec [of _ 1])
qed

text \<open>
  Moving the checksum on by one byte gives the checksum of the next block, computed in
  32-bit arithmetic.
\<close>

theorem adler32_rolls:
  assumes "lo + MATCH_BLOCKSIZE < length b"
  shows "\<exists>rolling. init_adler32 b lo = Inr rolling
    \<and> init_adler32 b (lo + 1) = Inr (adler32_replace rolling (b ! lo) (b ! (lo + MATCH_BLOCKSIZE)))"
  using assms init_adler32_ok [of lo b] init_adler32_ok [of "lo + 1" b] roll_block [OF assms] by simp

theorem adler32_rolls_witness:
  "\<exists>rolling. init_adler32 (replicate 70 200) 3 = Inr rolling
    \<and> init_adler32 (replicate 70 200) (3 + 1) =
        Inr (adler32_replace rolling (replicate 70 200 ! 3) (replicate 70 200 ! (3 + MATCH_BLOCKSIZE)))"
  by (rule adler32_rolls) (simp add: MATCH_BLOCKSIZE_def)

text \<open>
  C30. The search for matches by eight bytes at a time returns the same as the search byte by
  byte, forwards and backwards: the length of the longest agreement within the limit.
\<close>

theorem match_length_equivalent:
  assumes "i + max_len \<le> length a" "j + max_len \<le> length b"
  shows "\<exists>m n. match_length True a i b j max_len = Inr m \<and> match_length False a i b j max_len = Inr m
    \<and> longest_match a i b j max_len m
    \<and> reverse_match_length True a (i + max_len) b (j + max_len) max_len = Inr n
    \<and> reverse_match_length False a (i + max_len) b (j + max_len) max_len = Inr n
    \<and> longest_reverse_match a (i + max_len) b (j + max_len) max_len n"
proof -
  obtain m m' where m: "match_length True a i b j max_len = Inr m" "longest_match a i b j max_len m"
    "match_length False a i b j max_len = Inr m'" "longest_match a i b j max_len m'"
    using match_length_ok [OF assms] by blast
  have eq: "m = m'" using longest_match_unique [OF m(2,4) assms] .
  obtain n n' where n: "reverse_match_length True a (i + max_len) b (j + max_len) max_len = Inr n"
    "longest_reverse_match a (i + max_len) b (j + max_len) max_len n"
    "reverse_match_length False a (i + max_len) b (j + max_len) max_len = Inr n'"
    "longest_reverse_match a (i + max_len) b (j + max_len) max_len n'"
    using reverse_match_length_ok [OF le_add2 assms(1) le_add2 assms(2)] by blast
  have "n = n'" using longest_reverse_match_unique [OF n(2,4)] assms by simp
  with m n eq show ?thesis by simp
qed

theorem match_length_equivalent_witness:
  "\<exists>m n. match_length True [1, 2, 3, 4, 5, 6, 7, 8, 9, 10] 0 [1, 2, 3, 4, 5, 6, 7, 8, 9, 11] 0 10 = Inr m
    \<and> match_length False [1, 2, 3, 4, 5, 6, 7, 8, 9, 10] 0 [1, 2, 3, 4, 5, 6, 7, 8, 9, 11] 0 10 = Inr m
    \<and> longest_match [1, 2, 3, 4, 5, 6, 7, 8, 9, 10] 0 [1, 2, 3, 4, 5, 6, 7, 8, 9, 11] 0 10 m
    \<and> reverse_match_length True [1, 2, 3, 4, 5, 6, 7, 8, 9, 10] (0 + 10) [1, 2, 3, 4, 5, 6, 7, 8, 9, 11] (0 + 10) 10 = Inr n
    \<and> reverse_match_length False [1, 2, 3, 4, 5, 6, 7, 8, 9, 10] (0 + 10) [1, 2, 3, 4, 5, 6, 7, 8, 9, 11] (0 + 10) 10 = Inr n
    \<and> longest_reverse_match [1, 2, 3, 4, 5, 6, 7, 8, 9, 10] (0 + 10) [1, 2, 3, 4, 5, 6, 7, 8, 9, 11] (0 + 10) 10 n"
  by (rule match_length_equivalent) simp_all

end
