(* ===== verification/Svndiff.thy ===== *)
theory Svndiff
  imports Txdelta
begin

text \<open>
  The svndiff format (libsvn\_delta/svndiff.c): encoding text delta windows as bytes and
  decoding them again, from a buffer that arrives in pieces or window by window from a
  stream. The functions of zlib are parameters.
\<close>

section \<open>Integers of variable length\<close>

definition MAX_ENCODED_INT_LEN :: nat where
  "MAX_ENCODED_INT_LEN = 10"

definition MAX_INSTRUCTION_LEN :: nat where
  "MAX_INSTRUCTION_LEN = 2 * MAX_ENCODED_INT_LEN + 1"

definition MAX_INSTRUCTION_SECTION_LEN :: apr_size_t where
  "MAX_INSTRUCTION_SECTION_LEN = SVN_DELTA_WINDOW_SIZE * of_nat MAX_INSTRUCTION_LEN"

text \<open>
  The number of bytes needed; the value is not negative where this is used, so that the
  shift and the comparison are those of an unsigned value.
\<close>

function int_len_loop :: "svn_filesize_t \<Rightarrow> nat \<Rightarrow> nat" where
  "int_len_loop v n = (if v > 0 then int_len_loop (drop_bit 7 v) (n + 1) else n)"
  by pat_completeness auto
termination
proof (relation "measure (\<lambda>(v, n). unat v)")
  fix v :: svn_filesize_t and n
  assume "v > 0"
  then have "unat v > 0" by (simp add: word_less_nat_alt)
  then have "unat v div 128 < unat v" by simp
  then show "((drop_bit 7 v, n + 1), v, n) \<in> measure (\<lambda>(v, n). unat v)"
    by (simp add: drop_bit_eq_div unat_div)
qed simp

declare int_len_loop.simps [simp del]

fun encode_bytes :: "svn_filesize_t \<Rightarrow> nat \<Rightarrow> byte list" where
  "encode_bytes val 0 = []"
| "encode_bytes val (Suc n) =
     (ucast (drop_bit (7 * n) val AND 0x7f) OR (if n > 0 then 0x80 else 0)) # encode_bytes val n"

definition encode_int :: "svn_filesize_t \<Rightarrow> byte list svn_result" where
  "encode_int val =
     SVN_ERR_ASSERT (sint val \<ge> 0) (
     let n = int_len_loop (drop_bit 7 val) 1 in
     SVN_ERR_ASSERT (n \<le> MAX_ENCODED_INT_LEN) (Inr (encode_bytes val n)))"

definition append_encoded_int :: "byte list \<Rightarrow> svn_filesize_t \<Rightarrow> byte list svn_result" where
  "append_encoded_int header val = SVN_ERR (encode_int val) (\<lambda>buf. Inr (header @ buf))"

text \<open>The decoding loop over the bytes up to the end; no result when they run out.\<close>

fun decode_loop :: "64 word \<Rightarrow> byte list \<Rightarrow> (64 word \<times> byte list) option" where
  "decode_loop temp [] = None"
| "decode_loop temp (c # p) =
     (let temp' = push_bit 7 temp OR (ucast c AND 0x7f) in
      if c < 0x80 then Some (temp', p) else decode_loop temp' p)"

definition decode_file_offset :: "byte list \<Rightarrow> (svn_filesize_t \<times> byte list) option" where
  "decode_file_offset p =
     map_option (\<lambda>(val, rest). (val, rest @ drop MAX_ENCODED_INT_LEN p))
       (decode_loop 0 (take MAX_ENCODED_INT_LEN p))"

definition decode_size :: "byte list \<Rightarrow> (apr_size_t \<times> byte list) option" where
  "decode_size p =
     map_option (\<lambda>(val, rest). (val, rest @ drop MAX_ENCODED_INT_LEN p))
       (decode_loop 0 (take MAX_ENCODED_INT_LEN p))"

section \<open>Compression\<close>

definition MIN_COMPRESS_SIZE :: nat where
  "MIN_COMPRESS_SIZE = 512"

definition SVN_DELTA_COMPRESSION_LEVEL_NONE :: int where
  "SVN_DELTA_COMPRESSION_LEVEL_NONE = 0"

text \<open>The Subversion error for a status of zlib other than \<open>Z_OK\<close>.\<close>

definition svn_error__wrap_zlib :: "int \<Rightarrow> svn_errcode" where
  "svn_error__wrap_zlib zerr =
     (if zerr = -2 then SVN_ERR_STREAM_MALFORMED_DATA
      else if zerr = -4 then APR_ENOMEM
      else if zerr = -5 then APR_ENOMEM
      else if zerr = -6 then SVN_ERR_STREAM_UNRECOGNIZED_DATA
      else if zerr = -3 then SVN_ERR_STREAM_MALFORMED_DATA
      else SVN_ERR_STREAM_UNRECOGNIZED_DATA)"

text \<open>
  A compressor maps data and a level to a status or the compressed data; an uncompressor
  gets the size of the output buffer too.
\<close>

type_synonym compressor = "byte list \<Rightarrow> int \<Rightarrow> int + byte list"
type_synonym uncompressor = "nat \<Rightarrow> byte list \<Rightarrow> int + byte list"

definition zlib_encode :: "compressor \<Rightarrow> byte list \<Rightarrow> int \<Rightarrow> byte list svn_result" where
  "zlib_encode compress2 data compression_level =
     SVN_ERR (append_encoded_int [] (of_nat (length data))) (\<lambda>out.
     if length data < MIN_COMPRESS_SIZE \<or> compression_level = SVN_DELTA_COMPRESSION_LEVEL_NONE
     then Inr (out @ data)
     else case compress2 data compression_level of
            Inl zerr \<Rightarrow> Inl (svn_error__wrap_zlib zerr)
          | Inr compressed \<Rightarrow>
              if length compressed \<ge> length data then Inr (out @ data)
              else Inr (out @ compressed))"

definition zlib_decode :: "uncompressor \<Rightarrow> byte list \<Rightarrow> apr_size_t \<Rightarrow> byte list svn_result" where
  "zlib_decode uncompress inp limit =
     (case decode_size inp of
        None \<Rightarrow> Inl SVN_ERR_SVNDIFF_INVALID_COMPRESSED_DATA
      | Some (len, rest) \<Rightarrow>
          if len > limit then Inl SVN_ERR_SVNDIFF_INVALID_COMPRESSED_DATA
          else if length rest = unat len then Inr rest
          else case uncompress (unat len) rest of
                 Inl zerr \<Rightarrow> Inl (svn_error__wrap_zlib zerr)
               | Inr out \<Rightarrow>
                   if length out \<noteq> unat len then Inl SVN_ERR_SVNDIFF_INVALID_COMPRESSED_DATA
                   else Inr out)"

section \<open>Encoding windows\<close>

record encoder_baton =
  enc_output :: "byte list"
  enc_closed :: bool
  header_done :: bool
  enc_version :: nat
  compression_level :: int

definition svn_txdelta_to_svndiff3 :: "nat \<Rightarrow> int \<Rightarrow> encoder_baton" where
  "svn_txdelta_to_svndiff3 svndiff_version level =
     \<lparr>enc_output = [], enc_closed = False, header_done = False, enc_version = svndiff_version,
      compression_level = level\<rparr>"

definition action_byte :: "svn_delta_action \<Rightarrow> byte" where
  "action_byte action = (case action of
      svn_txdelta_source \<Rightarrow> 0 | svn_txdelta_target \<Rightarrow> push_bit 6 1 | svn_txdelta_new \<Rightarrow> push_bit 6 2)"

definition encode_instruction :: "svn_txdelta_op_t \<Rightarrow> byte list svn_result" where
  "encode_instruction op =
     SVN_ERR
       (if drop_bit 6 (oplen op) = 0
        then Inr [action_byte (action_code op) OR ucast (oplen op)]
        else SVN_ERR (encode_int (oplen op)) (\<lambda>bs. Inr (action_byte (action_code op) # bs)))
       (\<lambda>ip.
          if action_code op \<noteq> svn_txdelta_new
          then SVN_ERR (encode_int (offset op)) (\<lambda>bs. Inr (ip @ bs))
          else Inr ip)"

fun encode_instructions :: "svn_txdelta_op_t list \<Rightarrow> byte list svn_result" where
  "encode_instructions [] = Inr []"
| "encode_instructions (op # rest) =
     SVN_ERR (encode_instruction op) (\<lambda>bs.
     SVN_ERR (encode_instructions rest) (\<lambda>more_bs. Inr (bs @ more_bs)))"

definition svndiff_header :: "nat \<Rightarrow> byte list" where
  "svndiff_header version = [83, 86, 78, of_nat version]"

text \<open>The bytes of one window.\<close>

definition encode_window :: "compressor \<Rightarrow> nat \<Rightarrow> int \<Rightarrow> svn_txdelta_window_t \<Rightarrow> byte list svn_result" where
  "encode_window compress2 version level window =
     SVN_ERR (encode_instructions (ops window)) (\<lambda>instructions.
     SVN_ERR (append_encoded_int [] (sview_offset window)) (\<lambda>header1.
     SVN_ERR (append_encoded_int header1 (sview_len window)) (\<lambda>header2.
     SVN_ERR (append_encoded_int header2 (tview_len window)) (\<lambda>header3.
     SVN_ERR (if version = 1 then zlib_encode compress2 instructions level else Inr instructions)
       (\<lambda>instructions'.
     SVN_ERR (append_encoded_int header3 (of_nat (length instructions'))) (\<lambda>header4.
     SVN_ERR (if version = 1 then zlib_encode compress2 (new_data window) level else Inr (new_data window))
       (\<lambda>newdata.
     SVN_ERR (append_encoded_int header4 (of_nat (length newdata))) (\<lambda>header5.
     Inr (header5 @ instructions' @ newdata)))))))))"

definition window_handler ::
  "compressor \<Rightarrow> svn_txdelta_window_t option \<Rightarrow> encoder_baton \<Rightarrow> encoder_baton svn_result" where
  "window_handler compress2 win eb =
     (let eb' = (if header_done eb then eb
                 else eb\<lparr>enc_output := enc_output eb @ svndiff_header (enc_version eb), header_done := True\<rparr>)
      in case win of
           None \<Rightarrow> Inr (eb'\<lparr>enc_closed := True\<rparr>)
         | Some window \<Rightarrow>
             SVN_ERR (encode_window compress2 (enc_version eb') (compression_level eb') window) (\<lambda>bs.
             Inr (eb'\<lparr>enc_output := enc_output eb' @ bs\<rparr>)))"

section \<open>Decoding instructions\<close>

text \<open>The offset of an instruction that takes new data is not set here.\<close>

definition decode_instruction :: "byte list \<Rightarrow> (svn_txdelta_op_t \<times> byte list) option" where
  "decode_instruction p =
     (case p of
        [] \<Rightarrow> None
      | c # p1 \<Rightarrow>
          let action = drop_bit 6 c AND 3 in
          if action \<ge> 3 then None
          else
            let code = (if action = 0 then svn_txdelta_source
                        else if action = 1 then svn_txdelta_target else svn_txdelta_new);
                len = ucast (c AND 0x3f) :: apr_size_t
            in Option.bind (if len = 0 then decode_size p1 else Some (len, p1)) (\<lambda>(len', p2).
               Option.bind (if code \<noteq> svn_txdelta_new then decode_size p2 else Some (0, p2)) (\<lambda>(off, p3).
               Some (\<lparr>action_code = code, offset = off, oplen = len'\<rparr>, p3))))"

lemma decode_loop_shorter: "decode_loop temp p = Some (v, rest) \<Longrightarrow> length rest < length p"
  by (induction p arbitrary: temp) (fastforce simp: Let_def split: if_splits)+

lemma decode_size_shorter: "decode_size p = Some (v, rest) \<Longrightarrow> length rest < length p"
  by (auto simp: decode_size_def dest!: decode_loop_shorter split: if_splits)

lemma decode_instruction_shorter: "decode_instruction p = Some (op, rest) \<Longrightarrow> length rest < length p"
  by (cases p) (auto simp: decode_instruction_def Let_def Option.bind_eq_Some_conv split: if_splits
      dest!: decode_size_shorter)

function verify_loop ::
  "byte list \<Rightarrow> apr_size_t \<Rightarrow> apr_size_t \<Rightarrow> apr_size_t \<Rightarrow> nat \<Rightarrow> apr_size_t \<Rightarrow> apr_size_t \<Rightarrow> nat svn_result" where
  "verify_loop p slen tlen nlen n tpos npos =
     (if p \<noteq> [] then
        case decode_instruction p of
          None \<Rightarrow> Inl SVN_ERR_SVNDIFF_INVALID_OPS
        | Some (op, p') \<Rightarrow>
            if oplen op = 0 then Inl SVN_ERR_SVNDIFF_INVALID_OPS
            else if oplen op > tlen - tpos then Inl SVN_ERR_SVNDIFF_INVALID_OPS
            else (case action_code op of
                    svn_txdelta_source \<Rightarrow>
                      if oplen op > slen - offset op \<or> offset op > slen
                      then Inl SVN_ERR_SVNDIFF_INVALID_OPS
                      else verify_loop p' slen tlen nlen (n + 1) (tpos + oplen op) npos
                  | svn_txdelta_target \<Rightarrow>
                      if offset op \<ge> tpos then Inl SVN_ERR_SVNDIFF_INVALID_OPS
                      else verify_loop p' slen tlen nlen (n + 1) (tpos + oplen op) npos
                  | svn_txdelta_new \<Rightarrow>
                      if oplen op > nlen - npos then Inl SVN_ERR_SVNDIFF_INVALID_OPS
                      else verify_loop p' slen tlen nlen (n + 1) (tpos + oplen op) (npos + oplen op))
      else if tpos \<noteq> tlen then Inl SVN_ERR_SVNDIFF_INVALID_OPS
      else if npos \<noteq> nlen then Inl SVN_ERR_SVNDIFF_INVALID_OPS
      else Inr n)"
  by pat_completeness auto
termination
  by (relation "measure (\<lambda>(p, s, t, l, n, tp, np). length p)") (auto dest: decode_instruction_shorter)

declare verify_loop.simps [simp del]

definition count_and_verify_instructions ::
  "byte list \<Rightarrow> apr_size_t \<Rightarrow> apr_size_t \<Rightarrow> apr_size_t \<Rightarrow> nat svn_result" where
  "count_and_verify_instructions p slen tlen nlen = verify_loop p slen tlen nlen 0 0 0"

text \<open>
  Decoding a counted number of instructions, setting the offsets into the new data and
  counting the copies from the source.
\<close>

fun decode_ops ::
  "nat \<Rightarrow> byte list \<Rightarrow> apr_size_t \<Rightarrow> nat \<Rightarrow> (svn_txdelta_op_t list \<times> nat \<times> byte list) svn_result" where
  "decode_ops 0 data npos src = Inr ([], src, data)"
| "decode_ops (Suc n) data npos src =
     (case decode_instruction data of
        None \<Rightarrow> Inl C_OUT_OF_BOUNDS
      | Some (op, data') \<Rightarrow>
          let src' = (if action_code op = svn_txdelta_source then src + 1 else src);
              op' = (if action_code op = svn_txdelta_new then op\<lparr>offset := npos\<rparr> else op);
              npos' = (if action_code op = svn_txdelta_new then npos + oplen op else npos)
          in SVN_ERR (decode_ops n data' npos' src') (\<lambda>(rest, src'', data'').
             Inr (op' # rest, src'', data'')))"

definition decode_window ::
  "uncompressor \<Rightarrow> svn_filesize_t \<Rightarrow> apr_size_t \<Rightarrow> apr_size_t \<Rightarrow> apr_size_t \<Rightarrow> apr_size_t \<Rightarrow>
   byte list \<Rightarrow> nat \<Rightarrow> svn_txdelta_window_t svn_result" where
  "decode_window uncompress soff slen tlen inslen newlen data version =
     (let ins = take (unat inslen) data; newd = take (unat newlen) (drop (unat inslen) data) in
      SVN_ERR
        (if version = 1 then
           SVN_ERR (zlib_decode uncompress newd SVN_DELTA_WINDOW_SIZE) (\<lambda>ndout.
           SVN_ERR (zlib_decode uncompress ins MAX_INSTRUCTION_SECTION_LEN) (\<lambda>instout.
           Inr (instout, ndout)))
         else Inr (ins, newd))
        (\<lambda>(ins', newd').
           SVN_ERR (count_and_verify_instructions ins' slen tlen (of_nat (length newd'))) (\<lambda>ninst.
           SVN_ERR (decode_ops ninst ins' 0 0) (\<lambda>(os, src, rest).
           SVN_ERR_ASSERT (rest = []) (
           Inr \<lparr>sview_offset = soff, sview_len = slen, tview_len = tlen, src_ops = src,
                ops = os, new_data = newd'\<rparr>)))))"

section \<open>Decoding a stream that arrives in pieces\<close>

text \<open>The state of the parser; \<open>consumer\<close> is the state of the consumer of the windows.\<close>

record 'c decode_baton =
  consumer :: 'c
  dbuffer :: "byte list"
  last_sview_offset :: svn_filesize_t
  last_sview_len :: apr_size_t
  header_bytes :: nat
  error_on_early_close :: bool
  dversion :: nat

type_synonym 'c window_consumer = "svn_txdelta_window_t option \<Rightarrow> 'c \<Rightarrow> 'c svn_result"

definition svn_txdelta_parse_svndiff :: "'c \<Rightarrow> bool \<Rightarrow> 'c decode_baton" where
  "svn_txdelta_parse_svndiff handler_baton early =
     \<lparr>consumer = handler_baton, dbuffer = [], last_sview_offset = 0, last_sview_len = 0,
      header_bytes = 0, error_on_early_close = early, dversion = 0\<rparr>"

record window_header =
  h_sview_offset :: svn_filesize_t
  h_sview_len :: apr_size_t
  h_tview_len :: apr_size_t
  h_inslen :: apr_size_t
  h_newlen :: apr_size_t

text \<open>The five integers of a window header, when they are all there.\<close>

definition decode_header :: "byte list \<Rightarrow> (window_header \<times> byte list) option" where
  "decode_header p =
     Option.bind (decode_file_offset p) (\<lambda>(soff, p1).
     Option.bind (decode_size p1) (\<lambda>(slen, p2).
     Option.bind (decode_size p2) (\<lambda>(tlen, p3).
     Option.bind (decode_size p3) (\<lambda>(inslen, p4).
     Option.bind (decode_size p4) (\<lambda>(newlen, p5).
     Some (\<lparr>h_sview_offset = soff, h_sview_len = slen, h_tview_len = tlen, h_inslen = inslen,
            h_newlen = newlen\<rparr>, p5))))))"

text \<open>
  The checks for too large windows and for overflow. The sum of an offset and a size is
  compared as unsigned.
\<close>

definition header_too_large :: "window_header \<Rightarrow> bool" where
  "header_too_large h \<longleftrightarrow>
     h_tview_len h > SVN_DELTA_WINDOW_SIZE \<or> h_sview_len h > SVN_DELTA_WINDOW_SIZE
     \<or> h_newlen h > SVN_DELTA_WINDOW_SIZE + of_nat MAX_ENCODED_INT_LEN
     \<or> h_inslen h > MAX_INSTRUCTION_SECTION_LEN"

definition header_overflows :: "window_header \<Rightarrow> bool" where
  "header_overflows h \<longleftrightarrow>
     sint (h_sview_offset h) < 0 \<or> h_inslen h + h_newlen h < h_inslen h
     \<or> h_sview_len h + h_tview_len h < h_sview_len h
     \<or> h_sview_offset h + h_sview_len h < h_sview_offset h"

definition header_backward :: "window_header \<Rightarrow> 'c decode_baton \<Rightarrow> bool" where
  "header_backward h db \<longleftrightarrow>
     h_sview_len h > 0
     \<and> (sint (h_sview_offset h) < sint (last_sview_offset db)
        \<or> h_sview_offset h + h_sview_len h < last_sview_offset db + last_sview_len db)"

lemma decode_header_shorter: "decode_header p = Some (h, rest) \<Longrightarrow> length rest < length p"
  by (auto simp: decode_header_def Option.bind_eq_Some_conv decode_file_offset_def
      simp flip: decode_size_def dest!: decode_size_shorter)

text \<open>The loop over the windows that are completely in the buffer.\<close>

function (sequential) write_loop ::
  "uncompressor \<Rightarrow> 'c window_consumer \<Rightarrow> 'c decode_baton \<Rightarrow> 'c decode_baton svn_result" where
  "write_loop uncompress consumer_func db =
     (case decode_header (dbuffer db) of
        None \<Rightarrow> Inr db
      | Some (h, p) \<Rightarrow>
          if header_too_large h then Inl SVN_ERR_SVNDIFF_CORRUPT_WINDOW
          else if header_overflows h then Inl SVN_ERR_SVNDIFF_CORRUPT_WINDOW
          else if header_backward h db then Inl SVN_ERR_SVNDIFF_BACKWARD_VIEW
          else if length p < unat (h_inslen h + h_newlen h) then Inr db
          else
            SVN_ERR (decode_window uncompress (h_sview_offset h) (h_sview_len h) (h_tview_len h)
                (h_inslen h) (h_newlen h) p (dversion db)) (\<lambda>window.
            SVN_ERR (consumer_func (Some window) (consumer db)) (\<lambda>baton.
            write_loop uncompress consumer_func
              (db\<lparr>consumer := baton,
                  dbuffer := drop (unat (h_inslen h + h_newlen h)) p,
                  last_sview_offset := h_sview_offset h,
                  last_sview_len := h_sview_len h\<rparr>))))"
  by pat_completeness auto
termination
  by (relation "measure (\<lambda>(u, c, db). length (dbuffer db))") (auto dest!: decode_header_shorter)

declare write_loop.simps [simp del]

text \<open>The bytes of the four-byte header that this call of the write handler can see.\<close>

definition check_header :: "byte list \<Rightarrow> 'c decode_baton \<Rightarrow> (byte list \<times> 'c decode_baton) svn_result" where
  "check_header buffer db =
     (if header_bytes db < 4 then
        let nheader = min (4 - header_bytes db) (length buffer);
            expected = (\<lambda>v. take nheader (drop (header_bytes db) (svndiff_header v)));
            rest = drop nheader buffer
        in if take nheader buffer = expected 0
           then Inr (rest, db\<lparr>dversion := 0, header_bytes := header_bytes db + nheader\<rparr>)
           else if take nheader buffer = expected 1
           then Inr (rest, db\<lparr>dversion := 1, header_bytes := header_bytes db + nheader\<rparr>)
           else Inl SVN_ERR_SVNDIFF_INVALID_HEADER
      else Inr (buffer, db))"

definition write_handler ::
  "uncompressor \<Rightarrow> 'c window_consumer \<Rightarrow> byte list \<Rightarrow> 'c decode_baton \<Rightarrow> 'c decode_baton svn_result" where
  "write_handler uncompress consumer_func buffer db =
     SVN_ERR (check_header buffer db) (\<lambda>(rest, db').
     write_loop uncompress consumer_func (db'\<lparr>dbuffer := dbuffer db' @ rest\<rparr>))"

definition close_handler :: "'c window_consumer \<Rightarrow> 'c decode_baton \<Rightarrow> 'c decode_baton svn_result" where
  "close_handler consumer_func db =
     (if error_on_early_close db \<and> (header_bytes db < 4 \<or> length (dbuffer db) \<noteq> 0)
      then Inl SVN_ERR_SVNDIFF_UNEXPECTED_END
      else SVN_ERR (consumer_func None (consumer db)) (\<lambda>baton. Inr (db\<lparr>consumer := baton\<rparr>)))"

section \<open>Reading one window from a stream\<close>

text \<open>A stream is the list of the bytes that are left; an integer may be of any length.\<close>

definition read_one_byte :: "byte list \<Rightarrow> (byte \<times> byte list) svn_result" where
  "read_one_byte stream =
     (case stream of [] \<Rightarrow> Inl SVN_ERR_SVNDIFF_UNEXPECTED_END | c # rest \<Rightarrow> Inr (c, rest))"

function read_size_loop :: "64 word \<Rightarrow> byte list \<Rightarrow> (64 word \<times> byte list) svn_result" where
  "read_size_loop acc stream =
     SVN_ERR (read_one_byte stream) (\<lambda>(c, rest).
       let acc' = push_bit 7 acc OR (ucast c AND 0x7f) in
       if c AND 0x80 = 0 then Inr (acc', rest) else read_size_loop acc' rest)"
  by pat_completeness auto
termination
  by (relation "measure (\<lambda>(acc, stream). length stream)") (auto simp: read_one_byte_def split: list.splits)

declare read_size_loop.simps [simp del]

definition read_one_size :: "byte list \<Rightarrow> (apr_size_t \<times> byte list) svn_result" where
  "read_one_size stream = read_size_loop 0 stream"

definition read_window_header :: "byte list \<Rightarrow> (window_header \<times> byte list) svn_result" where
  "read_window_header stream =
     SVN_ERR (read_size_loop 0 stream) (\<lambda>(soff, s1).
     SVN_ERR (read_one_size s1) (\<lambda>(slen, s2).
     SVN_ERR (read_one_size s2) (\<lambda>(tlen, s3).
     SVN_ERR (read_one_size s3) (\<lambda>(inslen, s4).
     SVN_ERR (read_one_size s4) (\<lambda>(newlen, s5).
     let h = \<lparr>h_sview_offset = soff, h_sview_len = slen, h_tview_len = tlen, h_inslen = inslen,
              h_newlen = newlen\<rparr>
     in if header_too_large h then Inl SVN_ERR_SVNDIFF_CORRUPT_WINDOW
        else if header_overflows h then Inl SVN_ERR_SVNDIFF_CORRUPT_WINDOW
        else Inr (h, s5))))))"

definition svn_txdelta_read_svndiff_window ::
  "uncompressor \<Rightarrow> byte list \<Rightarrow> nat \<Rightarrow> (svn_txdelta_window_t \<times> byte list) svn_result" where
  "svn_txdelta_read_svndiff_window uncompress stream version =
     SVN_ERR (read_window_header stream) (\<lambda>(h, rest).
     let len = unat (h_inslen h + h_newlen h); buf = take len rest in
     if length buf < len then Inl SVN_ERR_SVNDIFF_UNEXPECTED_END
     else SVN_ERR (decode_window uncompress (h_sview_offset h) (h_sview_len h) (h_tview_len h)
              (h_inslen h) (h_newlen h) buf version) (\<lambda>window.
          Inr (window, drop len rest)))"

text \<open>Skipping a window moves behind its contents without decoding them.\<close>

definition svn_txdelta_skip_svndiff_window :: "byte list \<Rightarrow> byte list svn_result" where
  "svn_txdelta_skip_svndiff_window file =
     SVN_ERR (read_window_header file) (\<lambda>(h, rest).
     Inr (drop (unat (h_inslen h + h_newlen h)) rest))"

section \<open>Integers are read back\<close>

lemma byte_bit7: "(b :: 8 word) < 0x80 \<longleftrightarrow> \<not> bit b 7"
proof -
  have "bit b 7 \<longleftrightarrow> bit (unat b) 7" by (simp add: bit_unsigned_iff)
  also have "\<dots> \<longleftrightarrow> odd (unat b div 128)" by (simp add: bit_iff_odd)
  finally have "bit b 7 \<longleftrightarrow> odd (unat b div 128)" .
  moreover have "unat b < 256" using unsigned_less [of b, where 'a = nat] by simp
  then have "unat b div 128 = 0 \<or> unat b div 128 = 1" by linarith
  ultimately show ?thesis by (auto simp: word_less_nat_alt)
qed

lemma mask7: "(0x7f :: 64 word) = mask 7" "(0x7f :: 8 word) = mask 7"
  by (simp_all add: mask_eq_exp_minus_1)

lemma bit_0x80: "bit (0x80 :: 8 word) n \<longleftrightarrow> n = 7" "bit (0x80 :: int) n \<longleftrightarrow> n = 7"
proof -
  have "(0x80 :: 8 word) = 2 ^ 7" "(0x80 :: int) = 2 ^ 7" by simp_all
  then show "bit (0x80 :: 8 word) n \<longleftrightarrow> n = 7" "bit (0x80 :: int) n \<longleftrightarrow> n = 7"
    by (auto simp only: bit_exp_iff) (auto simp: possible_bit_def)
qed

definition encoded_byte :: "64 word \<Rightarrow> bool \<Rightarrow> byte" where
  "encoded_byte x c = ucast (x AND 0x7f) OR (if c then 0x80 else 0)"

lemma encode_bytes_Suc:
  "encode_bytes v (Suc n) = encoded_byte (drop_bit (7 * n) v) (n > 0) # encode_bytes v n"
  by (simp add: encoded_byte_def)

lemma encoded_byte_data: "(ucast (encoded_byte x c) :: 64 word) AND 0x7f = x AND 0x7f"
  unfolding encoded_byte_def mask7 by (rule bit_word_eqI) (auto simp: bit_simps bit_0x80)

lemma encoded_byte_bit7: "bit (encoded_byte x c) 7 \<longleftrightarrow> c"
  unfolding encoded_byte_def mask7 by (auto simp: bit_simps bit_0x80)

lemma byte_and_0x80: "(b :: 8 word) AND 0x80 = 0 \<longleftrightarrow> \<not> bit b 7"
proof
  assume "b AND 0x80 = 0"
  then have "\<not> bit (b AND 0x80) 7" by simp
  then show "\<not> bit b 7" by (simp add: bit_and_iff bit_0x80)
next
  assume "\<not> bit b 7"
  then show "b AND 0x80 = 0" by (intro bit_word_eqI) (auto simp: bit_and_iff bit_0x80)
qed

lemma encoded_byte_end: "encoded_byte x c < 0x80 \<longleftrightarrow> \<not> c" "encoded_byte x c AND 0x80 = 0 \<longleftrightarrow> \<not> c"
  by (simp_all add: byte_bit7 byte_and_0x80 encoded_byte_bit7)

lemma shift_in:
  "push_bit 7 (drop_bit (7 * Suc n) v) OR (drop_bit (7 * n) v AND 0x7f) = drop_bit (7 * n) (v :: 64 word)"
  unfolding mask7 by (rule bit_word_eqI) (auto simp: bit_simps algebra_simps)

lemma shift_in_0: "push_bit 7 (drop_bit (7 * Suc 0) v) OR (v AND 0x7f) = (v :: 64 word)"
  using shift_in [of 0 v] by (simp del: mult_Suc_right)

lemmas int_step = encode_bytes_Suc encoded_byte_data encoded_byte_end shift_in shift_in_0

lemma decode_encode_bytes:
  "n > 0 \<Longrightarrow> decode_loop (drop_bit (7 * n) v) (encode_bytes v n @ rest) = Some (v, rest)"
proof (induction n)
  case (Suc n)
  then show ?case
    by (cases "n = 0") (simp_all add: Let_def int_step del: encode_bytes.simps(2) mult_Suc_right)
qed simp

lemma read_encode_bytes:
  "n > 0 \<Longrightarrow> read_size_loop (drop_bit (7 * n) v) (encode_bytes v n @ rest) = Inr (v, rest)"
proof (induction n)
  case (Suc n)
  then show ?case
    by (subst read_size_loop.simps, cases "n = 0")
       (simp_all add: Let_def int_step read_one_byte_def del: encode_bytes.simps(2) mult_Suc_right)
qed simp

lemma length_encode_bytes [simp]: "length (encode_bytes v n) = n"
  by (induction n) simp_all

lemma int_len_loop_spec:
  "k > 0 \<Longrightarrow> int_len_loop (drop_bit (7 * k) v) k = n \<Longrightarrow>
   k \<le> n \<and> drop_bit (7 * n) v = 0 \<and> (n = k \<or> drop_bit (7 * (n - 1)) v \<noteq> 0)"
proof (induction "unat (drop_bit (7 * k) v)" arbitrary: k rule: less_induct)
  case less
  note loop = int_len_loop.simps [of "drop_bit (7 * k) v" k]
  show ?case
  proof (cases "drop_bit (7 * k) v > 0")
    case True
    have d: "drop_bit 7 (drop_bit (7 * k) v) = drop_bit (7 * (k + 1)) v" by (simp add: algebra_simps)
    then have "int_len_loop (drop_bit (7 * (k + 1)) v) (k + 1) = n" using less.prems(2) True loop by simp
    moreover have "unat (drop_bit (7 * (k + 1)) v) < unat (drop_bit (7 * k) v)"
      using True unfolding d [symmetric] by (simp add: drop_bit_eq_div unat_div word_less_nat_alt)
    ultimately have "k + 1 \<le> n \<and> drop_bit (7 * n) v = 0 \<and> (n = k + 1 \<or> drop_bit (7 * (n - 1)) v \<noteq> 0)"
      by (intro less.hyps) simp_all
    with True show ?thesis by (auto simp: word_gt_0)
  next
    case False
    with less.prems show ?thesis by (auto simp: loop word_gt_0)
  qed
qed

lemma nonneg_small:
  assumes "sint (v :: 64 word) \<ge> 0"
  shows "unat v < 2 ^ 63"
proof (rule ccontr)
  assume big: "\<not> unat v < 2 ^ 63"
  have "unat v < 2 ^ 64" using unsigned_less [of v, where 'a = nat] by simp
  with big have "unat v div 2 ^ 63 = 1" by (simp add: div_nat_eqI)
  then have "bit (unat v) 63" by (simp add: bit_iff_odd)
  then have "bit v 63" by (simp add: bit_unsigned_iff)
  then show False using assms bit_last_iff [of v] by simp
qed

lemma encode_int_ok:
  assumes "sint v \<ge> 0"
  shows "\<exists>n. encode_int v = Inr (encode_bytes v n) \<and> 0 < n \<and> n \<le> 9 \<and> drop_bit (7 * n) v = 0"
proof -
  let ?n = "int_len_loop (drop_bit 7 v) 1"
  have s: "1 \<le> ?n" "drop_bit (7 * ?n) v = 0" "?n = 1 \<or> drop_bit (7 * (?n - 1)) v \<noteq> 0"
    using int_len_loop_spec [of 1 v ?n] by auto
  have "unat v < 2 ^ 63" using assms by (rule nonneg_small)
  have "?n \<le> 9"
  proof (rule ccontr)
    assume "\<not> ?n \<le> 9"
    then have "63 \<le> 7 * (?n - 1)" by simp
    then have "(2::nat) ^ 63 \<le> 2 ^ (7 * (?n - 1))" by (intro power_increasing) simp_all
    then have "unat v div 2 ^ (7 * (?n - 1)) = 0" using \<open>unat v < 2 ^ 63\<close> by simp
    then have "unat (drop_bit (7 * (?n - 1)) v) = 0" by (simp add: unat_drop_bit_eq flip: drop_bit_eq_div)
    then have "drop_bit (7 * (?n - 1)) v = 0" by (simp add: unat_eq_0)
    with s(3) \<open>\<not> ?n \<le> 9\<close> show False by simp
  qed
  with s assms show ?thesis by (auto simp: encode_int_def Let_def MAX_ENCODED_INT_LEN_def)
qed

text \<open>The bytes of an encoded integer.\<close>

definition int_bytes :: "64 word \<Rightarrow> byte list" where
  "int_bytes v = projr (encode_int v)"

lemma int_bytes_ok:
  assumes "sint v \<ge> 0"
  shows "encode_int v = Inr (int_bytes v)" "0 < length (int_bytes v)" "length (int_bytes v) \<le> 9"
    "decode_size (int_bytes v @ rest) = Some (v, rest)"
    "decode_file_offset (int_bytes v @ rest) = Some (v, rest)"
    "read_size_loop 0 (int_bytes v @ rest) = Inr (v, rest)"
proof -
  obtain n where n: "encode_int v = Inr (encode_bytes v n)" "0 < n" "n \<le> 9" "drop_bit (7 * n) v = 0"
    using encode_int_ok [OF assms] by blast
  then have b: "int_bytes v = encode_bytes v n" by (simp add: int_bytes_def)
  show "encode_int v = Inr (int_bytes v)" "0 < length (int_bytes v)" "length (int_bytes v) \<le> 9"
    using n b by simp_all
  have "take 10 (encode_bytes v n @ rest) = encode_bytes v n @ take (10 - n) rest"
    "drop 10 (encode_bytes v n @ rest) = drop (10 - n) rest" using n(3) by simp_all
  then show "decode_size (int_bytes v @ rest) = Some (v, rest)"
    "decode_file_offset (int_bytes v @ rest) = Some (v, rest)"
    using decode_encode_bytes [OF n(2), of v "take (10 - n) rest"] n(4)
    by (simp_all add: decode_size_def decode_file_offset_def MAX_ENCODED_INT_LEN_def b)
  show "read_size_loop 0 (int_bytes v @ rest) = Inr (v, rest)"
    using read_encode_bytes [OF n(2), of v rest] n(4) b by simp
qed

section \<open>Instructions are read back\<close>

lemma small_length:
  assumes "drop_bit 6 (x :: 64 word) = 0"
  shows "\<not> bit x (6 + n)"
proof -
  have "bit (drop_bit 6 x) n \<longleftrightarrow> bit x (6 + n)" by (simp add: bit_drop_bit_eq)
  then show ?thesis using assms by simp
qed

lemma mask6: "(0x3f :: 8 word) = mask 6" "(3 :: 8 word) = mask 2"
  by (simp_all add: mask_eq_exp_minus_1)

definition action_number :: "svn_delta_action \<Rightarrow> byte" where
  "action_number action = (case action of
      svn_txdelta_source \<Rightarrow> 0 | svn_txdelta_target \<Rightarrow> 1 | svn_txdelta_new \<Rightarrow> 2)"

lemma bit_action_number: "bit (action_number a) n \<longleftrightarrow>
    (a = svn_txdelta_target \<and> n = 0) \<or> (a = svn_txdelta_new \<and> n = 1)"
  by (cases a) (auto simp: action_number_def bit_1_iff bit_2_iff)

lemma action_byte_number: "action_byte a = push_bit 6 (action_number a)"
  by (cases a) (simp_all add: action_byte_def action_number_def)

lemma first_byte:
  assumes "drop_bit 6 (x :: 64 word) = 0"
  shows "drop_bit 6 (action_byte a OR ucast x) AND 3 = action_number a"
    and "(ucast ((action_byte a OR ucast x) AND 0x3f) :: 64 word) = x"
proof -
  have hi: "\<not> bit x n" if "n \<ge> 6" for n
    using small_length [OF assms, of "n - 6"] that by simp
  show "drop_bit 6 (action_byte a OR ucast x) AND 3 = action_number a"
    unfolding action_byte_number mask6
    by (rule bit_word_eqI) (auto simp: bit_simps bit_action_number hi)
  show "(ucast ((action_byte a OR ucast x) AND 0x3f) :: 64 word) = x"
    unfolding action_byte_number mask6
    by (rule bit_word_eqI) (auto simp: bit_simps hi not_le intro: ccontr dest: hi [OF leI])
qed

lemma action_number_cases:
  "action_number a < 3"
  "(if action_number a = 0 then svn_txdelta_source
    else if action_number a = 1 then svn_txdelta_target else svn_txdelta_new) = a"
  by (cases a; simp add: action_number_def)+

definition encodable :: "svn_txdelta_op_t \<Rightarrow> bool" where
  "encodable op \<longleftrightarrow> oplen op \<noteq> 0 \<and> sint (oplen op) \<ge> 0 \<and> sint (offset op) \<ge> 0"

lemma instruction_round_trip:
  assumes "encodable op"
  shows "\<exists>bs. encode_instruction op = Inr bs \<and> 0 < length bs \<and> length bs \<le> 19
    \<and> (\<forall>rest. decode_instruction (bs @ rest) =
         Some (if action_code op = svn_txdelta_new then op\<lparr>offset := 0\<rparr> else op, rest))"
proof -
  let ?tail = "if action_code op \<noteq> svn_txdelta_new then int_bytes (offset op) else []"
  have o: "sint (oplen op) \<ge> 0" "sint (offset op) \<ge> 0" "oplen op \<noteq> 0" using assms by (auto simp: encodable_def)
  have tail: "Option.bind (if action_code op \<noteq> svn_txdelta_new then decode_size (?tail @ rest) else Some (0, ?tail @ rest))
      (\<lambda>(off, p3). Some (\<lparr>action_code = action_code op, offset = off, oplen = oplen op\<rparr>, p3)) =
      Some (if action_code op = svn_txdelta_new then op\<lparr>offset := 0\<rparr> else op, rest)" for rest
    using int_bytes_ok(4) [OF o(2)] by simp
  have "length ?tail \<le> 9" using int_bytes_ok(3) [OF o(2)] by simp
  show ?thesis
  proof (cases "drop_bit 6 (oplen op) = 0")
    case True
    let ?bs = "(action_byte (action_code op) OR ucast (oplen op)) # ?tail"
    have "encode_instruction op = Inr ?bs"
      using True int_bytes_ok(1) [OF o(2)] by (simp add: encode_instruction_def)
    moreover have "decode_instruction (?bs @ rest) =
        Some (if action_code op = svn_txdelta_new then op\<lparr>offset := 0\<rparr> else op, rest)" for rest
      using first_byte [OF True, of "action_code op"] action_number_cases [of "action_code op"] o(3) tail [of rest]
      by (simp add: decode_instruction_def Let_def not_le)
    ultimately show ?thesis using \<open>length ?tail \<le> 9\<close> by fastforce
  next
    case False
    let ?bs = "action_byte (action_code op) # int_bytes (oplen op) @ ?tail"
    have "encode_instruction op = Inr ?bs"
      using False int_bytes_ok(1) [OF o(1)] int_bytes_ok(1) [OF o(2)] by (simp add: encode_instruction_def)
    moreover have "decode_instruction (?bs @ rest) =
        Some (if action_code op = svn_txdelta_new then op\<lparr>offset := 0\<rparr> else op, rest)" for rest
      using first_byte [of 0 "action_code op"] action_number_cases [of "action_code op"]
        int_bytes_ok(4) [OF o(1), of "?tail @ rest"] tail [of rest]
      by (simp add: decode_instruction_def Let_def not_le)
    ultimately show ?thesis using \<open>length ?tail \<le> 9\<close> int_bytes_ok(3) [OF o(1)] by fastforce
  qed
qed

section \<open>Verified instructions are well formed\<close>

definition source_count :: "svn_txdelta_op_t list \<Rightarrow> nat" where
  "source_count os = length (filter (\<lambda>op. action_code op = svn_txdelta_source) os)"

lemma source_count_simps [simp]:
  "source_count [] = 0"
  "source_count (op # os) = (if action_code op = svn_txdelta_source then 1 else 0) + source_count os"
  by (simp_all add: source_count_def)

lemma sub_le_iff:
  "unat (pos :: 64 word) \<le> unat lim \<Longrightarrow> \<not> len > lim - pos \<longleftrightarrow> unat pos + unat len \<le> unat lim"
  using unat_sub [of pos lim] by (auto simp: word_less_nat_alt word_le_nat_alt not_less)

lemma source_check_iff:
  "\<not> (len > slen - off \<or> off > slen) \<longleftrightarrow> unat off + unat len \<le> unat (slen :: 64 word)"
proof (cases "off > slen")
  case True
  then show ?thesis by (simp add: word_less_nat_alt)
next
  case False
  then have "unat off \<le> unat slen" by (simp add: word_less_nat_alt)
  with sub_le_iff [OF this, of len] False show ?thesis by simp
qed

lemma unat_add_le: "unat (a :: 64 word) + unat b \<le> unat (c :: 64 word) \<Longrightarrow> unat (a + b) = unat a + unat b"
proof -
  assume "unat a + unat b \<le> unat c"
  also have "unat c < 2 ^ 64" using unsigned_less [of c, where 'a = nat] by simp
  finally show ?thesis by (rule unat_add_small)
qed

text \<open>Every instruction stream that passes the verification decodes to well-formed instructions.\<close>

lemma verify_sound:
  assumes "verify_loop p slen tlen nlen n tpos npos = Inr m"
    and "unat tpos \<le> unat tlen" "unat npos \<le> unat nlen"
  shows "\<exists>os. n \<le> m \<and> decode_ops (m - n) p npos src = Inr (os, src + source_count os, [])
    \<and> length os = m - n
    \<and> wf_ops (unat slen) (unat nlen) (unat tpos) (unat npos) os (unat tlen)"
  using assms
proof (induction p slen tlen nlen n tpos npos arbitrary: src rule: verify_loop.induct)
  case (1 p slen tlen nlen n tpos npos)
  note loop = verify_loop.simps [of p slen tlen nlen n tpos npos]
  show ?case
  proof (cases "p = []")
    case True
    then have "m = n" "tpos = tlen" "npos = nlen" using "1.prems"(1) unfolding loop by (auto split: if_splits)
    with True show ?thesis by simp
  next
    case False
    with "1.prems"(1) obtain op p' where d: "decode_instruction p = Some (op, p')"
      by (auto simp: loop split: option.splits)
    have c: "oplen op \<noteq> 0" "\<not> oplen op > tlen - tpos"
      using "1.prems"(1) False d by (auto simp: loop split: if_splits)
    then have t: "unat tpos + unat (oplen op) \<le> unat tlen" using sub_le_iff [OF "1.prems"(2)] by simp
    then have tp: "unat (tpos + oplen op) = unat tpos + unat (oplen op)" by (rule unat_add_le)
    show ?thesis
    proof (cases "action_code op")
      case svn_txdelta_source
      then have s: "\<not> (oplen op > slen - offset op \<or> offset op > slen)"
        and r: "verify_loop p' slen tlen nlen (n + 1) (tpos + oplen op) npos = Inr m"
        using "1.prems"(1) False d c by (auto simp: loop split: if_splits)
      obtain os where "n + 1 \<le> m" "decode_ops (m - (n + 1)) p' npos (src + 1) = Inr (os, src + 1 + source_count os, [])"
        "length os = m - (n + 1)" "wf_ops (unat slen) (unat nlen) (unat (tpos + oplen op)) (unat npos) os (unat tlen)"
        using "1.IH"(1) [OF False d refl c svn_txdelta_source s r _ "1.prems"(3), of "src + 1"] t tp by auto
      moreover have "m - n = Suc (m - (n + 1))" using calculation(1) by simp
      moreover have "unat (offset op) + unat (oplen op) \<le> unat slen" using s unfolding source_check_iff .
      ultimately show ?thesis using d svn_txdelta_source c(1) tp
        by (intro exI [of _ "op # os"]) auto
    next
      case svn_txdelta_target
      then have s: "\<not> offset op \<ge> tpos"
        and r: "verify_loop p' slen tlen nlen (n + 1) (tpos + oplen op) npos = Inr m"
        using "1.prems"(1) False d c by (auto simp: loop split: if_splits)
      obtain os where "n + 1 \<le> m" "decode_ops (m - (n + 1)) p' npos src = Inr (os, src + source_count os, [])"
        "length os = m - (n + 1)" "wf_ops (unat slen) (unat nlen) (unat (tpos + oplen op)) (unat npos) os (unat tlen)"
        using "1.IH"(2) [OF False d refl c svn_txdelta_target s r _ "1.prems"(3)] t tp by auto
      moreover have "m - n = Suc (m - (n + 1))" using calculation(1) by simp
      ultimately show ?thesis using d svn_txdelta_target c(1) tp s
        by (intro exI [of _ "op # os"]) (auto simp: word_le_nat_alt)
    next
      case svn_txdelta_new
      then have s: "\<not> oplen op > nlen - npos"
        and r: "verify_loop p' slen tlen nlen (n + 1) (tpos + oplen op) (npos + oplen op) = Inr m"
        using "1.prems"(1) False d c by (auto simp: loop split: if_splits)
      have nn: "unat npos + unat (oplen op) \<le> unat nlen" using s sub_le_iff [OF "1.prems"(3)] by simp
      then have np: "unat (npos + oplen op) = unat npos + unat (oplen op)" by (rule unat_add_le)
      obtain os where "n + 1 \<le> m"
        "decode_ops (m - (n + 1)) p' (npos + oplen op) src = Inr (os, src + source_count os, [])"
        "length os = m - (n + 1)"
        "wf_ops (unat slen) (unat nlen) (unat (tpos + oplen op)) (unat (npos + oplen op)) os (unat tlen)"
        using "1.IH"(3) [OF False d refl c svn_txdelta_new s r] t tp nn np by auto
      moreover have "m - n = Suc (m - (n + 1))" using calculation(1) by simp
      ultimately show ?thesis using d svn_txdelta_new c(1) tp np nn
        by (intro exI [of _ "op\<lparr>offset := npos\<rparr> # os"]) auto
    qed
  qed
qed

text \<open>The instructions of a well-formed window are accepted and read back.\<close>

lemma verify_complete:
  assumes "wf_ops (unat slen) (unat nlen) (unat tpos) (unat npos) os (unat tlen)"
    and "list_all encodable os"
  shows "\<exists>bs. encode_instructions os = Inr bs \<and> length bs \<le> 19 * length os
    \<and> verify_loop bs slen tlen nlen n tpos npos = Inr (n + length os)
    \<and> decode_ops (length os) bs npos src = Inr (os, src + source_count os, [])"
  using assms
proof (induction os arbitrary: n tpos npos src)
  case Nil
  then have "tpos = tlen" "npos = nlen" by (simp_all add: word_unat_eq_iff)
  then show ?case by (simp add: verify_loop.simps [of "[]"])
next
  case (Cons op os)
  obtain b where b: "encode_instruction op = Inr b" "0 < length b" "length b \<le> 19"
    "\<And>rest. decode_instruction (b @ rest) =
       Some (if action_code op = svn_txdelta_new then op\<lparr>offset := 0\<rparr> else op, rest)"
    using instruction_round_trip Cons.prems(2) by force
  have bnd: "unat tpos \<le> unat tlen" "unat npos \<le> unat nlen" using wf_ops_bounds [OF Cons.prems(1)] by simp_all
  obtain np' where wf: "wf_ops (unat slen) (unat nlen) (unat tpos + unat (oplen op)) np' os (unat tlen)"
    using wf_ops_ConsD(3) [OF Cons.prems(1)] by blast
  have t: "unat tpos + unat (oplen op) \<le> unat tlen" using wf_ops_bounds [OF wf] by simp
  then have tp: "unat (tpos + oplen op) = unat tpos + unat (oplen op)" by (rule unat_add_le)
  have c: "oplen op \<noteq> 0" "\<not> oplen op > tlen - tpos"
    using wf_ops_ConsD(2) [OF Cons.prems(1)] t sub_le_iff [OF bnd(1)] by simp_all
  have ne: "b @ rest \<noteq> []" for rest using b(2) by auto
  let ?np = "if action_code op = svn_txdelta_new then npos + oplen op else npos"
  let ?src = "if action_code op = svn_txdelta_source then src + 1 else src"
  have new: "unat npos + unat (oplen op) \<le> unat nlen \<and> offset op = npos" if "action_code op = svn_txdelta_new"
    using Cons.prems(1) that by (simp add: word_unat_eq_iff)
  then have np: "unat ?np = unat npos + (if action_code op = svn_txdelta_new then unat (oplen op) else 0)"
    using unat_add_le by auto
  have rest: "wf_ops (unat slen) (unat nlen) (unat (tpos + oplen op)) (unat ?np) os (unat tlen)"
    using Cons.prems(1) tp np by (cases "action_code op") simp_all
  obtain bs where bs: "encode_instructions os = Inr bs" "length bs \<le> 19 * length os"
    "verify_loop bs slen tlen nlen (n + 1) (tpos + oplen op) ?np = Inr (n + 1 + length os)"
    "decode_ops (length os) bs ?np ?src = Inr (os, ?src + source_count os, [])"
    using Cons.IH [OF rest, of "n + 1" ?src] Cons.prems(2) by auto
  have "verify_loop (b @ bs) slen tlen nlen n tpos npos = Inr (n + length (op # os))"
  proof (cases "action_code op")
    case svn_txdelta_source
    moreover from this have "\<not> (oplen op > slen - offset op \<or> offset op > slen)"
      using Cons.prems(1) by (simp only: source_check_iff) simp
    ultimately show ?thesis using bs(3) c ne by (simp add: verify_loop.simps [of "b @ bs"] b(4))
  next
    case svn_txdelta_target
    moreover from this have "\<not> offset op \<ge> tpos" using Cons.prems(1) by (simp add: word_le_nat_alt)
    ultimately show ?thesis using bs(3) c ne by (simp add: verify_loop.simps [of "b @ bs"] b(4))
  next
    case svn_txdelta_new
    moreover from this have "\<not> oplen op > nlen - npos" using new sub_le_iff [OF bnd(2)] by simp
    ultimately show ?thesis using bs(3) c ne by (simp add: verify_loop.simps [of "b @ bs"] b(4))
  qed
  moreover have "decode_ops (length (op # os)) (b @ bs) npos src = Inr (op # os, src + source_count (op # os), [])"
    using bs(4) new by (cases "action_code op") (simp_all add: b(4) Let_def)
  ultimately show ?case using b(1,3) bs(1,2) by simp
qed

section \<open>Decoded windows are well formed\<close>

definition decode_error :: "svn_errcode \<Rightarrow> bool" where
  "decode_error e \<longleftrightarrow> e \<in> {SVN_ERR_SVNDIFF_INVALID_OPS, SVN_ERR_SVNDIFF_INVALID_COMPRESSED_DATA,
     SVN_ERR_STREAM_MALFORMED_DATA, SVN_ERR_STREAM_UNRECOGNIZED_DATA, APR_ENOMEM}"

lemma zlib_decode_sound:
  "zlib_decode uncompress inp limit = Inr out \<Longrightarrow> length out \<le> unat limit"
  "zlib_decode uncompress inp limit = Inl e \<Longrightarrow> decode_error e"
  by (auto simp: zlib_decode_def svn_error__wrap_zlib_def decode_error_def word_less_nat_alt not_less
      split: option.splits prod.splits if_splits sum.splits)

lemma verify_error: "verify_loop p slen tlen nlen n tpos npos = Inl e \<Longrightarrow> decode_error e"
proof (induction p slen tlen nlen n tpos npos rule: verify_loop.induct)
  case (1 p slen tlen nlen n tpos npos)
  show ?case
  proof (cases "p = []")
    case True
    with "1.prems" show ?thesis
      unfolding verify_loop.simps [of p] by (auto simp: decode_error_def split: if_splits)
  next
    case False
    show ?thesis
    proof (cases "decode_instruction p")
      case None
      with "1.prems" False show ?thesis
        unfolding verify_loop.simps [of p] by (auto simp: decode_error_def)
    next
      case (Some x)
      obtain op p' where x: "x = (op, p')" by fastforce
      show ?thesis
      proof (cases "oplen op = 0 \<or> oplen op > tlen - tpos")
        case True
        with "1.prems" False Some x show ?thesis
          unfolding verify_loop.simps [of p] by (auto simp: decode_error_def split: if_splits)
      next
        case ok: False
        note IH = "1.IH" [OF False Some x [symmetric]]
        show ?thesis
          using "1.prems" False Some x ok IH
          unfolding verify_loop.simps [of p slen tlen nlen n tpos npos]
          by (cases "action_code op") (auto simp: decode_error_def split: if_splits)
      qed
    qed
  qed
qed

lemma window_size: "unat SVN_DELTA_WINDOW_SIZE = max_view" "SVN_DELTA_WINDOW_SIZE = 102400"
  by (simp_all add: SVN_DELTA_WINDOW_SIZE_def)

lemma section_size: "MAX_INSTRUCTION_SECTION_LEN = 2150400" "unat MAX_INSTRUCTION_SECTION_LEN = 2150400"
  by (simp_all add: MAX_INSTRUCTION_SECTION_LEN_def SVN_DELTA_WINDOW_SIZE_def MAX_INSTRUCTION_LEN_def
      MAX_ENCODED_INT_LEN_def)

text \<open>
  Whatever the bytes are, decoding a window that passed the header checks returns a
  well-formed window or one of the documented errors: no assertion fails and nothing is
  read out of bounds.
\<close>

lemma decode_window_sound:
  assumes "unat slen \<le> max_view" "unat tlen \<le> max_view" "unat newlen \<le> max_view + 10"
  shows "case decode_window uncompress soff slen tlen inslen newlen data version of
      Inl e \<Rightarrow> decode_error e
    | Inr w \<Rightarrow> wf_window w \<and> sview_offset w = soff \<and> sview_len w = slen \<and> tview_len w = tlen
        \<and> src_ops w = source_count (ops w)"
proof -
  let ?parts = "if version = 1 then
           SVN_ERR (zlib_decode uncompress (take (unat newlen) (drop (unat inslen) data)) SVN_DELTA_WINDOW_SIZE) (\<lambda>ndout.
           SVN_ERR (zlib_decode uncompress (take (unat inslen) data) MAX_INSTRUCTION_SECTION_LEN) (\<lambda>instout.
           Inr (instout, ndout)))
         else Inr (take (unat inslen) data, take (unat newlen) (drop (unat inslen) data))"
  show ?thesis
  proof (cases ?parts)
    case (Inl e)
    then have "decode_error e" using zlib_decode_sound(2) by (auto simp: SVN_ERR_Inl_iff split: if_splits)
    then show ?thesis using Inl by (simp add: decode_window_def Let_def)
  next
    case (Inr x)
    obtain ins newd where x: "x = (ins, newd)" by fastforce
    have "length newd \<le> max_view + 10"
      using Inr x zlib_decode_sound(1) assms(3)
      by (fastforce simp: SVN_ERR_Inr_iff window_size split: if_splits)
    then have nl: "unat (of_nat (length newd) :: 64 word) = length newd" by (simp add: unat_of_nat)
    show ?thesis
    proof (cases "count_and_verify_instructions ins slen tlen (of_nat (length newd))")
      case inl: (Inl e)
      then have "decode_error e" using verify_error by (simp add: count_and_verify_instructions_def)
      then show ?thesis using Inr x inl by (simp add: decode_window_def Let_def)
    next
      case inr: (Inr m)
      obtain os where os: "decode_ops m ins 0 0 = Inr (os, source_count os, [])"
        "wf_ops (unat slen) (length newd) 0 0 os (unat tlen)"
        using verify_sound [of ins slen tlen "of_nat (length newd)" 0 0 0 m 0] inr nl
        by (auto simp: count_and_verify_instructions_def)
      have "decode_window uncompress soff slen tlen inslen newlen data version =
          Inr \<lparr>sview_offset = soff, sview_len = slen, tview_len = tlen, src_ops = source_count os,
               ops = os, new_data = newd\<rparr>"
        using Inr x inr os(1) by (simp add: decode_window_def Let_def)
      then show ?thesis using os(2) assms \<open>length newd \<le> max_view + 10\<close> by (simp add: wf_window_def)
    qed
  qed
qed

section \<open>Windows are read back\<close>

text \<open>
  The contract of zlib at one compression level, which has to be a level that zlib takes:
  compressing succeeds, memory allowing, and uncompressing the result gives the data back.
\<close>

definition zlib_contract :: "compressor \<Rightarrow> uncompressor \<Rightarrow> int \<Rightarrow> bool" where
  "zlib_contract compress2 uncompress level \<longleftrightarrow>
     (\<forall>data. length data < 2 ^ 63 \<longrightarrow> (\<exists>z. compress2 data level = Inr z \<and> uncompress (length data) z = Inr data))"

lemma sint_of_nat_small: "n < 2 ^ 63 \<Longrightarrow> sint (of_nat n :: 64 word) \<ge> 0"
  by (simp add: sint_small unat_of_nat del: of_nat_unat)

lemma zlib_round_trip:
  assumes "zlib_contract compress2 uncompress level" "length data < 2 ^ 63" "length data \<le> unat limit"
  shows "\<exists>out. zlib_encode compress2 data level = Inr out \<and> zlib_decode uncompress out limit = Inr data
    \<and> length out \<le> length data + 9"
proof -
  let ?len = "of_nat (length data) :: 64 word"
  have u: "unat ?len = length data" using assms(2) by (simp add: unat_of_nat)
  note b = int_bytes_ok [OF sint_of_nat_small [OF assms(2)]]
  obtain z where z: "compress2 data level = Inr z" "uncompress (length data) z = Inr data"
    using assms(1,2) by (force simp: zlib_contract_def)
  have lim: "\<not> limit < ?len" using u assms(3) by (simp add: word_less_nat_alt)
  have plain: "zlib_decode uncompress (int_bytes ?len @ data) limit = Inr data"
    using b(4) u lim by (simp add: zlib_decode_def)
  show ?thesis
  proof (cases "length data < MIN_COMPRESS_SIZE \<or> level = SVN_DELTA_COMPRESSION_LEVEL_NONE \<or> length z \<ge> length data")
    case True
    then have "zlib_encode compress2 data level = Inr (int_bytes ?len @ data)"
      using b(1) z(1) by (auto simp: zlib_encode_def append_encoded_int_def)
    then show ?thesis using plain b(3) by simp
  next
    case False
    then have "zlib_encode compress2 data level = Inr (int_bytes ?len @ z)"
      using b(1) z(1) by (auto simp: zlib_encode_def append_encoded_int_def)
    moreover have "zlib_decode uncompress (int_bytes ?len @ z) limit = Inr data"
      using False b(4) u lim z(2) by (simp add: zlib_decode_def)
    ultimately show ?thesis using False b(3) by simp
  qed
qed

text \<open>Windows that the encoder produces within the limits that the decoder checks.\<close>

definition sendable :: "svn_txdelta_window_t \<Rightarrow> bool" where
  "sendable w \<longleftrightarrow> wf_window w \<and> unat (sview_len w) \<le> max_view \<and> unat (tview_len w) \<le> max_view
     \<and> sint (sview_offset w) \<ge> 0"

text \<open>The decoder counts the copies from the source anew.\<close>

definition recount :: "svn_txdelta_window_t \<Rightarrow> svn_txdelta_window_t" where
  "recount w = w\<lparr>src_ops := source_count (ops w)\<rparr>"

lemma recount_simps [simp]:
  "sview_offset (recount w) = sview_offset w" "sview_len (recount w) = sview_len w"
  "tview_len (recount w) = tview_len w" "ops (recount w) = ops w" "new_data (recount w) = new_data w"
  "src_ops (recount w) = source_count (ops w)"
  by (simp_all add: recount_def)

lemma wf_ops_encodable:
  "wf_ops slen nlen tpos npos os tlen \<Longrightarrow> slen < 2 ^ 63 \<Longrightarrow> tlen < 2 ^ 63 \<Longrightarrow> nlen < 2 ^ 63 \<Longrightarrow>
   list_all encodable os"
proof (induction os arbitrary: tpos npos)
  case (Cons op os)
  obtain np where rest: "wf_ops slen nlen (tpos + unat (oplen op)) np os tlen"
    using wf_ops_ConsD(3) [OF Cons.prems(1)] by blast
  have t: "tpos + unat (oplen op) \<le> tlen" using wf_ops_bounds [OF rest] by simp
  then have "sint (oplen op) \<ge> 0" using Cons.prems(3) by (simp add: sint_small del: of_nat_unat)
  moreover have "unat (offset op) < 2 ^ 63"
    using Cons.prems t wf_ops_ConsD(1) [OF Cons.prems(1)]
    by (auto simp: wf_op_def split: svn_delta_action.splits)
  then have "sint (offset op) \<ge> 0" by (simp add: sint_small del: of_nat_unat)
  ultimately have "encodable op" using wf_ops_ConsD(2) [OF Cons.prems(1)] by (simp add: encodable_def)
  with Cons.IH [OF rest Cons.prems(2-4)] show ?case by simp
qed simp

lemma wf_ops_count: "wf_ops slen nlen tpos npos os tlen \<Longrightarrow> tpos + length os \<le> tlen"
proof (induction os arbitrary: tpos npos)
  case (Cons op os)
  obtain np where "wf_ops slen nlen (tpos + unat (oplen op)) np os tlen"
    using wf_ops_ConsD(3) [OF Cons.prems(1)] by blast
  moreover have "unat (oplen op) > 0" using wf_ops_ConsD(2) [OF Cons.prems(1)] by (simp add: unat_gt_0)
  ultimately show ?case using Cons.IH by fastforce
qed simp

lemma wf_window_sizes:
  assumes "sendable w"
  shows "length (ops w) \<le> max_view" "length (new_data w) \<le> max_view" "list_all encodable (ops w)"
proof -
  have wf: "wf_ops (unat (sview_len w)) (length (new_data w)) 0 0 (ops w) (unat (tview_len w))"
    using assms by (simp add: sendable_def wf_window_def)
  show "length (ops w) \<le> max_view" using wf_ops_count [OF wf] assms by (simp add: sendable_def)
  show "length (new_data w) \<le> max_view"
    using wf new_len_le [of "ops w"] assms by (simp add: wf_ops_iff sendable_def)
  then show "list_all encodable (ops w)"
    using wf_ops_encodable [OF wf] assms by (simp add: sendable_def)
qed

definition header_bytes_of :: "window_header \<Rightarrow> byte list" where
  "header_bytes_of h = int_bytes (h_sview_offset h) @ int_bytes (h_sview_len h) @ int_bytes (h_tview_len h)
     @ int_bytes (h_inslen h) @ int_bytes (h_newlen h)"

definition nonneg_header :: "window_header \<Rightarrow> bool" where
  "nonneg_header h \<longleftrightarrow> sint (h_sview_offset h) \<ge> 0 \<and> sint (h_sview_len h) \<ge> 0 \<and> sint (h_tview_len h) \<ge> 0
     \<and> sint (h_inslen h) \<ge> 0 \<and> sint (h_newlen h) \<ge> 0"

lemma header_round_trip:
  assumes "nonneg_header h"
  shows "decode_header (header_bytes_of h @ rest) = Some (h, rest)"
    and "\<not> header_too_large h \<Longrightarrow> \<not> header_overflows h \<Longrightarrow>
      read_window_header (header_bytes_of h @ rest) = Inr (h, rest)"
  using assms
  by (cases h, simp_all add: decode_header_def header_bytes_of_def nonneg_header_def int_bytes_ok
      read_window_header_def read_one_size_def Let_def)+

text \<open>The encoding of a sendable window: a header that passes the checks and the contents.\<close>

lemma encode_window_ok:
  assumes "zlib_contract compress2 uncompress level" "sendable w" "version = 0 \<or> version = 1"
  shows "\<exists>h body. encode_window compress2 version level w = Inr (header_bytes_of h @ body)
    \<and> nonneg_header h \<and> \<not> header_too_large h \<and> \<not> header_overflows h
    \<and> h_sview_offset h = sview_offset w \<and> h_sview_len h = sview_len w \<and> h_tview_len h = tview_len w
    \<and> length body = unat (h_inslen h + h_newlen h)
    \<and> (\<forall>rest. decode_window uncompress (h_sview_offset h) (h_sview_len h) (h_tview_len h)
         (h_inslen h) (h_newlen h) (body @ rest) version = Inr (recount w))"
proof -
  note sz = wf_window_sizes [OF assms(2)]
  have w: "wf_window w" "unat (sview_len w) \<le> max_view" "unat (tview_len w) \<le> max_view"
    "sint (sview_offset w) \<ge> 0"
    using assms(2) by (simp_all add: sendable_def)
  let ?nl = "of_nat (length (new_data w)) :: 64 word"
  have nl: "unat ?nl = length (new_data w)" using sz(2) by (simp add: unat_of_nat)
  obtain bs where bs: "encode_instructions (ops w) = Inr bs" "length bs \<le> 19 * length (ops w)"
    "verify_loop bs (sview_len w) (tview_len w) ?nl 0 0 0 = Inr (length (ops w))"
    "decode_ops (length (ops w)) bs 0 0 = Inr (ops w, source_count (ops w), [])"
    using verify_complete [of "sview_len w" ?nl 0 0 "ops w" "tview_len w" 0 0] w(1) sz(3) nl
    by (auto simp: wf_window_def)
  have lb: "length bs \<le> 1945600" using bs(2) sz(1) by simp
  obtain ins newd where parts:
    "(if version = 1 then zlib_encode compress2 bs level else Inr bs) = Inr ins" "length ins \<le> length bs + 9"
    "(if version = 1 then zlib_encode compress2 (new_data w) level else Inr (new_data w)) = Inr newd"
    "length newd \<le> length (new_data w) + 9"
    "version = 1 \<longrightarrow> zlib_decode uncompress ins MAX_INSTRUCTION_SECTION_LEN = Inr bs
       \<and> zlib_decode uncompress newd SVN_DELTA_WINDOW_SIZE = Inr (new_data w)"
    "version \<noteq> 1 \<longrightarrow> ins = bs \<and> newd = new_data w"
  proof (cases "version = 1")
    case True
    obtain ins where i: "zlib_encode compress2 bs level = Inr ins"
      "zlib_decode uncompress ins MAX_INSTRUCTION_SECTION_LEN = Inr bs" "length ins \<le> length bs + 9"
      using zlib_round_trip [OF assms(1), of bs MAX_INSTRUCTION_SECTION_LEN] lb by (auto simp: section_size)
    obtain newd where n: "zlib_encode compress2 (new_data w) level = Inr newd"
      "zlib_decode uncompress newd SVN_DELTA_WINDOW_SIZE = Inr (new_data w)" "length newd \<le> length (new_data w) + 9"
      using zlib_round_trip [OF assms(1), of "new_data w" SVN_DELTA_WINDOW_SIZE] sz(2) by (auto simp: window_size)
    from that [of ins newd] i n True show thesis by simp
  next
    case False
    from that [of bs "new_data w"] False show thesis by simp
  qed
  have li: "length ins \<le> 1945609" "length newd \<le> 102409" using parts(2,4) lb sz(2) by simp_all
  then have ui: "unat (of_nat (length ins) :: 64 word) = length ins" "unat (of_nat (length newd) :: 64 word) = length newd"
    by (simp_all add: unat_of_nat)
  let ?h = "\<lparr>h_sview_offset = sview_offset w, h_sview_len = sview_len w, h_tview_len = tview_len w,
      h_inslen = of_nat (length ins), h_newlen = of_nat (length newd)\<rparr>"
  have nn: "nonneg_header ?h"
    using w li by (simp add: nonneg_header_def sint_of_nat_small sint_small del: of_nat_unat)
  have sum: "unat (of_nat (length ins) + of_nat (length newd) :: 64 word) = length ins + length newd"
    using ui li by (subst unat_add_small) simp_all
  have "unat (sview_offset w) < 2 ^ 63" using w(4) by (rule nonneg_small)
  then have ov: "\<not> header_overflows ?h"
    using w sum ui by (simp add: header_overflows_def word_less_nat_alt unat_add_small)
  have tl: "\<not> header_too_large ?h"
    using w li ui by (simp add: header_too_large_def section_size window_size MAX_ENCODED_INT_LEN_def word_less_nat_alt)
  have "encode_window compress2 version level w = Inr (header_bytes_of ?h @ (ins @ newd))"
    using bs(1) parts(1,3) nn
    by (simp add: encode_window_def append_encoded_int_def header_bytes_of_def nonneg_header_def int_bytes_ok)
  moreover have "decode_window uncompress (sview_offset w) (sview_len w) (tview_len w)
      (of_nat (length ins)) (of_nat (length newd)) ((ins @ newd) @ rest) version = Inr (recount w)" for rest
    using parts(5,6) bs(3,4) ui
    by (cases "version = 1") (simp_all add: decode_window_def Let_def count_and_verify_instructions_def recount_def)
  ultimately show ?thesis using nn ov tl sum by (intro exI [of _ ?h] exI [of _ "ins @ newd"]) simp
qed

end
