(* ===== verification/Svndiff_Stream.thy ===== *)
theory Svndiff_Stream
  imports Svndiff
begin

text \<open>
  Whole svndiff streams (libsvn\_delta/svndiff.c): the decoder gives the same windows however
  the bytes are cut into pieces, and what the encoder writes is read back, piece by piece by
  the write handler and window by window from a stream.
\<close>

section \<open>Reading is independent of what follows\<close>

lemma decode_loop_append: "decode_loop t p = Some (v, r) \<Longrightarrow> decode_loop t (p @ q) = Some (v, r @ q)"
  by (induction p arbitrary: t) (auto simp: Let_def split: if_splits)

lemma decode_size_append: "decode_size p = Some (v, r) \<Longrightarrow> decode_size (p @ q) = Some (v, r @ q)"
  using decode_loop_append [of 0 "take 10 p" v _ "take (10 - length p) q"]
  by (cases "length p \<le> 10") (auto simp: decode_size_def MAX_ENCODED_INT_LEN_def)

lemma decode_file_offset_size: "decode_file_offset p = decode_size p"
  by (simp add: decode_file_offset_def decode_size_def)

lemma decode_header_append: "decode_header p = Some (h, r) \<Longrightarrow> decode_header (p @ q) = Some (h, r @ q)"
  by (auto simp: decode_header_def decode_file_offset_size Option.bind_eq_Some_conv decode_size_append)

lemma header_sum:
  assumes "\<not> header_overflows h"
  shows "unat (h_inslen h + h_newlen h) = unat (h_inslen h) + unat (h_newlen h)"
proof -
  have "h_inslen h \<le> h_inslen h + h_newlen h" using assms by (auto simp: header_overflows_def not_less)
  then show ?thesis by (simp add: unat_plus_simple)
qed

lemma decode_window_append:
  assumes "unat inslen + unat newlen \<le> length p"
  shows "decode_window u soff slen tlen inslen newlen (p @ q) version =
    decode_window u soff slen tlen inslen newlen p version"
  using assms by (simp add: decode_window_def)

section \<open>The pieces do not matter\<close>

lemma SVN_ERR_assoc: "SVN_ERR (SVN_ERR m f) g = SVN_ERR m (\<lambda>x. SVN_ERR (f x) g)"
  by (simp add: SVN_ERR_def split: sum.splits)

lemma dbuffer_last:
  "db\<lparr>consumer := c, dbuffer := b, last_sview_offset := f, last_sview_len := l\<rparr> =
   db\<lparr>consumer := c, last_sview_offset := f, last_sview_len := l, dbuffer := b\<rparr>"
  by (cases db) simp

lemma write_loop_append:
  "SVN_ERR (write_loop u cf db) (\<lambda>db'. write_loop u cf (db'\<lparr>dbuffer := dbuffer db' @ y\<rparr>)) =
   write_loop u cf (db\<lparr>dbuffer := dbuffer db @ y\<rparr>)"
proof (induction u cf db rule: write_loop.induct)
  case (1 u cf db)
  note step = write_loop.simps [of u cf db]
  show ?case
  proof (cases "decode_header (dbuffer db)")
    case None
    then show ?thesis by (simp add: step)
  next
    case (Some x)
    obtain h p where x: "x = (h, p)" by fastforce
    note step' = write_loop.simps [of u cf "db\<lparr>dbuffer := dbuffer db @ y\<rparr>"]
    have d: "decode_header (dbuffer db) = Some (h, p)" "decode_header (dbuffer db @ y) = Some (h, p @ y)"
      using Some x decode_header_append by auto
    show ?thesis
    proof (cases "header_too_large h \<or> header_overflows h \<or> header_backward h db
        \<or> length p < unat (h_inslen h + h_newlen h)")
      case True
      then show ?thesis
        using d by (auto simp: step step' header_backward_def)
    next
      case False
      then have sum: "unat (h_inslen h + h_newlen h) = unat (h_inslen h) + unat (h_newlen h)"
        "unat (h_inslen h) + unat (h_newlen h) \<le> length p"
        using header_sum [of h] by auto
      note IH = "1.IH" [OF d(1) refl, unfolded not_False_eq_True]
      have nb: "\<not> header_backward h (db\<lparr>dbuffer := dbuffer db @ y\<rparr>)" using False by (simp add: header_backward_def)
      show ?thesis
        using False d nb sum IH
        by (auto simp: step step' decode_window_append SVN_ERR_assoc dbuffer_last intro!: SVN_ERR_cong)
    qed
  qed
qed

lemma write_loop_keeps:
  "write_loop u cf db = Inr db' \<Longrightarrow> header_bytes db' = header_bytes db \<and> dversion db' = dversion db
     \<and> error_on_early_close db' = error_on_early_close db"
proof (induction u cf db rule: write_loop.induct)
  case (1 u cf db)
  show ?case
  proof (cases "decode_header (dbuffer db)")
    case (Some x)
    obtain h p where x: "x = (h, p)" by fastforce
    show ?thesis
      using "1.prems" "1.IH" [OF Some x [symmetric]]
      by (fastforce simp: write_loop.simps [of u cf db] Some x SVN_ERR_Inr_iff split: if_splits)
  qed (use "1.prems" in \<open>simp add: write_loop.simps [of u cf db]\<close>)
qed

lemma decode_header_Nil: "decode_header [] = None"
  by (simp add: decode_header_def decode_file_offset_def)

lemma write_loop_empty: "dbuffer db = [] \<Longrightarrow> write_loop u cf db = Inr db"
  by (simp add: write_loop.simps [of u cf db] decode_header_Nil)

lemma length_svndiff_header [simp]: "length (svndiff_header v) = 4"
  by (simp add: svndiff_header_def)

lemma svndiff_headers_agree: "n \<le> 3 \<Longrightarrow> take n (svndiff_header v) = take n (svndiff_header w)"
  by (cases "n = 3") (auto simp: svndiff_header_def numeral_3_eq_3 take_Cons' )

text \<open>
  Nothing is buffered before the four bytes of the header have been seen.
\<close>

definition wf_decoder :: "'c decode_baton \<Rightarrow> bool" where
  "wf_decoder db \<longleftrightarrow> header_bytes db \<le> 4 \<and> (header_bytes db < 4 \<longrightarrow> dbuffer db = [])"

lemma check_header_wf:
  "check_header buf db = Inr (rest, db') \<Longrightarrow> wf_decoder db \<Longrightarrow>
   wf_decoder db' \<and> (header_bytes db' < 4 \<longrightarrow> rest = [])"
  by (auto simp: check_header_def wf_decoder_def Let_def split: if_splits)

lemma write_handler_wf:
  assumes "write_handler u cf buf db = Inr db'" "wf_decoder db"
  shows "wf_decoder db'"
proof -
  obtain rest db1 where c: "check_header buf db = Inr (rest, db1)"
    "write_loop u cf (db1\<lparr>dbuffer := dbuffer db1 @ rest\<rparr>) = Inr db'"
    using assms(1) by (auto simp: write_handler_def SVN_ERR_Inr_iff)
  note wf = check_header_wf [OF c(1) assms(2)]
  show ?thesis
  proof (cases "header_bytes db1 < 4")
    case True
    then have "db' = db1" using c(2) wf write_loop_empty [of db1 u cf] by (simp add: wf_decoder_def)
    with wf show ?thesis by simp
  next
    case False
    with wf write_loop_keeps [OF c(2)] show ?thesis by (simp add: wf_decoder_def)
  qed
qed

lemma check_header_append:
  assumes "wf_decoder db"
  shows "SVN_ERR (check_header a db) (\<lambda>(rest, db').
      if header_bytes db' < 4 then check_header b db' else Inr (rest @ b, db')) = check_header (a @ b) db"
proof (cases "header_bytes db < 4")
  case False
  then show ?thesis by (simp add: check_header_def)
next
  case hb: True
  let ?k = "4 - header_bytes db"
  let ?hdr = "\<lambda>v. drop (header_bytes db) (svndiff_header v)"
  show ?thesis
  proof (cases "length a < ?k")
    case False
    then show ?thesis using hb by (auto simp: check_header_def Let_def)
  next
    case True
    have same: "take (length a) (?hdr v) = take (length a) (?hdr 0)" for v
    proof -
      have "take (header_bytes db + length a) (svndiff_header v) = take (header_bytes db + length a) (svndiff_header 0)"
        using True by (intro svndiff_headers_agree) simp
      then show ?thesis by (simp add: take_drop add.commute)
    qed
    show ?thesis
    proof (cases "a = take (length a) (?hdr 0)")
      case no: False
      have "take n (a @ b) \<noteq> take n (?hdr v)" if "length a \<le> n" for n v
      proof
        assume "take n (a @ b) = take n (?hdr v)"
        then have "take (length a) (take n (a @ b)) = take (length a) (take n (?hdr v))" by simp
        with that no same [of v] show False by (simp add: min_def)
      qed
      then have "check_header (a @ b) db = Inl SVN_ERR_SVNDIFF_INVALID_HEADER"
        using hb True by (simp only: check_header_def Let_def if_True if_False) simp
      moreover have "check_header a db = Inl SVN_ERR_SVNDIFF_INVALID_HEADER"
        using hb True no same [of 1] by (simp add: check_header_def Let_def)
      ultimately show ?thesis by simp
    next
      case yes: True
      have split: "take (length a + n) (a @ b) = take (length a + n) (?hdr v) \<longleftrightarrow>
          take n b = take n (drop (header_bytes db + length a) (svndiff_header v))" for n v
      proof -
        have "take (length a + n) (?hdr v) = a @ take n (drop (header_bytes db + length a) (svndiff_header v))"
          using yes same [of v] by (subst take_add) (simp add: add.commute [of "header_bytes db"])
        then show ?thesis by simp
      qed
      have "header_bytes db + length a < 4" using True by simp
      define m where "m = min (4 - (header_bytes db + length a)) (length b)"
      have n: "min ?k (length (a @ b)) = length a + m" using True by (simp add: m_def)
      let ?v = "\<lambda>v. take m b = take m (drop (header_bytes db + length a) (svndiff_header v))"
      let ?db = "\<lambda>v. db\<lparr>dversion := v, header_bytes := header_bytes db + length a + m\<rparr>"
      let ?r = "if ?v 0 then Inr (drop m b, ?db 0) else if ?v 1 then Inr (drop m b, ?db 1)
        else Inl SVN_ERR_SVNDIFF_INVALID_HEADER"
      have "check_header (a @ b) db = ?r"
        unfolding check_header_def Let_def n split using hb by (simp add: add.assoc)
      moreover have "check_header a db = Inr ([], db\<lparr>dversion := 0, header_bytes := header_bytes db + length a\<rparr>)"
        using hb True yes by (simp add: check_header_def Let_def)
      moreover have "check_header b (db\<lparr>dversion := 0, header_bytes := header_bytes db + length a\<rparr>) = ?r"
        using \<open>header_bytes db + length a < 4\<close> by (simp add: check_header_def Let_def flip: m_def)
      ultimately show ?thesis using \<open>header_bytes db + length a < 4\<close> by simp
    qed
  qed
qed

lemma write_handler_append:
  assumes "wf_decoder db"
  shows "SVN_ERR (write_handler u cf a db) (write_handler u cf b) = write_handler u cf (a @ b) db"
proof -
  have "SVN_ERR (write_loop u cf (db1\<lparr>dbuffer := dbuffer db1 @ rest\<rparr>)) (write_handler u cf b) =
      SVN_ERR (if header_bytes db1 < 4 then check_header b db1 else Inr (rest @ b, db1))
        (\<lambda>(rest, db'). write_loop u cf (db'\<lparr>dbuffer := dbuffer db' @ rest\<rparr>))"
    if c: "check_header a db = Inr (rest, db1)" for rest db1
  proof (cases "header_bytes db1 < 4")
    case True
    then have "rest = []" "dbuffer db1 = []" using check_header_wf [OF c assms] by (simp_all add: wf_decoder_def)
    then have same: "db1\<lparr>dbuffer := dbuffer db1 @ rest\<rparr> = db1" by (cases db1) simp
    show ?thesis unfolding same using True \<open>dbuffer db1 = []\<close> by (simp add: write_loop_empty write_handler_def)
  next
    case False
    have "SVN_ERR (write_loop u cf (db1\<lparr>dbuffer := dbuffer db1 @ rest\<rparr>)) (write_handler u cf b) =
        SVN_ERR (write_loop u cf (db1\<lparr>dbuffer := dbuffer db1 @ rest\<rparr>))
          (\<lambda>db'. write_loop u cf (db'\<lparr>dbuffer := dbuffer db' @ b\<rparr>))"
      using False by (intro SVN_ERR_cong) (auto simp: write_handler_def check_header_def dest: write_loop_keeps)
    then show ?thesis
      using False write_loop_append [of u cf "db1\<lparr>dbuffer := dbuffer db1 @ rest\<rparr>" b] by simp
  qed
  then show ?thesis
    unfolding write_handler_def [of u cf a db] write_handler_def [of u cf "a @ b" db]
      check_header_append [OF assms, of a b, symmetric] SVN_ERR_assoc
    by (intro SVN_ERR_cong) auto
qed

fun write_all ::
  "uncompressor \<Rightarrow> 'c window_consumer \<Rightarrow> byte list list \<Rightarrow> 'c decode_baton \<Rightarrow> 'c decode_baton svn_result" where
  "write_all u cf [] db = Inr db"
| "write_all u cf (piece # pieces) db = SVN_ERR (write_handler u cf piece db) (write_all u cf pieces)"

lemma write_all_concat:
  "wf_decoder db \<Longrightarrow> pieces \<noteq> [] \<Longrightarrow> write_all u cf pieces db = write_handler u cf (concat pieces) db"
proof (induction pieces arbitrary: db)
  case (Cons a pieces)
  show ?case
  proof (cases "pieces = []")
    case True
    then show ?thesis by (simp add: SVN_ERR_def split: sum.splits)
  next
    case False
    have "write_all u cf (a # pieces) db = SVN_ERR (write_handler u cf a db) (write_handler u cf (concat pieces))"
      using Cons.IH False write_handler_wf [OF _ Cons.prems(1)] by (auto intro!: SVN_ERR_cong)
    then show ?thesis by (simp add: write_handler_append [OF Cons.prems(1)])
  qed
qed simp

lemma parse_svndiff_start: "wf_decoder (svn_txdelta_parse_svndiff c early)"
  by (simp add: wf_decoder_def svn_txdelta_parse_svndiff_def)

lemma write_nothing: "write_handler u cf [] (svn_txdelta_parse_svndiff c early) = Inr (svn_txdelta_parse_svndiff c early)"
  by (simp add: write_handler_def check_header_def svn_txdelta_parse_svndiff_def Let_def write_loop_empty)

lemma write_pieces:
  "write_all u cf pieces (svn_txdelta_parse_svndiff c early) =
   write_handler u cf (concat pieces) (svn_txdelta_parse_svndiff c early)"
proof (cases "pieces = []")
  case True
  then show ?thesis by (simp only: write_nothing concat.simps write_all.simps)
qed (rule write_all_concat [OF parse_svndiff_start])

section \<open>Encoded streams are decoded\<close>

text \<open>Encoding windows and then the end, and giving windows and then the end to a consumer.\<close>

fun encode_all ::
  "compressor \<Rightarrow> svn_txdelta_window_t list \<Rightarrow> encoder_baton \<Rightarrow> encoder_baton svn_result" where
  "encode_all compress2 [] eb = window_handler compress2 None eb"
| "encode_all compress2 (w # ws) eb = SVN_ERR (window_handler compress2 (Some w) eb) (encode_all compress2 ws)"

fun deliver :: "'c window_consumer \<Rightarrow> svn_txdelta_window_t list \<Rightarrow> 'c \<Rightarrow> 'c svn_result" where
  "deliver cf [] c = cf None c"
| "deliver cf (w # ws) c = SVN_ERR (cf (Some w) c) (deliver cf ws)"

text \<open>Closing the decoder; what is left is the consumer.\<close>

definition finish :: "'c window_consumer \<Rightarrow> 'c decode_baton \<Rightarrow> 'c svn_result" where
  "finish cf db = SVN_ERR (close_handler cf db) (\<lambda>db'. Inr (consumer db'))"

text \<open>
  The rule for source views (svn\_delta.h): neither the beginning nor the end of the view moves
  to the left. The check of the decoder is weaker: it lets an empty view pass anywhere, and
  compares the next view with that empty view.
\<close>

fun forward_views :: "nat \<Rightarrow> nat \<Rightarrow> svn_txdelta_window_t list \<Rightarrow> bool" where
  "forward_views off len [] = True"
| "forward_views off len (w # ws) =
     (off \<le> unat (sview_offset w) \<and> off + len \<le> unat (sview_offset w) + unat (sview_len w)
      \<and> forward_views (unat (sview_offset w)) (unat (sview_len w)) ws)"

fun accepted_views :: "nat \<Rightarrow> nat \<Rightarrow> svn_txdelta_window_t list \<Rightarrow> bool" where
  "accepted_views off len [] = True"
| "accepted_views off len (w # ws) =
     ((sview_len w = 0 \<or> off \<le> unat (sview_offset w) \<and> off + len \<le> unat (sview_offset w) + unat (sview_len w))
      \<and> accepted_views (unat (sview_offset w)) (unat (sview_len w)) ws)"

lemma forward_accepted: "forward_views off len ws \<Longrightarrow> accepted_views off len ws"
  by (induction ws arbitrary: off len) auto

lemma accepted_forward:
  "accepted_views off len ws \<Longrightarrow> \<forall>w \<in> set ws. sview_len w \<noteq> 0 \<Longrightarrow> forward_views off len ws"
  by (induction ws arbitrary: off len) auto

lemma encode_window_bytes:
  assumes "zlib_contract compress2 uncompress level" "version = 0 \<or> version = 1" "list_all sendable ws"
    and "enc_version eb = version" "header_done eb" "compression_level eb = level"
  shows "\<exists>bs. encode_all compress2 ws eb = Inr (eb\<lparr>enc_output := enc_output eb @ concat bs, enc_closed := True\<rparr>)
    \<and> list_all2 (\<lambda>w b. encode_window compress2 version level w = Inr b) ws bs"
  using assms(3-6)
proof (induction ws arbitrary: eb)
  case Nil
  then show ?case by (simp add: window_handler_def)
next
  case (Cons w ws)
  obtain b where b: "encode_window compress2 version level w = Inr b"
    using encode_window_ok [OF assms(1) _ assms(2), of w] Cons.prems(1) by auto
  let ?eb = "eb\<lparr>enc_output := enc_output eb @ b\<rparr>"
  obtain bs where bs: "encode_all compress2 ws ?eb = Inr (?eb\<lparr>enc_output := enc_output ?eb @ concat bs, enc_closed := True\<rparr>)"
    "list_all2 (\<lambda>w b. encode_window compress2 version level w = Inr b) ws bs"
    using Cons.IH [of ?eb] Cons.prems by auto
  show ?case
    using b bs Cons.prems by (intro exI [of _ "b # bs"]) (simp add: window_handler_def)
qed

text \<open>The bytes of a sendable window in the buffer are one step of the loop.\<close>

lemma write_loop_window:
  assumes "zlib_contract compress2 uncompress level" "sendable w" "version = 0 \<or> version = 1"
    and "encode_window compress2 version level w = Inr b"
    and "dversion db = version" "dbuffer db = b @ rest"
    and "sint (last_sview_offset db) \<ge> 0" "unat (last_sview_len db) \<le> max_view"
    and "accepted_views (unat (last_sview_offset db)) (unat (last_sview_len db)) [w]"
  shows "write_loop uncompress cf db = SVN_ERR (cf (Some (recount w)) (consumer db)) (\<lambda>c.
    write_loop uncompress cf (db\<lparr>consumer := c, dbuffer := rest, last_sview_offset := sview_offset w,
      last_sview_len := sview_len w\<rparr>))"
proof -
  obtain h body where h: "b = header_bytes_of h @ body" "nonneg_header h" "\<not> header_too_large h"
    "\<not> header_overflows h" "h_sview_offset h = sview_offset w" "h_sview_len h = sview_len w"
    "h_tview_len h = tview_len w" "length body = unat (h_inslen h + h_newlen h)"
    "\<And>rest. decode_window uncompress (h_sview_offset h) (h_sview_len h) (h_tview_len h)
         (h_inslen h) (h_newlen h) (body @ rest) version = Inr (recount w)"
    using encode_window_ok [OF assms(1-3)] assms(4) by auto
  have d: "decode_header (dbuffer db) = Some (h, body @ rest)"
    using header_round_trip(1) [OF h(2), of "body @ rest"] assms(6) h(1) by simp
  have "unat (last_sview_offset db) < 2 ^ 63" using assms(7) by (rule nonneg_small)
  moreover have "unat (sview_offset w) < 2 ^ 63"
    using assms(2) nonneg_small unfolding sendable_def by blast
  moreover have "unat (sview_len w) \<le> max_view" using assms(2) by (simp add: sendable_def)
  ultimately have nb: "\<not> header_backward h db"
    using assms(8,9)
    by (auto simp: header_backward_def h sint_small word_less_nat_alt not_less unat_add_small simp del: of_nat_unat)
  show ?thesis
    using h(3-9) d nb assms(5) by (simp add: write_loop.simps [of uncompress cf db])
qed

lemma write_loop_windows:
  assumes "zlib_contract compress2 uncompress level" "version = 0 \<or> version = 1"
    and "list_all2 (\<lambda>w b. encode_window compress2 version level w = Inr b) ws bs"
    and "list_all sendable ws" "dversion db = version" "dbuffer db = concat bs"
    and "sint (last_sview_offset db) \<ge> 0" "unat (last_sview_len db) \<le> max_view"
    and "accepted_views (unat (last_sview_offset db)) (unat (last_sview_len db)) ws" "header_bytes db = 4"
  shows "SVN_ERR (write_loop uncompress cf db) (finish cf) =
    deliver cf (map recount ws) (consumer db)"
  using assms(3-)
proof (induction ws bs arbitrary: db rule: list_all2_induct)
  case Nil
  then show ?case
    by (simp add: write_loop_empty finish_def close_handler_def SVN_ERR_def split: sum.splits)
next
  case (Cons w ws b bs)
  let ?db = "\<lambda>c. db\<lparr>consumer := c, dbuffer := concat bs, last_sview_offset := sview_offset w,
      last_sview_len := sview_len w\<rparr>"
  have "write_loop uncompress cf db = SVN_ERR (cf (Some (recount w)) (consumer db)) (\<lambda>c. write_loop uncompress cf (?db c))"
    using Cons.prems Cons.hyps(1) by (intro write_loop_window [OF assms(1) _ assms(2)]) auto
  moreover have "SVN_ERR (write_loop uncompress cf (?db c)) (finish cf) = deliver cf (map recount ws) c" for c
    using Cons.IH [of "?db c"] Cons.prems by (simp add: sendable_def)
  ultimately show ?case
    by (cases "cf (Some (recount w)) (consumer db)") simp_all
qed

lemma stream_round_trip:
  assumes "zlib_contract compress2 uncompress level" "version = 0 \<or> version = 1"
    and "list_all sendable ws" "accepted_views 0 0 ws"
  shows "\<exists>eb. encode_all compress2 ws (svn_txdelta_to_svndiff3 version level) = Inr eb \<and> enc_closed eb
    \<and> SVN_ERR (write_handler uncompress cf (enc_output eb) (svn_txdelta_parse_svndiff c early))
        (finish cf) = deliver cf (map recount ws) c"
proof -
  let ?eb = "\<lparr>enc_output = svndiff_header version, enc_closed = False, header_done = True,
      enc_version = version, compression_level = level\<rparr>"
  obtain bs where bs: "encode_all compress2 ws ?eb = Inr (?eb\<lparr>enc_output := enc_output ?eb @ concat bs, enc_closed := True\<rparr>)"
    "list_all2 (\<lambda>w b. encode_window compress2 version level w = Inr b) ws bs"
    using encode_window_bytes [OF assms(1-3), of ?eb] by auto
  have first: "window_handler compress2 win (svn_txdelta_to_svndiff3 version level) = window_handler compress2 win ?eb" for win
    by (simp add: window_handler_def svn_txdelta_to_svndiff3_def)
  have enc: "encode_all compress2 ws (svn_txdelta_to_svndiff3 version level) = encode_all compress2 ws ?eb"
    by (cases ws) (simp_all add: first)
  let ?db = "(svn_txdelta_parse_svndiff c early)\<lparr>header_bytes := 4, dversion := version, dbuffer := concat bs\<rparr>"
  have "write_handler uncompress cf (svndiff_header version @ concat bs) (svn_txdelta_parse_svndiff c early) =
      write_loop uncompress cf ?db"
    using assms(2) by (auto simp: write_handler_def check_header_def svn_txdelta_parse_svndiff_def Let_def svndiff_header_def eval_nat_numeral)
  moreover have "SVN_ERR (write_loop uncompress cf ?db) (finish cf) = deliver cf (map recount ws) c"
    using write_loop_windows [OF assms(1,2) bs(2) assms(3), of ?db] assms(4)
    by (simp add: svn_txdelta_parse_svndiff_def)
  ultimately show ?thesis using enc bs(1) by (simp add:)
qed

section \<open>Only good windows are delivered\<close>

text \<open>A consumer that keeps the windows.\<close>

fun collect :: "svn_txdelta_window_t list window_consumer" where
  "collect None ws = Inr ws"
| "collect (Some w) ws = Inr (ws @ [w])"

definition stream_error :: "svn_errcode \<Rightarrow> bool" where
  "stream_error e \<longleftrightarrow> decode_error e
     \<or> e \<in> {SVN_ERR_SVNDIFF_INVALID_HEADER, SVN_ERR_SVNDIFF_CORRUPT_WINDOW, SVN_ERR_SVNDIFF_BACKWARD_VIEW}"

definition last_view :: "svn_txdelta_window_t list \<Rightarrow> nat \<times> nat" where
  "last_view ws = (if ws = [] then (0, 0) else (unat (sview_offset (last ws)), unat (sview_len (last ws))))"

lemma accepted_views_snoc:
  "accepted_views off len (ws @ [w]) \<longleftrightarrow> accepted_views off len ws \<and>
    (case if ws = [] then (off, len) else last_view ws of (off', len') \<Rightarrow> accepted_views off' len' [w])"
  by (induction ws arbitrary: off len) (auto simp: last_view_def)

definition delivered :: "svn_txdelta_window_t list decode_baton \<Rightarrow> bool" where
  "delivered db \<longleftrightarrow> list_all (\<lambda>w. sendable w \<and> recount w = w) (consumer db) \<and> accepted_views 0 0 (consumer db)
     \<and> last_view (consumer db) = (unat (last_sview_offset db), unat (last_sview_len db))"

lemma header_bounds:
  assumes "\<not> header_too_large h" "\<not> header_overflows h"
  shows "unat (h_sview_len h) \<le> max_view" "unat (h_tview_len h) \<le> max_view"
    "unat (h_newlen h) \<le> max_view + 10" "unat (h_sview_offset h) < 2 ^ 63"
    "unat (h_sview_offset h + h_sview_len h) = unat (h_sview_offset h) + unat (h_sview_len h)"
proof -
  show l: "unat (h_sview_len h) \<le> max_view" "unat (h_tview_len h) \<le> max_view"
    "unat (h_newlen h) \<le> max_view + 10"
    using assms(1)
    by (simp_all add: header_too_large_def SVN_DELTA_WINDOW_SIZE_def MAX_ENCODED_INT_LEN_def word_less_nat_alt not_less)
  have "sint (h_sview_offset h) \<ge> 0" using assms(2) by (simp add: header_overflows_def)
  then show o: "unat (h_sview_offset h) < 2 ^ 63" by (rule nonneg_small)
  show "unat (h_sview_offset h + h_sview_len h) = unat (h_sview_offset h) + unat (h_sview_len h)"
    using l(1) o by (intro unat_add_small) simp
qed

lemma delivered_step:
  assumes "delivered db" "\<not> header_too_large h" "\<not> header_overflows h" "\<not> header_backward h db"
    and "wf_window w" "sview_offset w = h_sview_offset h" "sview_len w = h_sview_len h"
    and "tview_len w = h_tview_len h" "src_ops w = source_count (ops w)"
  shows "delivered (db\<lparr>consumer := consumer db @ [w], dbuffer := b,
    last_sview_offset := h_sview_offset h, last_sview_len := h_sview_len h\<rparr>)"
proof -
  note hb = header_bounds [OF assms(2,3)]
  have "sendable w" "recount w = w"
    using assms(3,5-9) hb by (simp_all add: sendable_def header_overflows_def recount_def)
  have lv: "unat (last_sview_offset db) < 2 ^ 63 \<and> unat (last_sview_len db) \<le> max_view"
  proof (cases "consumer db = []")
    case True
    then show ?thesis using assms(1) by (simp add: delivered_def last_view_def)
  next
    case False
    then have "sendable (last (consumer db))" using assms(1) by (simp add: delivered_def list_all_iff)
    moreover from this have "unat (sview_offset (last (consumer db))) < 2 ^ 63"
      using nonneg_small unfolding sendable_def by blast
    ultimately show ?thesis using assms(1) False by (simp add: delivered_def last_view_def sendable_def)
  qed
  then have "accepted_views (unat (last_sview_offset db)) (unat (last_sview_len db)) [w]"
    using assms(4,6,7) hb
    by (auto simp: header_backward_def sint_small word_less_nat_alt not_less unat_add_small unat_gt_0 simp del: of_nat_unat)
  with \<open>sendable w\<close> \<open>recount w = w\<close> show ?thesis
    using assms(1,6,7) by (auto simp: delivered_def accepted_views_snoc last_view_def split: if_splits)
qed

lemma write_loop_delivers:
  "delivered db \<Longrightarrow> case write_loop u collect db of Inl e \<Rightarrow> stream_error e | Inr db' \<Rightarrow> delivered db'"
proof (induction u "collect :: svn_txdelta_window_t list window_consumer" db rule: write_loop.induct)
  case (1 u db)
  note step = write_loop.simps [of u collect db]
  show ?case
  proof (cases "decode_header (dbuffer db)")
    case None
    then show ?thesis using "1.prems" by (simp add: step)
  next
    case (Some x)
    obtain h p where x: "x = (h, p)" by fastforce
    show ?thesis
    proof (cases "header_too_large h \<or> header_overflows h \<or> header_backward h db
        \<or> length p < unat (h_inslen h + h_newlen h)")
      case True
      then show ?thesis using Some x "1.prems" by (auto simp: step stream_error_def)
    next
      case False
      note hb = header_bounds [of h]
      show ?thesis
      proof (cases "decode_window u (h_sview_offset h) (h_sview_len h) (h_tview_len h)
            (h_inslen h) (h_newlen h) p (dversion db)")
        case (Inl e)
        then have "decode_error e"
          using decode_window_sound [of "h_sview_len h" "h_tview_len h" "h_newlen h" "h_sview_offset h" u "h_inslen h" p "dversion db"]
            hb False by simp
        then show ?thesis using Some x False Inl by (simp add: step stream_error_def)
      next
        case (Inr w)
        then have w: "wf_window w" "sview_offset w = h_sview_offset h" "sview_len w = h_sview_len h"
          "tview_len w = h_tview_len h" "src_ops w = source_count (ops w)"
          using decode_window_sound [of "h_sview_len h" "h_tview_len h" "h_newlen h" "h_sview_offset h" u "h_inslen h" p "dversion db"]
            hb False by auto
        have "delivered (db\<lparr>consumer := consumer db @ [w], dbuffer := drop (unat (h_inslen h + h_newlen h)) p,
            last_sview_offset := h_sview_offset h, last_sview_len := h_sview_len h\<rparr>)"
          using False by (intro delivered_step "1.prems" w) auto
        then show ?thesis
          using "1.hyps" [OF Some x [symmetric] _ _ _ _ Inr, of "consumer db @ [w]"] False Some x Inr
          by (simp add: step)
      qed
    qed
  qed
qed

lemma check_header_delivered:
  "delivered db \<Longrightarrow> case check_header buf db of Inl e \<Rightarrow> stream_error e | Inr (rest, db') \<Rightarrow> delivered db'"
  by (auto simp: check_header_def delivered_def stream_error_def Let_def split: if_splits)

lemma write_handler_delivers:
  assumes "delivered db"
  shows "case write_handler u collect buf db of Inl e \<Rightarrow> stream_error e | Inr db' \<Rightarrow> delivered db'"
proof (cases "check_header buf db")
  case (Inl e)
  then show ?thesis using check_header_delivered [OF assms, of buf] by (simp add: write_handler_def)
next
  case (Inr x)
  obtain rest db1 where x: "x = (rest, db1)" by fastforce
  then have "delivered (db1\<lparr>dbuffer := dbuffer db1 @ rest\<rparr>)"
    using check_header_delivered [OF assms, of buf] Inr by (simp add: delivered_def)
  then show ?thesis using write_loop_delivers [of "db1\<lparr>dbuffer := dbuffer db1 @ rest\<rparr>" u] Inr x by (simp add: write_handler_def)
qed

section \<open>Properties\<close>

text \<open>
  C28. Integers of variable length: every value that is not negative is written as one to
  nine bytes, which both readers give back with what follows untouched; a negative value is
  an assertion failure, never bytes.
\<close>

theorem svndiff_int_round_trip:
  "if sint v \<ge> 0
   then \<exists>bs. encode_int v = Inr bs \<and> 1 \<le> length bs \<and> length bs \<le> 9
     \<and> decode_size (bs @ rest) = Some (v, rest) \<and> decode_file_offset (bs @ rest) = Some (v, rest)
     \<and> read_one_size (bs @ rest) = Inr (v, rest)
   else encode_int v = Inl SVN_ERR_ASSERTION_FAIL"
proof (cases "sint v \<ge> 0")
  case True
  note ok = int_bytes_ok [OF True]
  have "1 \<le> length (int_bytes v)" using ok(2) by linarith
  with True ok show ?thesis unfolding read_one_size_def by (intro if_P [THEN iffD2] exI [of _ "int_bytes v"]) auto
qed (simp add: encode_int_def)

text \<open>
  C29. A window is read back from a stream: for a well-formed window within the limits, in
  both versions of the format and for every compression level, the encoder succeeds, reading
  a window from a stream that starts with the bytes gives the window, with the copies from
  the source counted anew, and leaves the rest, and skipping a window leaves the same rest.
\<close>

theorem svndiff_window_round_trip:
  assumes "zlib_contract compress2 uncompress level" "sendable w" "version = 0 \<or> version = 1"
  shows "\<exists>bs. encode_window compress2 version level w = Inr bs
    \<and> svn_txdelta_read_svndiff_window uncompress (bs @ rest) version = Inr (recount w, rest)
    \<and> svn_txdelta_skip_svndiff_window (bs @ rest) = Inr rest"
proof -
  obtain h body where h: "encode_window compress2 version level w = Inr (header_bytes_of h @ body)"
    "nonneg_header h" "\<not> header_too_large h" "\<not> header_overflows h"
    "length body = unat (h_inslen h + h_newlen h)"
    "\<And>rest. decode_window uncompress (h_sview_offset h) (h_sview_len h) (h_tview_len h)
         (h_inslen h) (h_newlen h) (body @ rest) version = Inr (recount w)"
    using encode_window_ok [OF assms] by blast
  have "read_window_header (header_bytes_of h @ body @ rest) = Inr (h, body @ rest)"
    using header_round_trip(2) [OF h(2-4)] .
  with h(1,5) h(6) [of "[]"] show ?thesis
    by (simp add: svn_txdelta_read_svndiff_window_def svn_txdelta_skip_svndiff_window_def Let_def)
qed

theorem svndiff_window_round_trip_witness:
  "\<exists>bs. encode_window (\<lambda>data level. Inr data) 1 5
       \<lparr>sview_offset = 0, sview_len = 2, tview_len = 3, src_ops = 1,
        ops = [\<lparr>action_code = svn_txdelta_source, offset = 1, oplen = 1\<rparr>,
               \<lparr>action_code = svn_txdelta_new, offset = 0, oplen = 2\<rparr>], new_data = [7, 8]\<rparr> = Inr bs
    \<and> svn_txdelta_read_svndiff_window (\<lambda>n z. Inr z) (bs @ [9]) 1 = Inr
       (recount \<lparr>sview_offset = 0, sview_len = 2, tview_len = 3, src_ops = 1,
        ops = [\<lparr>action_code = svn_txdelta_source, offset = 1, oplen = 1\<rparr>,
               \<lparr>action_code = svn_txdelta_new, offset = 0, oplen = 2\<rparr>], new_data = [7, 8]\<rparr>, [9])
    \<and> svn_txdelta_skip_svndiff_window (bs @ [9]) = Inr [9]"
  by (rule svndiff_window_round_trip) (simp_all add: zlib_contract_def sendable_def wf_window_def)

text \<open>
  C23. The pieces do not matter: feeding the decoder a list of pieces, cut anywhere, empty
  ones included, is the same as feeding it all bytes at once: same windows to the consumer
  in the same order, same state, same error.
\<close>

theorem svndiff_pieces:
  "write_all uncompress consumer_func pieces (svn_txdelta_parse_svndiff baton early) =
   write_handler uncompress consumer_func (concat pieces) (svn_txdelta_parse_svndiff baton early)"
  by (rule write_pieces)

text \<open>
  C13. A whole stream is read back: the windows of a delta, well formed, within the limits
  and with source views that pass the check of the decoder (views that do not go backwards do),
  are encoded to a closed stream; feeding
  its bytes to the decoder in any pieces and closing it gives the consumer exactly these
  windows, with the copies from the source counted anew, and the end, whatever the consumer does with them, its errors included.
\<close>

theorem svndiff_stream_round_trip:
  assumes "zlib_contract compress2 uncompress level" "version = 0 \<or> version = 1"
    and "list_all sendable windows" "accepted_views 0 0 windows"
  shows "\<exists>eb. encode_all compress2 windows (svn_txdelta_to_svndiff3 version level) = Inr eb \<and> enc_closed eb
    \<and> (\<forall>pieces consumer_func baton early. concat pieces = enc_output eb \<longrightarrow>
        SVN_ERR (write_all uncompress consumer_func pieces (svn_txdelta_parse_svndiff baton early))
          (finish consumer_func) = deliver consumer_func (map recount windows) baton)"
proof -
  obtain eb where eb: "encode_all compress2 windows (svn_txdelta_to_svndiff3 version level) = Inr eb" "enc_closed eb"
    using stream_round_trip [OF assms, of collect "[]" True] by blast
  have "SVN_ERR (write_all uncompress cf pieces (svn_txdelta_parse_svndiff c early)) (finish cf) = deliver cf (map recount windows) c"
    if "concat pieces = enc_output eb" for pieces cf c early
    using stream_round_trip [OF assms, of cf c early] eb(1) that by (auto simp: write_pieces)
  with eb show ?thesis by blast
qed

theorem svndiff_stream_round_trip_witness:
  "\<exists>eb. encode_all (\<lambda>data level. Inr data) [
       \<lparr>sview_offset = 0, sview_len = 2, tview_len = 3, src_ops = 1,
        ops = [\<lparr>action_code = svn_txdelta_source, offset = 1, oplen = 1\<rparr>,
               \<lparr>action_code = svn_txdelta_new, offset = 0, oplen = 2\<rparr>], new_data = [7, 8]\<rparr>] (svn_txdelta_to_svndiff3 1 5) = Inr eb \<and> enc_closed eb
    \<and> (\<forall>pieces consumer_func baton early. concat pieces = enc_output eb \<longrightarrow>
        SVN_ERR (write_all (\<lambda>n z. Inr z) consumer_func pieces (svn_txdelta_parse_svndiff (baton :: nat) early))
          (finish consumer_func) = deliver consumer_func (map recount [
       \<lparr>sview_offset = 0, sview_len = 2, tview_len = 3, src_ops = 1,
        ops = [\<lparr>action_code = svn_txdelta_source, offset = 1, oplen = 1\<rparr>,
               \<lparr>action_code = svn_txdelta_new, offset = 0, oplen = 2\<rparr>], new_data = [7, 8]\<rparr>]) baton)"
  by (rule svndiff_stream_round_trip) (simp_all add: zlib_contract_def sendable_def wf_window_def)

text \<open>
  C15. Hostile bytes: whatever is fed to the decoder in whatever pieces, it returns one of
  the documented errors, never an assertion failure or an access out of bounds, or every
  window it has given to the consumer is well formed, within the limits and counts its copies
  from the source, so that the encoder accepts it. The source views pass the check of the
  decoder, which does not look at empty views: if no window has an empty source view, the
  views do not go backwards.
\<close>

theorem svndiff_decoder_safe:
  "case write_all uncompress collect pieces (svn_txdelta_parse_svndiff [] early) of
     Inl e \<Rightarrow> stream_error e
   | Inr db \<Rightarrow> list_all (\<lambda>w. sendable w \<and> recount w = w) (consumer db) \<and> accepted_views 0 0 (consumer db)
       \<and> (list_all (\<lambda>w. sview_len w \<noteq> 0) (consumer db) \<longrightarrow> forward_views 0 0 (consumer db))"
proof -
  have "delivered (svn_txdelta_parse_svndiff [] early)"
    by (simp add: delivered_def svn_txdelta_parse_svndiff_def last_view_def)
  then show ?thesis
    using write_handler_delivers [of "svn_txdelta_parse_svndiff [] early" uncompress "concat pieces"]
    by (auto simp: delivered_def write_pieces list_all_iff intro: accepted_forward split: sum.splits)
qed

theorem svndiff_decoder_safe_witness:
  "\<exists>db. write_all (\<lambda>n z. Inr z) collect
      [[0x53, 0x56, 0x4e, 0, 100], [10, 1, 1, 1, 0x81, 65, 105, 10, 1, 1, 1, 0x81], [66]]
      (svn_txdelta_parse_svndiff [] True) = Inr db
    \<and> map sview_offset (consumer db) = [100, 105] \<and> forward_views 0 0 (consumer db)"
proof -
  let ?run = "write_all (\<lambda>n z. Inr z) collect
      [[0x53, 0x56, 0x4e, 0, 100], [10, 1, 1, 1, 0x81, 65, 105, 10, 1, 1, 1, 0x81], [66]]
      (svn_txdelta_parse_svndiff [] True)"
  have "case ?run of Inl e \<Rightarrow> False
    | Inr db \<Rightarrow> map sview_offset (consumer db) = [100, 105] \<and> list_all (\<lambda>w. sview_len w \<noteq> 0) (consumer db)"
    by code_simp
  then show ?thesis
    using svndiff_decoder_safe [of "\<lambda>n z. Inr z"
      "[[0x53, 0x56, 0x4e, 0, 100], [10, 1, 1, 1, 0x81, 65, 105, 10, 1, 1, 1, 0x81], [66]]" True]
    by (cases ?run) simp_all
qed

text \<open>
  The decoder gives windows with source views that go backwards to the consumer, against the
  rule of svn\_delta.h: here the views of 10 bytes at 100, of no byte at 0 and of 5 bytes at 0.
\<close>

theorem svndiff_passes_backward_views:
  "case write_handler uncompress collect
       ([0x53, 0x56, 0x4e, 0] @ [100, 10, 1, 1, 1, 0x81, 65] @ [0, 0, 1, 1, 1, 0x81, 66] @ [0, 5, 1, 1, 1, 0x81, 67])
       (svn_txdelta_parse_svndiff [] early) of
     Inl e \<Rightarrow> False
   | Inr db \<Rightarrow> map (\<lambda>w. (unat (sview_offset w), unat (sview_len w))) (consumer db) = [(100, 10), (0, 0), (0, 5)]
       \<and> \<not> forward_views 0 0 (consumer db)"
  by code_simp

end
