(* ===== verification/Delta_Stream.thy ===== *)
theory Delta_Stream
  imports Xdelta Svndiff_Stream
begin

text \<open>
  Producing the windows of a delta (libsvn\_delta/text\_delta.c): delta streams, the target push
  stream and the routines that send a text to a window handler. A stream that is read is the
  list of the bytes that are left; reading returns as many bytes as asked for until its end.
  A checksum context is the text that was fed into it.
\<close>

section \<open>Windows\<close>

definition compute_window ::
  "bool \<Rightarrow> byte list \<Rightarrow> nat \<Rightarrow> nat \<Rightarrow> svn_filesize_t \<Rightarrow> svn_txdelta_window_t svn_result" where
  "compute_window unaligned data source_len target_len source_offset =
     (let build_baton = \<lparr>bsrc_ops = 0, bops = [], bnew_data = []\<rparr> in
      SVN_ERR
        (if source_len = 0
         then SVN_ERR (read_block data 0 target_len) (\<lambda>new_bytes.
              svn_txdelta__insert_op build_baton svn_txdelta_new 0 (of_nat target_len) new_bytes)
         else svn_txdelta__xdelta unaligned build_baton data source_len target_len)
        (\<lambda>build_baton'.
           Inr ((svn_txdelta__make_window build_baton')
             \<lparr>sview_offset := source_offset, sview_len := of_nat source_len, tview_len := of_nat target_len\<rparr>)))"

abbreviation window_size :: nat where
  "window_size \<equiv> unat SVN_DELTA_WINDOW_SIZE"

section \<open>Delta streams\<close>

record txdelta_baton =
  tb_source :: "byte list"
  tb_target :: "byte list"
  more_source :: bool
  more_data :: bool
  tb_pos :: svn_filesize_t
  context_data :: "byte list option"
  checksum_data :: "byte list option"

definition svn_txdelta2 :: "byte list \<Rightarrow> byte list \<Rightarrow> bool \<Rightarrow> txdelta_baton" where
  "svn_txdelta2 source target calculate_checksum =
     \<lparr>tb_source = source, tb_target = target, more_source = True, more_data = True, tb_pos = 0,
      context_data = (if calculate_checksum then Some [] else None), checksum_data = None\<rparr>"

definition svn_txdelta :: "byte list \<Rightarrow> byte list \<Rightarrow> txdelta_baton" where
  "svn_txdelta source target = svn_txdelta2 source target True"

definition txdelta_next_window ::
  "bool \<Rightarrow> txdelta_baton \<Rightarrow> (svn_txdelta_window_t option \<times> txdelta_baton) svn_result" where
  "txdelta_next_window unaligned b =
     (let src = (if more_source b then take window_size (tb_source b) else []);
          b1 = (if more_source b
                then b\<lparr>tb_source := drop window_size (tb_source b), more_source := (length src = window_size)\<rparr>
                else b);
          tgt = take window_size (tb_target b);
          b2 = b1\<lparr>tb_target := drop window_size (tb_target b), tb_pos := tb_pos b + of_nat (length src)\<rparr>
      in if tgt = []
         then Inr (None, b2\<lparr>checksum_data := (case context_data b of None \<Rightarrow> checksum_data b | Some d \<Rightarrow> Some d),
                            more_data := False\<rparr>)
         else
           SVN_ERR (compute_window unaligned (src @ tgt) (length src) (length tgt)
                      (tb_pos b2 - of_nat (length src))) (\<lambda>window.
           Inr (Some window, b2\<lparr>context_data := map_option (\<lambda>d. d @ tgt) (context_data b)\<rparr>)))"

definition txdelta_md5_digest :: "(byte list \<Rightarrow> 'd) \<Rightarrow> txdelta_baton \<Rightarrow> 'd option" where
  "txdelta_md5_digest md5 b =
     (if more_data b then None else if context_data b = None then None else map_option md5 (checksum_data b))"

lemma next_window_shorter:
  "txdelta_next_window u b = Inr (Some w, b') \<Longrightarrow> length (tb_target b') < length (tb_target b)"
  by (auto simp: txdelta_next_window_def Let_def SVN_ERR_Inr_iff SVN_DELTA_WINDOW_SIZE_def split: if_splits)

text \<open>
  Sending the windows of a delta stream to a handler; the function for cancellation is called
  after each window.
\<close>

function send_loop ::
  "bool \<Rightarrow> 'c window_consumer \<Rightarrow> (nat \<Rightarrow> unit svn_result) \<Rightarrow> nat \<Rightarrow> txdelta_baton \<Rightarrow> 'c \<Rightarrow>
   ('c \<times> txdelta_baton) svn_result" where
  "send_loop unaligned handler cancel_func n tb c =
     SVN_ERR (txdelta_next_window unaligned tb) (\<lambda>(window, tb').
     SVN_ERR (handler window c) (\<lambda>c'.
     SVN_ERR (cancel_func n) (\<lambda>_.
     case window of None \<Rightarrow> Inr (c', tb') | Some w \<Rightarrow> send_loop unaligned handler cancel_func (n + 1) tb' c')))"
  by pat_completeness auto
termination
  by (relation "measure (\<lambda>(u, h, f, n, tb, c). length (tb_target tb))") (auto dest: next_window_shorter)

declare send_loop.simps [simp del]

definition svn_txdelta_send_txstream ::
  "bool \<Rightarrow> txdelta_baton \<Rightarrow> 'c window_consumer \<Rightarrow> 'c \<Rightarrow> ('c \<times> txdelta_baton) svn_result" where
  "svn_txdelta_send_txstream unaligned txstream handler c =
     send_loop unaligned handler (\<lambda>_. Inr ()) 0 txstream c"

definition svn_txdelta_run ::
  "bool \<Rightarrow> byte list \<Rightarrow> byte list \<Rightarrow> 'c window_consumer \<Rightarrow> (nat \<Rightarrow> unit svn_result) option \<Rightarrow> bool \<Rightarrow> 'c \<Rightarrow>
   ('c \<times> byte list option) svn_result" where
  "svn_txdelta_run unaligned source target handler cancel_func want_checksum c =
     SVN_ERR (send_loop unaligned handler (case cancel_func of None \<Rightarrow> \<lambda>_. Inr () | Some f \<Rightarrow> f) 0
                (svn_txdelta2 source target want_checksum) c) (\<lambda>(c', tb).
     Inr (c', if want_checksum then checksum_data tb else None))"

section \<open>Target push streams\<close>

record 'c tpush_baton =
  tp_source :: "byte list"
  tp_whb :: 'c
  tp_buf :: "byte list"
  source_offset :: svn_filesize_t
  source_len :: nat
  source_done :: bool
  target_len :: nat

definition svn_txdelta_target_push :: "byte \<Rightarrow> 'c \<Rightarrow> byte list \<Rightarrow> 'c tpush_baton" where
  "svn_txdelta_target_push junk handler_baton source =
     \<lparr>tp_source = source, tp_whb = handler_baton, tp_buf = replicate (2 * window_size) junk,
      source_offset = 0, source_len = 0, source_done = False, target_len = 0\<rparr>"

definition tpush_fill :: "'c tpush_baton \<Rightarrow> 'c tpush_baton svn_result" where
  "tpush_fill tb =
     (if source_len tb = 0 \<and> \<not> source_done tb then
        let got = take window_size (tp_source tb) in
        SVN_ERR (write_block (tp_buf tb) 0 got) (\<lambda>buf.
        Inr (tb\<lparr>tp_buf := buf, tp_source := drop window_size (tp_source tb), source_len := length got,
                source_done := (if length got < window_size then True else source_done tb)\<rparr>))
      else Inr tb)"

definition tpush_send :: "bool \<Rightarrow> 'c window_consumer \<Rightarrow> 'c tpush_baton \<Rightarrow> 'c tpush_baton svn_result" where
  "tpush_send unaligned wh tb =
     SVN_ERR (compute_window unaligned (tp_buf tb) (source_len tb) (target_len tb) (source_offset tb)) (\<lambda>window.
     SVN_ERR (wh (Some window) (tp_whb tb)) (\<lambda>whb. Inr (tb\<lparr>tp_whb := whb\<rparr>)))"

text \<open>
  One round of the loop takes as much of the data as fits. The buffer is never full at the
  beginning of a round; the model has an error for that case.
\<close>

function tpush_loop :: "bool \<Rightarrow> 'c window_consumer \<Rightarrow> byte list \<Rightarrow> 'c tpush_baton \<Rightarrow> 'c tpush_baton svn_result" where
  "tpush_loop unaligned wh data tb =
     (if data = [] then Inr tb
      else if window_size \<le> target_len tb then Inl C_OUT_OF_BOUNDS
      else
        let chunk_len = (if window_size - target_len tb > length data then length data else window_size - target_len tb) in
        SVN_ERR (tpush_fill tb) (\<lambda>tb1.
        SVN_ERR (write_block (tp_buf tb1) (source_len tb1 + target_len tb1) (take chunk_len data)) (\<lambda>buf.
        let tb2 = tb1\<lparr>tp_buf := buf, target_len := target_len tb1 + chunk_len\<rparr> in
        SVN_ERR
          (if target_len tb2 = window_size
           then SVN_ERR (tpush_send unaligned wh tb2) (\<lambda>tb3.
                Inr (tb3\<lparr>source_offset := source_offset tb3 + of_nat (source_len tb3), source_len := 0, target_len := 0\<rparr>))
           else Inr tb2)
          (\<lambda>tb4. tpush_loop unaligned wh (drop chunk_len data) tb4))))"
  by pat_completeness auto
termination
  by (relation "measure (\<lambda>(u, wh, data, tb). length data)") auto

declare tpush_loop.simps [simp del]

definition tpush_write_handler ::
  "bool \<Rightarrow> 'c window_consumer \<Rightarrow> byte list \<Rightarrow> 'c tpush_baton \<Rightarrow> 'c tpush_baton svn_result" where
  "tpush_write_handler unaligned wh data tb = tpush_loop unaligned wh data tb"

definition tpush_close_handler :: "bool \<Rightarrow> 'c window_consumer \<Rightarrow> 'c tpush_baton \<Rightarrow> 'c svn_result" where
  "tpush_close_handler unaligned wh tb =
     SVN_ERR (if target_len tb > 0 then tpush_send unaligned wh tb else Inr tb) (\<lambda>tb'.
     wh None (tp_whb tb'))"

section \<open>Sending a text\<close>

definition new_window :: "byte list \<Rightarrow> svn_txdelta_window_t" where
  "new_window str =
     \<lparr>sview_offset = 0, sview_len = 0, tview_len = of_nat (length str), src_ops = 0,
      ops = [\<lparr>action_code = svn_txdelta_new, offset = 0, oplen = of_nat (length str)\<rparr>], new_data = str\<rparr>"

definition svn_txdelta_send_string :: "byte list \<Rightarrow> 'c window_consumer \<Rightarrow> 'c \<Rightarrow> 'c svn_result" where
  "svn_txdelta_send_string str handler c =
     SVN_ERR (handler (Some (new_window str)) c) (\<lambda>c'. handler None c')"

definition SVN__STREAM_CHUNK_SIZE :: nat where
  "SVN__STREAM_CHUNK_SIZE = 16384"

function send_stream_loop :: "byte list \<Rightarrow> 'c window_consumer \<Rightarrow> byte list \<Rightarrow> 'c \<Rightarrow> ('c \<times> byte list) svn_result" where
  "send_stream_loop stream handler hashed c =
     (let read_buf = take SVN__STREAM_CHUNK_SIZE stream in
      if read_buf = [] then Inr (c, hashed)
      else
        SVN_ERR (handler (Some (new_window read_buf)) c) (\<lambda>c'.
        if length read_buf < SVN__STREAM_CHUNK_SIZE then Inr (c', hashed @ read_buf)
        else send_stream_loop (drop SVN__STREAM_CHUNK_SIZE stream) handler (hashed @ read_buf) c'))"
  by pat_completeness auto
termination
  by (relation "measure (\<lambda>(stream, h, d, c). length stream)") (auto simp: SVN__STREAM_CHUNK_SIZE_def)

declare send_stream_loop.simps [simp del]

text \<open>The digest is the one of the text that was fed into the checksum context.\<close>

definition svn_txdelta_send_stream ::
  "(byte list \<Rightarrow> 'd) \<Rightarrow> byte list \<Rightarrow> 'c window_consumer \<Rightarrow> bool \<Rightarrow> 'c \<Rightarrow> ('c \<times> 'd option) svn_result" where
  "svn_txdelta_send_stream md5 stream handler want_digest c =
     SVN_ERR (send_stream_loop stream handler [] c) (\<lambda>(c', hashed).
     SVN_ERR (handler None c') (\<lambda>c''.
     Inr (c'', if want_digest then Some (md5 hashed) else None)))"

section \<open>The windows of a delta\<close>

definition delta_window :: "bool \<Rightarrow> byte list \<Rightarrow> byte list \<Rightarrow> svn_filesize_t \<Rightarrow> svn_txdelta_window_t" where
  "delta_window u src tgt off = projr (compute_window u (src @ tgt) (length src) (length tgt) off)"

lemma compute_window_ok:
  assumes "length src \<le> window_size" "length tgt \<le> window_size" "tgt \<noteq> []"
  shows "compute_window u (src @ tgt @ rest) (length src) (length tgt) off = Inr (delta_window u src tgt off)"
    and "sview_offset (delta_window u src tgt off) = off"
    and "sview_len (delta_window u src tgt off) = of_nat (length src)"
    and "tview_len (delta_window u src tgt off) = of_nat (length tgt)"
    and "wf_window (delta_window u src tgt off)"
    and "window_text (delta_window u src tgt off) src = tgt"
proof -
  let ?bb = "\<lparr>bsrc_ops = 0, bops = [], bnew_data = []\<rparr>"
  have l: "length src \<le> 102400" "length tgt \<le> 102400" using assms by (simp_all add: SVN_DELTA_WINDOW_SIZE_def)
  have "delta_inv src tgt ?bb 0" using l by (simp add: delta_inv_def wf_baton_def baton_text_def)
  then have new: "svn_txdelta__insert_op ?bb svn_txdelta_new 0 (of_nat (length tgt)) tgt
      = Inr (insert_op ?bb svn_txdelta_new 0 (of_nat (length tgt)) tgt)"
    "delta_inv src tgt (insert_op ?bb svn_txdelta_new 0 (of_nat (length tgt)) tgt) (length tgt)"
    using insert_new_inv [of src tgt ?bb 0 "length tgt" 0] assms(3) by simp_all
  have rb: "read_block (src @ tgt @ r) 0 (length src) = Inr src" "read_block (src @ tgt @ r) (length src) (length tgt) = Inr tgt"
    "src = [] \<Longrightarrow> read_block (src @ tgt @ r) 0 (length tgt) = Inr tgt" for r
    by (simp_all add: read_block_def)
  obtain bb where bb: "\<And>r. (if length src = 0
         then SVN_ERR (read_block (src @ tgt @ r) 0 (length tgt)) (\<lambda>new_bytes.
              svn_txdelta__insert_op ?bb svn_txdelta_new 0 (of_nat (length tgt)) new_bytes)
         else svn_txdelta__xdelta u ?bb (src @ tgt @ r) (length src) (length tgt)) = Inr bb"
    "delta_inv src tgt bb (length tgt)"
  proof (cases "src = []")
    case True
    with that new rb(3) show thesis by simp
  next
    case False
    then obtain bb where "compute_delta u ?bb src tgt = Inr bb" "delta_inv src tgt bb (length tgt)"
      using compute_delta_ok [of src tgt u] l assms(3) by auto
    with that False rb show thesis by (simp add: svn_txdelta__xdelta_def)
  qed
  let ?w = "(svn_txdelta__make_window bb)\<lparr>sview_offset := off, sview_len := of_nat (length src), tview_len := of_nat (length tgt)\<rparr>"
  have c: "compute_window u (src @ tgt @ r) (length src) (length tgt) off = Inr ?w" for r
    using bb(1) [of r] by (simp add: compute_window_def Let_def)
  then have d: "delta_window u src tgt off = ?w" using c [of "[]"] by (simp add: delta_window_def)
  show "compute_window u (src @ tgt @ rest) (length src) (length tgt) off = Inr (delta_window u src tgt off)"
    using c d by simp
  show "sview_offset (delta_window u src tgt off) = off" "sview_len (delta_window u src tgt off) = of_nat (length src)"
    "tview_len (delta_window u src tgt off) = of_nat (length tgt)"
    by (simp_all add: d)
  have wf: "wf_baton (length src) bb (length tgt)" "baton_text src bb = tgt" using bb(2) by (simp_all add: delta_inv_def)
  then have "length (bnew_data bb) \<le> length tgt" using new_len_le [of "bops bb"] by (simp add: wf_baton_iff)
  with wf l show "wf_window (delta_window u src tgt off)"
    by (simp add: d wf_window_def svn_txdelta__make_window_def wf_baton_def unat_of_nat)
  show "window_text (delta_window u src tgt off) src = tgt"
    using wf(2) by (simp add: d window_text_def svn_txdelta__make_window_def baton_text_def)
qed

function windows_of :: "bool \<Rightarrow> byte list \<Rightarrow> byte list \<Rightarrow> svn_filesize_t \<Rightarrow> svn_txdelta_window_t list" where
  "windows_of u S T off =
     (if T = [] then []
      else delta_window u (take window_size S) (take window_size T) off
        # windows_of u (drop window_size S) (drop window_size T) (off + of_nat (length (take window_size S))))"
  by pat_completeness auto
termination
  by (relation "measure (\<lambda>(u, S, T, off). length T)") (auto simp: SVN_DELTA_WINDOW_SIZE_def)

declare windows_of.simps [simp del]

lemma windows_of_Nil [simp]: "windows_of u S [] off = []"
  by (simp add: windows_of.simps)

lemma window_size_pos: "0 < window_size" "window_size = max_view"
  by (simp_all add: SVN_DELTA_WINDOW_SIZE_def)

lemma windows_of_first:
  assumes "T \<noteq> []"
  shows "windows_of u S T off = delta_window u (take window_size S) (take window_size T) off
        # windows_of u (drop window_size S) (drop window_size T) (off + of_nat (length (take window_size S)))"
  using assms by (simp add: windows_of.simps [of u S T off])

lemma take_window_bounds:
  "T \<noteq> [] \<Longrightarrow> length (take window_size S) \<le> window_size \<and> length (take window_size T) \<le> window_size \<and> take window_size T \<noteq> []"
  using window_size_pos by auto

lemma first_window:
  fixes S T u off
  defines "w \<equiv> delta_window u (take window_size S) (take window_size T) off"
  assumes "T \<noteq> []"
  shows "compute_window u (take window_size S @ take window_size T @ rest)
      (length (take window_size S)) (length (take window_size T)) off = Inr w"
    and "sview_offset w = off" "sview_len w = of_nat (length (take window_size S))"
    and "tview_len w = of_nat (length (take window_size T))" "wf_window w"
    and "window_text w (take window_size S) = take window_size T"
  unfolding w_def
  using compute_window_ok [of "take window_size S" "take window_size T" u] take_window_bounds [OF assms(2), of S]
  by blast+

text \<open>The windows follow on one another and give the target.\<close>

lemma windows_of_ok:
  assumes "length S0 < 2 ^ 62"
  shows "drop (unat off) S0 = S \<Longrightarrow> unat off \<le> length S0 \<Longrightarrow> st + l = unat off \<Longrightarrow>
    follow_all S0 st l (windows_of u S T off) \<and> list_all sendable (windows_of u S T off)
    \<and> concat (map (\<lambda>w. window_text w (source_view S0 w)) (windows_of u S T off)) = T"
proof (induction u S T off arbitrary: st l rule: windows_of.induct)
  case (1 u S T off)
  show ?case
  proof (cases "T = []")
    case True
    then show ?thesis by simp
  next
    case False
    let ?src = "take window_size S" and ?tgt = "take window_size T"
    let ?w = "delta_window u ?src ?tgt off"
    let ?off = "off + of_nat (length ?src)"
    note w = first_window(2-6) [OF False, of u S off]
    have ls: "length S = length S0 - unat off" using "1.prems"(1,2) by auto
    have us: "unat (of_nat (length ?src) :: 64 word) = length ?src" "unat (of_nat (length ?tgt) :: 64 word) = length ?tgt"
      by (simp_all add: unat_of_nat SVN_DELTA_WINDOW_SIZE_def min_def)
    have le: "unat off + length ?src \<le> length S0" using ls "1.prems"(2) by simp
    have uo: "unat ?off = unat off + length ?src"
      using le assms us(1) by (subst unat_add_small) simp_all
    have view: "source_view S0 ?w = ?src"
      using "1.prems"(1) us(1) by (simp add: source_view_def w(1,2)) (simp add: min_def)
    have len: "length ?src \<le> max_view" "length ?tgt \<le> max_view" using window_size_pos(2) by simp_all
    have fol: "follows S0 st l ?w"
      using w us len le "1.prems"(3) by (auto simp: follows_def)
    have "sint off \<ge> 0" using "1.prems"(2) assms by (simp add: sint_small)
    then have snd: "sendable ?w" using w us len by (simp add: sendable_def)
    have nl: "unat off + next_len st l ?w = unat ?off"
    proof (cases "sview_len ?w = 0")
      case True
      then have "length ?src = 0" using us(1) w(2) by simp
      with True "1.prems"(3) uo w(1) show ?thesis by (simp add: next_len_def)
    next
      case False
      then show ?thesis using us(1) uo w(2) by (simp add: next_len_def)
    qed
    have rest: "drop (unat ?off) S0 = drop window_size S"
    proof (cases "window_size \<le> length S")
      case True
      then show ?thesis using uo "1.prems"(1) [symmetric] by (simp add: add.commute)
    next
      case F: False
      then have "unat ?off = length S0" using uo ls "1.prems"(2) by simp
      with F show ?thesis by simp
    qed
    have IH: "follow_all S0 (unat off) (next_len st l ?w) (windows_of u (drop window_size S) (drop window_size T) ?off)
      \<and> list_all sendable (windows_of u (drop window_size S) (drop window_size T) ?off)
      \<and> concat (map (\<lambda>w. window_text w (source_view S0 w)) (windows_of u (drop window_size S) (drop window_size T) ?off)) = drop window_size T"
      using "1.IH" [OF False rest _ nl] uo le by simp
    show ?thesis
      unfolding windows_of_first [OF False] using fol snd IH w(1,5) view by simp
  qed
qed

lemma follow_forward:
  "follow_all S st l ws \<Longrightarrow> n \<le> l \<Longrightarrow> accepted_views st n ws"
proof (induction ws arbitrary: st l n)
  case (Cons w ws)
  then have f: "follows S st l w" "follow_all S (unat (sview_offset w)) (next_len st l w) ws" by simp_all
  have "unat (sview_len w) \<le> next_len st l w" by (simp add: next_len_def)
  with Cons.IH [OF f(2)] have "accepted_views (unat (sview_offset w)) (unat (sview_len w)) ws" by blast
  then show ?case using f(1) Cons.prems(2) by (auto simp: follows_def)
qed simp

section \<open>The producers send these windows\<close>

definition wf_stream :: "txdelta_baton \<Rightarrow> bool" where
  "wf_stream tb \<longleftrightarrow> (more_source tb \<or> tb_source tb = [])"

lemma next_window_ok:
  assumes "wf_stream tb" "tb_target tb \<noteq> []"
  shows "\<exists>tb'. txdelta_next_window u tb =
      Inr (Some (delta_window u (take window_size (tb_source tb)) (take window_size (tb_target tb)) (tb_pos tb)), tb')
    \<and> wf_stream tb' \<and> tb_source tb' = drop window_size (tb_source tb) \<and> tb_target tb' = drop window_size (tb_target tb)
    \<and> tb_pos tb' = tb_pos tb + of_nat (length (take window_size (tb_source tb)))
    \<and> context_data tb' = map_option (\<lambda>d. d @ take window_size (tb_target tb)) (context_data tb)
    \<and> checksum_data tb' = checksum_data tb"
proof -
  have src: "(if more_source tb then take window_size (tb_source tb) else []) = take window_size (tb_source tb)"
    using assms(1) by (auto simp: wf_stream_def)
  have ne: "take window_size (tb_target tb) \<noteq> []" using assms(2) window_size_pos by simp
  note w = first_window(1) [OF assms(2), of u "tb_source tb" "[]" "tb_pos tb"]
  show ?thesis
    using assms w ne by (cases "more_source tb") (auto simp: txdelta_next_window_def Let_def wf_stream_def)
qed

lemma send_loop_deliver:
  "wf_stream tb \<Longrightarrow>
   SVN_ERR (send_loop u h (\<lambda>_. Inr ()) n tb c) (\<lambda>(c', tb'). Inr (c', checksum_data tb', more_data tb')) =
   SVN_ERR (deliver h (windows_of u (tb_source tb) (tb_target tb) (tb_pos tb)) c) (\<lambda>c'. Inr (c',
     case context_data tb of None \<Rightarrow> checksum_data tb | Some d \<Rightarrow> Some (d @ tb_target tb), False))"
proof (induction "length (tb_target tb)" arbitrary: tb n c rule: less_induct)
  case less
  note loop = send_loop.simps [of u h "\<lambda>_. Inr ()" n tb c]
  show ?case
  proof (cases "tb_target tb = []")
    case True
    then have "\<exists>tb'. txdelta_next_window u tb = Inr (None, tb')
        \<and> checksum_data tb' = (case context_data tb of None \<Rightarrow> checksum_data tb | Some d \<Rightarrow> Some d) \<and> \<not> more_data tb'"
      by (simp add: txdelta_next_window_def Let_def)
    then obtain tb' where nw: "txdelta_next_window u tb = Inr (None, tb')"
      "checksum_data tb' = (case context_data tb of None \<Rightarrow> checksum_data tb | Some d \<Rightarrow> Some d)" "\<not> more_data tb'"
      by blast
    show ?thesis
      using True nw by (cases "h None c") (auto simp: loop split: option.splits)
  next
    case False
    let ?w = "delta_window u (take window_size (tb_source tb)) (take window_size (tb_target tb)) (tb_pos tb)"
    obtain tb' where nw: "txdelta_next_window u tb = Inr (Some ?w, tb')" "wf_stream tb'"
      "tb_source tb' = drop window_size (tb_source tb)" "tb_target tb' = drop window_size (tb_target tb)"
      "tb_pos tb' = tb_pos tb + of_nat (length (take window_size (tb_source tb)))"
      "context_data tb' = map_option (\<lambda>d. d @ take window_size (tb_target tb)) (context_data tb)"
      "checksum_data tb' = checksum_data tb"
      using next_window_ok [OF less.prems False] by blast
    have "length (tb_target tb') < length (tb_target tb)" using next_window_shorter [OF nw(1)] .
    note IH = less.hyps [OF this nw(2)]
    have ctx: "(case context_data tb' of None \<Rightarrow> checksum_data tb' | Some d \<Rightarrow> Some (d @ tb_target tb')) =
      (case context_data tb of None \<Rightarrow> checksum_data tb | Some d \<Rightarrow> Some (d @ tb_target tb))"
      using nw(4,6,7) by (simp split: option.splits)
    show ?thesis
      unfolding windows_of_first [OF False]
      using IH nw(1,3-5) ctx by (cases "h (Some ?w) c") (simp_all add: loop)
  qed
qed

text \<open>
  A target push stream: the buffer has a part of the source and a part of the target that no
  window has been made of.
\<close>

definition loaded :: "'c tpush_baton \<Rightarrow> bool" where
  "loaded tb \<longleftrightarrow> source_len tb > 0 \<or> source_done tb"

definition wf_push :: "'c tpush_baton \<Rightarrow> bool" where
  "wf_push tb \<longleftrightarrow> length (tp_buf tb) = 2 * window_size \<and> source_len tb \<le> window_size \<and> target_len tb < window_size
     \<and> (source_len tb = 0 \<or> source_len tb = window_size \<or> tp_source tb = [])
     \<and> (source_done tb \<longrightarrow> tp_source tb = []) \<and> (target_len tb > 0 \<longrightarrow> loaded tb)"

definition source_left :: "'c tpush_baton \<Rightarrow> byte list" where
  "source_left tb = take (source_len tb) (tp_buf tb) @ tp_source tb"

definition target_pending :: "'c tpush_baton \<Rightarrow> byte list" where
  "target_pending tb = take (target_len tb) (drop (source_len tb) (tp_buf tb))"

lemma tpush_fill_ok:
  assumes "wf_push tb"
  shows "\<exists>tb'. tpush_fill tb = Inr tb' \<and> wf_push tb' \<and> loaded tb' \<and> source_left tb' = source_left tb
    \<and> target_pending tb' = target_pending tb \<and> target_len tb' = target_len tb
    \<and> source_offset tb' = source_offset tb \<and> tp_whb tb' = tp_whb tb"
proof (cases "source_len tb = 0 \<and> \<not> source_done tb")
  case False
  then show ?thesis using assms by (auto simp: tpush_fill_def loaded_def)
next
  case True
  let ?got = "take window_size (tp_source tb)"
  have t0: "target_len tb = 0" using assms True by (auto simp: wf_push_def loaded_def)
  have wb: "write_block (tp_buf tb) 0 ?got = Inr (?got @ drop (length ?got) (tp_buf tb))"
    using assms by (simp add: write_block_def wf_push_def)
  let ?tb = "tb\<lparr>tp_buf := ?got @ drop (length ?got) (tp_buf tb), tp_source := drop window_size (tp_source tb),
      source_len := length ?got, source_done := length ?got < window_size\<rparr>"
  have "tpush_fill tb = Inr ?tb" using True wb by (simp add: tpush_fill_def Let_def)
  moreover have "wf_push ?tb"
    using assms t0 by (auto simp: wf_push_def)
  moreover have "loaded ?tb" using window_size_pos(1) by (auto simp: loaded_def)
  moreover have "source_left ?tb = source_left tb" using True by (simp add: source_left_def) (simp add: min_def)
  ultimately show ?thesis using t0 by (auto simp: target_pending_def)
qed

lemma window_source:
  assumes "wf_push tb" "loaded tb"
  shows "take window_size (source_left tb) = take (source_len tb) (tp_buf tb)"
    "drop window_size (source_left tb) = tp_source tb"
    "length (take window_size (source_left tb)) = source_len tb"
  using assms by (auto simp: wf_push_def loaded_def source_left_def)

text \<open>Appending to the pending part of the target.\<close>

lemma write_pending:
  assumes "wf_push tb" "target_len tb + length chunk \<le> window_size"
  shows "\<exists>buf. write_block (tp_buf tb) (source_len tb + target_len tb) chunk = Inr buf
    \<and> length buf = length (tp_buf tb) \<and> take (source_len tb) buf = take (source_len tb) (tp_buf tb)
    \<and> take (target_len tb + length chunk) (drop (source_len tb) buf) = target_pending tb @ chunk"
proof -
  let ?n = "source_len tb + target_len tb"
  let ?buf = "take ?n (tp_buf tb) @ chunk @ drop (?n + length chunk) (tp_buf tb)"
  have l: "?n + length chunk \<le> length (tp_buf tb)" using assms by (simp add: wf_push_def)
  then have "drop (source_len tb) ?buf = target_pending tb @ chunk @ drop (?n + length chunk) (tp_buf tb)"
    by (simp add: target_pending_def drop_take)
  moreover have "length (target_pending tb) = target_len tb" using l by (simp add: target_pending_def)
  moreover have "write_block (tp_buf tb) ?n chunk = Inr ?buf" using l by (simp add: write_block_def)
  moreover have "length (take ?n (tp_buf tb)) = ?n" using l by simp
  ultimately show ?thesis using l by (intro exI [of _ ?buf]) auto
qed

lemma tpush_send_ok:
  fixes u wh off
  assumes "length (tp_buf tb) = 2 * window_size" "source_len tb \<le> window_size" "target_len tb \<le> window_size"
    and "0 < target_len tb"
  shows "tpush_send u wh tb = SVN_ERR (wh (Some (delta_window u (take (source_len tb) (tp_buf tb)) (target_pending tb) (source_offset tb)))
      (tp_whb tb)) (\<lambda>whb. Inr (tb\<lparr>tp_whb := whb\<rparr>))"
proof -
  let ?src = "take (source_len tb) (tp_buf tb)" and ?rest = "drop (source_len tb + target_len tb) (tp_buf tb)"
  have l: "length ?src = source_len tb" "length (target_pending tb) = target_len tb"
    using assms by (simp_all add: target_pending_def)
  have buf: "?src @ target_pending tb @ ?rest = tp_buf tb"
    by (simp add: target_pending_def add.commute [of "source_len tb"] flip: drop_drop)
  have "target_pending tb \<noteq> []" using l(2) assms(4) by auto
  then have "compute_window u (?src @ target_pending tb @ ?rest) (length ?src) (length (target_pending tb)) (source_offset tb) =
      Inr (delta_window u ?src (target_pending tb) (source_offset tb))"
    using assms l by (intro compute_window_ok(1)) simp_all
  then show ?thesis unfolding tpush_send_def buf l by simp
qed

lemma tpush_loop_deliver:
  assumes K: "\<And>tb'. wf_push tb' \<Longrightarrow>
    K tb' = deliver wh (windows_of u (source_left tb') (target_pending tb' @ D) (source_offset tb')) (tp_whb tb')"
  shows "wf_push tb \<Longrightarrow> SVN_ERR (tpush_loop u wh data tb) K =
    deliver wh (windows_of u (source_left tb) (target_pending tb @ data @ D) (source_offset tb)) (tp_whb tb)"
proof (induction "length data" arbitrary: data tb rule: less_induct)
  case less
  note loop = tpush_loop.simps [of u wh data tb]
  show ?case
  proof (cases "data = []")
    case True
    then show ?thesis using K [OF less.prems] by (simp add: tpush_loop.simps [of u wh "[]"])
  next
    case False
    let ?n = "if window_size - target_len tb > length data then length data else window_size - target_len tb"
    have tl: "target_len tb < window_size" using less.prems by (simp add: wf_push_def)
    obtain tb1 where f: "tpush_fill tb = Inr tb1" "wf_push tb1" "loaded tb1" "source_left tb1 = source_left tb"
      "target_pending tb1 = target_pending tb" "target_len tb1 = target_len tb"
      "source_offset tb1 = source_offset tb" "tp_whb tb1 = tp_whb tb"
      using tpush_fill_ok [OF less.prems] by blast
    have n: "length (take ?n data) = ?n" "0 < ?n" "target_len tb + ?n \<le> window_size" using tl False by auto
    obtain buf where b: "write_block (tp_buf tb1) (source_len tb1 + target_len tb1) (take ?n data) = Inr buf"
      "length buf = 2 * window_size" "take (source_len tb1) buf = take (source_len tb1) (tp_buf tb1)"
      "take (target_len tb1 + ?n) (drop (source_len tb1) buf) = target_pending tb @ take ?n data"
      using write_pending [OF f(2), of "take ?n data"] f(2,5,6) n(1,3) by (auto simp: wf_push_def)
    let ?tb2 = "tb1\<lparr>tp_buf := buf, target_len := target_len tb1 + ?n\<rparr>"
    have p2: "target_pending ?tb2 = target_pending tb @ take ?n data" using b(4) by (simp add: target_pending_def)
    have s2: "source_left ?tb2 = source_left tb" using b(3) f(4) by (simp add: source_left_def)
    have whole: "target_pending tb @ data @ D = target_pending ?tb2 @ drop ?n data @ D"
      unfolding p2 append_assoc by (metis append_assoc append_take_drop_id)
    show ?thesis
    proof (cases "target_len tb + ?n = window_size")
      case full: False
      then have "?n = length data" using tl by (auto split: if_splits)
      moreover have "wf_push ?tb2"
        using f(2,3,6) b(2) full n(3) by (auto simp: wf_push_def loaded_def)
      ultimately show ?thesis
        using K [of ?tb2] False tl f(1,6-8) b(1) full s2 p2
        by (simp add: loop Let_def tpush_loop.simps [of u wh "[]"])
    next
      case full: True
      let ?src = "take (source_len tb1) (tp_buf tb1)"
      let ?w = "delta_window u ?src (target_pending ?tb2) (source_offset tb)"
      let ?tb4 = "\<lambda>whb. tb1\<lparr>tp_buf := buf, tp_whb := whb, source_offset := source_offset tb + of_nat (source_len tb1),
          source_len := 0, target_len := 0\<rparr>"
      have send: "tpush_send u wh ?tb2 = SVN_ERR (wh (Some ?w) (tp_whb tb)) (\<lambda>whb. Inr (?tb2\<lparr>tp_whb := whb\<rparr>))"
        using tpush_send_ok [of ?tb2 u wh] f(2,6-8) b(2,3) full n(2) window_size_pos(1) by (simp add: wf_push_def)
      have wf4: "wf_push (?tb4 whb)" for whb
        using f(2) b(2) window_size_pos(1) by (auto simp: wf_push_def loaded_def)
      have lp: "length (target_pending ?tb2) = window_size"
        using b(2) f(2,6) full by (simp add: target_pending_def wf_push_def) linarith
      have ws: "take window_size (source_left tb) = ?src" "drop window_size (source_left tb) = tp_source tb1"
        "length (take window_size (source_left tb)) = source_len tb1"
        using window_source [OF f(2,3)] f(4) by simp_all
      have ne: "target_pending ?tb2 @ drop ?n data @ D \<noteq> []" using lp window_size_pos(1) by auto
      have "windows_of u (source_left tb) (target_pending tb @ data @ D) (source_offset tb) =
          ?w # windows_of u (tp_source tb1) (drop ?n data @ D) (source_offset tb + of_nat (source_len tb1))"
        unfolding whole windows_of_first [OF ne] ws(3) unfolding ws(1,2) using lp by simp
      moreover have "SVN_ERR (tpush_loop u wh (drop ?n data) (?tb4 whb)) K =
          deliver wh (windows_of u (tp_source tb1) (drop ?n data @ D) (source_offset tb + of_nat (source_len tb1))) whb" for whb
        using less.hyps [OF _ wf4, of "drop ?n data" whb] n(2) False by (simp add: source_left_def target_pending_def)
      ultimately show ?thesis
        using False tl f(1,6-8) b(1) full send
        by (cases "wh (Some ?w) (tp_whb tb)") (simp_all add: loop Let_def)
    qed
  qed
qed

lemma tpush_close_deliver:
  assumes "wf_push tb"
  shows "tpush_close_handler u wh tb =
    deliver wh (windows_of u (source_left tb) (target_pending tb) (source_offset tb)) (tp_whb tb)"
proof (cases "target_len tb = 0")
  case True
  then show ?thesis by (simp add: tpush_close_handler_def target_pending_def)
next
  case False
  have b: "length (tp_buf tb) = 2 * window_size" "source_len tb \<le> window_size" "target_len tb < window_size" "loaded tb"
    using assms False by (simp_all add: wf_push_def)
  have l: "length (target_pending tb) = target_len tb" using b by (simp add: target_pending_def)
  then have ne: "target_pending tb \<noteq> []" using False by auto
  note ws = window_source [OF assms b(4)]
  have "windows_of u (source_left tb) (target_pending tb) (source_offset tb) =
      [delta_window u (take (source_len tb) (tp_buf tb)) (target_pending tb) (source_offset tb)]"
    unfolding windows_of_first [OF ne] ws(3) unfolding ws(1,2) using l b(3) by simp
  then show ?thesis
    using tpush_send_ok [of tb u wh] b False
    by (cases "wh (Some (delta_window u (take (source_len tb) (tp_buf tb)) (target_pending tb) (source_offset tb))) (tp_whb tb)")
       (simp_all add: tpush_close_handler_def)
qed

fun tpush_all :: "bool \<Rightarrow> 'c window_consumer \<Rightarrow> byte list list \<Rightarrow> 'c tpush_baton \<Rightarrow> 'c svn_result" where
  "tpush_all u wh [] tb = tpush_close_handler u wh tb"
| "tpush_all u wh (piece # pieces) tb = SVN_ERR (tpush_write_handler u wh piece tb) (tpush_all u wh pieces)"

lemma tpush_all_deliver:
  "wf_push tb \<Longrightarrow> tpush_all u wh pieces tb =
    deliver wh (windows_of u (source_left tb) (target_pending tb @ concat pieces) (source_offset tb)) (tp_whb tb)"
proof (induction pieces arbitrary: tb)
  case Nil
  then show ?case by (simp add: tpush_close_deliver)
next
  case (Cons piece pieces)
  show ?case
    using tpush_loop_deliver [OF Cons.IH Cons.prems, of piece] by (simp add: tpush_write_handler_def)
qed

section \<open>Window handlers\<close>

lemma new_window_follows:
  assumes "str \<noteq> []" "length str \<le> window_size"
  shows "follows S 0 0 (new_window str)" "next_len 0 0 (new_window str) = 0" "sview_offset (new_window str) = 0"
    "window_text (new_window str) x = str"
proof -
  have u: "unat (of_nat (length str) :: 64 word) = length str" using assms(2) window_size_pos(2) by (simp add: unat_of_nat)
  have nz: "(of_nat (length str) :: 64 word) \<noteq> 0" using u assms(1) by (metis length_greater_0_conv less_not_refl unat_0)
  show "follows S 0 0 (new_window str)"
    using u nz assms(2) window_size_pos(2) by (simp add: follows_def new_window_def wf_window_def)
  show "next_len 0 0 (new_window str) = 0" "sview_offset (new_window str) = 0"
    by (simp_all add: next_len_def new_window_def)
  show "window_text (new_window str) x = str" using u by (simp add: window_text_def new_window_def op_bytes_def)
qed

text \<open>
  What a handler of windows promises to the producers of a delta: while the source views
  follow on one another, it accepts every well-formed window and adds its text to the target,
  and it accepts the end.
\<close>

locale window_sink =
  fixes handler :: "svn_txdelta_window_t option \<Rightarrow> 'c \<Rightarrow> 'c svn_result"
    and source :: "byte list"
    and ready :: "nat \<Rightarrow> nat \<Rightarrow> 'c \<Rightarrow> bool"
    and target_text :: "'c \<Rightarrow> byte list"
    and closed :: "'c \<Rightarrow> bool"
  assumes accepts: "ready st l c \<Longrightarrow> follows source st l w \<Longrightarrow>
      \<exists>c'. handler (Some w) c = Inr c' \<and> ready (unat (sview_offset w)) (next_len st l w) c'
        \<and> target_text c' = target_text c @ window_text w (source_view source w)"
    and finishes: "ready st l c \<Longrightarrow> \<exists>c'. handler None c = Inr c' \<and> closed c' \<and> target_text c' = target_text c"
begin

lemma deliver_ok:
  "ready st l c \<Longrightarrow> follow_all source st l ws \<Longrightarrow>
   \<exists>c'. deliver handler ws c = Inr c' \<and> closed c'
     \<and> target_text c' = target_text c @ concat (map (\<lambda>w. window_text w (source_view source w)) ws)"
proof (induction ws arbitrary: st l c)
  case Nil
  then show ?case using finishes by auto
next
  case (Cons w ws)
  then obtain c1 where "handler (Some w) c = Inr c1" "ready (unat (sview_offset w)) (next_len st l w) c1"
    "target_text c1 = target_text c @ window_text w (source_view source w)"
    using accepts by (metis follow_all.simps(2))
  with Cons.IH Cons.prems(2) show ?case by fastforce
qed

lemma deliver_delta:
  assumes "ready 0 0 c" "length source < 2 ^ 62"
  shows "\<exists>c'. deliver handler (windows_of u source target 0) c = Inr c' \<and> closed c'
    \<and> target_text c' = target_text c @ target"
  using deliver_ok [OF assms(1)] windows_of_ok [OF assms(2), of 0 source 0 0 u target] by fastforce

lemma send_stream_loop_ok:
  "ready 0 0 c \<Longrightarrow> \<exists>c'. send_stream_loop stream handler hashed c = Inr (c', hashed @ stream)
     \<and> ready 0 0 c' \<and> target_text c' = target_text c @ stream"
proof (induction "length stream" arbitrary: stream hashed c rule: less_induct)
  case less
  let ?buf = "take SVN__STREAM_CHUNK_SIZE stream"
  note loop = send_stream_loop.simps [of stream handler hashed c]
  have chunk: "0 < SVN__STREAM_CHUNK_SIZE" "SVN__STREAM_CHUNK_SIZE \<le> window_size"
    by (simp_all add: SVN__STREAM_CHUNK_SIZE_def SVN_DELTA_WINDOW_SIZE_def)
  show ?case
  proof (cases "?buf = []")
    case True
    then have "stream = []" using chunk(1) by simp
    then show ?thesis using less.prems by (simp add: send_stream_loop.simps)
  next
    case False
    have "length ?buf \<le> window_size" using chunk(2) by simp
    note w = new_window_follows [OF False this]
    obtain c1 where c1: "handler (Some (new_window ?buf)) c = Inr c1" "ready 0 0 c1" "target_text c1 = target_text c @ ?buf"
      using accepts [OF less.prems w(1)] w(2-4) by auto
    show ?thesis
    proof (cases "length ?buf < SVN__STREAM_CHUNK_SIZE")
      case True
      then have "?buf = stream" by simp
      with True False c1 show ?thesis by (simp add: loop)
    next
      case full: False
      have "length (drop SVN__STREAM_CHUNK_SIZE stream) < length stream" using False chunk(1) by auto
      from less.hyps [OF this c1(2), of "hashed @ ?buf"] show ?thesis using full False c1 by (simp add: loop)
    qed
  qed
qed

lemma send_stream_ok:
  assumes "ready 0 0 c"
  shows "\<exists>c'. svn_txdelta_send_stream md5 stream handler want_digest c =
      Inr (c', if want_digest then Some (md5 stream) else None) \<and> closed c' \<and> target_text c' = target_text c @ stream"
proof -
  obtain c1 where "send_stream_loop stream handler [] c = Inr (c1, stream)" "ready 0 0 c1" "target_text c1 = target_text c @ stream"
    using send_stream_loop_ok [OF assms, of stream "[]"] by auto
  then show ?thesis using finishes [of 0 0 c1] by (auto simp: svn_txdelta_send_stream_def)
qed

end

interpretation applied: window_sink "apply_window unaligned junk" source "apply_inv source" ab_target ab_closed
  for unaligned junk source
proof
  fix st l ab w
  assume "apply_inv source st l ab" "follows source st l w"
  then show "\<exists>c'. apply_window unaligned junk (Some w) ab = Inr c' \<and> apply_inv source (unat (sview_offset w)) (next_len st l w) c'
      \<and> ab_target c' = ab_target ab @ window_text w (source_view source w)"
    using apply_window_ok by blast
next
  fix st l ab
  show "\<exists>c'. apply_window unaligned junk None ab = Inr c' \<and> ab_closed c' \<and> ab_target c' = ab_target ab"
    by (simp add: apply_window_def)
qed

text \<open>A handler in front of which the windows are encoded, sent and decoded.\<close>

interpretation recounted: window_sink "\<lambda>w. apply_window unaligned junk (map_option recount w)" source "apply_inv source"
    ab_target ab_closed
  for unaligned junk source
proof
  fix st l ab w
  assume "apply_inv source st l ab" "follows source st l w"
  moreover have "follows source st l (recount w)" "next_len st l (recount w) = next_len st l w"
    "window_text (recount w) x = window_text w x" "source_view source (recount w) = source_view source w" for x
    using calculation(2) by (simp_all add: follows_def wf_window_def next_len_def window_text_def source_view_def)
  ultimately show "\<exists>c'. apply_window unaligned junk (map_option recount (Some w)) ab = Inr c'
      \<and> apply_inv source (unat (sview_offset w)) (next_len st l w) c'
      \<and> ab_target c' = ab_target ab @ window_text w (source_view source w)"
    using apply_window_ok [of source st l ab "recount w" unaligned junk] by auto
next
  fix st l ab
  show "\<exists>c'. apply_window unaligned junk (map_option recount None) ab = Inr c' \<and> ab_closed c' \<and> ab_target c' = ab_target ab"
    by (simp add: apply_window_def)
qed

lemma deliver_recount: "deliver h (map recount ws) c = deliver (\<lambda>w. h (map_option recount w)) ws c"
  by (induction ws arbitrary: c) (auto intro: SVN_ERR_cong)

lemma encode_all_deliver: "encode_all compress2 ws eb = deliver (window_handler compress2) ws eb"
  by (induction ws arbitrary: eb) (auto intro: SVN_ERR_cong)

lemma run_deliver:
  "svn_txdelta_run u source target h None want c =
   SVN_ERR (deliver h (windows_of u source target 0) c) (\<lambda>c'. Inr (c', if want then Some target else None))"
proof -
  have "wf_stream (svn_txdelta2 source target want)" by (simp add: wf_stream_def svn_txdelta2_def)
  from send_loop_deliver [OF this, of u h 0 c] show ?thesis
    by (auto simp: svn_txdelta_run_def svn_txdelta2_def SVN_ERR_def split: sum.splits prod.splits if_splits)
qed

lemma target_push_deliver:
  "tpush_all u h pieces (svn_txdelta_target_push junk c source) = deliver h (windows_of u source (concat pieces) 0) c"
proof -
  have "wf_push (svn_txdelta_target_push junk c source)"
    using window_size_pos(1) by (simp add: wf_push_def svn_txdelta_target_push_def loaded_def)
  from tpush_all_deliver [OF this] show ?thesis
    by (simp add: svn_txdelta_target_push_def source_left_def target_pending_def)
qed

section \<open>A string sent through svndiff data\<close>

lemma new_window_encodable:
  assumes "length str < 2 ^ 62" "str \<noteq> []"
  shows "encodable \<lparr>action_code = svn_txdelta_new, offset = 0, oplen = of_nat (length str)\<rparr>"
proof -
  have u: "unat (of_nat (length str) :: 64 word) = length str" using assms(1) by (simp add: unat_of_nat)
  then have "(of_nat (length str) :: 64 word) \<noteq> 0" using assms(2) by (metis length_greater_0_conv less_not_refl unat_0)
  moreover have "sint (of_nat (length str) :: 64 word) \<ge> 0" using assms(1) by (intro sint_of_nat_small) simp
  ultimately show ?thesis by (simp add: encodable_def)
qed

lemma send_empty_string:
  assumes "version = 0 \<or> version = 1"
  shows "\<exists>eb. svn_txdelta_send_string [] (window_handler compress2) (svn_txdelta_to_svndiff3 version level) = Inr eb
    \<and> SVN_ERR (write_handler uncompress collect (enc_output eb) (svn_txdelta_parse_svndiff [] early)) (finish collect) =
      Inl SVN_ERR_SVNDIFF_INVALID_OPS"
  using assms
  by (auto simp: svn_txdelta_send_string_def new_window_def window_handler_def encode_window_def encode_instruction_def
      svn_txdelta_to_svndiff3_def append_encoded_int_def encode_int_def int_len_loop.simps MAX_ENCODED_INT_LEN_def
      action_byte_def svndiff_header_def write_handler_def check_header_def svn_txdelta_parse_svndiff_def Let_def
      write_loop.simps decode_header_def decode_file_offset_def decode_size_def header_too_large_def
      header_overflows_def header_backward_def SVN_DELTA_WINDOW_SIZE_def section_size decode_window_def
      count_and_verify_instructions_def verify_loop.simps decode_instruction_def
      zlib_encode_def zlib_decode_def MIN_COMPRESS_SIZE_def)

lemma send_large_string:
  assumes "length str < 2 ^ 62" "zlib_contract compress2 uncompress level" "version = 0 \<or> version = 1"
    and "str \<noteq> []" "window_size < length str"
  shows "\<exists>eb. svn_txdelta_send_string str (window_handler compress2) (svn_txdelta_to_svndiff3 version level) = Inr eb
    \<and> SVN_ERR (write_handler uncompress collect (enc_output eb) (svn_txdelta_parse_svndiff [] early)) (finish collect) =
      Inl SVN_ERR_SVNDIFF_CORRUPT_WINDOW"
proof -
  have u: "unat (of_nat (length str) :: 64 word) = length str" using assms(1) by (simp add: unat_of_nat)
  obtain b where b: "encode_instructions (ops (new_window str)) = Inr b" "length b \<le> 19"
    using instruction_round_trip [OF new_window_encodable [OF assms(1,4)]] by (auto simp: new_window_def)
  have zip: "\<exists>z. zlib_encode compress2 data level = Inr z \<and> length z \<le> length data + 9" if "length data < 2 ^ 62" for data
    using zlib_round_trip [OF assms(2), of data "of_nat (length data)"] that by (auto simp: unat_of_nat)
  obtain ins where ins: "(if version = 1 then zlib_encode compress2 b level else Inr b) = Inr ins" "length ins \<le> 28"
    using zip [of b] b(2) by (cases "version = 1") force+
  obtain newd where newd: "(if version = 1 then zlib_encode compress2 str level else Inr str) = Inr newd"
    "length newd \<le> length str + 9"
    using zip [OF assms(1)] by (cases "version = 1") auto
  let ?h = "\<lparr>h_sview_offset = 0, h_sview_len = 0, h_tview_len = of_nat (length str), h_inslen = of_nat (length ins),
      h_newlen = of_nat (length newd)\<rparr>"
  have nn: "nonneg_header ?h" using assms(1) ins(2) newd(2) by (simp add: nonneg_header_def sint_of_nat_small)
  have tl: "header_too_large ?h" using assms(5) u by (simp add: header_too_large_def word_less_nat_alt)
  have "encode_window compress2 version level (new_window str) = Inr (header_bytes_of ?h @ ins @ newd)"
    using b(1) nn ins(1) newd(1)
    by (cases "version = 1") (simp_all add: encode_window_def append_encoded_int_def header_bytes_of_def
        nonneg_header_def int_bytes_ok new_window_def)
  then obtain eb where eb: "svn_txdelta_send_string str (window_handler compress2) (svn_txdelta_to_svndiff3 version level) = Inr eb"
    "enc_output eb = svndiff_header version @ header_bytes_of ?h @ ins @ newd"
    by (simp add: svn_txdelta_send_string_def window_handler_def svn_txdelta_to_svndiff3_def)
  have "write_handler uncompress collect (enc_output eb) (svn_txdelta_parse_svndiff [] early) = Inl SVN_ERR_SVNDIFF_CORRUPT_WINDOW"
    using header_round_trip(1) [OF nn, of "ins @ newd"] tl assms(3)
    by (auto simp: eb(2) write_handler_def check_header_def svn_txdelta_parse_svndiff_def Let_def svndiff_header_def
        write_loop.simps eval_nat_numeral)
  with eb(1) show ?thesis by simp
qed

lemma send_window_string:
  assumes "zlib_contract compress2 uncompress level" "version = 0 \<or> version = 1" "str \<noteq> []" "\<not> window_size < length str"
  shows "\<exists>eb. svn_txdelta_send_string str (window_handler compress2) (svn_txdelta_to_svndiff3 version level) = Inr eb
    \<and> SVN_ERR (write_handler uncompress collect (enc_output eb) (svn_txdelta_parse_svndiff [] early)) (finish collect) =
      Inr [new_window str]"
proof -
  have len: "length str < 2 ^ 62" using assms(4) by (simp add: SVN_DELTA_WINDOW_SIZE_def)
  have u: "unat (of_nat (length str) :: 64 word) = length str" using len by (simp add: unat_of_nat)
  have "wf_window (new_window str)"
    using new_window_encodable [OF len assms(3)] u len by (simp add: wf_window_def new_window_def encodable_def)
  then have "sendable (new_window str)" using assms(4) u window_size_pos(2) by (simp add: sendable_def new_window_def)
  then obtain eb where eb: "encode_all compress2 [new_window str] (svn_txdelta_to_svndiff3 version level) = Inr eb"
    "SVN_ERR (write_handler uncompress collect (enc_output eb) (svn_txdelta_parse_svndiff [] early)) (finish collect) =
      deliver collect (map recount [new_window str]) []"
    using stream_round_trip [OF assms(1,2), of "[new_window str]" collect "[]" early] by (auto simp: new_window_def)
  moreover have "recount (new_window str) = new_window str" by (simp add: recount_def new_window_def)
  moreover have "svn_txdelta_send_string str (window_handler compress2) (svn_txdelta_to_svndiff3 version level) =
      encode_all compress2 [new_window str] (svn_txdelta_to_svndiff3 version level)"
    by (auto simp: svn_txdelta_send_string_def intro: SVN_ERR_cong)
  ultimately show ?thesis by simp
qed

section \<open>Properties\<close>

text \<open>
  C24. Pulling and pushing a delta are the same: writing a target in any pieces to a target
  push stream and closing it gives the window handler the same windows in the same order, with
  the same result, as running the delta over the whole target.
\<close>

theorem target_push_equals_run:
  "tpush_all unaligned handler pieces (svn_txdelta_target_push junk baton source) =
   SVN_ERR (svn_txdelta_run unaligned source (concat pieces) handler None want_checksum baton) (\<lambda>(c, d). Inr c)"
  by (simp add: target_push_deliver run_deliver SVN_ERR_def split: sum.splits)

text \<open>
  Running a delta and applying it: for every source shorter than \<open>2 ^ 62\<close> bytes and every
  target, the run ends, no assertion fails and nothing is read out of bounds, the applicator
  is closed and has written exactly the target, and the checksum is the one of the target.
\<close>

theorem run_apply:
  assumes "length source < 2 ^ 62"
  shows "\<exists>ab. svn_txdelta_run unaligned source target (apply_window unaligned' junk) None True (svn_txdelta_apply source) =
      Inr (ab, Some target) \<and> ab_closed ab \<and> ab_target ab = target"
  using applied.deliver_delta [OF apply_inv_start [OF assms] assms, of unaligned' junk unaligned target]
  by (auto simp: run_deliver svn_txdelta_apply_def)

theorem run_apply_witness:
  "\<exists>ab. svn_txdelta_run True [1, 2, 3] [1, 2, 3, 4] (apply_window False 0) None True (svn_txdelta_apply [1, 2, 3]) =
      Inr (ab, Some [1, 2, 3, 4]) \<and> ab_closed ab \<and> ab_target ab = [1, 2, 3, 4]"
  by (rule run_apply) simp

text \<open>
  Sending a stream makes the target equal to the stream, whatever its length and the
  source, and the digest is the one of the stream.
\<close>

theorem send_stream_apply:
  assumes "length source < 2 ^ 62"
  shows "\<exists>ab. svn_txdelta_send_stream md5 stream (apply_window unaligned junk) True (svn_txdelta_apply source) =
      Inr (ab, Some (md5 stream)) \<and> ab_closed ab \<and> ab_target ab = stream"
  using applied.send_stream_ok [OF apply_inv_start [OF assms], of md5 stream unaligned junk True]
  by (auto simp: svn_txdelta_apply_def)

theorem send_stream_apply_witness:
  "\<exists>ab. svn_txdelta_send_stream length [5, 6] (apply_window True 0) True (svn_txdelta_apply [1]) =
      Inr (ab, Some (length ([5, 6] :: byte list))) \<and> ab_closed ab \<and> ab_target ab = [5, 6]"
  by (rule send_stream_apply) simp

text \<open>
  C40. Sending a string through svndiff data, in both versions of the format: a string that
  is not empty and fits into one window is received as that window; the window of an empty
  string is rejected by the reader because its instruction has no length, and a string longer
  than the window size is rejected as a window that is too large. The string is shorter than
  \<open>2 ^ 62\<close> bytes, so that its length can be encoded.
\<close>

theorem send_string_received:
  assumes "length str < 2 ^ 62" "zlib_contract compress2 uncompress level" "version = 0 \<or> version = 1"
  shows "\<exists>eb. svn_txdelta_send_string str (window_handler compress2) (svn_txdelta_to_svndiff3 version level) = Inr eb
    \<and> SVN_ERR (write_handler uncompress collect (enc_output eb) (svn_txdelta_parse_svndiff [] early)) (finish collect) =
      (if str = [] then Inl SVN_ERR_SVNDIFF_INVALID_OPS
       else if window_size < length str then Inl SVN_ERR_SVNDIFF_CORRUPT_WINDOW
       else Inr [new_window str])"
proof -
  consider "str = []" | "str \<noteq> []" "window_size < length str" | "str \<noteq> []" "\<not> window_size < length str" by blast
  then show ?thesis
  proof cases
    case 1
    then show ?thesis using send_empty_string [OF assms(3)] by simp
  next
    case 2
    then show ?thesis using send_large_string [OF assms(1-3)] by simp
  next
    case 3
    then show ?thesis using send_window_string [OF assms(2,3)] by simp
  qed
qed

theorem send_string_received_witness:
  "\<exists>eb. svn_txdelta_send_string [7, 8, 9] (window_handler (\<lambda>data level. Inr data)) (svn_txdelta_to_svndiff3 1 5) = Inr eb
    \<and> SVN_ERR (write_handler (\<lambda>n z. Inr z) collect (enc_output eb) (svn_txdelta_parse_svndiff [] True)) (finish collect) =
      Inr [new_window [7, 8, 9]]"
  using send_string_received [of "[7, 8, 9]" "\<lambda>data level. Inr data" "\<lambda>n z. Inr z" 5 1 True]
  by (simp add: zlib_contract_def SVN_DELTA_WINDOW_SIZE_def)

end
