(* ===== verification/Range_Index.thy ===== *)
theory Range_Index
  imports Txdelta "HOL-Library.Tree" "HOL-Library.Sublist"
begin

text \<open>
  The range index of window composition (libsvn\_delta/compose\_delta.c): ranges of the source
  of the second window that the composed delta has already produced, kept in a splay tree whose
  nodes are also linked into an ordered list. The tree is a tree of nodes, each with its
  address; the pointers \<open>prev\<close> and \<open>next\<close> are the list of the addresses in their order. A
  pointer in that list to a node that is not in the tree is a dangling pointer, and following it
  is the error \<open>C_OUT_OF_BOUNDS\<close>. Nodes come from a pool: a new node has a new address, a freed one
  is forgotten.
\<close>

section \<open>Nodes and the index\<close>

record range_index_node_t =
  address :: nat
  roffset :: apr_size_t
  rlimit :: apr_size_t
  rtarget_offset :: apr_size_t

record range_index_t =
  rtree :: "range_index_node_t tree"
  links :: "nat list"
  pool_next :: nat

definition create_range_index :: range_index_t where
  "create_range_index = \<lparr>rtree = \<langle>\<rangle>, links = [], pool_next = 0\<rparr>"

definition alloc_range_index_node ::
  "range_index_t \<Rightarrow> apr_size_t \<Rightarrow> apr_size_t \<Rightarrow> apr_size_t \<Rightarrow> range_index_node_t \<times> range_index_t" where
  "alloc_range_index_node ndx off limit target_offset =
     (\<lparr>address = pool_next ndx, roffset = off, rlimit = limit, rtarget_offset = target_offset\<rparr>,
      ndx\<lparr>pool_next := pool_next ndx + 1\<rparr>)"

definition free_range_index_node :: "range_index_t \<Rightarrow> range_index_node_t \<Rightarrow> range_index_t" where
  "free_range_index_node ndx node = ndx\<lparr>links := remove1 (address node) (links ndx)\<rparr>"

definition next_of :: "range_index_t \<Rightarrow> nat \<Rightarrow> nat option" where
  "next_of ndx p = (case tl (dropWhile (\<lambda>q. q \<noteq> p) (links ndx)) of [] \<Rightarrow> None | q # _ \<Rightarrow> Some q)"

definition prev_of :: "range_index_t \<Rightarrow> nat \<Rightarrow> nat option" where
  "prev_of ndx p =
     (if p \<in> set (links ndx) then
        case rev (takeWhile (\<lambda>q. q \<noteq> p) (links ndx)) of [] \<Rightarrow> None | q # _ \<Rightarrow> Some q
      else None)"

definition node_at :: "range_index_t \<Rightarrow> nat \<Rightarrow> range_index_node_t svn_result" where
  "node_at ndx p =
     (case find (\<lambda>node. address node = p) (inorder (rtree ndx)) of
        None \<Rightarrow> Inl C_OUT_OF_BOUNDS
      | Some node \<Rightarrow> Inr node)"

section \<open>Splaying\<close>

text \<open>
  The top-down loop at the node \<open>a\<close> with its subtrees. The nodes that are hung into the
  left and right trees under the scratch node are kept as lists, the last one first, each with
  the subtree it keeps.
\<close>

definition rotate_right where
  "rotate_right off l a r =
     (case l of
        \<langle>ll, b, lr\<rangle> \<Rightarrow> if off < roffset b then (ll, b, \<langle>lr, a, r\<rangle>) else (l, a, r)
      | \<langle>\<rangle> \<Rightarrow> (l, a, r))"

definition rotate_left where
  "rotate_left off l a r =
     (case r of
        \<langle>rl, b, rr\<rangle> \<Rightarrow> if off > roffset b then (\<langle>l, a, rl\<rangle>, b, rr) else (l, a, r)
      | \<langle>\<rangle> \<Rightarrow> (l, a, r))"

function splay_loop ::
  "apr_size_t \<Rightarrow> range_index_node_t tree \<Rightarrow> range_index_node_t \<Rightarrow> range_index_node_t tree \<Rightarrow>
   (range_index_node_t tree \<times> range_index_node_t) list \<Rightarrow> (range_index_node_t \<times> range_index_node_t tree) list \<Rightarrow>
   range_index_node_t tree \<times> range_index_node_t \<times> range_index_node_t tree \<times>
   (range_index_node_t tree \<times> range_index_node_t) list \<times> (range_index_node_t \<times> range_index_node_t tree) list" where
  "splay_loop off l a r ls rs =
     (if off < roffset a then
        case rotate_right off l a r of (l1, a1, r1) \<Rightarrow>
          (case l1 of
             \<langle>\<rangle> \<Rightarrow> (l1, a1, r1, ls, rs)
           | \<langle>l2, a2, r2\<rangle> \<Rightarrow> splay_loop off l2 a2 r2 ls ((a1, r1) # rs))
      else if off > roffset a then
        case rotate_left off l a r of (l1, a1, r1) \<Rightarrow>
          (case r1 of
             \<langle>\<rangle> \<Rightarrow> (l1, a1, r1, ls, rs)
           | \<langle>l2, a2, r2\<rangle> \<Rightarrow> splay_loop off l2 a2 r2 ((l1, a1) # ls) rs)
      else (l, a, r, ls, rs))"
  by pat_completeness auto
termination
  by (relation "measure (\<lambda>(off, l, a, r, ls, rs). size l + size r)")
     (auto simp: rotate_right_def rotate_left_def split: tree.splits if_splits)

declare splay_loop.simps [simp del]

definition link_left :: "(range_index_node_t tree \<times> range_index_node_t) list \<Rightarrow> range_index_node_t tree \<Rightarrow> range_index_node_t tree" where
  "link_left ls t = foldl (\<lambda>t (l, a). \<langle>l, a, t\<rangle>) t ls"

definition link_right :: "(range_index_node_t \<times> range_index_node_t tree) list \<Rightarrow> range_index_node_t tree \<Rightarrow> range_index_node_t tree" where
  "link_right rs t = foldl (\<lambda>t (a, r). \<langle>t, a, r\<rangle>) t rs"

text \<open>The rightmost node of a tree, and the tree without it.\<close>

fun promote :: "range_index_node_t tree \<Rightarrow> range_index_node_t \<Rightarrow> range_index_node_t tree \<Rightarrow>
   range_index_node_t tree \<times> range_index_node_t" where
  "promote l a \<langle>\<rangle> = (l, a)"
| "promote l a \<langle>rl, b, rr\<rangle> = (case promote rl b rr of (t, m) \<Rightarrow> (\<langle>l, a, t\<rangle>, m))"

text \<open>Bringing the largest node not after the offset to the top.\<close>

definition turn_around where
  "turn_around off l a r =
     (case l of
        \<langle>ll, b, lr\<rangle> \<Rightarrow>
          if off < roffset a then
            if lr = \<langle>\<rangle> then (ll, b, \<langle>lr, a, r\<rangle>)
            else (case promote ll b lr of (t, m) \<Rightarrow> (t, m, \<langle>\<langle>\<rangle>, a, r\<rangle>))
          else (l, a, r)
      | \<langle>\<rangle> \<Rightarrow> (l, a, r))"

definition splay_range_index :: "apr_size_t \<Rightarrow> range_index_t \<Rightarrow> range_index_t svn_result" where
  "splay_range_index off ndx =
     (case rtree ndx of
        \<langle>\<rangle> \<Rightarrow> Inr ndx
      | \<langle>l0, a0, r0\<rangle> \<Rightarrow>
          (case splay_loop off l0 a0 r0 [] [] of (l1, a1, r1, ls, rs) \<Rightarrow>
           case turn_around off (link_left ls l1) a1 (link_right rs r1) of (l, a, r) \<Rightarrow>
           SVN_ERR_ASSERT (off \<ge> roffset a \<or> l = \<langle>\<rangle> \<and> prev_of ndx (address a) = None)
             (Inr (ndx\<lparr>rtree := \<langle>l, a, r\<rangle>\<rparr>))))"

section \<open>Inserting ranges\<close>

primrec delete_subtree :: "range_index_t \<Rightarrow> range_index_node_t tree \<Rightarrow> range_index_t" where
  "delete_subtree ndx \<langle>\<rangle> = ndx"
| "delete_subtree ndx \<langle>l, node, r\<rangle> = free_range_index_node (delete_subtree (delete_subtree ndx l) r) node"

text \<open>The loop of \<open>clean_tree\<close> on the subtree that \<open>nodep\<close> points to.\<close>

fun clean_loop ::
  "apr_size_t \<Rightarrow> apr_size_t \<Rightarrow> range_index_node_t tree \<Rightarrow> range_index_t \<Rightarrow> range_index_node_t tree \<times> range_index_t" where
  "clean_loop limit top_offset \<langle>\<rangle> ndx = (\<langle>\<rangle>, ndx)"
| "clean_loop limit top_offset \<langle>l, node, r\<rangle> ndx =
     (let off = (case r of
                      \<langle>_, b, _\<rangle> \<Rightarrow> if roffset b < top_offset then roffset b else top_offset
                    | \<langle>\<rangle> \<Rightarrow> top_offset)
      in if rlimit node \<le> limit \<or> roffset node < limit \<and> off < limit
         then clean_loop limit top_offset r (delete_subtree ndx \<langle>l, node, \<langle>\<rangle>\<rangle>)
         else case clean_loop limit (roffset node) l ndx of (l', ndx') \<Rightarrow> (\<langle>l', node, r\<rangle>, ndx'))"

definition clean_tree :: "range_index_t \<Rightarrow> apr_size_t \<Rightarrow> range_index_t" where
  "clean_tree ndx limit =
     (case rtree ndx of
        \<langle>\<rangle> \<Rightarrow> ndx
      | \<langle>l, a, r\<rangle> \<Rightarrow> (case clean_loop limit (limit + 1) r ndx of (r', ndx') \<Rightarrow> ndx'\<lparr>rtree := \<langle>l, a, r'\<rangle>\<rparr>))"

text \<open>A new address linked behind another one.\<close>

fun link_after :: "nat \<Rightarrow> nat \<Rightarrow> nat list \<Rightarrow> nat list" where
  "link_after p q [] = []"
| "link_after p q (x # xs) = (if x = p then x # q # xs else x # link_after p q xs)"

definition insert_range ::
  "apr_size_t \<Rightarrow> apr_size_t \<Rightarrow> apr_size_t \<Rightarrow> range_index_t \<Rightarrow> range_index_t svn_result" where
  "insert_range off limit target_offset ndx =
     (case rtree ndx of
        \<langle>\<rangle> \<Rightarrow>
          (case alloc_range_index_node ndx off limit target_offset of (node, ndx') \<Rightarrow>
             Inr (ndx'\<lparr>rtree := \<langle>\<langle>\<rangle>, node, \<langle>\<rangle>\<rangle>, links := [address node]\<rparr>))
      | \<langle>l, a, r\<rangle> \<Rightarrow>
          if off = roffset a \<and> limit > rlimit a then
            Inr (clean_tree (ndx\<lparr>rtree := \<langle>l, a\<lparr>rlimit := limit, rtarget_offset := target_offset\<rparr>, r\<rangle>\<rparr>) limit)
          else if off > roffset a \<and> limit > rlimit a then
            SVN_ERR
              (case next_of ndx (address a) of
                 None \<Rightarrow> Inr True
               | Some p \<Rightarrow> SVN_ERR (node_at ndx p) (\<lambda>b. Inr (rlimit a < roffset b \<or> limit > rlimit b)))
              (\<lambda>insert_range_p.
                if insert_range_p then
                  SVN_ERR
                    (case prev_of ndx (address a) of
                       None \<Rightarrow> Inr False
                     | Some p \<Rightarrow> SVN_ERR (node_at ndx p) (\<lambda>b. Inr (rlimit b > off)))
                    (\<lambda>replace.
                      Inr (clean_tree
                        (if replace then
                           ndx\<lparr>rtree := \<langle>l, a\<lparr>roffset := off, rlimit := limit, rtarget_offset := target_offset\<rparr>, r\<rangle>\<rparr>
                         else
                           (case alloc_range_index_node ndx off limit target_offset of (node, ndx') \<Rightarrow>
                              ndx'\<lparr>rtree := \<langle>\<langle>l, a, \<langle>\<rangle>\<rangle>, node, r\<rangle>, links := link_after (address a) (address node) (links ndx)\<rparr>))
                        limit))
                else Inr ndx)
          else if off < roffset a then
            SVN_ERR_ASSERT (l = \<langle>\<rangle>)
              (case alloc_range_index_node ndx off limit target_offset of (node, ndx') \<Rightarrow>
                 Inr (clean_tree (ndx'\<lparr>rtree := \<langle>\<langle>\<rangle>, node, \<langle>l, a, r\<rangle>\<rangle>, links := address node # links ndx\<rparr>) limit))
          else Inr ndx)"

section \<open>Lists of ranges\<close>

datatype range_kind = range_from_source | range_from_target

record range_list_node_t =
  rkind :: range_kind
  loffset :: apr_size_t
  llimit :: apr_size_t
  ltarget_offset :: apr_size_t

definition alloc_range_list ::
  "range_list_node_t list \<Rightarrow> range_kind \<Rightarrow> apr_size_t \<Rightarrow> apr_size_t \<Rightarrow> apr_size_t \<Rightarrow> range_list_node_t list" where
  "alloc_range_list list kind off limit target_offset =
     list @ [\<lparr>rkind = kind, loffset = off, llimit = limit, ltarget_offset = target_offset\<rparr>]"

text \<open>The loop of \<open>build_range_list\<close>; the pointer \<open>node\<close> is the list of the addresses from it on.\<close>

function build_loop ::
  "range_index_t \<Rightarrow> apr_size_t \<Rightarrow> apr_size_t \<Rightarrow> nat list \<Rightarrow> range_list_node_t list \<Rightarrow> range_list_node_t list svn_result" where
  "build_loop ndx off limit chain list =
     (if off < limit then
        case chain of
          [] \<Rightarrow> Inr (alloc_range_list list range_from_source off limit 0)
        | p # rest \<Rightarrow>
            SVN_ERR (node_at ndx p) (\<lambda>node.
            if off < roffset node then
              if limit \<le> roffset node then Inr (alloc_range_list list range_from_source off limit 0)
              else build_loop ndx (roffset node) limit chain (alloc_range_list list range_from_source off (roffset node) 0)
            else if off \<ge> rlimit node then build_loop ndx off limit rest list
            else
              let target_offset = off - roffset node + rtarget_offset node in
              if limit \<le> rlimit node then Inr (alloc_range_list list range_from_target off limit target_offset)
              else build_loop ndx (rlimit node) limit rest
                     (alloc_range_list list range_from_target off (rlimit node) target_offset))
      else Inl SVN_ERR_ASSERTION_FAIL)"
  by pat_completeness auto
termination
  by (relation "measures [\<lambda>(ndx, off, limit, chain, list). length chain,
        \<lambda>(ndx, off, limit, chain, list). unat limit - unat off]")
     (auto simp: word_less_nat_alt word_le_nat_alt)

declare build_loop.simps [simp del]

definition build_range_list :: "apr_size_t \<Rightarrow> apr_size_t \<Rightarrow> range_index_t \<Rightarrow> range_list_node_t list svn_result" where
  "build_range_list off limit ndx =
     build_loop ndx off limit
       (case rtree ndx of
          \<langle>\<rangle> \<Rightarrow> []
        | \<langle>l, a, r\<rangle> \<Rightarrow> address a # tl (dropWhile (\<lambda>q. q \<noteq> address a) (links ndx)))
       []"

section \<open>Splaying keeps the nodes in order\<close>

definition spine_left :: "(range_index_node_t tree \<times> range_index_node_t) list \<Rightarrow> range_index_node_t list" where
  "spine_left ls = concat (rev (map (\<lambda>(l, a). inorder l @ [a]) ls))"

definition spine_right :: "(range_index_node_t \<times> range_index_node_t tree) list \<Rightarrow> range_index_node_t list" where
  "spine_right rs = concat (map (\<lambda>(a, r). a # inorder r) rs)"

lemma spine_simps [simp]:
  "spine_left [] = []" "spine_left ((l, a) # ls) = spine_left ls @ inorder l @ [a]"
  "spine_right [] = []" "spine_right ((a, r) # rs) = a # inorder r @ spine_right rs"
  by (simp_all add: spine_left_def spine_right_def)

lemma inorder_link_left: "inorder (link_left ls t) = spine_left ls @ inorder t"
  by (induction ls arbitrary: t) (auto simp: link_left_def)

lemma inorder_link_right: "inorder (link_right rs t) = inorder t @ spine_right rs"
  by (induction rs arbitrary: t) (auto simp: link_right_def)

lemma inorder_promote: "promote l a r = (t, m) \<Longrightarrow> inorder l @ a # inorder r = inorder t @ [m]"
  by (induction l a r arbitrary: t m rule: promote.induct) (auto split: prod.splits)

lemma inorder_rotate:
  "rotate_right off l a r = (l', a', r') \<Longrightarrow> inorder l' @ a' # inorder r' = inorder l @ a # inorder r"
  "rotate_left off l a r = (l', a', r') \<Longrightarrow> inorder l' @ a' # inorder r' = inorder l @ a # inorder r"
  by (auto simp: rotate_right_def rotate_left_def split: tree.splits if_splits)

lemma inorder_turn_around:
  "turn_around off l a r = (l', a', r') \<Longrightarrow> inorder l' @ a' # inorder r' = inorder l @ a # inorder r"
  by (auto simp: turn_around_def split: tree.splits if_splits prod.splits dest!: inorder_promote)

lemma rotate_offset:
  "rotate_right off l a r = (l', a', r') \<Longrightarrow> off < roffset a \<Longrightarrow> off < roffset a'"
  "rotate_left off l a r = (l', a', r') \<Longrightarrow> roffset a < off \<Longrightarrow> roffset a' < off"
  by (auto simp: rotate_right_def rotate_left_def split: tree.splits if_splits)

abbreviation in_order :: "range_index_node_t list \<Rightarrow> bool" where
  "in_order \<equiv> sorted_wrt (\<lambda>a b. roffset a < roffset b)"

text \<open>
  The state of the loop: the left tree lies before the offset, the right tree behind it.
\<close>

definition splay_inv where
  "splay_inv off l a r ls rs \<longleftrightarrow> in_order (spine_left ls @ inorder l @ a # inorder r @ spine_right rs)
     \<and> (\<forall>x \<in> set (spine_left ls). roffset x < off) \<and> (\<forall>x \<in> set (spine_right rs). off < roffset x)"

lemma splay_loop_ok:
  assumes "splay_loop off l a r ls rs = (l', a', r', ls', rs')" "splay_inv off l a r ls rs"
  shows "spine_left ls' @ inorder l' @ a' # inorder r' @ spine_right rs' =
           spine_left ls @ inorder l @ a # inorder r @ spine_right rs
    \<and> splay_inv off l' a' r' ls' rs'
    \<and> (off < roffset a' \<longrightarrow> l' = \<langle>\<rangle>) \<and> (roffset a' < off \<longrightarrow> r' = \<langle>\<rangle>)"
  using assms
proof (induction off l a r ls rs rule: splay_loop.induct)
  case (1 off l a r ls rs)
  consider "off < roffset a" | "roffset a < off" | "off = roffset a" by fastforce
  then show ?case
  proof cases
    case 1
    obtain l1 a1 r1 where rot: "rotate_right off l a r = (l1, a1, r1)" by (metis prod_cases3)
    note o1 = inorder_rotate(1) [OF rot] rotate_offset(1) [OF rot 1]
    have inv: "splay_inv off l1 a1 r1 ls rs"
      using "1.prems"(2) o1(1) unfolding splay_inv_def by (metis append.assoc append_Cons)
    show ?thesis
    proof (cases l1)
      case Leaf
      then show ?thesis
        using "1.prems"(1) 1 rot o1 inv
        by (auto simp: splay_loop.simps [of off l a r])
    next
      case (Node l2 a2 r2)
      have "\<forall>x \<in> set_tree r1. off < roffset x"
        using inv o1(2) by (auto simp: splay_inv_def sorted_wrt_append intro: less_trans)
      then have "splay_inv off l2 a2 r2 ls ((a1, r1) # rs)"
        using inv o1(2) unfolding Node splay_inv_def
        by (auto simp: sorted_wrt_append)
      then show ?thesis
        using "1.IH"(1) [OF 1 rot [symmetric] refl Node] "1.prems"(1) 1 rot o1(1)
        by (auto simp: splay_loop.simps [of off l a r] Node)
    qed
  next
    case 2
    then have n: "\<not> off < roffset a" by simp
    obtain l1 a1 r1 where rot: "rotate_left off l a r = (l1, a1, r1)" by (metis prod_cases3)
    note o1 = inorder_rotate(2) [OF rot] rotate_offset(2) [OF rot 2]
    have inv: "splay_inv off l1 a1 r1 ls rs"
      using "1.prems"(2) o1(1) unfolding splay_inv_def by (metis append.assoc append_Cons)
    show ?thesis
    proof (cases r1)
      case Leaf
      then show ?thesis
        using "1.prems"(1) 2 n rot o1 inv
        by (auto simp: splay_loop.simps [of off l a r])
    next
      case (Node l2 a2 r2)
      have "\<forall>x \<in> set_tree l1. roffset x < off"
        using inv o1(2) by (auto simp: splay_inv_def sorted_wrt_append intro: less_trans)
      then have "splay_inv off l2 a2 r2 ((l1, a1) # ls) rs"
        using inv o1(2) unfolding Node splay_inv_def
        by (auto simp: sorted_wrt_append)
      then show ?thesis
        using "1.IH"(2) [OF n 2 rot [symmetric] refl Node] "1.prems"(1) 2 n rot o1(1)
        by (auto simp: splay_loop.simps [of off l a r] Node)
    qed
  next
    case 3
    then have "splay_loop off l a r ls rs = (l, a, r, ls, rs)" by (subst splay_loop.simps) simp
    with 3 show ?thesis using "1.prems" by simp
  qed
qed

text \<open>
  The invariant of the index: the tree and the list of links hold the same nodes in the same
  order, every node once, and in the order of their offsets.
\<close>

definition wf_index :: "range_index_t \<Rightarrow> bool" where
  "wf_index ndx \<longleftrightarrow> links ndx = map address (inorder (rtree ndx)) \<and> distinct (map address (inorder (rtree ndx)))
     \<and> (\<forall>node \<in> set_tree (rtree ndx). address node < pool_next ndx) \<and> in_order (inorder (rtree ndx))"

lemma wf_indexD:
  "wf_index ndx \<Longrightarrow> links ndx = map address (inorder (rtree ndx))"
  "wf_index ndx \<Longrightarrow> distinct (links ndx)"
  "wf_index ndx \<Longrightarrow> in_order (inorder (rtree ndx))"
  by (simp_all add: wf_index_def)

text \<open>Splayed to an offset: the root is the last node that does not start behind it, or the first node.\<close>

definition splayed :: "apr_size_t \<Rightarrow> range_index_t \<Rightarrow> bool" where
  "splayed off ndx \<longleftrightarrow> (case rtree ndx of
      \<langle>\<rangle> \<Rightarrow> True
    | \<langle>l, a, r\<rangle> \<Rightarrow> (\<forall>x \<in> set_tree r. off < roffset x) \<and> (off < roffset a \<longrightarrow> l = \<langle>\<rangle>))"

lemma turn_around_splayed:
  assumes "turn_around off l a r = (l', a', r')" "\<forall>x \<in> set_tree r. off < roffset x"
    "off < roffset a \<longrightarrow> (\<forall>x \<in> set_tree l. roffset x < off)"
  shows "(\<forall>x \<in> set_tree r'. off < roffset x) \<and> (off < roffset a' \<longrightarrow> l' = \<langle>\<rangle>)"
proof (cases "l \<noteq> \<langle>\<rangle> \<and> off < roffset a")
  case True
  then obtain ll b lr where l: "l = \<langle>ll, b, lr\<rangle>" by (cases l) auto
  obtain t m where pm: "promote ll b lr = (t, m)" by fastforce
  then have "m \<in> set_tree l" using arg_cong [OF inorder_promote [OF pm], of set] by (auto simp: l)
  then have "\<not> off < roffset m" "\<not> off < roffset b" using True assms(3) by (auto simp: l dest!: bspec)
  then show ?thesis using True assms(1,2) by (auto simp: turn_around_def l pm split: if_splits)
next
  case False
  then have "(l', a', r') = (l, a, r)" using assms(1) by (auto simp: turn_around_def split: tree.splits)
  then show ?thesis using False assms(2) by auto
qed

lemma first_has_no_prev:
  "links ndx = map address (a # xs) \<Longrightarrow> prev_of ndx (address a) = None"
  by (simp add: prev_of_def)

lemma splay_ok:
  assumes "wf_index ndx"
  shows "\<exists>t. splay_range_index off ndx = Inr (ndx\<lparr>rtree := t\<rparr>) \<and> inorder t = inorder (rtree ndx)
    \<and> wf_index (ndx\<lparr>rtree := t\<rparr>) \<and> splayed off (ndx\<lparr>rtree := t\<rparr>)"
proof (cases "rtree ndx")
  case Leaf
  then have "ndx\<lparr>rtree := \<langle>\<rangle>\<rparr> = ndx" by (cases ndx) simp
  then show ?thesis using assms Leaf
    by (intro exI [of _ "\<langle>\<rangle>"]) (simp add: splay_range_index_def splayed_def wf_index_def)
next
  case (Node l0 a0 r0)
  obtain l1 a1 r1 ls rs where sl: "splay_loop off l0 a0 r0 [] [] = (l1, a1, r1, ls, rs)"
    by (metis prod_cases5)
  have sorted: "in_order (inorder (rtree ndx))" using assms by (simp add: wf_index_def)
  then have "splay_inv off l0 a0 r0 [] []" by (simp add: splay_inv_def Node)
  note ok = splay_loop_ok [OF sl this]
  let ?L = "link_left ls l1" and ?R = "link_right rs r1"
  obtain l a r where ta: "turn_around off ?L a1 ?R = (l, a, r)" by (metis prod_cases3)
  have io: "inorder \<langle>l, a, r\<rangle> = inorder (rtree ndx)"
    using inorder_turn_around [OF ta] ok by (simp add: inorder_link_left inorder_link_right Node)
  have R: "\<forall>x \<in> set_tree ?R. off < roffset x"
    using ok unfolding splay_inv_def sorted_wrt_append set_inorder [symmetric]
    by (cases "roffset a1 < off") (auto simp: inorder_link_right not_less intro: le_less_trans)
  have L: "off < roffset a1 \<longrightarrow> (\<forall>x \<in> set_tree ?L. roffset x < off)"
    using ok unfolding splay_inv_def set_inorder [symmetric] by (auto simp: inorder_link_left)
  note sp = turn_around_splayed [OF ta R L]
  have prev: "prev_of ndx (address a) = None" if "l = \<langle>\<rangle>"
    using assms io that first_has_no_prev [of ndx a "inorder r"] by (simp add: wf_index_def)
  have "splay_range_index off ndx = Inr (ndx\<lparr>rtree := \<langle>l, a, r\<rangle>\<rparr>)"
    using sp prev by (auto simp: splay_range_index_def Node sl ta SVN_ERR_ASSERT_def not_le)
  moreover have "set_tree \<langle>l, a, r\<rangle> = set_tree (rtree ndx)" using arg_cong [OF io, of set] by simp
  ultimately show ?thesis
    using sp assms io by (intro exI [of _ "\<langle>l, a, r\<rangle>"]) (simp add: splayed_def wf_index_def)
qed

section \<open>Inserting keeps the invariant\<close>

lemma delete_subtree_links:
  "links ndx = map address (xs @ inorder t @ ys) \<Longrightarrow> distinct (links ndx) \<Longrightarrow>
   delete_subtree ndx t = ndx\<lparr>links := map address (xs @ ys)\<rparr>"
proof (induction t arbitrary: ndx xs ys)
  case Leaf
  then show ?case by simp
next
  case (Node l a r)
  let ?n1 = "ndx\<lparr>links := map address (xs @ a # inorder r @ ys)\<rparr>"
  let ?n2 = "ndx\<lparr>links := map address (xs @ a # ys)\<rparr>"
  have d: "distinct (map address (xs @ inorder l @ a # inorder r @ ys))" using Node.prems by simp
  have "delete_subtree ndx l = ?n1"
    using Node.IH(1) [of ndx xs "a # inorder r @ ys"] Node.prems by simp
  moreover have d1: "distinct (links ?n1)" using d by auto
  have "delete_subtree ?n1 r = ?n2"
    using Node.IH(2) [OF _ d1, of "xs @ [a]" ys] by simp
  moreover have "remove1 (address a) (map address (xs @ a # ys)) = map address (xs @ ys)"
    using d by (auto simp: remove1_append)
  ultimately show ?case by (simp add: free_range_index_node_def)
qed

lemma clean_loop_ok:
  "clean_loop limit top_offset t ndx = (t', ndx') \<Longrightarrow> links ndx = map address (xs @ inorder t @ ys) \<Longrightarrow>
   distinct (links ndx) \<Longrightarrow>
   ndx' = ndx\<lparr>links := map address (xs @ inorder t' @ ys)\<rparr> \<and> subseq (inorder t') (inorder t)"
proof (induction limit top_offset t ndx arbitrary: t' ndx' xs ys rule: clean_loop.induct)
  case (1 limit top_offset ndx)
  then show ?case by auto
next
  case (2 limit top_offset l a r ndx)
  let ?off = "case r of \<langle>_, b, _\<rangle> \<Rightarrow> if roffset b < top_offset then roffset b else top_offset | \<langle>\<rangle> \<Rightarrow> top_offset"
  show ?case
  proof (cases "rlimit a \<le> limit \<or> roffset a < limit \<and> ?off < limit")
    case True
    let ?n = "ndx\<lparr>links := map address (xs @ inorder r @ ys)\<rparr>"
    have "delete_subtree ndx \<langle>l, a, \<langle>\<rangle>\<rangle> = ?n"
      using delete_subtree_links [of ndx xs "\<langle>l, a, \<langle>\<rangle>\<rangle>" "inorder r @ ys"] "2.prems"(2,3) by simp
    moreover have "distinct (links ?n)" using "2.prems"(2,3) by auto
    ultimately show ?thesis
      using "2.IH"(1) [OF refl True, of t' ndx' xs ys] "2.prems" True by (auto simp: Let_def intro: list_emb_append2)
  next
    case False
    obtain l' n' where c: "clean_loop limit (roffset a) l ndx = (l', n')" by fastforce
    then show ?thesis
      using "2.IH"(2) [OF refl False c, of xs "a # inorder r @ ys"] "2.prems" False
      by (auto simp: Let_def intro: list_emb_append_mono)
  qed
qed

lemma sorted_wrt_subseq: "subseq xs ys \<Longrightarrow> sorted_wrt P ys \<Longrightarrow> sorted_wrt P xs"
  by (induction rule: list_emb.induct) (auto dest: list_emb_set)

lemma distinct_map_wrt: "distinct (map f xs) \<longleftrightarrow> sorted_wrt (\<lambda>a b. f a \<noteq> f b) xs"
  by (induction xs) auto

lemma clean_tree_ok:
  assumes "wf_index ndx"
  shows "wf_index (clean_tree ndx limit) \<and> set_tree (rtree (clean_tree ndx limit)) \<subseteq> set_tree (rtree ndx)"
proof (cases "rtree ndx")
  case (Node l a r)
  obtain r' ndx' where c: "clean_loop limit (limit + 1) r ndx = (r', ndx')" by fastforce
  have ok: "ndx' = ndx\<lparr>links := map address (inorder l @ a # inorder r')\<rparr> \<and> subseq (inorder r') (inorder r)"
  proof -
    have "distinct (links ndx)" "links ndx = map address ((inorder l @ [a]) @ inorder r @ [])"
      using assms by (simp_all add: wf_index_def Node)
    then show ?thesis using clean_loop_ok [OF c, of "inorder l @ [a]" "[]"] by simp
  qed
  let ?xs = "inorder l @ a # inorder r'"
  have sub: "subseq ?xs (inorder (rtree ndx))" using ok by (auto simp: Node intro: list_emb_append_mono)
  moreover have "distinct (map address ?xs)"
    using sorted_wrt_subseq [OF sub, of "\<lambda>a b. address a \<noteq> address b"] assms
    by (simp only: distinct_map_wrt wf_index_def)
  moreover have "set ?xs \<subseteq> set_tree (rtree ndx)" using list_emb_set [OF sub] by auto
  ultimately show ?thesis
    using assms ok c sorted_wrt_subseq [OF sub] by (auto simp: wf_index_def clean_tree_def Node)
qed (simp add: clean_tree_def assms)

lemma node_at_link:
  assumes "wf_index ndx" "p \<in> set (links ndx)"
  shows "\<exists>node. node_at ndx p = Inr node \<and> node \<in> set_tree (rtree ndx) \<and> address node = p"
proof -
  have "find (\<lambda>node. address node = p) (inorder (rtree ndx)) \<noteq> None"
    using assms by (auto simp: find_None_iff wf_indexD(1))
  then obtain node where "find (\<lambda>node. address node = p) (inorder (rtree ndx)) = Some node" by auto
  moreover from this have "node \<in> set (inorder (rtree ndx))" "address node = p"
    unfolding find_Some_iff using nth_mem by blast+
  ultimately show ?thesis by (simp add: node_at_def)
qed

lemma neighbours_linked:
  "next_of ndx p = Some q \<Longrightarrow> q \<in> set (links ndx)"
  "prev_of ndx p = Some q \<Longrightarrow> q \<in> set (links ndx)"
proof -
  assume "next_of ndx p = Some q"
  then have "q \<in> set (tl (dropWhile (\<lambda>q. q \<noteq> p) (links ndx)))" by (auto simp: next_of_def split: list.splits)
  then show "q \<in> set (links ndx)" by (metis list.sel(2) list.set_sel(2) set_dropWhileD)
next
  assume "prev_of ndx p = Some q"
  then have "q \<in> set (rev (takeWhile (\<lambda>q. q \<noteq> p) (links ndx)))"
    by (auto simp: prev_of_def split: list.splits if_splits)
  then show "q \<in> set (links ndx)" by (auto dest: set_takeWhileD)
qed

lemma wf_replace_root:
  assumes "wf_index ndx" "rtree ndx = \<langle>l, a, r\<rangle>" "address b = address a" "roffset a \<le> roffset b"
    "\<forall>x \<in> set_tree r. roffset b < roffset x"
  shows "wf_index (ndx\<lparr>rtree := \<langle>l, b, r\<rangle>\<rparr>)"
  using assms unfolding wf_index_def by (auto simp: sorted_wrt_append intro: less_le_trans)

lemma link_after_middle: "p \<notin> set xs \<Longrightarrow> link_after p q (xs @ p # ys) = xs @ p # q # ys"
  by (induction xs) auto

lemma wf_insert_behind_root:
  assumes "wf_index ndx" "rtree ndx = \<langle>l, a, r\<rangle>" "roffset a < roffset b"
    "\<forall>x \<in> set_tree r. roffset b < roffset x" "address b = pool_next ndx"
  shows "wf_index (ndx\<lparr>pool_next := pool_next ndx + 1, rtree := \<langle>\<langle>l, a, \<langle>\<rangle>\<rangle>, b, r\<rangle>,
    links := link_after (address a) (address b) (links ndx)\<rparr>)"
proof -
  have l: "links ndx = map address (inorder l) @ address a # map address (inorder r)"
    using wf_indexD(1) [OF assms(1)] assms(2) by simp
  have "distinct (links ndx)" by (rule wf_indexD(2) [OF assms(1)])
  then have la: "link_after (address a) (address b) (links ndx) =
      map address (inorder l) @ address a # address b # map address (inorder r)"
    by (simp add: l link_after_middle)
  have "address b \<notin> set (links ndx)" using assms(1,5) by (auto simp: wf_index_def)
  moreover have "in_order (inorder l @ a # b # inorder r)"
    using wf_indexD(3) [OF assms(1)] assms(2-4) by (auto simp: sorted_wrt_append intro: less_trans)
  ultimately show ?thesis
    using assms(1,2,5) unfolding wf_index_def la by (auto simp: less_Suc_eq)
qed

lemma wf_insert_first:
  assumes "wf_index ndx" "rtree ndx = \<langle>\<langle>\<rangle>, a, r\<rangle>" "roffset b < roffset a" "address b = pool_next ndx"
  shows "wf_index (ndx\<lparr>pool_next := pool_next ndx + 1, rtree := \<langle>\<langle>\<rangle>, b, \<langle>\<langle>\<rangle>, a, r\<rangle>\<rangle>, links := address b # links ndx\<rparr>)"
  using assms unfolding wf_index_def by (auto simp: less_Suc_eq intro: less_trans)

text \<open>What the index says: ranges of the source, and where the target has them.\<close>

definition ranges :: "range_index_t \<Rightarrow> (apr_size_t \<times> apr_size_t \<times> apr_size_t) set" where
  "ranges ndx = (\<lambda>n. (roffset n, rlimit n, rtarget_offset n)) ` set_tree (rtree ndx)"

lemma neighbour_test:
  assumes "wf_index ndx" "q = next_of ndx p \<or> q = prev_of ndx p"
  shows "\<exists>b. (case q of None \<Rightarrow> Inr c | Some p \<Rightarrow> SVN_ERR (node_at ndx p) (\<lambda>n. Inr (f n))) = Inr b"
  using assms(2) node_at_link [OF assms(1)] neighbours_linked by (fastforce split: option.splits)

lemma insert_range_behind:
  assumes "wf_index ndx" "rtree ndx = \<langle>l, a, r\<rangle>" "off > roffset a" "limit > rlimit a"
  shows "\<exists>p1 p2. insert_range off limit target_offset ndx =
    (if p1 then Inr (clean_tree
       (if p2 then ndx\<lparr>rtree := \<langle>l, a\<lparr>roffset := off, rlimit := limit, rtarget_offset := target_offset\<rparr>, r\<rangle>\<rparr>
        else let node = \<lparr>address = pool_next ndx, roffset = off, rlimit = limit, rtarget_offset = target_offset\<rparr>
          in ndx\<lparr>pool_next := pool_next ndx + 1, rtree := \<langle>\<langle>l, a, \<langle>\<rangle>\<rangle>, node, r\<rangle>,
               links := link_after (address a) (address node) (links ndx)\<rparr>) limit)
     else Inr ndx)"
proof -
  obtain p1 where p1: "(case next_of ndx (address a) of None \<Rightarrow> Inr True
      | Some p \<Rightarrow> SVN_ERR (node_at ndx p) (\<lambda>b. Inr (rlimit a < roffset b \<or> limit > rlimit b))) = Inr p1"
    using neighbour_test [OF assms(1) disjI1 [OF refl],
        where f = "\<lambda>b. rlimit a < roffset b \<or> limit > rlimit b"] by metis
  obtain p2 where p2: "(case prev_of ndx (address a) of None \<Rightarrow> Inr False
      | Some p \<Rightarrow> SVN_ERR (node_at ndx p) (\<lambda>b. Inr (rlimit b > off))) = Inr p2"
    using neighbour_test [OF assms(1) disjI2 [OF refl], where f = "\<lambda>b. rlimit b > off"] by metis
  have "\<not> (off = roffset a \<and> limit > rlimit a)" using assms(3) by auto
  then show ?thesis
    using assms(3,4) unfolding insert_range_def assms(2) tree.case alloc_range_index_node_def prod.case p1 p2
    by (intro exI [of _ p1] exI [of _ p2]) (simp add: Let_def)
qed

lemma insert_range_ok:
  assumes wf: "wf_index ndx" and sp: "splayed off ndx"
  shows "\<exists>ndx'. insert_range off limit target_offset ndx = Inr ndx' \<and> wf_index ndx'
    \<and> ranges ndx' \<subseteq> insert (off, limit, target_offset) (ranges ndx)"
proof (cases "rtree ndx")
  case Leaf
  then show ?thesis
    by (simp add: insert_range_def alloc_range_index_node_def wf_index_def ranges_def)
next
  case (Node l a r)
  have r: "\<forall>x \<in> set_tree r. off < roffset x" and l: "off < roffset a \<Longrightarrow> l = \<langle>\<rangle>"
    using sp by (simp_all add: splayed_def Node)
  let ?new = "\<lparr>address = pool_next ndx, roffset = off, rlimit = limit, rtarget_offset = target_offset\<rparr>"
  let ?result = "\<lambda>m. \<exists>ndx'. m = Inr ndx' \<and> wf_index ndx' \<and> ranges ndx' \<subseteq> insert (off, limit, target_offset) (ranges ndx)"
  have clean: "?result (Inr (clean_tree n limit))" if "wf_index n" "ranges n \<subseteq> insert (off, limit, target_offset) (ranges ndx)" for n
    using clean_tree_ok [OF that(1), of limit] that(2) by (auto simp: ranges_def)
  consider "off = roffset a \<and> limit > rlimit a" | "off > roffset a \<and> limit > rlimit a" | "off < roffset a"
    | "off \<ge> roffset a \<and> limit \<le> rlimit a" by fastforce
  then show ?thesis
  proof cases
    case 1
    then show ?thesis
      using clean [OF wf_replace_root [OF wf Node, of "a\<lparr>rlimit := limit, rtarget_offset := target_offset\<rparr>"]] r
      by (auto simp: insert_range_def Node ranges_def)
  next
    case 2
    let ?rep = "ndx\<lparr>rtree := \<langle>l, a\<lparr>roffset := off, rlimit := limit, rtarget_offset := target_offset\<rparr>, r\<rangle>\<rparr>"
    let ?ins = "ndx\<lparr>pool_next := pool_next ndx + 1, rtree := \<langle>\<langle>l, a, \<langle>\<rangle>\<rangle>, ?new, r\<rangle>,
        links := link_after (address a) (address ?new) (links ndx)\<rparr>"
    have rep: "?result (Inr (clean_tree ?rep limit))"
      using 2 r wf_replace_root [OF wf Node, of "a\<lparr>roffset := off, rlimit := limit, rtarget_offset := target_offset\<rparr>"]
      by (intro clean) (auto simp: ranges_def Node)
    have ins: "?result (Inr (clean_tree ?ins limit))"
      using 2 r wf_insert_behind_root [OF wf Node, of ?new] by (intro clean) (auto simp: ranges_def Node)
    obtain p1 p2 where "insert_range off limit target_offset ndx =
        (if p1 then Inr (clean_tree (if p2 then ?rep else ?ins) limit) else Inr ndx)"
      using insert_range_behind [OF wf Node] 2 unfolding Let_def by blast
    then show ?thesis using rep ins wf by (cases p1; cases p2) (auto simp: Let_def)
  next
    case 3
    let ?ins = "ndx\<lparr>pool_next := pool_next ndx + 1, rtree := \<langle>\<langle>\<rangle>, ?new, \<langle>l, a, r\<rangle>\<rangle>, links := address ?new # links ndx\<rparr>"
    have "?result (Inr (clean_tree ?ins limit))"
      using 3 l wf_insert_first [OF wf, of a r ?new] by (intro clean) (auto simp: ranges_def Node)
    moreover have "insert_range off limit target_offset ndx = Inr (clean_tree ?ins limit)"
      using 3 l unfolding insert_range_def Node tree.case alloc_range_index_node_def prod.case by auto
    ultimately show ?thesis by simp
  next
    case 4
    then show ?thesis using wf by (auto simp: insert_range_def Node)
  qed
qed

section \<open>Lists of ranges\<close>

text \<open>
  A list of ranges that covers the range from \<open>off\<close> to \<open>limit\<close>: the ranges follow on one another,
  none is empty, and a range from the target is part of a range of the index.
\<close>

definition range_ok :: "(apr_size_t \<times> apr_size_t \<times> apr_size_t) set \<Rightarrow> range_list_node_t \<Rightarrow> bool" where
  "range_ok R x \<longleftrightarrow> (case rkind x of
      range_from_source \<Rightarrow> True
    | range_from_target \<Rightarrow> (\<exists>(o1, l1, t1) \<in> R. o1 \<le> loffset x \<and> llimit x \<le> l1 \<and> ltarget_offset x = loffset x - o1 + t1))"

fun tiles :: "apr_size_t \<Rightarrow> apr_size_t \<Rightarrow> range_list_node_t list \<Rightarrow> bool" where
  "tiles off limit [] = (off = limit)"
| "tiles off limit (x # xs) = (loffset x = off \<and> off < llimit x \<and> tiles (llimit x) limit xs)"

lemma tiles_append: "tiles off limit (xs @ ys) \<longleftrightarrow> (\<exists>m. tiles off m xs \<and> tiles m limit ys)"
  by (induction xs arbitrary: off) auto

lemma build_loop_ok:
  assumes "wf_index ndx" "set chain \<subseteq> set (links ndx)" "off < limit" "tiles start off list" "list_all (range_ok (ranges ndx)) list"
  shows "\<exists>xs. build_loop ndx off limit chain list = Inr xs \<and> tiles start limit xs \<and> list_all (range_ok (ranges ndx)) xs"
  using assms
proof (induction ndx off limit chain list rule: build_loop.induct)
  case (1 ndx off limit chain list)
  show ?case
  proof (cases chain)
    case Nil
    then show ?thesis using "1.prems"
      by (auto simp: build_loop.simps [of ndx off] alloc_range_list_def tiles_append range_ok_def)
  next
    case (Cons p rest)
    obtain node where node: "node_at ndx p = Inr node" "node \<in> set_tree (rtree ndx)"
      using node_at_link [OF "1.prems"(1), of p] "1.prems"(2) Cons by auto
    have tgt: "range_ok (ranges ndx) \<lparr>rkind = range_from_target, loffset = off, llimit = m, ltarget_offset = off - roffset node + rtarget_offset node\<rparr>"
      if "roffset node \<le> off" "m \<le> rlimit node" for m
      using node(2) that by (force simp: range_ok_def ranges_def)
    show ?thesis
      using "1.prems" "1.IH" [OF "1.prems"(3) Cons node(1)] node(1) tgt Cons
      by (subst build_loop.simps)
         (auto simp: alloc_range_list_def tiles_append range_ok_def [of _ "\<lparr>rkind = range_from_source, loffset = o1, llimit = l1, ltarget_offset = t1\<rparr>" for o1 l1 t1]
            not_less not_le Let_def)
  qed
qed

lemma build_range_list_ok:
  assumes "wf_index ndx" "off < limit"
  shows "\<exists>xs. build_range_list off limit ndx = Inr xs \<and> tiles off limit xs \<and> list_all (range_ok (ranges ndx)) xs"
proof (cases "rtree ndx")
  case Leaf
  then show ?thesis using build_loop_ok [OF assms(1) _ assms(2), of "[]" off "[]"]
    by (simp add: build_range_list_def)
next
  case (Node l a r)
  have "links ndx = map address (inorder l) @ address a # map address (inorder r)"
    "address a \<notin> address ` set_tree l"
    using assms(1) by (simp_all add: wf_index_def Node)
  then have "tl (dropWhile (\<lambda>q. q \<noteq> address a) (links ndx)) = map address (inorder r)"
    by (simp, subst dropWhile_append2) (auto simp: image_iff)
  then show ?thesis
    using build_loop_ok [OF assms(1) _ assms(2), of "address a # map address (inorder r)" off "[]"] assms(1)
    by (auto simp: build_range_list_def Node wf_index_def)
qed

lemma range_index_step:
  assumes "wf_index ndx" "off < limit"
  shows "\<exists>t xs ndx'. splay_range_index off ndx = Inr (ndx\<lparr>rtree := t\<rparr>)
    \<and> inorder t = inorder (rtree ndx) \<and> splayed off (ndx\<lparr>rtree := t\<rparr>)
    \<and> build_range_list off limit (ndx\<lparr>rtree := t\<rparr>) = Inr xs
    \<and> tiles off limit xs \<and> list_all (range_ok (ranges ndx)) xs
    \<and> insert_range off limit target_offset (ndx\<lparr>rtree := t\<rparr>) = Inr ndx' \<and> wf_index ndx'
    \<and> ranges ndx' \<subseteq> insert (off, limit, target_offset) (ranges ndx)"
proof -
  obtain t where t: "splay_range_index off ndx = Inr (ndx\<lparr>rtree := t\<rparr>)" "inorder t = inorder (rtree ndx)"
    "wf_index (ndx\<lparr>rtree := t\<rparr>)" "splayed off (ndx\<lparr>rtree := t\<rparr>)"
    using splay_ok [OF assms(1)] by blast
  have "ranges (ndx\<lparr>rtree := t\<rparr>) = ranges ndx"
    using arg_cong [OF t(2), of set] by (simp add: ranges_def)
  then show ?thesis
    using t build_range_list_ok [OF t(3) assms(2)] insert_range_ok [OF t(3,4), of limit target_offset] by metis
qed

section \<open>Theorems\<close>

text \<open>
  C22. The range index is sound: in every index that satisfies the invariant, splaying to an offset
  succeeds, keeps the nodes and the invariant, and brings the last node that does not start
  behind the offset to the root; the list of ranges built then covers the requested range
  without gaps and takes from the target only what the index has; inserting a range succeeds,
  keeps the invariant, and adds nothing to the index but the new range. No assertion fails
  and no dangling pointer is followed.
\<close>

theorem range_index_sound:
  assumes "wf_index ndx" "off < limit"
  shows "\<exists>t xs ndx'. splay_range_index off ndx = Inr (ndx\<lparr>rtree := t\<rparr>)
    \<and> inorder t = inorder (rtree ndx) \<and> splayed off (ndx\<lparr>rtree := t\<rparr>)
    \<and> build_range_list off limit (ndx\<lparr>rtree := t\<rparr>) = Inr xs
    \<and> tiles off limit xs \<and> list_all (range_ok (ranges ndx)) xs
    \<and> insert_range off limit target_offset (ndx\<lparr>rtree := t\<rparr>) = Inr ndx' \<and> wf_index ndx'
    \<and> ranges ndx' \<subseteq> insert (off, limit, target_offset) (ranges ndx)"
  by (rule range_index_step [OF assms])

theorem range_index_sound_witness:
  "\<exists>t xs ndx'. splay_range_index 3 create_range_index = Inr (create_range_index\<lparr>rtree := t\<rparr>)
    \<and> inorder t = inorder (rtree create_range_index) \<and> splayed 3 (create_range_index\<lparr>rtree := t\<rparr>)
    \<and> build_range_list 3 7 (create_range_index\<lparr>rtree := t\<rparr>) = Inr xs
    \<and> tiles 3 7 xs \<and> list_all (range_ok (ranges create_range_index)) xs
    \<and> insert_range 3 7 1 (create_range_index\<lparr>rtree := t\<rparr>) = Inr ndx' \<and> wf_index ndx'
    \<and> ranges ndx' \<subseteq> insert (3, 7, 1) (ranges create_range_index)"
  by (rule range_index_sound) (simp_all add: create_range_index_def wf_index_def)

end
