(* ===== verification/Compose.thy ===== *)
theory Compose
  imports Range_Index
begin

text \<open>
  Composition of two delta windows (libsvn\_delta/compose\_delta.c): from a window that turns A into
  B and one that turns B into C, a window that turns A into C without the text of B.
\<close>

section \<open>The index of target offsets\<close>

text \<open>An \<open>offset_index_t\<close> is the array \<open>offs\<close>; its field \<open>length\<close> is one less than the length of the list.\<close>

fun offsets_loop :: "apr_size_t \<Rightarrow> svn_txdelta_op_t list \<Rightarrow> apr_size_t list" where
  "offsets_loop off [] = [off]"
| "offsets_loop off (op # rest) = off # offsets_loop (off + oplen op) rest"

definition create_offset_index :: "svn_txdelta_window_t \<Rightarrow> apr_size_t list" where
  "create_offset_index window = offsets_loop 0 (ops window)"

definition offs_at :: "apr_size_t list \<Rightarrow> nat \<Rightarrow> apr_size_t svn_result" where
  "offs_at offs i = (if i < length offs then Inr (offs ! i) else Inl C_OUT_OF_BOUNDS)"

text \<open>The binary search, which ends when the bounds meet; bounds that have crossed never meet again.\<close>

function search_loop :: "apr_size_t list \<Rightarrow> apr_size_t \<Rightarrow> nat \<Rightarrow> nat \<Rightarrow> nat svn_result" where
  "search_loop offs off lo hi =
     (if lo = hi then Inr lo
      else if lo > hi then Inl C_DIVERGES
      else
        let op = (lo + hi) div 2 in
        SVN_ERR (offs_at offs op) (\<lambda>o1.
        if off < o1 then search_loop offs off lo op else search_loop offs off (op + 1) hi))"
  by pat_completeness auto
termination
  by (relation "measure (\<lambda>(offs, off, lo, hi). hi - lo)") auto

declare search_loop.simps [simp del]

definition search_offset_index :: "apr_size_t list \<Rightarrow> apr_size_t \<Rightarrow> nat \<Rightarrow> nat svn_result" where
  "search_offset_index offs off hint =
     (let len = length offs - 1 in
      SVN_ERR (offs_at offs len) (\<lambda>total.
      SVN_ERR_ASSERT (off < total) (
      SVN_ERR
        (if hint < len then
           SVN_ERR (offs_at offs hint) (\<lambda>o1.
           if off < o1 then Inr (Inl (0, hint))
           else SVN_ERR (offs_at offs (hint + 1)) (\<lambda>o2.
             Inr (if off < o2 then Inr hint else Inl (hint + 1, len))))
         else Inr (Inl (0, len)))
        (\<lambda>r. case r of
           Inr found \<Rightarrow> Inr found
         | Inl (lo, hi) \<Rightarrow>
             SVN_ERR (search_loop offs off lo hi) (\<lambda>lo'.
             if lo' = 0 then Inl C_OUT_OF_BOUNDS
             else
               SVN_ERR (offs_at offs (lo' - 1)) (\<lambda>o1.
               SVN_ERR (offs_at offs lo') (\<lambda>o2.
               SVN_ERR_ASSERT (o1 \<le> off \<and> off < o2) (Inr (lo' - 1)))))))))"

section \<open>Copying the instructions of the first window\<close>

definition op_read :: "svn_txdelta_window_t \<Rightarrow> nat \<Rightarrow> svn_txdelta_op_t svn_result" where
  "op_read window i = (if i < length (ops window) then Inr (ops window ! i) else Inl C_OUT_OF_BOUNDS)"

text \<open>A part of the pattern of an overlapping copy ends before the position of the copy.\<close>

lemma copy_bound:
  assumes "o1 < off0" "n \<le> (off0 - o1) - v" "v \<le> off0 - o1"
  shows "unat (o1 + v + n) \<le> unat (off0 :: apr_size_t)"
proof -
  have d: "unat (off0 - o1) = unat off0 - unat o1" using assms(1) by (simp add: unat_sub less_imp_le)
  have "unat n \<le> unat off0 - unat o1 - unat v"
    using assms(2,3) d by (simp add: word_le_nat_alt unat_sub)
  moreover have "unat v \<le> unat off0 - unat o1" using assms(3) d by (simp add: word_le_nat_alt)
  moreover have "unat o1 < unat off0" using assms(1) by (simp add: word_less_nat_alt)
  moreover have "unat off0 < 2 ^ 64" using unsigned_less [of off0] by simp
  ultimately have le: "unat o1 + unat v + unat n \<le> unat off0" by linarith
  then have "unat (o1 + v) = unat o1 + unat v" using \<open>unat off0 < 2 ^ 64\<close> by (intro unat_add_small) linarith
  then have "unat (o1 + v + n) = unat o1 + unat v + unat n"
    using le \<open>unat off0 < 2 ^ 64\<close> by (subst unat_add_small) linarith+
  with le show ?thesis by simp
qed

text \<open>
  The loop over the instructions from \<open>op_ndx\<close> on. A recursive call of \<open>copy_source_ops\<close> searches
  its first instruction and enters the loop there.
\<close>

function copy_ops_loop ::
  "svn_txdelta_window_t \<Rightarrow> apr_size_t list \<Rightarrow> apr_size_t \<Rightarrow> apr_size_t \<Rightarrow> apr_size_t \<Rightarrow> nat \<Rightarrow>
   svn_txdelta__ops_baton_t \<Rightarrow> svn_txdelta__ops_baton_t svn_result" where
  "copy_ops_loop window ndx off limit target_offset op_ndx build_baton =
     SVN_ERR (offs_at ndx op_ndx) (\<lambda>off0.
     if off0 \<ge> limit then Inr build_baton
     else
       SVN_ERR (offs_at ndx (op_ndx + 1)) (\<lambda>off1.
       SVN_ERR (op_read window op_ndx) (\<lambda>op.
       let fix_offset = (if off > off0 then off - off0 else 0);
           fix_limit = (if off1 > limit then off1 - limit else 0)
       in
       SVN_ERR_ASSERT (fix_offset + fix_limit < oplen op) (
       SVN_ERR
         (if action_code op \<noteq> svn_txdelta_target then
            svn_txdelta__insert_op build_baton (action_code op) (offset op + fix_offset)
                   (oplen op - fix_offset - fix_limit)
                   (if action_code op = svn_txdelta_new
                    then drop (unat (offset op + fix_offset)) (new_data window) else [])
          else
            SVN_ERR_ASSERT (offset op < off0) (
            if offset op + oplen op - fix_limit \<le> off0 then
              SVN_ERR (search_offset_index ndx (offset op + fix_offset) op_ndx) (\<lambda>k.
              copy_ops_loop window ndx (offset op + fix_offset) (offset op + oplen op - fix_limit)
                target_offset k build_baton)
            else
              let ptn_length = off0 - offset op;
                  ptn_overlap = fix_offset mod ptn_length
              in
              SVN_ERR_ASSERT (ptn_length > ptn_overlap) (
              let length1 = min (oplen op - fix_offset - fix_limit) (ptn_length - ptn_overlap) in
              SVN_ERR (search_offset_index ndx (offset op + ptn_overlap) op_ndx) (\<lambda>k.
              SVN_ERR (copy_ops_loop window ndx (offset op + ptn_overlap) (offset op + ptn_overlap + length1)
                         target_offset k build_baton) (\<lambda>baton1.
              let fix_off = fix_offset + length1; tgt_off = target_offset + length1 in
              SVN_ERR_ASSERT (fix_off + fix_limit \<le> oplen op) (
              SVN_ERR
                (if ptn_overlap > 0 \<and> fix_off + fix_limit < oplen op then
                   let length2 = min (oplen op - fix_off - fix_limit) ptn_overlap in
                   SVN_ERR (search_offset_index ndx (offset op) op_ndx) (\<lambda>k.
                   SVN_ERR (copy_ops_loop window ndx (offset op) (offset op + length2) tgt_off k baton1) (\<lambda>baton2.
                   Inr (baton2, fix_off + length2, tgt_off + length2)))
                 else Inr (baton1, fix_off, tgt_off))
                (\<lambda>(baton2, fix_off2, tgt_off2).
                  SVN_ERR_ASSERT (fix_off2 + fix_limit \<le> oplen op) (
                  if fix_off2 + fix_limit < oplen op
                  then svn_txdelta__insert_op baton2 svn_txdelta_target (tgt_off2 - ptn_length)
                         (oplen op - fix_off2 - fix_limit) []
                  else Inr baton2))))))))
         (\<lambda>build_baton'.
            copy_ops_loop window ndx off limit (target_offset + (oplen op - fix_offset - fix_limit))
              (op_ndx + 1) build_baton')))))"
  by pat_completeness auto

termination
proof (relation "measures [\<lambda>(window, ndx, off, limit, tgt, op_ndx, b). unat limit,
    \<lambda>(window, ndx, off, limit, tgt, op_ndx, b). length ndx - op_ndx]", goal_cases)
  case 1
  then show ?case by simp
next
  case (2 window ndx off limit tgt i b off0 off1 op fo fl k)
  then show ?case by (auto simp: word_less_nat_alt word_le_nat_alt not_le)
next
  case (3 window ndx off limit tgt i b off0 off1 op fo fl p ov n k)
  have "unat (offset op + ov + n) \<le> unat off0"
    using 3 by (intro copy_bound) auto
  then show ?case using 3 by (auto simp: word_less_nat_alt word_le_nat_alt not_le)
next
  case (4 window ndx off limit tgt i b off0 off1 op fo fl p ov n k b1 fo1 to1 n2 k2)
  have n2: "n2 \<le> ov" "ov < p" "p = off0 - offset op" "offset op < off0" using 4 by simp_all
  then have "n2 \<le> off0 - offset op" by (metis le_less_trans less_imp_le)
  then have "unat (offset op + 0 + n2) \<le> unat off0"
    using copy_bound [OF n2(4), of n2 0] by simp
  then show ?case using 4 by (auto simp: word_less_nat_alt word_le_nat_alt not_le)
next
  case (5 window ndx off limit tgt i b off0 off1 op fo fl b')
  then show ?case by (auto simp: offs_at_def split: if_splits)
qed

declare copy_ops_loop.simps [simp del]

definition copy_source_ops ::
  "apr_size_t \<Rightarrow> apr_size_t \<Rightarrow> apr_size_t \<Rightarrow> nat \<Rightarrow> svn_txdelta__ops_baton_t \<Rightarrow> svn_txdelta_window_t \<Rightarrow>
   apr_size_t list \<Rightarrow> svn_txdelta__ops_baton_t svn_result" where
  "copy_source_ops off limit target_offset hint build_baton window ndx =
     SVN_ERR (search_offset_index ndx off hint) (\<lambda>op_ndx.
     copy_ops_loop window ndx off limit target_offset op_ndx build_baton)"

section \<open>Composition\<close>

text \<open>The loop over the list of ranges; the result is the baton and \<open>tgt_off\<close>.\<close>

fun copy_ranges ::
  "svn_txdelta_window_t \<Rightarrow> apr_size_t list \<Rightarrow> range_list_node_t list \<Rightarrow> apr_size_t \<Rightarrow>
   svn_txdelta__ops_baton_t \<Rightarrow> (svn_txdelta__ops_baton_t \<times> apr_size_t) svn_result" where
  "copy_ranges window_A offset_index [] tgt_off build_baton = Inr (build_baton, tgt_off)"
| "copy_ranges window_A offset_index (rng # rest) tgt_off build_baton =
     SVN_ERR
       (if rkind rng = range_from_target
        then svn_txdelta__insert_op build_baton svn_txdelta_target (ltarget_offset rng)
                    (llimit rng - loffset rng) []
        else copy_source_ops (loffset rng) (llimit rng) tgt_off 0 build_baton window_A offset_index)
       (\<lambda>build_baton'.
         copy_ranges window_A offset_index rest (tgt_off + (llimit rng - loffset rng)) build_baton')"

text \<open>The loop over the instructions of the second window.\<close>

fun compose_loop ::
  "svn_txdelta_window_t \<Rightarrow> svn_txdelta_window_t \<Rightarrow> apr_size_t list \<Rightarrow> svn_txdelta_op_t list \<Rightarrow>
   svn_txdelta__ops_baton_t \<Rightarrow> range_index_t \<Rightarrow> apr_size_t \<Rightarrow> svn_txdelta__ops_baton_t svn_result" where
  "compose_loop window_A window_B offset_index [] build_baton range_index target_offset = Inr build_baton"
| "compose_loop window_A window_B offset_index (op # rest) build_baton range_index target_offset =
     SVN_ERR
       (if action_code op \<noteq> svn_txdelta_source then
          SVN_ERR (svn_txdelta__insert_op build_baton (action_code op) (offset op) (oplen op)
                     (if action_code op = svn_txdelta_new then drop (unat (offset op)) (new_data window_B) else []))
            (\<lambda>build_baton1. Inr (build_baton1, range_index))
        else
          let off = offset op; limit = offset op + oplen op in
          SVN_ERR (splay_range_index off range_index) (\<lambda>range_index1.
          SVN_ERR (build_range_list off limit range_index1) (\<lambda>range_list.
          SVN_ERR (copy_ranges window_A offset_index range_list target_offset build_baton) (\<lambda>(build_baton1, tgt_off).
          SVN_ERR_ASSERT (tgt_off = target_offset + oplen op) (
          SVN_ERR (insert_range off limit target_offset range_index1) (\<lambda>range_index2.
          Inr (build_baton1, range_index2)))))))
       (\<lambda>(build_baton', range_index').
         compose_loop window_A window_B offset_index rest build_baton' range_index' (target_offset + oplen op))"

definition svn_txdelta_compose_windows ::
  "svn_txdelta_window_t \<Rightarrow> svn_txdelta_window_t \<Rightarrow> svn_txdelta_window_t svn_result" where
  "svn_txdelta_compose_windows window_A window_B =
     SVN_ERR (compose_loop window_A window_B (create_offset_index window_A) (ops window_B)
         \<lparr>bsrc_ops = 0, bops = [], bnew_data = []\<rparr> create_range_index 0) (\<lambda>build_baton.
     Inr ((svn_txdelta__make_window build_baton)
       \<lparr>sview_offset := sview_offset window_A, sview_len := sview_len window_A, tview_len := tview_len window_B\<rparr>))"

section \<open>The offset index\<close>

lemma length_offsets_loop [simp]: "length (offsets_loop off os) = length os + 1"
  by (induction off os rule: offsets_loop.induct) auto

lemma offsets_loop_nth:
  "i \<le> length os \<Longrightarrow> offsets_loop off os ! i = off + of_nat (ops_len (take i os))"
proof (induction off os arbitrary: i rule: offsets_loop.induct)
  case (2 off op rest)
  then show ?case by (cases i) (auto simp: add.assoc)
qed simp

lemma search_loop_ok:
  assumes "lo \<le> hi" "hi < length offs" "lo = 0 \<or> offs ! (lo - 1) \<le> off" "off < offs ! hi"
  shows "\<exists>k. search_loop offs off lo hi = Inr k \<and> k < length offs \<and> (k = 0 \<or> offs ! (k - 1) \<le> off) \<and> off < offs ! k"
  using assms
proof (induction offs off lo hi rule: search_loop.induct)
  case (1 offs off lo hi)
  show ?case
  proof (cases "lo = hi")
    case True
    then show ?thesis using "1.prems" by (auto simp: search_loop.simps [of offs off hi])
  next
    case False
    let ?op = "(lo + hi) div 2"
    have op: "offs_at offs ?op = Inr (offs ! ?op)" "lo \<le> ?op" "?op < hi" "\<not> lo > hi"
      using "1.prems" False by (auto simp: offs_at_def)
    show ?thesis
      using "1.IH"(1) [OF False op(4) refl op(1)] "1.IH"(2) [OF False op(4) refl op(1)] "1.prems" False op
      by (auto simp: search_loop.simps [of offs off lo] Let_def not_less)
  qed
qed

lemma search_offset_index_ok:
  assumes "length offs = m + 1" "offs ! 0 = 0" "off < offs ! m"
  shows "\<exists>k < m. search_offset_index offs off hint = Inr k \<and> offs ! k \<le> off \<and> off < offs ! (k + 1)"
proof -
  have finish: "\<exists>k < m. SVN_ERR (search_loop offs off lo hi) (\<lambda>lo'. if lo' = 0 then Inl C_OUT_OF_BOUNDS else
        SVN_ERR (offs_at offs (lo' - 1)) (\<lambda>o1. SVN_ERR (offs_at offs lo') (\<lambda>o2.
        SVN_ERR_ASSERT (o1 \<le> off \<and> off < o2) (Inr (lo' - 1))))) = Inr k \<and> offs ! k \<le> off \<and> off < offs ! (k + 1)"
    if b: "lo \<le> hi" "hi \<le> m" "lo = 0 \<or> offs ! (lo - 1) \<le> off" "off < offs ! hi" for lo hi
  proof -
    obtain k where k: "search_loop offs off lo hi = Inr k" "k < length offs"
      "k = 0 \<or> offs ! (k - 1) \<le> off" "off < offs ! k"
      using search_loop_ok [OF b(1) _ b(3,4)] b(2) assms(1) by auto
    then obtain j where "k = Suc j" using assms(2) by (cases k) auto
    then show ?thesis using k assms(1) by (auto simp: offs_at_def)
  qed
  show ?thesis
    using assms finish [of 0 hint] finish [of "hint + 1" m] finish [of 0 m]
    by (auto simp: search_offset_index_def Let_def offs_at_def not_less)
qed

section \<open>The text of an instruction inside the text of its window\<close>

definition cut :: "'a list \<Rightarrow> nat \<Rightarrow> nat \<Rightarrow> 'a list" where
  "cut xs i n = take n (drop i xs)"

lemma length_cut [simp]: "i + n \<le> length xs \<Longrightarrow> length (cut xs i n) = n"
  by (simp add: cut_def)

lemma nth_cut: "i + n \<le> length xs \<Longrightarrow> k < n \<Longrightarrow> cut xs i n ! k = xs ! (i + k)"
  by (simp add: cut_def)

lemma cut_cut: "j + k \<le> n \<Longrightarrow> cut (cut xs i n) j k = cut xs (i + j) k"
  by (simp add: cut_def drop_take min_def add.commute)

lemma cut_append: "cut xs i m @ cut xs (i + m) n = cut xs i (m + n)"
  by (simp add: cut_def take_add add.commute)

lemma cut_eqI:
  assumes "i + n \<le> length xs" "j + n \<le> length ys" "\<And>k. k < n \<Longrightarrow> xs ! (i + k) = ys ! (j + k)"
  shows "cut xs i n = cut ys j n"
  using assms by (intro nth_equalityI) (simp_all add: nth_cut)

lemma window_text_op:
  assumes "wf_window w" "length src = unat (sview_len w)" "i < length (ops w)"
  defines "T \<equiv> window_text w src" and "p \<equiv> ops_len (take i (ops w))" and "op \<equiv> ops w ! i"
  shows "op_at (unat (sview_len w)) p (new_len (take i (ops w))) op"
    and "p + unat (oplen op) \<le> length T" and "length T = unat (tview_len w)"
    and "new_len (take i (ops w)) + (if action_code op = svn_txdelta_new then unat (oplen op) else 0) \<le> length (new_data w)"
    and "cut T p (unat (oplen op)) = op_bytes src (new_data w) (take p T) op"
proof -
  let ?os = "ops w" and ?s = "unat (sview_len w)"
  have os: "?os = take i ?os @ op # drop (Suc i) ?os"
    using id_take_nth_drop [OF assms(3)] by (simp add: op_def)
  have wf: "ops_at ?s 0 0 ?os" "unat (tview_len w) = ops_len ?os" "length (new_data w) = new_len ?os"
    using assms(1) by (simp_all add: wf_window_def wf_ops_iff)
  have "ops_at ?s 0 0 (take i ?os @ op # drop (Suc i) ?os)" using wf(1) os by simp
  then show at: "op_at ?s p (new_len (take i ?os)) op" by (simp add: ops_at_append p_def)
  have lens: "ops_len ?os = p + unat (oplen op) + ops_len (drop (Suc i) ?os)"
    "new_len ?os = new_len (take i ?os) + (if action_code op = svn_txdelta_new then unat (oplen op) else 0) + new_len (drop (Suc i) ?os)"
    using arg_cong [OF os, of ops_len] arg_cong [OF os, of new_len] by (simp_all add: p_def)
  show len: "length T = unat (tview_len w)"
    using ops_text_length [of ?s "[]" 0 ?os src "new_data w"] wf assms(2) by (simp add: T_def window_text_def)
  show "p + unat (oplen op) \<le> length T" using len wf(2) lens(1) by simp
  show new: "new_len (take i ?os) + (if action_code op = svn_txdelta_new then unat (oplen op) else 0) \<le> length (new_data w)"
    using wf(3) lens(2) by simp
  let ?P = "ops_text src (new_data w) [] (take i ?os)"
  have lp: "length ?P = p"
    using ops_text_length [of ?s "[]" 0 "take i ?os" src "new_data w"] \<open>ops_at ?s 0 0 (take i ?os @ op # drop (Suc i) ?os)\<close>
      assms(2) new by (simp add: ops_at_append p_def)
  obtain rest where T: "T = ?P @ op_bytes src (new_data w) ?P op @ rest"
    using ops_text_prefix [of src "new_data w" "?P @ op_bytes src (new_data w) ?P op" "drop (Suc i) ?os"]
      arg_cong [OF os, of "ops_text src (new_data w) []"] by (auto simp: T_def window_text_def ops_text_append)
  have "length (op_bytes src (new_data w) ?P op) = unat (oplen op)"
    using at new assms(2) by (auto simp: op_bytes_def op_at_def split: svn_delta_action.splits)
  then show "cut T p (unat (oplen op)) = op_bytes src (new_data w) (take p T) op"
    using T lp by (simp add: cut_def)
qed

text \<open>Every part of an instruction's text, in terms of what it copies.\<close>

lemma cut_part:
  "cut xs p len = cut ys q len \<Longrightarrow> i + n \<le> len \<Longrightarrow> cut xs (p + i) n = cut ys (q + i) n"
  by (metis cut_cut)

lemma window_text_copied:
  assumes "wf_window w" "length src = unat (sview_len w)" "i < length (ops w)" "fo + n \<le> unat (oplen (ops w ! i))"
  shows "action_code (ops w ! i) = svn_txdelta_source \<Longrightarrow>
      cut (window_text w src) (ops_len (take i (ops w)) + fo) n = cut src (unat (offset (ops w ! i)) + fo) n"
    and "action_code (ops w ! i) = svn_txdelta_new \<Longrightarrow>
      cut (window_text w src) (ops_len (take i (ops w)) + fo) n = cut (new_data w) (unat (offset (ops w ! i)) + fo) n"
  using window_text_op(5) [OF assms(1-3)] cut_part [OF _ assms(4)]
  by (simp_all add: op_bytes_def cut_def [symmetric])

lemma window_text_target:
  assumes "wf_window w" "length src = unat (sview_len w)" "i < length (ops w)" "k < unat (oplen (ops w ! i))"
    "action_code (ops w ! i) = svn_txdelta_target"
  defines "T \<equiv> window_text w src" and "p \<equiv> ops_len (take i (ops w))" and "o1 \<equiv> unat (offset (ops w ! i))"
  shows "o1 < p" "T ! (p + k) = T ! (o1 + k mod (p - o1))"
proof -
  note op = window_text_op [OF assms(1-3), folded T_def p_def]
  show o1: "o1 < p" using op(1) assms(5) by (simp add: op_at_def o1_def)
  then have "o1 + k mod (p - o1) < p" using mod_less_divisor [of "p - o1" k] by linarith
  then show "T ! (p + k) = T ! (o1 + k mod (p - o1))"
    using arg_cong [OF op(5), of "\<lambda>xs. xs ! k"] op(2) assms(4,5)
    by (simp add: nth_cut op_bytes_def pattern_bytes_def o1_def min_absorb2)
qed

section \<open>One instruction of the first window\<close>

text \<open>The body of the loop; \<open>copy\<close> stands for the recursive call.\<close>

definition copy_one_op where
  "copy_one_op copy window off0 op fix_offset fix_limit target_offset build_baton =
     (if action_code op \<noteq> svn_txdelta_target then
        svn_txdelta__insert_op build_baton (action_code op) (offset op + fix_offset)
               (oplen op - fix_offset - fix_limit)
               (if action_code op = svn_txdelta_new
                then drop (unat (offset op + fix_offset)) (new_data window) else [])
      else
        SVN_ERR_ASSERT (offset op < off0) (
        if offset op + oplen op - fix_limit \<le> off0 then
          copy (offset op + fix_offset) (offset op + oplen op - fix_limit) target_offset build_baton
        else
          let ptn_length = off0 - offset op;
              ptn_overlap = fix_offset mod ptn_length
          in
          SVN_ERR_ASSERT (ptn_length > ptn_overlap) (
          let length1 = min (oplen op - fix_offset - fix_limit) (ptn_length - ptn_overlap) in
          SVN_ERR (copy (offset op + ptn_overlap) (offset op + ptn_overlap + length1) target_offset build_baton) (\<lambda>baton1.
          let fix_off = fix_offset + length1; tgt_off = target_offset + length1 in
          SVN_ERR_ASSERT (fix_off + fix_limit \<le> oplen op) (
          SVN_ERR
            (if ptn_overlap > 0 \<and> fix_off + fix_limit < oplen op then
               let length2 = min (oplen op - fix_off - fix_limit) ptn_overlap in
               SVN_ERR (copy (offset op) (offset op + length2) tgt_off baton1) (\<lambda>baton2.
               Inr (baton2, fix_off + length2, tgt_off + length2))
             else Inr (baton1, fix_off, tgt_off))
            (\<lambda>(baton2, fix_off2, tgt_off2).
              SVN_ERR_ASSERT (fix_off2 + fix_limit \<le> oplen op) (
              if fix_off2 + fix_limit < oplen op
              then svn_txdelta__insert_op baton2 svn_txdelta_target (tgt_off2 - ptn_length)
                     (oplen op - fix_off2 - fix_limit) []
              else Inr baton2)))))))"

lemma SVN_ERR_assoc3: "SVN_ERR (SVN_ERR m f) g = SVN_ERR m (\<lambda>x. SVN_ERR (f x) g)"
  by (simp add: SVN_ERR_def split: sum.splits)

lemma copy_ops_loop_step:
  "copy_ops_loop window ndx off limit target_offset op_ndx build_baton =
     SVN_ERR (offs_at ndx op_ndx) (\<lambda>off0.
     if off0 \<ge> limit then Inr build_baton
     else
       SVN_ERR (offs_at ndx (op_ndx + 1)) (\<lambda>off1.
       SVN_ERR (op_read window op_ndx) (\<lambda>op.
       let fix_offset = (if off > off0 then off - off0 else 0);
           fix_limit = (if off1 > limit then off1 - limit else 0)
       in
       SVN_ERR_ASSERT (fix_offset + fix_limit < oplen op) (
       SVN_ERR
         (copy_one_op (\<lambda>off' limit' tgt b. copy_source_ops off' limit' tgt op_ndx b window ndx)
            window off0 op fix_offset fix_limit target_offset build_baton)
         (\<lambda>build_baton'.
            copy_ops_loop window ndx off limit (target_offset + (oplen op - fix_offset - fix_limit))
              (op_ndx + 1) build_baton')))))"
  unfolding copy_one_op_def copy_source_ops_def SVN_ERR_assoc3
  by (subst copy_ops_loop.simps) (simp only: SVN_ERR_assoc3)

text \<open>
  Appending \<open>n\<close> bytes of a text from \<open>st\<close> on to the text of the baton, which stands for \<open>tlen\<close> bytes.
\<close>

definition copied where
  "copied slen src T b tlen st n m \<longleftrightarrow>
     (\<exists>b'. m = Inr b' \<and> wf_baton slen b' (tlen + n) \<and> baton_text src b' = baton_text src b @ cut T st n)"

lemma copied_bind:
  assumes "copied slen src T b tlen st n m"
    "\<And>b'. m = Inr b' \<Longrightarrow> wf_baton slen b' (tlen + n) \<Longrightarrow> copied slen src T b' (tlen + n) (st + n) n' (f b')"
  shows "copied slen src T b tlen st (n + n') (SVN_ERR m f)"
proof -
  obtain b' where b': "m = Inr b'" "wf_baton slen b' (tlen + n)" "baton_text src b' = baton_text src b @ cut T st n"
    using assms(1) by (auto simp: copied_def)
  with assms(2) [OF b'(1,2)] show ?thesis by (auto simp: copied_def add.assoc cut_append)
qed

lemma copied_nothing: "wf_baton slen b tlen \<Longrightarrow> copied slen src T b tlen st 0 (Inr b)"
  by (simp add: copied_def cut_def)

lemma copied_insert:
  assumes "wf_baton slen b tlen" "slen \<le> length src" "insertable slen tlen opcode (unat off) (unat len) data"
    "insert_bytes src (baton_text src b) opcode (unat off) (unat len) data = cut T st (unat len)"
  shows "copied slen src T b tlen st (unat len) (svn_txdelta__insert_op b opcode off len data)"
  using insertable_in_bounds [OF assms(3)] insert_op_ok [OF assms(1-3)] assms(4) by (simp add: copied_def)

lemma pattern_tail:
  assumes "p \<le> length X" "0 < p" "cut X (length X - p) p = cut T st p" "st + p + n \<le> length T"
    "\<And>k. k < n \<Longrightarrow> T ! (st + p + k) = T ! (st + k mod p)"
  shows "pattern_bytes X (length X - p) n = cut T (st + p) n"
proof (rule nth_equalityI)
  fix k assume "k < length (pattern_bytes X (length X - p) n)"
  then have k: "k < n" by simp
  have "cut X (length X - p) p ! (k mod p) = cut T st p ! (k mod p)" using assms(3) by simp
  then have "X ! (length X - p + k mod p) = T ! (st + k mod p)"
    using assms(1,2,4) by (simp add: nth_cut)
  then show "pattern_bytes X (length X - p) n ! k = cut T (st + p) n ! k"
    using k assms by (simp add: pattern_bytes_def nth_cut)
qed (use assms(4) in simp)

lemma unat_sub_le: "unat b \<le> unat a \<Longrightarrow> unat (a - b) = unat a - unat (b :: apr_size_t)"
  by (simp add: unat_sub word_le_nat_alt)

lemma unat_sub2: "unat a + unat b \<le> unat c \<Longrightarrow> unat (c - a - b) = unat c - unat a - unat (b :: apr_size_t)"
  by (simp add: unat_sub_le)

lemma copy_one_op_plain:
  assumes w: "wf_window w" "length src = unat (sview_len w)" "i < length (ops w)"
    and b: "wf_baton (length src) b tlen"
  defines "op \<equiv> ops w ! i" and "p \<equiv> ops_len (take i (ops w))"
  assumes fixed: "unat fo + unat fl < unat (oplen op)"
    and fits: "tlen + (unat (oplen op) - unat fo - unat fl) < 2 ^ 63"
    and act: "action_code op \<noteq> svn_txdelta_target"
  shows "copied (length src) src (window_text w src) b tlen (p + unat fo) (unat (oplen op) - unat fo - unat fl)
    (copy_one_op copy w off0 op fo fl tgt b)"
proof -
  let ?n = "unat (oplen op) - unat fo - unat fl" and ?o = "unat (offset op)"
  note at = window_text_op(1,4) [OF w, folded op_def p_def]
  have small: "length (new_data w) < 2 ^ 63" "unat (sview_len w) < 2 ^ 63" using w(1) by (simp_all add: wf_window_def)
  have n: "unat (oplen op - fo - fl) = ?n" using fixed by (simp add: unat_sub2)
  have bound: "?o + unat (oplen op) \<le> (if action_code op = svn_txdelta_new then length (new_data w) else length src)"
    using at act w(2) by (cases "action_code op") (auto simp: op_at_def)
  then have o1: "unat (offset op + fo) = ?o + unat fo"
    using small fixed w(2) by (intro unat_add_small) (auto split: if_splits)
  note parts = window_text_copied [OF w, of "unat fo" ?n, folded op_def p_def]
  let ?d = "if action_code op = svn_txdelta_new then drop (unat (offset op + fo)) (new_data w) else []"
  have "insertable (length src) tlen (action_code op) (unat (offset op + fo)) (unat (oplen op - fo - fl)) ?d"
    unfolding n o1 using fixed fits bound small w(2) act by (cases "action_code op") (auto simp: insertable_def)
  moreover have "insert_bytes src (baton_text src b) (action_code op) (unat (offset op + fo)) (unat (oplen op - fo - fl)) ?d =
      cut (window_text w src) (p + unat fo) (unat (oplen op - fo - fl))"
    unfolding n o1 using parts fixed act by (cases "action_code op") (auto simp: insert_bytes_def cut_def)
  ultimately have "copied (length src) src (window_text w src) b tlen (p + unat fo) (unat (oplen op - fo - fl))
      (svn_txdelta__insert_op b (action_code op) (offset op + fo) (oplen op - fo - fl) ?d)"
    using copied_insert [OF b order_refl] by blast
  then show ?thesis unfolding copy_one_op_def n using act by (simp only: if_True not_False_eq_True)
qed

text \<open>
  A copy from the target at \<open>p\<close>, of the text from \<open>o1\<close> on, repeats a pattern of \<open>p - o1\<close> bytes.
\<close>

definition repeats :: "byte list \<Rightarrow> nat \<Rightarrow> nat \<Rightarrow> nat \<Rightarrow> bool" where
  "repeats T p o1 len \<longleftrightarrow> o1 < p \<and> p + len \<le> length T \<and> (\<forall>k < len. T ! (p + k) = T ! (o1 + k mod (p - o1)))"

lemma repeats_cut:
  assumes "repeats T p o1 len" "f + m \<le> len" "f mod (p - o1) + m \<le> p - o1"
  shows "cut T (o1 + f mod (p - o1)) m = cut T (p + f) m"
proof (rule cut_eqI)
  fix k assume k: "k < m"
  have "(f + k) mod (p - o1) = (f mod (p - o1) + k) mod (p - o1)" by (simp add: mod_add_left_eq)
  also have "\<dots> = f mod (p - o1) + k" using assms(3) k by simp
  finally show "T ! (o1 + f mod (p - o1) + k) = T ! (p + f + k)"
    using assms(1,2) k by (auto simp: repeats_def add.assoc)
qed (use assms in \<open>auto simp: repeats_def\<close>)

lemma repeats_period:
  assumes "repeats T p o1 len" "f + (p - o1) + k < len"
  shows "T ! (p + f + (p - o1) + k) = T ! (p + f + k mod (p - o1))"
proof -
  define q where "q = p - o1"
  have R: "T ! (p + i) = T ! (o1 + i mod q)" if "i < len" for i
    using assms(1) that by (simp add: repeats_def q_def)
  have "f + k mod q < len" using assms(2) mod_less_eq_dividend [of k q] unfolding q_def by linarith
  moreover have "(f + q + k) mod q = (f + k mod q) mod q"
    using mod_add_self2 [of "f + k" q] by (simp add: mod_add_right_eq algebra_simps)
  ultimately show ?thesis
    using R [of "f + q + k"] R [of "f + k mod q"] assms(2) by (simp add: add.assoc flip: q_def)
qed

lemma copied_cong: "copied slen src T b tlen st n m \<Longrightarrow> cut T st n = cut T st' n \<Longrightarrow> copied slen src T b tlen st' n m"
  by (simp add: copied_def)

text \<open>The contract of the recursive call: it copies texts that end before \<open>off0\<close>.\<close>

definition copies_before ::
  "byte list \<Rightarrow> byte list \<Rightarrow> apr_size_t \<Rightarrow>
   (apr_size_t \<Rightarrow> apr_size_t \<Rightarrow> apr_size_t \<Rightarrow> svn_txdelta__ops_baton_t \<Rightarrow> svn_txdelta__ops_baton_t svn_result) \<Rightarrow> bool" where
  "copies_before src T off0 copy \<longleftrightarrow> (\<forall>o1 l1 tgt b tlen. o1 < l1 \<longrightarrow> l1 \<le> off0 \<longrightarrow> wf_baton (length src) b tlen \<longrightarrow>
     unat tgt = tlen \<longrightarrow> tlen + (unat l1 - unat o1) < 2 ^ 63 \<longrightarrow>
     copied (length src) src T b tlen (unat o1) (unat l1 - unat o1) (copy o1 l1 tgt b))"

lemma copies_beforeD:
  "copies_before src T off0 copy \<Longrightarrow> o1 < l1 \<Longrightarrow> l1 \<le> off0 \<Longrightarrow> wf_baton (length src) b tlen \<Longrightarrow>
   unat tgt = tlen \<Longrightarrow> tlen + (unat l1 - unat o1) < 2 ^ 63 \<Longrightarrow>
   copied (length src) src T b tlen (unat o1) (unat l1 - unat o1) (copy o1 l1 tgt b)"
  by (simp only: copies_before_def)

lemma copy_repeated:
  assumes "copies_before src T off0 copy" "repeats T (unat off0) (unat o1) len" "unat off0 < 2 ^ 63"
    "f + unat n \<le> len" "unat v = f mod (unat off0 - unat o1)" "unat v + unat n \<le> unat off0 - unat o1" "n \<noteq> 0"
    "wf_baton (length src) b tlen" "unat tgt = tlen" "tlen + unat n < 2 ^ 63"
  shows "copied (length src) src T b tlen (unat off0 + f) (unat n) (copy (o1 + v) (o1 + v + n) tgt b)"
proof -
  have ov: "unat (o1 + v) = unat o1 + unat v" using assms(2,3,6) by (intro unat_add_small) (auto simp: repeats_def)
  then have ovn: "unat (o1 + v + n) = unat o1 + unat v + unat n"
    using assms(2,3,6) by (subst unat_add_small) (auto simp: repeats_def)
  have "unat n \<noteq> 0" using assms(7) by (simp add: unat_eq_zero)
  then have lt: "o1 + v < o1 + v + n" "o1 + v + n \<le> off0"
    using ov ovn assms(2,6) by (auto simp: word_less_nat_alt word_le_nat_alt repeats_def)
  have "copied (length src) src T b tlen (unat (o1 + v)) (unat (o1 + v + n) - unat (o1 + v)) (copy (o1 + v) (o1 + v + n) tgt b)"
    by (rule copies_beforeD [OF assms(1) lt assms(8,9)]) (use assms(10) ov ovn in simp)
  then show ?thesis
    using copied_cong repeats_cut [OF assms(2,4)] assms(5,6) by (simp add: ov ovn) blast
qed

text \<open>
  The two copies of the pattern's parts: together they append as much of the pattern as fits.
\<close>

lemma overlap_parts:
  assumes copy: "copies_before src T off0 copy" and rep: "repeats T (unat off0) (unat o1) len"
    and small: "unat off0 < 2 ^ 63" and b: "wf_baton (length src) b tlen" "unat tgt = tlen" "tlen + unat n < 2 ^ 63"
    and n: "unat fo + unat n \<le> len" "n \<noteq> 0"
  defines "q \<equiv> off0 - o1"
  defines "v \<equiv> fo mod q"
  defines "n1 \<equiv> min n (q - v)"
  defines "n2 \<equiv> (if v > 0 \<and> n1 < n then min (n - n1) v else 0)"
  shows "\<exists>b1 b2. copy (o1 + v) (o1 + v + n1) tgt b = Inr b1
    \<and> (n2 \<noteq> 0 \<longrightarrow> copy o1 (o1 + n2) (tgt + n1) b1 = Inr b2) \<and> (n2 = 0 \<longrightarrow> b2 = b1)
    \<and> wf_baton (length src) b2 (tlen + unat n1 + unat n2)
    \<and> baton_text src b2 = baton_text src b @ cut T (unat off0 + unat fo) (unat n1 + unat n2)"
    and "unat n1 + unat n2 \<le> unat n" "unat n1 + unat n2 < unat n \<longrightarrow> unat n1 + unat n2 = unat q" "v < q" "q - v \<noteq> 0"
proof -
  have q: "unat q = unat off0 - unat o1" "unat q > 0"
    using rep by (auto simp: q_def repeats_def unat_sub_le)
  have v: "unat v = unat fo mod unat q" by (simp add: v_def unat_mod)
  then have vq: "unat v < unat q" using q(2) by simp
  then show "v < q" by (simp add: word_less_nat_alt)
  have qv: "unat (q - v) = unat q - unat v" using vq by (simp add: unat_sub_le)
  then show "q - v \<noteq> 0" using vq unat_eq_zero [of "q - v"] by simp
  have n0: "unat n > 0" using n(2) by (simp add: unat_gt_0)
  have n1: "unat n1 = min (unat n) (unat q - unat v)"
    unfolding n1_def qv [symmetric] by (simp add: min_def word_le_nat_alt)
  then have nn: "unat (n - n1) = unat n - unat n1" by (simp add: unat_sub_le)
  have n2: "unat n2 = (if unat v > 0 \<and> unat n1 < unat n then min (unat n - unat n1) (unat v) else 0)"
    unfolding n2_def nn [symmetric] by (auto simp: min_def word_le_nat_alt word_less_nat_alt)
  show le: "unat n1 + unat n2 \<le> unat n" using n1 n2 by (auto simp: min_def split: if_splits)
  show "unat n1 + unat n2 < unat n \<longrightarrow> unat n1 + unat n2 = unat q" using n1 n2 vq by auto
  have "copied (length src) src T b tlen (unat off0 + unat fo) (unat n1) (copy (o1 + v) (o1 + v + n1) tgt b)"
  proof (rule copy_repeated [OF copy rep small _ _ _ _ b(1,2)])
    have pos: "unat n1 > 0" using n1 n0 vq by simp
    then show "n1 \<noteq> 0" by auto
    show "unat fo + unat n1 \<le> len" "tlen + unat n1 < 2 ^ 63" using n(1) b(3) le by linarith+
    show "unat v = unat fo mod (unat off0 - unat o1)" using v q(1) by simp
    show "unat v + unat n1 \<le> unat off0 - unat o1" using n1 vq q(1) by simp
  qed
  then obtain b1 where b1: "copy (o1 + v) (o1 + v + n1) tgt b = Inr b1" "wf_baton (length src) b1 (tlen + unat n1)"
    "baton_text src b1 = baton_text src b @ cut T (unat off0 + unat fo) (unat n1)" by (auto simp: copied_def)
  have tgt: "unat (tgt + n1) = tlen + unat n1" using b(2,3) le by (simp add: unat_add_small)
  show "\<exists>b1 b2. copy (o1 + v) (o1 + v + n1) tgt b = Inr b1
    \<and> (n2 \<noteq> 0 \<longrightarrow> copy o1 (o1 + n2) (tgt + n1) b1 = Inr b2) \<and> (n2 = 0 \<longrightarrow> b2 = b1)
    \<and> wf_baton (length src) b2 (tlen + unat n1 + unat n2)
    \<and> baton_text src b2 = baton_text src b @ cut T (unat off0 + unat fo) (unat n1 + unat n2)"
  proof (cases "n2 = 0")
    case True
    then show ?thesis using b1 by auto
  next
    case False
    then have n1q: "unat n1 = unat q - unat v" "unat n2 \<le> unat v"
      using n1 n2 unat_eq_zero [of n2] by (simp_all split: if_splits)
    have "(unat fo + unat n1) mod unat q = (unat v + unat n1) mod unat q" by (simp add: v mod_add_left_eq)
    also have "\<dots> = 0" using n1q(1) vq by simp
    finally have "copied (length src) src T b1 (tlen + unat n1) (unat off0 + (unat fo + unat n1)) (unat n2)
        (copy (o1 + 0) (o1 + 0 + n2) (tgt + n1) b1)"
      using copy_repeated [OF copy rep small, of "unat fo + unat n1" n2 0 b1 "tlen + unat n1" "tgt + n1"]
        False n le b(3) b1(2) tgt vq n1q q by simp
    then show ?thesis using b1 False cut_append [of T "unat off0 + unat fo" "unat n1" "unat n2"]
      by (auto simp: copied_def add.assoc)
  qed
qed

text \<open>The copy that repeats the pattern once a whole one has been appended.\<close>

lemma overlap_tail:
  assumes rep: "repeats T (unat off0) o1 len" and q: "q = unat off0 - o1"
    and b: "wf_baton (length src) b (tlen + q)" "baton_text src b = X @ cut T (unat off0 + f) q" "length X = tlen"
    and m: "f + q + unat m \<le> len" "unat m \<noteq> 0" "unat tgt = tlen" "tlen + q + unat m < 2 ^ 63" "length src < 2 ^ 63"
  shows "copied (length src) src T b (tlen + q) (unat off0 + f + q) (unat m)
    (svn_txdelta__insert_op b svn_txdelta_target tgt m [])"
proof (rule copied_insert [OF b(1) order_refl])
  have q0: "q > 0" using rep q by (simp add: repeats_def)
  have len: "length (baton_text src b) = tlen + q" by (rule baton_text_length [OF b(1) order_refl])
  then have "cut (baton_text src b) tlen q = cut T (unat off0 + f) q" using b(2,3) by (simp add: cut_def)
  moreover have "T ! (unat off0 + f + q + k) = T ! (unat off0 + f + k mod q)" if "k < unat m" for k
    unfolding q by (rule repeats_period [OF rep]) (use that m(1) q in linarith)
  moreover have "unat off0 + f + q + unat m \<le> length T" using rep m(1) by (simp add: repeats_def)
  ultimately have "pattern_bytes (baton_text src b) tlen (unat m) = cut T (unat off0 + f + q) (unat m)"
    using pattern_tail [of q "baton_text src b" T "unat off0 + f" "unat m"] len q0 by simp
  then show "insert_bytes src (baton_text src b) svn_txdelta_target (unat tgt) (unat m) [] = cut T (unat off0 + f + q) (unat m)"
    using m(3) by (simp add: insert_bytes_def)
  show "insertable (length src) (tlen + q) svn_txdelta_target (unat tgt) (unat m) []"
    using m q0 by (simp add: insertable_def)
qed

lemma copy_one_op_overlap:
  assumes copy: "copies_before src T off0 copy" and rep: "repeats T (unat off0) (unat (offset op)) (unat (oplen op))"
    and small: "length T < 2 ^ 63" "length src < 2 ^ 63"
    and b: "wf_baton (length src) b tlen" "unat tgt = tlen" "tlen + (unat (oplen op) - unat fo - unat fl) < 2 ^ 63"
    and fixed: "unat fo + unat fl < unat (oplen op)"
    and act: "action_code op = svn_txdelta_target" "\<not> offset op + oplen op - fl \<le> off0"
  shows "copied (length src) src T b tlen (unat off0 + unat fo) (unat (oplen op) - unat fo - unat fl)
    (copy_one_op copy w off0 op fo fl tgt b)"
proof -
  define n where "n = oplen op - fo - fl"
  have un: "unat n = unat (oplen op) - unat fo - unat fl" using fixed by (simp add: unat_sub2 n_def)
  then have n: "unat fo + unat n \<le> unat (oplen op)" "n \<noteq> 0" using fixed unat_eq_zero [of n] by simp_all
  have off0: "unat off0 < 2 ^ 63" "offset op < off0" using rep small by (auto simp: repeats_def word_less_nat_alt)
  define q where "q = off0 - offset op"
  define v where "v = fo mod q"
  define n1 where "n1 = min n (q - v)"
  define n2 where "n2 = (if v > 0 \<and> n1 < n then min (n - n1) v else 0)"
  note parts = overlap_parts [OF copy rep off0(1) b(1,2) b(3) [folded un] n, folded q_def, folded v_def, folded n1_def, folded n2_def]
  obtain b1 b2 where b12: "copy (offset op + v) (offset op + v + n1) tgt b = Inr b1"
    "n2 \<noteq> 0 \<longrightarrow> copy (offset op) (offset op + n2) (tgt + n1) b1 = Inr b2" "n2 = 0 \<longrightarrow> b2 = b1"
    "wf_baton (length src) b2 (tlen + unat n1 + unat n2)"
    "baton_text src b2 = baton_text src b @ cut T (unat off0 + unat fo) (unat n1 + unat n2)"
    using parts(1) by blast
  have op64: "unat (oplen op) < 2 ^ 63" using rep small(1) by (simp add: repeats_def)
  have sums: "unat (fo + n1 + fl) = unat fo + unat n1 + unat fl"
    "unat (fo + n1 + n2 + fl) = unat fo + unat n1 + unat n2 + unat fl" "unat (tgt + n1 + n2) = tlen + unat n1 + unat n2"
    using parts(2) un fixed op64 b(2,3) by (simp_all add: unat_add_small)
  have len: "oplen op - (fo + n1) - fl = n - n1" "oplen op - (fo + n1 + n2) - fl = n - n1 - n2"
    by (simp_all add: n_def)
  have cond: "fo + n1 + fl < oplen op \<longleftrightarrow> n1 < n" "fo + n1 + fl \<le> oplen op"
    "fo + n1 + n2 + fl < oplen op \<longleftrightarrow> unat n1 + unat n2 < unat n" "fo + n1 + n2 + fl \<le> oplen op"
    using sums un fixed parts(2) by (auto simp: word_less_nat_alt word_le_nat_alt)
  let ?ins = "svn_txdelta__insert_op b2 svn_txdelta_target (tgt + n1 + n2 - q) (n - n1 - n2) []"
  have n2: "n2 \<noteq> 0 \<longleftrightarrow> v > 0 \<and> n1 < n" by (auto simp: n2_def min_def word_gt_0)
  have ev: "copy_one_op copy w off0 op fo fl tgt b = (if unat n1 + unat n2 < unat n then ?ins else Inr b2)"
    using act off0(2) parts(4) b12(1-3) cond n2 unfolding copy_one_op_def Let_def q_def [symmetric] v_def [symmetric]
      n_def [symmetric] n1_def [symmetric] len
    by (cases "n2 = 0") (auto simp: n2_def n_def algebra_simps)
  have c12: "copied (length src) src T b tlen (unat off0 + unat fo) (unat n1 + unat n2) (Inr b2)"
    using b12(4,5) by (simp add: copied_def add.assoc)
  show ?thesis
  proof (cases "unat n1 + unat n2 < unat n")
    case False
    then show ?thesis using ev c12 parts(2) un by simp
  next
    case True
    then have q: "unat n1 + unat n2 = unat q" using parts(3) by simp
    have r: "unat (n - n1 - n2) = unat n - unat q" "unat (tgt + n1 + n2 - q) = tlen"
      using parts(2) sums(3) q by (simp_all add: unat_sub2 unat_sub_le)
    have uq: "unat q = unat off0 - unat (offset op)" using rep by (auto simp: q_def repeats_def unat_sub_le)
    have "length (baton_text src b) = tlen" by (rule baton_text_length [OF b(1) order_refl])
    then have "copied (length src) src T b2 (tlen + unat q) (unat off0 + unat fo + unat q) (unat (n - n1 - n2)) ?ins"
      using b12(4,5) n(1) True q b(3) un
      by (intro overlap_tail [OF rep uq _ _ _ _ _ r(2) _ small(2)]) (simp_all add: r add.assoc)
    then have "copied (length src) src T b tlen (unat off0 + unat fo) (unat q + (unat n - unat q)) (SVN_ERR (Inr b2) (\<lambda>_. ?ins))"
      using c12 q r(1) by (intro copied_bind) simp_all
    then show ?thesis using ev True q un by simp
  qed
qed

lemma copy_one_op_ok:
  assumes w: "wf_window w" "length src = unat (sview_len w)" "i < length (ops w)"
    and b: "wf_baton (length src) b tlen" "unat tgt = tlen"
  defines "op \<equiv> ops w ! i" and "T \<equiv> window_text w src"
  assumes off0: "unat off0 = ops_len (take i (ops w))"
    and fixed: "unat fo + unat fl < unat (oplen op)"
    and fits: "tlen + (unat (oplen op) - unat fo - unat fl) < 2 ^ 63"
    and copy: "copies_before src T off0 copy"
  shows "copied (length src) src T b tlen (unat off0 + unat fo) (unat (oplen op) - unat fo - unat fl)
    (copy_one_op copy w off0 op fo fl tgt b)"
proof (cases "action_code op = svn_txdelta_target")
  case False
  then show ?thesis
    using copy_one_op_plain [OF w b(1), of fo fl] fixed fits by (simp add: op_def T_def off0)
next
  case act: True
  note at = window_text_op [OF w, folded op_def T_def]
  have small: "length T < 2 ^ 63" "length src < 2 ^ 63" using w at(3) by (auto simp: wf_window_def)
  have rep: "repeats T (unat off0) (unat (offset op)) (unat (oplen op))"
    using window_text_target [OF w, folded op_def T_def] act at(1,2) off0 by (auto simp: repeats_def op_at_def)
  show ?thesis
  proof (cases "offset op + oplen op - fl \<le> off0")
    case False
    show ?thesis by (rule copy_one_op_overlap [OF copy rep small b fits fixed act False])
  next
    case True
    let ?n = "oplen op - fo - fl"
    have o0: "offset op < off0" using rep by (simp add: repeats_def word_less_nat_alt)
    have n: "unat ?n = unat (oplen op) - unat fo - unat fl" using fixed by (simp add: unat_sub2)
    have "unat (offset op + oplen op) = unat (offset op) + unat (oplen op)"
      using rep small by (intro unat_add_small) (auto simp: repeats_def)
    then have le: "unat (offset op) + unat (oplen op) - unat fl \<le> unat off0"
      using True fixed by (simp add: word_le_nat_alt unat_sub_le)
    then have "unat fo < unat off0 - unat (offset op)" using fixed by linarith
    then have "copied (length src) src T b tlen (unat off0 + unat fo) (unat ?n)
        (copy (offset op + fo) (offset op + fo + ?n) tgt b)"
    proof (intro copy_repeated [OF copy rep _ _ _ _ _ b])
      show "?n \<noteq> 0" using n fixed unat_eq_zero [of ?n] by linarith
    qed (use n fits fixed le rep small in \<open>auto simp: repeats_def\<close>)
    moreover have "offset op + fo + ?n = offset op + oplen op - fl" by simp
    ultimately show ?thesis using act o0 True by (simp add: copy_one_op_def n)
  qed
qed

section \<open>The loop over the first window's instructions\<close>

lemma offset_index:
  assumes "wf_window w" "i \<le> length (ops w)"
  shows "offs_at (create_offset_index w) i = Inr (create_offset_index w ! i)"
    "unat (create_offset_index w ! i) = ops_len (take i (ops w))"
    "ops_len (take i (ops w)) \<le> unat (tview_len w)"
proof -
  have "ops_len (take i (ops w) @ drop i (ops w)) = unat (tview_len w)"
    using assms(1) by (simp add: wf_window_def wf_ops_iff)
  then show le: "ops_len (take i (ops w)) \<le> unat (tview_len w)" by (simp only: len_simps)
  show "offs_at (create_offset_index w) i = Inr (create_offset_index w ! i)"
    using assms(2) by (simp add: offs_at_def create_offset_index_def)
  show "unat (create_offset_index w ! i) = ops_len (take i (ops w))"
    using le assms by (simp add: create_offset_index_def offsets_loop_nth unat_of_nat wf_window_def)
qed

text \<open>The difference where it is positive, as the code computes the two fixes of an instruction.\<close>

definition monus :: "apr_size_t \<Rightarrow> apr_size_t \<Rightarrow> apr_size_t" where
  "monus a b = (if a > b then a - b else 0)"

lemma unat_monus: "unat (monus a b) = unat a - unat b"
  by (auto simp: monus_def word_less_nat_alt unat_sub_le)

text \<open>The fixes cut the instruction that reaches from \<open>off0\<close> to \<open>off1\<close> down to the range asked for.\<close>

lemma fixes_cut:
  assumes "unat off1 = unat off0 + unat len" "unat off < unat off1" "unat off < unat limit" "unat off0 < unat limit" "unat len > 0"
  defines "fo \<equiv> monus off off0" and "fl \<equiv> monus off1 limit"
  shows "unat fo + unat fl < unat len" "fo + fl < len" "unat (len - fo - fl) = unat len - unat fo - unat fl"
    "unat off0 + unat fo = max (unat off) (unat off0)"
    "max (unat off) (unat off0) + unat (len - fo - fl) = min (unat limit) (unat off1)"
proof -
  have u: "unat fo = unat off - unat off0" "unat fl = unat off1 - unat limit" by (simp_all add: fo_def fl_def unat_monus)
  show f: "unat fo + unat fl < unat len" using assms(1-5) unfolding u by linarith
  show n: "unat (len - fo - fl) = unat len - unat fo - unat fl" using f by (intro unat_sub2) simp
  show "unat off0 + unat fo = max (unat off) (unat off0)" unfolding u by (simp add: max_def)
  show "max (unat off) (unat off0) + unat (len - fo - fl) = min (unat limit) (unat off1)"
    using assms(1-5) unfolding n u by (auto simp: max_def min_def)
  have "unat len < 2 ^ 64" using unsigned_less [of len] by simp
  then have "unat (fo + fl) = unat fo + unat fl" using f by (intro unat_add_small) linarith
  then show "fo + fl < len" using f by (simp only: word_less_nat_alt)
qed

lemma copied_past:
  assumes "copied slen src T b tlen (max (unat off) (unat off1)) (unat limit - max (unat off) (unat off1)) m"
    "unat off < unat off1" "st = min (unat limit) (unat off1)"
  shows "copied slen src T b tlen st (unat limit - unat off1) m"
proof -
  have m: "max (unat off) (unat off1) = unat off1" using assms(2) by simp
  have "cut T (unat off1) (unat limit - unat off1) = cut T st (unat limit - unat off1)"
    using assms(3) by (cases "unat limit \<le> unat off1") (simp_all add: cut_def min_def)
  then show ?thesis using assms(1) unfolding m by (rule copied_cong [rotated])
qed

lemma copy_ops_loop_inner:
  assumes w: "wf_window w" "length src = unat (sview_len w)"
  defines "T \<equiv> window_text w src" and "ndx \<equiv> create_offset_index w"
  assumes rec: "\<And>off0 hint. off0 < limit \<Longrightarrow> copies_before src T off0 (\<lambda>o1 l1 t b. copy_source_ops o1 l1 t hint b w ndx)"
    and limit: "off < limit" "unat limit \<le> length T"
    and i: "i \<le> length (ops w)" "off \<le> ndx ! i \<or> i < length (ops w) \<and> off < ndx ! (i + 1)"
    and b: "wf_baton (length src) b tlen" "unat tgt = tlen" "tlen + (unat limit - max (unat off) (unat (ndx ! i))) < 2 ^ 63"
  shows "copied (length src) src T b tlen (max (unat off) (unat (ndx ! i))) (unat limit - max (unat off) (unat (ndx ! i)))
    (copy_ops_loop w ndx off limit tgt i b)"
  using i b
proof (induction "length (ops w) - i" arbitrary: i b tlen tgt rule: less_induct)
  case less
  note at = offset_index [OF w(1), folded ndx_def]
  let ?off0 = "ndx ! i"
  show ?case
  proof (cases "limit \<le> ?off0")
    case True
    then have "unat limit - max (unat off) (unat ?off0) = 0" by (auto simp: word_le_nat_alt)
    then show ?thesis
      using True at(1) [OF less.prems(1)] less.prems(3) by (subst copy_ops_loop_step) (simp add: copied_nothing)
  next
    case False
    then have lt: "?off0 < limit" by simp
    have "ops_len (ops w) = length T"
      using w length_window_text [OF w(1), of src] by (simp add: wf_window_def wf_ops_iff T_def)
    then have i: "i < length (ops w)"
      using lt limit(2) at(2) [OF less.prems(1)] less.prems(1) by (cases "i = length (ops w)") (auto simp: word_less_nat_alt)
    let ?op = "ops w ! i" and ?off1 = "ndx ! (i + 1)" and ?st = "max (unat off) (unat ?off0)"
    let ?fo = "monus off ?off0" and ?fl = "monus ?off1 limit"
    let ?n = "oplen ?op - ?fo - ?fl"
    note i1 = at [of "i + 1"]
    have off1: "unat ?off1 = unat ?off0 + unat (oplen ?op)"
      using i i1(2) at(2) [OF less.prems(1)] by (simp add: take_Suc_conv_app_nth)
    have pos: "unat (oplen ?op) > 0" using window_text_op(1) [OF w i] by (simp add: op_at_def unat_gt_0)
    have off: "unat off < unat ?off1" "unat off < unat limit" "unat ?off0 < unat limit"
      using less.prems(2) limit(1) lt off1 pos by (auto simp: word_less_nat_alt word_le_nat_alt)
    note cuts = fixes_cut [OF off1 off pos]
    have rest: "unat limit - ?st = unat ?n + (unat limit - unat ?off1)" using cuts(5) off by linarith
    have fits: "tlen + unat ?n < 2 ^ 63" using less.prems(5) rest by linarith
    let ?one = "copy_one_op (\<lambda>o1 l1 t b. copy_source_ops o1 l1 t i b w ndx) w ?off0 ?op ?fo ?fl tgt b"
    have one: "copied (length src) src T b tlen ?st (unat ?n) ?one"
      using copy_one_op_ok [OF w i less.prems(3,4) at(2) [OF less.prems(1)] cuts(1)] fits rec [OF lt] cuts(3,4)
      by (simp add: T_def)
    have "copied (length src) src T b tlen ?st (unat ?n + (unat limit - unat ?off1))
       (SVN_ERR ?one (copy_ops_loop w ndx off limit (tgt + ?n) (i + 1)))"
    proof (rule copied_bind [OF one], rule copied_past [OF less.hyps off(1) cuts(5)])
      show "unat (tgt + ?n) = tlen + unat ?n" using less.prems(4) fits by (subst unat_add_small) simp_all
      show "tlen + unat ?n + (unat limit - max (unat off) (unat ?off1)) < 2 ^ 63"
        using less.prems(5) rest off(1) by linarith
    qed (use i off(1) in \<open>auto simp: word_le_nat_alt\<close>)
    moreover have "copy_ops_loop w ndx off limit tgt i b = SVN_ERR ?one (copy_ops_loop w ndx off limit (tgt + ?n) (i + 1))"
      using at(1) [OF less.prems(1)] i1(1) i False cuts(2) unfolding monus_def
      by (subst copy_ops_loop_step) (simp only: SVN_ERR_simps op_read_def if_True if_False Let_def SVN_ERR_ASSERT_simps Suc_eq_plus1)
    ultimately show ?thesis unfolding rest by simp
  qed
qed

lemma copy_source_ops_ok:
  assumes w: "wf_window w" "length src = unat (sview_len w)"
  defines "T \<equiv> window_text w src"
  assumes "off < limit" "unat limit \<le> length T" "wf_baton (length src) b tlen" "unat tgt = tlen"
    "tlen + (unat limit - unat off) < 2 ^ 63"
  shows "copied (length src) src T b tlen (unat off) (unat limit - unat off)
    (copy_source_ops off limit tgt hint b w (create_offset_index w))"
  using assms(4-)
proof (induction "unat limit" arbitrary: off limit tgt hint b tlen rule: less_induct)
  case less
  let ?ndx = "create_offset_index w" and ?m = "length (ops w)"
  note at = offset_index [OF w(1)]
  have "unat (?ndx ! ?m) = length T"
    using at(2) [of ?m] w length_window_text [OF w(1), of src] by (simp add: wf_window_def wf_ops_iff T_def)
  then have "off < ?ndx ! ?m" using less.prems(1,2) by (simp add: word_less_nat_alt)
  moreover have "?ndx ! 0 = 0" by (simp add: create_offset_index_def offsets_loop_nth)
  ultimately obtain k where k: "k < ?m" "search_offset_index ?ndx off hint = Inr k" "?ndx ! k \<le> off" "off < ?ndx ! (k + 1)"
    using search_offset_index_ok [of ?ndx ?m off hint] by (auto simp: create_offset_index_def)
  have rec: "copies_before src T off0 (\<lambda>o1 l1 t b. copy_source_ops o1 l1 t h b w ?ndx)" if "off0 < limit" for off0 h
    unfolding copies_before_def
  proof (intro allI impI)
    fix o1 l1 t :: apr_size_t and b tlen
    assume "o1 < l1" "l1 \<le> off0" "wf_baton (length src) b tlen" "unat t = tlen" "tlen + (unat l1 - unat o1) < 2 ^ 63"
    then show "copied (length src) src T b tlen (unat o1) (unat l1 - unat o1) (copy_source_ops o1 l1 t h b w ?ndx)"
      using that less.prems(2) by (intro less.hyps) (auto simp: word_less_nat_alt word_le_nat_alt)
  qed
  have m: "max (unat off) (unat (?ndx ! k)) = unat off" using k(3) by (simp add: word_le_nat_alt)
  show ?case
    using copy_ops_loop_inner [OF w rec [unfolded T_def] less.prems(1) less.prems(2) [unfolded T_def] less_imp_le [OF k(1)] _ less.prems(3,4)]
      k less.prems(5) by (simp add: copy_source_ops_def m T_def)
qed

section \<open>Composition\<close>

text \<open>What the range index says about the composed text \<open>X\<close>: its ranges are parts of \<open>T\<close> that \<open>X\<close> has.\<close>

definition index_true :: "byte list \<Rightarrow> byte list \<Rightarrow> range_index_t \<Rightarrow> bool" where
  "index_true T X ndx \<longleftrightarrow> (\<forall>(o1, l1, t1) \<in> ranges ndx. o1 < l1 \<and> unat l1 \<le> length T
     \<and> unat t1 + (unat l1 - unat o1) \<le> length X \<and> cut X (unat t1) (unat l1 - unat o1) = cut T (unat o1) (unat l1 - unat o1))"

lemma pattern_inside: "off + len \<le> length X \<Longrightarrow> 0 < len \<Longrightarrow> pattern_bytes X off len = cut X off len"
  by (intro nth_equalityI) (simp_all add: pattern_bytes_def nth_cut)

lemma tiles_le: "tiles off limit rs \<Longrightarrow> off \<le> limit"
  by (induction rs arbitrary: off) (auto intro: order.trans less_imp_le)

lemma copy_known_range:
  assumes "index_true T X ndx" "range_ok (ranges ndx) r" "rkind r = range_from_target"
    "loffset r < llimit r" "unat (llimit r) \<le> length T"
    "wf_baton (length src) b tlen" "baton_text src b = X @ Y" "length src < 2 ^ 63"
    "tlen + (unat (llimit r) - unat (loffset r)) < 2 ^ 63"
  shows "copied (length src) src T b tlen (unat (loffset r)) (unat (llimit r) - unat (loffset r))
    (svn_txdelta__insert_op b svn_txdelta_target (ltarget_offset r) (llimit r - loffset r) [])"
proof -
  let ?n = "unat (llimit r) - unat (loffset r)"
  obtain o1 l1 t1 where R: "(o1, l1, t1) \<in> ranges ndx" "o1 \<le> loffset r" "llimit r \<le> l1"
    "ltarget_offset r = loffset r - o1 + t1" using assms(2,3) by (auto simp: range_ok_def)
  then have X: "unat t1 + (unat l1 - unat o1) \<le> length X" "cut X (unat t1) (unat l1 - unat o1) = cut T (unat o1) (unat l1 - unat o1)"
    using assms(1) by (auto simp: index_true_def)
  have u: "unat o1 \<le> unat (loffset r)" "unat (loffset r) < unat (llimit r)" "unat (llimit r) \<le> unat l1"
    using R(2,3) assms(4) by (simp_all add: word_le_nat_alt word_less_nat_alt)
  have tlen: "length X + length Y = tlen" using baton_text_length [OF assms(6) order_refl] assms(7) by simp
  have n: "unat (llimit r - loffset r) = ?n" using u by (simp add: unat_sub_le)
  have "unat (loffset r - o1) = unat (loffset r) - unat o1" using u by (simp add: unat_sub_le)
  moreover from this have "unat (loffset r - o1) + unat t1 < 2 ^ 63" using X(1) u tlen assms(9) by linarith
  ultimately have t: "unat (ltarget_offset r) = unat t1 + (unat (loffset r) - unat o1)"
    unfolding R(4) by (simp add: unat_add_small)
  have inside: "unat (ltarget_offset r) + ?n \<le> length X" using X(1) t u by linarith
  have "cut X (unat (ltarget_offset r)) ?n = cut T (unat o1 + (unat (loffset r) - unat o1)) ?n"
    unfolding t by (rule cut_part [OF X(2)]) (use u in linarith)
  then have "cut (X @ Y) (unat (ltarget_offset r)) ?n = cut T (unat (loffset r)) ?n"
    using inside u by (simp add: cut_def)
  then have "copied (length src) src T b tlen (unat (loffset r)) (unat (llimit r - loffset r))
      (svn_txdelta__insert_op b svn_txdelta_target (ltarget_offset r) (llimit r - loffset r) [])"
    using assms(6-9) u inside tlen
    by (intro copied_insert) (simp_all add: n insertable_def insert_bytes_def pattern_inside)
  then show ?thesis unfolding n .
qed

lemma copy_ranges_ok:
  assumes w: "wf_window w" "length src = unat (sview_len w)"
  defines "T \<equiv> window_text w src"
  assumes X: "index_true T X ndx" and "tiles off limit rs" "list_all (range_ok (ranges ndx)) rs"
    "baton_text src b = X @ Y" "unat limit \<le> length T" "wf_baton (length src) b tlen" "unat tgt = tlen"
    "tlen + (unat limit - unat off) < 2 ^ 63"
  shows "\<exists>b'. copy_ranges w (create_offset_index w) rs tgt b = Inr (b', tgt + (limit - off))
    \<and> wf_baton (length src) b' (tlen + (unat limit - unat off))
    \<and> baton_text src b' = baton_text src b @ cut T (unat off) (unat limit - unat off)"
  using assms(5-)
proof (induction rs arbitrary: off b tlen tgt Y)
  case Nil
  then show ?case by (simp add: cut_def)
next
  case (Cons r rs)
  let ?m = "llimit r" and ?n = "unat (llimit r) - unat off"
  have r: "loffset r = off" "off < ?m" "tiles ?m limit rs" using Cons.prems(1) by simp_all
  have "?m \<le> limit" by (rule tiles_le [OF r(3)])
  then have u: "unat off < unat ?m" "unat ?m \<le> unat limit" using r(2) by (simp_all add: word_le_nat_alt word_less_nat_alt)
  have one: "copied (length src) src T b tlen (unat off) ?n
      (if rkind r = range_from_target
       then svn_txdelta__insert_op b svn_txdelta_target (ltarget_offset r) (llimit r - loffset r) []
       else copy_source_ops (loffset r) (llimit r) tgt 0 b w (create_offset_index w))"
  proof (cases "rkind r = range_from_target")
    case True
    have fits: "tlen + (unat ?m - unat off) < 2 ^ 63" using Cons.prems(7) u by linarith
    then show ?thesis
      using copy_known_range [OF X _ True _ _ Cons.prems(5,3)] True Cons.prems(2,4) r u w by (simp add: wf_window_def)
  next
    case False
    then show ?thesis
      using copy_source_ops_ok [OF w, folded T_def, of off ?m b tlen tgt 0] Cons.prems r u by simp
  qed
  then obtain b' where b': "(if rkind r = range_from_target
       then svn_txdelta__insert_op b svn_txdelta_target (ltarget_offset r) (llimit r - loffset r) []
       else copy_source_ops (loffset r) (llimit r) tgt 0 b w (create_offset_index w)) = Inr b'"
    "wf_baton (length src) b' (tlen + ?n)" "baton_text src b' = baton_text src b @ cut T (unat off) ?n"
    by (auto simp: copied_def)
  have n: "unat (?m - off) = ?n" using u by (simp add: unat_sub_le)
  have "tlen + ?n < 2 ^ 63" using Cons.prems(7) u by linarith
  then have "unat (tgt + (?m - off)) = tlen + ?n" using Cons.prems(6) n by (simp add: unat_add_small)
  moreover have "tlen + ?n + (unat limit - unat ?m) < 2 ^ 63" using Cons.prems(7) u by linarith
  ultimately obtain b'' where b'': "copy_ranges w (create_offset_index w) rs (tgt + (?m - off)) b' = Inr (b'', tgt + (?m - off) + (limit - ?m))"
    "wf_baton (length src) b'' (tlen + ?n + (unat limit - unat ?m))"
    "baton_text src b'' = baton_text src b' @ cut T (unat ?m) (unat limit - unat ?m)"
    using Cons.IH [OF r(3) _ _ Cons.prems(4) b'(2), of "Y @ cut T (unat off) ?n" "tgt + (?m - off)"] Cons.prems(2,3) b'(3) by auto
  have "?n + (unat limit - unat ?m) = unat limit - unat off" using u by linarith
  then show ?case
    using b' b'' r(1) u cut_append [of T "unat off" ?n "unat limit - unat ?m"] by (simp add: add.assoc)
qed

text \<open>The second window's instruction that is next: what it stands for is appended to the baton's text.\<close>

lemma copied_op_text:
  assumes "wf_window w" "length src = unat (sview_len w)"
    "wf_baton (length src) b tlen" "baton_text src b = X" "unat tgt = tlen"
    "op_at (length T) tlen npos op" "npos + (if action_code op = svn_txdelta_new then unat (oplen op) else 0) \<le> length new"
    "tlen + unat (oplen op) < 2 ^ 63" "action_code op \<noteq> svn_txdelta_source"
  shows "\<exists>b'. svn_txdelta__insert_op b (action_code op) (offset op) (oplen op)
        (if action_code op = svn_txdelta_new then drop (unat (offset op)) new else []) = Inr b'
    \<and> wf_baton (length src) b' (tlen + unat (oplen op))
    \<and> baton_text src b' = X @ op_bytes T new X op"
proof -
  let ?d = "if action_code op = svn_txdelta_new then drop (unat (offset op)) new else []"
  have "insertable (length src) tlen (action_code op) (unat (offset op)) (unat (oplen op)) ?d"
    using assms by (cases "action_code op") (auto simp: insertable_def op_at_def unat_eq_zero wf_window_def)
  then show ?thesis
    using insertable_in_bounds insert_op_ok [OF assms(3) order_refl, of "action_code op" "offset op" "oplen op" ?d] assms(4,9)
    by (cases "action_code op") (auto simp: op_bytes_def insert_bytes_def)
qed

lemma index_true_extend: "index_true T X ndx \<Longrightarrow> index_true T (X @ Y) ndx"
  by (fastforce simp: index_true_def cut_def)

lemma index_true_insert:
  assumes "index_true T X ndx" "ranges ndx' \<subseteq> insert (off, limit, tgt) (ranges ndx)" "off < limit" "unat limit \<le> length T"
    "unat tgt = length X"
  shows "index_true T (X @ cut T (unat off) (unat limit - unat off)) ndx'"
proof -
  let ?Z = "X @ cut T (unat off) (unat limit - unat off)"
  have "unat off < unat limit" using assms(3) by (simp add: word_less_nat_alt)
  then have "length (cut T (unat off) (unat limit - unat off)) = unat limit - unat off"
    using assms(4) by simp
  then have "cut ?Z (unat tgt) (unat limit - unat off) = cut T (unat off) (unat limit - unat off)"
    "unat tgt + (unat limit - unat off) \<le> length ?Z"
    using assms(5) by (simp_all add: cut_def [of ?Z])
  then show ?thesis
    using index_true_extend [OF assms(1)] assms(2-4) unfolding index_true_def by blast
qed

lemma compose_loop_ok:
  assumes w: "wf_window w" "length src = unat (sview_len w)"
  defines "T \<equiv> window_text w src"
  assumes "ops_at (length T) tlen npos os" "npos + new_len os \<le> length (new_data w2)" "tlen + ops_len os < 2 ^ 63"
    "wf_baton (length src) b tlen" "unat tgt = tlen" "wf_index ndx" "index_true T (baton_text src b) ndx"
  shows "\<exists>b'. compose_loop w w2 (create_offset_index w) os b ndx tgt = Inr b'
    \<and> wf_baton (length src) b' (tlen + ops_len os)
    \<and> baton_text src b' = ops_text T (new_data w2) (baton_text src b) os"
  using assms(4-)
proof (induction os arbitrary: tlen npos b tgt ndx)
  case Nil
  then show ?case by simp
next
  case (Cons op os)
  let ?X = "baton_text src b" and ?n = "unat (oplen op)"
  have op: "op_at (length T) tlen npos op" "tlen + ?n < 2 ^ 63" using Cons.prems(1,3) by simp_all
  have tgt: "unat (tgt + oplen op) = tlen + ?n" using op(2) Cons.prems(5) by (simp add: unat_add_small)
  have X: "length ?X = tlen" by (rule baton_text_length [OF Cons.prems(4) order_refl])
  have rest: "ops_at (length T) (tlen + ?n) (npos + (if action_code op = svn_txdelta_new then ?n else 0)) os"
    "tlen + ?n + ops_len os < 2 ^ 63" using Cons.prems(1,3) by simp_all
  have step: ?case
    if first: "compose_loop w w2 (create_offset_index w) (op # os) b ndx tgt =
        compose_loop w w2 (create_offset_index w) os b1 ndx1 (tgt + oplen op)"
      "wf_baton (length src) b1 (tlen + ?n)" "baton_text src b1 = ?X @ op_bytes T (new_data w2) ?X op"
      "wf_index ndx1" "index_true T (baton_text src b1) ndx1" for b1 ndx1
    using Cons.IH [OF rest(1) _ rest(2) first(2) tgt first(4,5)] Cons.prems(2) first(1,3) by (simp add: add.assoc)
  show ?case
  proof (cases "action_code op = svn_txdelta_source")
    case False
    obtain b1 where "svn_txdelta__insert_op b (action_code op) (offset op) (oplen op)
          (if action_code op = svn_txdelta_new then drop (unat (offset op)) (new_data w2) else []) = Inr b1"
      "wf_baton (length src) b1 (tlen + ?n)" "baton_text src b1 = ?X @ op_bytes T (new_data w2) ?X op"
      using copied_op_text [OF w Cons.prems(4) refl Cons.prems(5) op(1) _ op(2) False, of "new_data w2"] Cons.prems(2)
      by auto
    with False Cons.prems(6,7) show ?thesis
      by (intro step [of b1 ndx]) (auto simp: index_true_extend)
  next
    case True
    let ?off = "offset op" and ?limit = "offset op + oplen op"
    have o: "unat ?off + ?n \<le> length T" "oplen op \<noteq> 0" using op(1) True by (simp_all add: op_at_def)
    have "length T < 2 ^ 63" using length_window_text [OF w(1), of src] w by (simp add: T_def wf_window_def)
    then have limit: "unat ?limit = unat ?off + ?n" using o(1) by (intro unat_add_small) simp
    moreover have "?n > 0" using o(2) by (simp add: unat_gt_0)
    ultimately have lt: "?off < ?limit" by (simp add: word_less_nat_alt)
    obtain t rs ndx2 where ri: "splay_range_index ?off ndx = Inr (ndx\<lparr>rtree := t\<rparr>)"
      "build_range_list ?off ?limit (ndx\<lparr>rtree := t\<rparr>) = Inr rs"
      "tiles ?off ?limit rs" "list_all (range_ok (ranges ndx)) rs"
      "insert_range ?off ?limit tgt (ndx\<lparr>rtree := t\<rparr>) = Inr ndx2" "wf_index ndx2"
      "ranges ndx2 \<subseteq> insert (?off, ?limit, tgt) (ranges ndx)"
      using range_index_step [OF Cons.prems(6) lt] by blast
    obtain b1 where b1: "copy_ranges w (create_offset_index w) rs tgt b = Inr (b1, tgt + (?limit - ?off))"
      "wf_baton (length src) b1 (tlen + ?n)" "baton_text src b1 = ?X @ cut T (unat ?off) ?n"
      using copy_ranges_ok [OF w Cons.prems(7) [unfolded T_def] ri(3,4) _ _ Cons.prems(4,5), of "[]"] o limit op(2)
      by (auto simp: T_def)
    have "index_true T (baton_text src b1) ndx2"
      using index_true_insert [OF Cons.prems(7) ri(7) lt] Cons.prems(5) limit o(1) X b1(3) by simp
    then show ?thesis
      using True ri b1 by (intro step [of b1 ndx2]) (simp_all add: Let_def op_bytes_def cut_def)
  qed
qed

lemma compose_windows_ok:
  assumes "wf_window A" "wf_window B" "tview_len A = sview_len B" "length src = unat (sview_len A)"
  shows "\<exists>C. svn_txdelta_compose_windows A B = Inr C \<and> wf_window C \<and> sview_offset C = sview_offset A
    \<and> sview_len C = sview_len A \<and> tview_len C = tview_len B
    \<and> window_text C src = window_text B (window_text A src)"
proof -
  let ?b = "\<lparr>bsrc_ops = 0, bops = [], bnew_data = []\<rparr>" and ?T = "window_text A src"
  have B: "ops_at (length ?T) 0 0 (ops B)" "new_len (ops B) = length (new_data B)" "ops_len (ops B) = unat (tview_len B)"
    "unat (tview_len B) < 2 ^ 63"
    using assms length_window_text [OF assms(1), of src] by (simp_all add: wf_window_def wf_ops_iff)
  obtain b where b: "compose_loop A B (create_offset_index A) (ops B) ?b create_range_index 0 = Inr b"
    "wf_baton (length src) b (unat (tview_len B))" "baton_text src b = window_text B ?T"
    using compose_loop_ok [OF assms(1,4) B(1), of B ?b 0 create_range_index] B(2-4)
    by (auto simp: wf_baton_def baton_text_def create_range_index_def wf_index_def index_true_def ranges_def window_text_def)
  have "length (bnew_data b) < 2 ^ 63"
    using b(2) new_len_le [of "bops b"] B(4) by (simp add: wf_baton_iff)
  then show ?thesis
    using b assms by (auto simp: svn_txdelta_compose_windows_def svn_txdelta__make_window_def wf_window_def
        wf_baton_def window_text_def baton_text_def)
qed

section \<open>Theorems\<close>

text \<open>
  C7. Composing two windows: for well-formed windows of which the second works on the text that
  the first makes, composition succeeds - no assertion fails, no array is left, no search fails -
  and gives a well-formed window with the source view of the first and the target length of the
  second which, applied to any source, makes the text that the two windows make one after
  the other.
\<close>

theorem compose_windows_correct:
  assumes "wf_window A" "wf_window B" "tview_len A = sview_len B"
  shows "\<exists>C. svn_txdelta_compose_windows A B = Inr C \<and> wf_window C \<and> sview_offset C = sview_offset A
    \<and> sview_len C = sview_len A \<and> tview_len C = tview_len B
    \<and> (\<forall>src. length src = unat (sview_len A) \<longrightarrow> window_text C src = window_text B (window_text A src))"
proof -
  have "length (replicate (unat (sview_len A)) (0 :: byte)) = unat (sview_len A)" by simp
  from compose_windows_ok [OF assms this] obtain C where
    C: "svn_txdelta_compose_windows A B = Inr C" "wf_window C" "sview_offset C = sview_offset A"
    "sview_len C = sview_len A" "tview_len C = tview_len B" by blast
  then show ?thesis using compose_windows_ok [OF assms] by (intro exI [of _ C]) auto
qed

text \<open>The first window makes [2, 3, 9, 3, 9, 3] of [1, 2, 3], the second takes two parts of it.\<close>

theorem compose_windows_correct_witness:
  "\<exists>C. svn_txdelta_compose_windows
      \<lparr>sview_offset = 0, sview_len = 3, tview_len = 6, src_ops = 1,
       ops = [\<lparr>action_code = svn_txdelta_source, offset = 1, oplen = 2\<rparr>, \<lparr>action_code = svn_txdelta_new, offset = 0, oplen = 1\<rparr>,
              \<lparr>action_code = svn_txdelta_target, offset = 1, oplen = 3\<rparr>], new_data = [9]\<rparr>
      \<lparr>sview_offset = 0, sview_len = 6, tview_len = 8, src_ops = 2,
       ops = [\<lparr>action_code = svn_txdelta_source, offset = 2, oplen = 4\<rparr>, \<lparr>action_code = svn_txdelta_source, offset = 1, oplen = 4\<rparr>],
       new_data = []\<rparr> = Inr C \<and> wf_window C \<and> sview_offset C = 0 \<and> sview_len C = 3 \<and> tview_len C = 8
    \<and> (\<forall>src. length src = unat (3 :: apr_size_t) \<longrightarrow> window_text C src = window_text
      \<lparr>sview_offset = 0, sview_len = 6, tview_len = 8, src_ops = 2,
       ops = [\<lparr>action_code = svn_txdelta_source, offset = 2, oplen = 4\<rparr>, \<lparr>action_code = svn_txdelta_source, offset = 1, oplen = 4\<rparr>],
       new_data = []\<rparr> (window_text
      \<lparr>sview_offset = 0, sview_len = 3, tview_len = 6, src_ops = 1,
       ops = [\<lparr>action_code = svn_txdelta_source, offset = 1, oplen = 2\<rparr>, \<lparr>action_code = svn_txdelta_new, offset = 0, oplen = 1\<rparr>,
              \<lparr>action_code = svn_txdelta_target, offset = 1, oplen = 3\<rparr>], new_data = [9]\<rparr> src))"
  using compose_windows_correct [of "\<lparr>sview_offset = 0, sview_len = 3, tview_len = 6, src_ops = 1,
       ops = [\<lparr>action_code = svn_txdelta_source, offset = 1, oplen = 2\<rparr>, \<lparr>action_code = svn_txdelta_new, offset = 0, oplen = 1\<rparr>,
              \<lparr>action_code = svn_txdelta_target, offset = 1, oplen = 3\<rparr>], new_data = [9]\<rparr>"
      "\<lparr>sview_offset = 0, sview_len = 6, tview_len = 8, src_ops = 2,
       ops = [\<lparr>action_code = svn_txdelta_source, offset = 2, oplen = 4\<rparr>, \<lparr>action_code = svn_txdelta_source, offset = 1, oplen = 4\<rparr>],
       new_data = []\<rparr>"]
  by (simp add: wf_window_def)

end
