(* ===== verification/Diff_Lcs.thy ===== *)
theory Diff_Lcs
  imports Prelude "HOL-Library.Sublist"
begin

text \<open>
  The longest common subsequence of two token sequences (libsvn\_diff/lcs.c and the token counts
  of diff.c). A datasource is the list of its token indices; a position is an index into it,
  and the sentinel that closes the ring is the index behind the last token. The offset of a
  position is one more than the number of lines before it. A matched region is a node with the
  offsets of its two positions and its length, and a list of regions has the last one in
  front while it is built. Offsets are integers; recycling the nodes of dead ends through a free
  list is memory management and not modelled.
\<close>

section \<open>Positions\<close>

text \<open>The token under a position: the sentinels have the tokens -1 and -2.\<close>

definition token0 :: "nat list \<Rightarrow> nat \<Rightarrow> int" where
  "token0 toks i = (if i < length toks then int (toks ! i) else - 1)"

definition token1 :: "nat list \<Rightarrow> nat \<Rightarrow> int" where
  "token1 toks i = (if i < length toks then int (toks ! i) else - 2)"

definition next_position :: "nat list \<Rightarrow> nat \<Rightarrow> nat" where
  "next_position toks i = (if i < length toks then i + 1 else 0)"

definition position_offset :: "int \<Rightarrow> nat \<Rightarrow> int" where
  "position_offset prefix_lines i = prefix_lines + int i + 1"

record svn_diff__lcs_t =
  position0 :: int
  position1 :: int
  lcs_length :: int

text \<open>A furthest point; a position that was never set is NULL.\<close>

record svn_diff__snake_t =
  snake_y :: int
  snake_lcs :: "svn_diff__lcs_t list"
  snake_position0 :: "nat option"
  snake_position1 :: "nat option"

section \<open>Token counts\<close>

fun get_token_counts_loop :: "nat list \<Rightarrow> nat list \<Rightarrow> nat list svn_result" where
  "get_token_counts_loop [] token_counts = Inr token_counts"
| "get_token_counts_loop (t # ts) token_counts =
     (if t < length token_counts then get_token_counts_loop ts (token_counts[t := token_counts ! t + 1])
      else Inl C_OUT_OF_BOUNDS)"

definition svn_diff__get_token_counts :: "nat list \<Rightarrow> nat \<Rightarrow> nat list svn_result" where
  "svn_diff__get_token_counts toks num_tokens = get_token_counts_loop toks (replicate num_tokens 0)"

definition count_at :: "nat list \<Rightarrow> int \<Rightarrow> nat svn_result" where
  "count_at token_counts t =
     (if 0 \<le> t \<and> nat t < length token_counts then Inr (token_counts ! nat t) else Inl C_OUT_OF_BOUNDS)"

section \<open>Snakes\<close>

text \<open>Following a matching region.\<close>

function match_run :: "nat list \<Rightarrow> nat list \<Rightarrow> nat \<Rightarrow> nat \<Rightarrow> nat \<times> nat" where
  "match_run toks0 toks1 i j =
     (if token0 toks0 i = token1 toks1 j
      then match_run toks0 toks1 (next_position toks0 i) (next_position toks1 j) else (i, j))"
  by pat_completeness auto
termination
  by (relation "measure (\<lambda>(toks0, toks1, i, j). length toks0 - i)")
     (auto simp: token0_def token1_def next_position_def split: if_splits)

declare match_run.simps [simp del]

lemma match_run_ge: "match_run toks0 toks1 i j = (i', j') \<Longrightarrow> i \<le> i' \<and> j \<le> j'"
proof (induction toks0 toks1 i j rule: match_run.induct)
  case (1 toks0 toks1 i j)
  then show ?case
    by (subst (asm) match_run.simps)
       (auto simp: token0_def token1_def next_position_def split: if_splits)
qed

text \<open>
  The loop of \<open>svn_diff__snake\<close>: the start positions, the current positions and the regions so
  far. A token that one side does not have is skipped on the other.
\<close>

function snake_loop ::
  "nat list \<Rightarrow> nat list \<Rightarrow> nat list \<Rightarrow> nat list \<Rightarrow> int \<Rightarrow> nat \<Rightarrow> nat \<Rightarrow> nat \<Rightarrow> nat \<Rightarrow> svn_diff__lcs_t list \<Rightarrow>
   (svn_diff__lcs_t list \<times> nat \<times> nat) svn_result" where
  "snake_loop counts0 counts1 toks0 toks1 pre start0 start1 i j previous_lcs =
     (case match_run toks0 toks1 i j of (i', j') \<Rightarrow>
        let (start0', start1', lcs') =
          (if j' \<noteq> start1 then
             (i', j', \<lparr>position0 = position_offset pre start0, position1 = position_offset pre start1,
                       lcs_length = position_offset pre j' - position_offset pre start1\<rparr> # previous_lcs)
           else (start0, start1, previous_lcs))
        in
        SVN_ERR (if token0 toks0 i' \<ge> 0 then SVN_ERR (count_at counts1 (token0 toks0 i')) (\<lambda>c. Inr (c = 0)) else Inr False)
          (\<lambda>skip0.
            if skip0 then
              snake_loop counts0 counts1 toks0 toks1 pre (next_position toks0 i') start1' (next_position toks0 i') j' lcs'
            else
              SVN_ERR (if token1 toks1 j' \<ge> 0 then SVN_ERR (count_at counts0 (token1 toks1 j')) (\<lambda>c. Inr (c = 0)) else Inr False)
                (\<lambda>skip1.
                  if skip1 then
                    snake_loop counts0 counts1 toks0 toks1 pre start0' (next_position toks1 j') i' (next_position toks1 j') lcs'
                  else Inr (lcs', i', j'))))"
  by pat_completeness auto
termination
  by (relation "measure (\<lambda>(c0, c1, toks0, toks1, pre, s0, s1, i, j, lcs). (length toks0 - i) + (length toks1 - j))")
     (auto dest!: match_run_ge [OF sym] simp: token0_def token1_def next_position_def split: if_splits)

declare snake_loop.simps [simp del]

definition NULL_next :: "nat list \<Rightarrow> nat option \<Rightarrow> nat svn_result" where
  "NULL_next toks p = (case p of None \<Rightarrow> Inl C_OUT_OF_BOUNDS | Some i \<Rightarrow> Inr (next_position toks i))"

definition NULL_deref :: "nat option \<Rightarrow> nat svn_result" where
  "NULL_deref p = (case p of None \<Rightarrow> Inl C_OUT_OF_BOUNDS | Some i \<Rightarrow> Inr i)"

text \<open>\<open>svn_diff__snake\<close> on the three neighbouring furthest points; the result is the new middle one.\<close>

definition svn_diff__snake ::
  "nat list \<Rightarrow> nat list \<Rightarrow> nat list \<Rightarrow> nat list \<Rightarrow> int \<Rightarrow> svn_diff__snake_t \<Rightarrow> svn_diff__snake_t \<Rightarrow> svn_diff__snake_t svn_result" where
  "svn_diff__snake counts0 counts1 toks0 toks1 pre fp_below fp_above =
     SVN_ERR
       (if snake_y fp_below \<ge> snake_y fp_above then
          SVN_ERR (NULL_deref (snake_position0 fp_below)) (\<lambda>i.
          SVN_ERR (NULL_next toks1 (snake_position1 fp_below)) (\<lambda>j.
          Inr (i, j, snake_lcs fp_below)))
        else
          SVN_ERR (NULL_next toks0 (snake_position0 fp_above)) (\<lambda>i.
          SVN_ERR (NULL_deref (snake_position1 fp_above)) (\<lambda>j.
          Inr (i, j, snake_lcs fp_above))))
       (\<lambda>(i, j, previous_lcs).
     SVN_ERR (snake_loop counts0 counts1 toks0 toks1 pre i j i j previous_lcs) (\<lambda>(lcs, i', j').
     Inr \<lparr>snake_y = position_offset pre j', snake_lcs = lcs,
          snake_position0 = Some i', snake_position1 = Some j'\<rparr>))"

section \<open>The loops over the furthest points\<close>

text \<open>The array \<open>fp\<close> with its origin; an index outside of the array is an error.\<close>

definition fp_at :: "svn_diff__snake_t list \<Rightarrow> int \<Rightarrow> int \<Rightarrow> svn_diff__snake_t svn_result" where
  "fp_at fp origin k =
     (if 0 \<le> origin + k \<and> nat (origin + k) < length fp then Inr (fp ! nat (origin + k)) else Inl C_OUT_OF_BOUNDS)"

definition fp_set :: "svn_diff__snake_t list \<Rightarrow> int \<Rightarrow> int \<Rightarrow> svn_diff__snake_t \<Rightarrow> svn_diff__snake_t list svn_result" where
  "fp_set fp origin k s =
     (if 0 \<le> origin + k \<and> nat (origin + k) < length fp then Inr (fp[nat (origin + k) := s]) else Inl C_OUT_OF_BOUNDS)"

fun snakes ::
  "nat list \<Rightarrow> nat list \<Rightarrow> nat list \<Rightarrow> nat list \<Rightarrow> int \<Rightarrow> int \<Rightarrow> int list \<Rightarrow> svn_diff__snake_t list \<Rightarrow> svn_diff__snake_t list svn_result" where
  "snakes counts0 counts1 toks0 toks1 pre origin [] fp = Inr fp"
| "snakes counts0 counts1 toks0 toks1 pre origin (k # ks) fp =
     SVN_ERR (fp_at fp origin (k - 1)) (\<lambda>fp_below.
     SVN_ERR (fp_at fp origin (k + 1)) (\<lambda>fp_above.
     SVN_ERR (svn_diff__snake counts0 counts1 toks0 toks1 pre fp_below fp_above) (\<lambda>s.
     SVN_ERR (fp_set fp origin k s) (snakes counts0 counts1 toks0 toks1 pre origin ks))))"

text \<open>The \<open>do\<close> loop over \<open>p\<close>, with fuel for its rounds.\<close>

fun lcs_rounds ::
  "nat \<Rightarrow> nat list \<Rightarrow> nat list \<Rightarrow> nat list \<Rightarrow> nat list \<Rightarrow> int \<Rightarrow> int \<Rightarrow> int \<Rightarrow> int \<Rightarrow> svn_diff__snake_t list \<Rightarrow>
   svn_diff__lcs_t list svn_result" where
  "lcs_rounds 0 counts0 counts1 toks0 toks1 pre origin d p fp = Inl C_DIVERGES"
| "lcs_rounds (Suc fuel) counts0 counts1 toks0 toks1 pre origin d p fp =
     SVN_ERR (snakes counts0 counts1 toks0 toks1 pre origin [(if d < 0 then d else 0) - p .. -1] fp) (\<lambda>fp1.
     SVN_ERR (snakes counts0 counts1 toks0 toks1 pre origin (rev [0 .. (if d > 0 then d else 0) + p]) fp1) (\<lambda>fp2.
     SVN_ERR (fp_at fp2 origin 0) (\<lambda>end_point.
     if snake_position1 end_point \<noteq> Some (length toks1)
     then lcs_rounds fuel counts0 counts1 toks0 toks1 pre origin d (p + 1) fp2
     else Inr (snake_lcs end_point))))"

definition svn_diff__lcs_reverse :: "svn_diff__lcs_t list \<Rightarrow> svn_diff__lcs_t list" where
  "svn_diff__lcs_reverse lcs = foldl (\<lambda>acc node. node # acc) [] lcs"

definition prepend_lcs :: "svn_diff__lcs_t list \<Rightarrow> int \<Rightarrow> int \<Rightarrow> int \<Rightarrow> svn_diff__lcs_t list svn_result" where
  "prepend_lcs lcs lines pos0_offset pos1_offset =
     SVN_ERR_ASSERT (lines > 0)
       (Inr (\<lparr>position0 = pos0_offset, position1 = pos1_offset, lcs_length = lines\<rparr> # lcs))"

text \<open>The number of tokens of a side that the other side does not have.\<close>

fun unique_loop :: "nat list \<Rightarrow> nat list \<Rightarrow> nat list \<Rightarrow> nat \<Rightarrow> nat \<Rightarrow> (nat \<times> nat) svn_result" where
  "unique_loop counts0 counts1 [] u0 u1 = Inr (u0, u1)"
| "unique_loop counts0 counts1 (t # ts) u0 u1 =
     SVN_ERR (count_at counts0 (int t)) (\<lambda>c0.
     SVN_ERR (count_at counts1 (int t)) (\<lambda>c1.
     unique_loop counts0 counts1 ts (if c1 = 0 then u0 + c0 else u0) (if c0 = 0 then u1 + c1 else u1)))"

definition svn_diff__lcs ::
  "nat list \<Rightarrow> nat list \<Rightarrow> nat list \<Rightarrow> nat list \<Rightarrow> nat \<Rightarrow> int \<Rightarrow> int \<Rightarrow> svn_diff__lcs_t list svn_result" where
  "svn_diff__lcs toks0 toks1 counts0 counts1 num_tokens prefix_lines suffix_lines =
     (let eof = \<lparr>position0 = prefix_lines + int (length toks0) + suffix_lines + 1,
                 position1 = prefix_lines + int (length toks1) + suffix_lines + 1, lcs_length = 0\<rparr>
      in
      if toks0 = [] \<or> toks1 = [] then
        SVN_ERR (if suffix_lines \<noteq> 0
                 then prepend_lcs [eof] suffix_lines (position0 eof - suffix_lines) (position1 eof - suffix_lines)
                 else Inr [eof]) (\<lambda>lcs.
        if prefix_lines \<noteq> 0 then prepend_lcs lcs prefix_lines 1 1 else Inr lcs)
      else
        SVN_ERR (unique_loop counts0 counts1 [0..<num_tokens] 0 0) (\<lambda>(u0, u1).
        let length0 = int (length toks0) - int u0;
            length1 = int (length toks1) - int u1;
            origin = length1 + 1;
            d = length0 - length1;
            fp = replicate (nat (length0 + length1 + 3))
                   \<lparr>snake_y = 0, snake_lcs = [], snake_position0 = None, snake_position1 = None\<rparr>
        in
        SVN_ERR (fp_set fp origin (d - 1)
                   \<lparr>snake_y = 0, snake_lcs = [], snake_position0 = Some 0, snake_position1 = Some (length toks1)\<rparr>) (\<lambda>fp1.
        SVN_ERR (lcs_rounds (length fp1) counts0 counts1 toks0 toks1 prefix_lines origin d 0 fp1) (\<lambda>regions.
        SVN_ERR (if suffix_lines \<noteq> 0
                 then prepend_lcs regions suffix_lines (position0 eof - suffix_lines) (position1 eof - suffix_lines)
                 else Inr regions) (\<lambda>before_eof.
        let lcs = svn_diff__lcs_reverse (eof # before_eof) in
        if prefix_lines \<noteq> 0 then prepend_lcs lcs prefix_lines 1 1 else Inr lcs)))))"

section \<open>Tokens that both sides have\<close>

text \<open>
  Only tokens that both sides have count: \<open>rank A B i\<close> is the number of them before \<open>i\<close> in
  \<open>A\<close>, and a position is settled when it is at such a token or at the end.
\<close>

definition rank :: "nat list \<Rightarrow> nat list \<Rightarrow> nat \<Rightarrow> nat" where
  "rank A B i = length (filter (\<lambda>t. t \<in> set B) (take i A))"

definition settled :: "nat list \<Rightarrow> nat list \<Rightarrow> nat \<Rightarrow> bool" where
  "settled A B i \<longleftrightarrow> i \<le> length A \<and> (i < length A \<longrightarrow> A ! i \<in> set B)"

lemma rank_0 [simp]: "rank A B 0 = 0"
  by (simp add: rank_def)

lemma rank_Suc: "i < length A \<Longrightarrow> rank A B (Suc i) = rank A B i + (if A ! i \<in> set B then 1 else 0)"
  by (simp add: rank_def take_Suc_conv_app_nth)

lemma rank_mono: "i \<le> j \<Longrightarrow> rank A B i \<le> rank A B j"
proof -
  assume "i \<le> j"
  then have "take j A = take i A @ take (j - i) (drop i A)" by (metis le_add_diff_inverse take_add)
  then show ?thesis by (simp add: rank_def)
qed

lemma rank_less: "settled A B i \<Longrightarrow> i < j \<Longrightarrow> j \<le> length A \<Longrightarrow> rank A B i < rank A B j"
  using rank_Suc [of i A B] rank_mono [of "Suc i" j A B] by (simp add: settled_def)

lemma rank_end: "settled A B i \<Longrightarrow> rank A B (length A) \<le> rank A B i \<Longrightarrow> i = length A"
  using rank_less [of A B i "length A"] by (force simp: settled_def)

lemma rank_add: "i + m \<le> length A \<Longrightarrow> (\<forall>q < m. A ! (i + q) \<in> set B) \<Longrightarrow> rank A B (i + m) = rank A B i + m"
  by (induction m) (simp_all add: rank_Suc)

lemma match_run_ok:
  assumes "match_run A B i j = (i', j')" "i \<le> length A" "j \<le> length B"
  shows "\<exists>m. i' = i + m \<and> j' = j + m \<and> i' \<le> length A \<and> j' \<le> length B \<and> (\<forall>q < m. A ! (i + q) = B ! (j + q))
    \<and> \<not> (i' < length A \<and> j' < length B \<and> A ! i' = B ! j')"
  using assms
proof (induction A B i j rule: match_run.induct)
  case (1 A B i j)
  show ?case
  proof (cases "token0 A i = token1 B j")
    case True
    then have lt: "i < length A" "j < length B" "A ! i = B ! j" by (auto simp: token0_def token1_def split: if_splits)
    have "match_run A B (i + 1) (j + 1) = (i', j')"
      using "1.prems"(1) True lt(1,2) by (simp add: match_run.simps [of A B i j] next_position_def)
    then obtain m where m: "i' = i + 1 + m" "j' = j + 1 + m" "i' \<le> length A" "j' \<le> length B"
      "\<forall>q < m. A ! (i + 1 + q) = B ! (j + 1 + q)" "\<not> (i' < length A \<and> j' < length B \<and> A ! i' = B ! j')"
      using "1.IH" [OF True] lt by (auto simp: next_position_def)
    have "A ! (i + q) = B ! (j + q)" if "q < Suc m" for q
      using that m(5) lt(3) by (cases q) auto
    then show ?thesis using m by (intro exI [of _ "Suc m"]) auto
  next
    case False
    then show ?thesis using "1.prems"
      by (intro exI [of _ 0]) (auto simp: match_run.simps [of A B i j] token0_def token1_def split: if_splits)
  qed
qed

section \<open>Matched regions\<close>

text \<open>
  A list of regions, the last one in front, of tokens that agree, in order and before the
  positions \<open>i\<close> and \<open>j\<close>; and the number of tokens they match.
\<close>

definition region_at :: "nat list \<Rightarrow> nat list \<Rightarrow> int \<Rightarrow> svn_diff__lcs_t \<Rightarrow> nat \<Rightarrow> nat \<Rightarrow> nat \<Rightarrow> bool" where
  "region_at A B pre r s0 s1 n \<longleftrightarrow>
     r = \<lparr>position0 = position_offset pre s0, position1 = position_offset pre s1, lcs_length = int n\<rparr>
     \<and> n > 0 \<and> (\<forall>q < n. A ! (s0 + q) = B ! (s1 + q))"

fun regions :: "nat list \<Rightarrow> nat list \<Rightarrow> int \<Rightarrow> svn_diff__lcs_t list \<Rightarrow> nat \<Rightarrow> nat \<Rightarrow> bool" where
  "regions A B pre [] i j = True"
| "regions A B pre (r # rs) i j =
     (\<exists>s0 s1 n. region_at A B pre r s0 s1 n \<and> s0 + n \<le> i \<and> s1 + n \<le> j \<and> regions A B pre rs s0 s1)"

definition matched :: "svn_diff__lcs_t list \<Rightarrow> int" where
  "matched rs = sum_list (map lcs_length rs)"

lemma matched_simps [simp]: "matched [] = 0" "matched (r # rs) = lcs_length r + matched rs"
  "matched (rs @ rs') = matched rs + matched rs'"
  by (simp_all add: matched_def)

lemma regions_mono: "regions A B pre rs i j \<Longrightarrow> i \<le> i' \<Longrightarrow> j \<le> j' \<Longrightarrow> regions A B pre rs i' j'"
  by (cases rs) (auto intro: order_trans)

text \<open>The counts belong to the tokens.\<close>

definition counts_ok :: "nat \<Rightarrow> nat list \<Rightarrow> nat list \<Rightarrow> bool" where
  "counts_ok n A counts \<longleftrightarrow> length counts = n \<and> (\<forall>t < n. counts ! t = count_list A t)"

lemma count_at_ok:
  assumes "counts_ok n A counts" "t < n"
  shows "count_at counts (int t) = Inr (count_list A t)"
  using assms by (simp add: counts_ok_def count_at_def)

lemma counts_loop_ok:
  "set ts \<subseteq> {..<length counts} \<Longrightarrow>
   \<exists>counts'. get_token_counts_loop ts counts = Inr counts' \<and> length counts' = length counts
     \<and> (\<forall>t < length counts. counts' ! t = counts ! t + count_list ts t)"
proof (induction ts arbitrary: counts)
  case (Cons t ts)
  let ?c = "counts[t := counts ! t + 1]"
  obtain c' where "get_token_counts_loop ts ?c = Inr c'" "length c' = length ?c"
    "\<forall>u < length ?c. c' ! u = ?c ! u + count_list ts u"
    using Cons.IH [of ?c] Cons.prems by auto
  then show ?case using Cons.prems by (auto simp: nth_list_update)
qed simp

lemma token_counts_ok:
  "set A \<subseteq> {..<n} \<Longrightarrow> \<exists>counts. svn_diff__get_token_counts A n = Inr counts \<and> counts_ok n A counts"
  using counts_loop_ok [of A "replicate n 0"] by (auto simp: svn_diff__get_token_counts_def counts_ok_def)

lemma skip_test:
  assumes "counts_ok n B c1" "set A \<subseteq> {..<n}" "i \<le> length A"
  shows "(if token0 A i \<ge> 0 then SVN_ERR (count_at c1 (token0 A i)) (\<lambda>c. Inr (c = 0)) else Inr False)
      = Inr (\<not> settled A B i)"
    and "(if token1 A i \<ge> 0 then SVN_ERR (count_at c1 (token1 A i)) (\<lambda>c. Inr (c = 0)) else Inr False)
      = Inr (\<not> settled A B i)"
proof -
  have "A ! i < n" if "i < length A" using assms(2) nth_mem [OF that] by auto
  then show "(if token0 A i \<ge> 0 then SVN_ERR (count_at c1 (token0 A i)) (\<lambda>c. Inr (c = 0)) else Inr False)
      = Inr (\<not> settled A B i)"
    and "(if token1 A i \<ge> 0 then SVN_ERR (count_at c1 (token1 A i)) (\<lambda>c. Inr (c = 0)) else Inr False)
      = Inr (\<not> settled A B i)"
    using assms(1,3) by (auto simp: token0_def token1_def settled_def count_at_ok count_list_0_iff)
qed

text \<open>The region that a run of matching tokens adds.\<close>

definition add_region :: "int \<Rightarrow> nat \<Rightarrow> nat \<Rightarrow> nat \<Rightarrow> svn_diff__lcs_t list \<Rightarrow> svn_diff__lcs_t list" where
  "add_region pre i j j' lcs =
     (if j' \<noteq> j then \<lparr>position0 = position_offset pre i, position1 = position_offset pre j, lcs_length = int (j' - j)\<rparr> # lcs
      else lcs)"

lemma matched_add_region: "j \<le> j' \<Longrightarrow> matched (add_region pre i j j' lcs) = matched lcs + int (j' - j)"
  by (simp add: add_region_def)

lemma regions_add_region:
  "regions A B pre lcs i j \<Longrightarrow> (\<forall>q < m. A ! (i + q) = B ! (j + q)) \<Longrightarrow> regions A B pre (add_region pre i j (j + m) lcs) (i + m) (j + m)"
  by (cases "m = 0") (auto simp: add_region_def region_at_def intro: exI [of _ i] exI [of _ j])

lemma snake_loop_step:
  assumes "counts_ok n A c0" "counts_ok n B c1" "set A \<subseteq> {..<n}" "set B \<subseteq> {..<n}"
    and "match_run A B i j = (i', j')" "i' \<le> length A" "j' \<le> length B" "j' = j + m" "i' = i + m"
  shows "snake_loop c0 c1 A B pre i j i j lcs =
    (let lcs' = add_region pre i j j' lcs in
     if \<not> settled A B i' then snake_loop c0 c1 A B pre (i' + 1) j' (i' + 1) j' lcs'
     else if \<not> settled B A j' then snake_loop c0 c1 A B pre i' (j' + 1) i' (j' + 1) lcs'
     else Inr (lcs', i', j'))"
  using assms(6,7,8,9)
  by (subst snake_loop.simps)
     (auto simp: assms(5) add_region_def position_offset_def Let_def settled_def next_position_def
       skip_test(1) [OF assms(2,3)] skip_test(2) [OF assms(1,4)])

lemma snake_loop_ok:
  assumes c: "counts_ok n A c0" "counts_ok n B c1" "set A \<subseteq> {..<n}" "set B \<subseteq> {..<n}"
    and "i \<le> length A" "j \<le> length B" "regions A B pre lcs i j"
  shows "\<exists>lcs' i' j'. snake_loop c0 c1 A B pre i j i j lcs = Inr (lcs', i', j')
    \<and> i \<le> i' \<and> j \<le> j' \<and> settled A B i' \<and> settled B A j' \<and> regions A B pre lcs' i' j'
    \<and> int (rank A B i') - int (rank A B i) = int (rank B A j') - int (rank B A j)
    \<and> matched lcs' - matched lcs = int (rank B A j') - int (rank B A j)
    \<and> \<not> (i' < length A \<and> j' < length B \<and> A ! i' = B ! j')"
  using assms(5-)
proof (induction "length A - i + (length B - j)" arbitrary: i j lcs rule: less_induct)
  case less
  obtain i1 j1 where run: "match_run A B i j = (i1, j1)" by fastforce
  from match_run_ok [OF run less.prems(1,2)] obtain m where
    m: "i1 = i + m" "j1 = j + m" "i1 \<le> length A" "j1 \<le> length B" "\<forall>q < m. A ! (i + q) = B ! (j + q)"
      "\<not> (i1 < length A \<and> j1 < length B \<and> A ! i1 = B ! j1)" by blast
  have in_both: "\<forall>q < m. A ! (i + q) \<in> set B" "\<forall>q < m. B ! (j + q) \<in> set A"
    using m(1-5) by (metis add_less_cancel_left nth_mem order_less_le_trans)+
  have ranks: "rank A B i1 = rank A B i + m" "rank B A j1 = rank B A j + m"
    using rank_add [of i m A B] rank_add [of j m B A] in_both m(1-4) by simp_all
  let ?lcs = "add_region pre i j j1 lcs"
  have lcs: "regions A B pre ?lcs i1 j1" "matched ?lcs = matched lcs + int m"
    using regions_add_region [OF less.prems(3) m(5)] m(1,2) by (simp_all add: matched_add_region)
  note step = snake_loop_step [OF c run m(3,4,2,1), of pre lcs]
  show ?case
  proof (cases "settled A B i1")
    case False
    then have i1: "i1 < length A" "A ! i1 \<notin> set B" using m(3) by (auto simp: settled_def)
    have "snake_loop c0 c1 A B pre i j i j lcs = snake_loop c0 c1 A B pre (i1 + 1) j1 (i1 + 1) j1 ?lcs"
      using step False by (simp add: Let_def)
    with less.hyps [of "i1 + 1" j1 ?lcs] show ?thesis
      using i1 m(1,2,4) lcs ranks regions_mono [OF lcs(1), of "i1 + 1" j1] by (fastforce simp: rank_Suc)
  next
    case A: True
    show ?thesis
    proof (cases "settled B A j1")
      case False
      then have j1: "j1 < length B" "B ! j1 \<notin> set A" using m(4) by (auto simp: settled_def)
      have "snake_loop c0 c1 A B pre i j i j lcs = snake_loop c0 c1 A B pre i1 (j1 + 1) i1 (j1 + 1) ?lcs"
        using step False A by (simp add: Let_def)
      with less.hyps [of i1 "j1 + 1" ?lcs] show ?thesis
        using j1 m(1-3) lcs ranks regions_mono [OF lcs(1), of i1 "j1 + 1"] by (fastforce simp: rank_Suc)
    next
      case True
      then show ?thesis using step A m lcs ranks by (auto simp: Let_def)
    qed
  qed
qed

section \<open>Furthest points\<close>

text \<open>
  A point that was reached on the diagonal \<open>k\<close>: both positions are settled with different tokens, and \<open>k\<close>
  is the difference of the tokens that remain. Its height is its rank in the second sequence. Its
  cost is the number of tokens of the second sequence that it leaves unmatched.
\<close>

abbreviation shared where "shared A B \<equiv> int (rank A B (length A))"
abbreviation delta where "delta A B \<equiv> shared A B - shared B A"

definition reached :: "svn_diff__snake_t \<Rightarrow> bool" where
  "reached s \<longleftrightarrow> snake_y s \<noteq> 0"

definition height :: "nat list \<Rightarrow> nat list \<Rightarrow> svn_diff__snake_t \<Rightarrow> int" where
  "height A B s = int (rank B A (the (snake_position1 s)))"

definition unmatched :: "nat list \<Rightarrow> nat list \<Rightarrow> svn_diff__snake_t \<Rightarrow> int" where
  "unmatched A B s = height A B s - matched (snake_lcs s)"

definition point :: "nat list \<Rightarrow> nat list \<Rightarrow> int \<Rightarrow> int \<Rightarrow> svn_diff__snake_t \<Rightarrow> bool" where
  "point A B pre k s \<longleftrightarrow> (\<exists>i j. snake_position0 s = Some i \<and> snake_position1 s = Some j
     \<and> snake_y s = position_offset pre j \<and> settled A B i \<and> settled B A j
     \<and> \<not> (i < length A \<and> j < length B \<and> A ! i = B ! j)
     \<and> int (rank A B i) = height A B s + delta A B - k \<and> regions A B pre (snake_lcs s) i j)"

definition good :: "nat list \<Rightarrow> nat list \<Rightarrow> int \<Rightarrow> int \<Rightarrow> svn_diff__snake_t \<Rightarrow> bool" where
  "good A B pre k s \<longleftrightarrow> snake_y s \<ge> 0 \<and> (reached s \<longrightarrow> point A B pre k s)"

lemma rank_le: "i \<le> length A \<Longrightarrow> rank A B i \<le> rank A B (length A)"
  by (rule rank_mono)

lemma point_bounds:
  assumes "point A B pre k s"
  shows "height A B s \<ge> 0" "height A B s \<le> shared B A" "height A B s + delta A B - k \<ge> 0"
    "height A B s \<le> shared B A + k"
proof -
  from assms obtain i j where p: "snake_position1 s = Some j" "settled A B i" "settled B A j"
    "int (rank A B i) = height A B s + delta A B - k" by (auto simp: point_def)
  show "height A B s \<ge> 0" by (simp add: height_def)
  show "height A B s \<le> shared B A" using p(1,3) rank_le [of j B A] by (simp add: height_def settled_def)
  show "height A B s + delta A B - k \<ge> 0" using p(4) by linarith
  show "height A B s \<le> shared B A + k" using p(2,4) rank_le [of i A B] by (simp add: settled_def)
qed

lemma point_reached: "point A B pre k s \<Longrightarrow> 0 \<le> pre \<Longrightarrow> reached s \<and> snake_y s \<ge> 0"
  by (auto simp: point_def reached_def position_offset_def)

lemma rank_less_iff:
  assumes "settled A B i" "settled A B j"
  shows "rank A B i < rank A B j \<longleftrightarrow> i < j"
proof (cases "i < j")
  case True
  then show ?thesis using rank_less [OF assms(1) True] assms(2) by (simp add: settled_def)
next
  case False
  then show ?thesis using rank_mono [of j i A B] by simp
qed

lemma point_order:
  assumes "point A B pre k s" "point A B pre k' s'"
  shows "height A B s < height A B s' \<longleftrightarrow> snake_y s < snake_y s'"
  using assms rank_less_iff [of B A] by (auto simp: point_def height_def position_offset_def)

text \<open>What a snake from a start position gives.\<close>

lemma snake_from:
  assumes "counts_ok n A c0" "counts_ok n B c1" "set A \<subseteq> {..<n}" "set B \<subseteq> {..<n}"
    and "i \<le> length A" "j \<le> length B" "regions A B pre lcs i j"
    and "int (rank A B i) = int (rank B A j) + delta A B - k"
  shows "\<exists>lcs' i' j'. snake_loop c0 c1 A B pre i j i j lcs = Inr (lcs', i', j') \<and>
    (let s = \<lparr>snake_y = position_offset pre j', snake_lcs = lcs', snake_position0 = Some i', snake_position1 = Some j'\<rparr>
     in point A B pre k s \<and> height A B s \<ge> int (rank B A j) \<and> unmatched A B s = int (rank B A j) - matched lcs)"
proof -
  from snake_loop_ok [OF assms(1-7)] obtain lcs' i' j' where
    s: "snake_loop c0 c1 A B pre i j i j lcs = Inr (lcs', i', j')" "j \<le> j'" "settled A B i'" "settled B A j'"
      "regions A B pre lcs' i' j'" "int (rank A B i') - int (rank A B i) = int (rank B A j') - int (rank B A j)"
      "matched lcs' - matched lcs = int (rank B A j') - int (rank B A j)"
      "\<not> (i' < length A \<and> j' < length B \<and> A ! i' = B ! j')" by blast
  moreover have "rank B A j \<le> rank B A j'" using s(2) by (rule rank_mono)
  ultimately show ?thesis using assms(8) by (simp add: point_def height_def unmatched_def Let_def)
qed

text \<open>One snake: it starts from the higher of its two neighbours, after a deletion or an insertion.\<close>

lemma snake_ok:
  assumes c: "counts_ok n A c0" "counts_ok n B c1" "set A \<subseteq> {..<n}" "set B \<subseteq> {..<n}" "0 \<le> pre"
    and good: "good A B pre (k - 1) below'" "good A B pre (k + 1) above'" "reached below' \<or> reached above'"
    and room: "reached below' \<Longrightarrow> height A B below' < shared B A"
      "reached above' \<Longrightarrow> height A B above' < shared B A + k + 1"
  shows "\<exists>s. svn_diff__snake c0 c1 A B pre below' above' = Inr s \<and> point A B pre k s
    \<and> (reached below' \<longrightarrow> height A B below' + 1 \<le> height A B s)
    \<and> (reached above' \<longrightarrow> height A B above' \<le> height A B s)
    \<and> (reached below' \<and> unmatched A B s = unmatched A B below' + 1 \<or>
       reached above' \<and> unmatched A B s = unmatched A B above')"
proof (cases "snake_y below' \<ge> snake_y above'")
  case True
  then have b: "reached below'" using good by (auto simp: good_def reached_def)
  then obtain i j where p: "snake_position0 below' = Some i" "snake_position1 below' = Some j"
    "settled A B i" "settled B A j" "int (rank A B i) = height A B below' + delta A B - (k - 1)"
    "regions A B pre (snake_lcs below') i j" using good(1) by (auto simp: good_def point_def)
  have h: "height A B below' = int (rank B A j)" using p(2) by (simp add: height_def)
  have lt: "j < length B" using room(1) [OF b] h p(4) by (cases "j = length B") (auto simp: settled_def)
  then have r: "rank B A (j + 1) = rank B A j + 1" using p(4) by (simp add: rank_Suc settled_def)
  have "\<exists>lcs' i' j'. snake_loop c0 c1 A B pre i (j + 1) i (j + 1) (snake_lcs below') = Inr (lcs', i', j') \<and>
    (let s = \<lparr>snake_y = position_offset pre j', snake_lcs = lcs', snake_position0 = Some i', snake_position1 = Some j'\<rparr>
     in point A B pre k s \<and> height A B s \<ge> int (rank B A (j + 1))
      \<and> unmatched A B s = int (rank B A (j + 1)) - matched (snake_lcs below'))"
    using p lt r h regions_mono [OF p(6), of i "j + 1"]
    by (intro snake_from [OF c(1-4)]) (simp_all add: settled_def)
  moreover have "reached above' \<longrightarrow> height A B above' \<le> height A B below'"
    using True b good(1,2) point_order [of A B pre "k - 1" below' "k + 1" above'] by (auto simp: good_def)
  ultimately show ?thesis using p lt b h r True
    by (auto simp: svn_diff__snake_def NULL_deref_def NULL_next_def next_position_def Let_def unmatched_def)
next
  case False
  then have a: "reached above'" using good by (auto simp: good_def reached_def)
  then obtain i j where p: "snake_position0 above' = Some i" "snake_position1 above' = Some j"
    "settled A B i" "settled B A j" "int (rank A B i) = height A B above' + delta A B - (k + 1)"
    "regions A B pre (snake_lcs above') i j" using good(2) by (auto simp: good_def point_def)
  have h: "height A B above' = int (rank B A j)" using p(2) by (simp add: height_def)
  have lt: "i < length A" using room(2) [OF a] p(3,5) by (cases "i = length A") (auto simp: settled_def)
  then have r: "rank A B (i + 1) = rank A B i + 1" using p(3) by (simp add: rank_Suc settled_def)
  have "\<exists>lcs' i' j'. snake_loop c0 c1 A B pre (i + 1) j (i + 1) j (snake_lcs above') = Inr (lcs', i', j') \<and>
    (let s = \<lparr>snake_y = position_offset pre j', snake_lcs = lcs', snake_position0 = Some i', snake_position1 = Some j'\<rparr>
     in point A B pre k s \<and> height A B s \<ge> int (rank B A j)
      \<and> unmatched A B s = int (rank B A j) - matched (snake_lcs above'))"
    using p lt r h regions_mono [OF p(6), of "i + 1" j]
    by (intro snake_from [OF c(1-4)]) (simp_all add: settled_def)
  moreover have "reached below' \<longrightarrow> height A B below' < height A B above'"
    using False a good(1,2) point_order [of A B pre "k - 1" below' "k + 1" above'] by (auto simp: good_def)
  ultimately show ?thesis using p lt a h r False
    by (auto simp: svn_diff__snake_def NULL_deref_def NULL_next_def next_position_def Let_def unmatched_def)
qed

end
