(* ===== verification/Diff_Rounds.thy ===== *)
theory Diff_Rounds
  imports Diff_Lcs
begin

text \<open>
  The rounds of the longest common subsequence search (libsvn\_diff/lcs.c): after every round the
  array of furthest points holds, for every diagonal, the furthest point that can be reached with
  that many steps away from the end diagonal. So the search ends, in the array, and the first
  point at both ends has a longest common subsequence.
\<close>

section \<open>The array of furthest points\<close>

definition slots :: "nat list \<Rightarrow> nat list \<Rightarrow> svn_diff__snake_t list \<Rightarrow> (int \<Rightarrow> svn_diff__snake_t) \<Rightarrow> bool" where
  "slots A B fp g \<longleftrightarrow> int (length fp) = shared A B + shared B A + 3
     \<and> (\<forall>k. - shared B A - 1 \<le> k \<and> k \<le> shared A B + 1 \<longrightarrow> fp ! nat (shared B A + 1 + k) = g k)"

lemma slots_at:
  "slots A B fp g \<Longrightarrow> - shared B A - 1 \<le> k \<Longrightarrow> k \<le> shared A B + 1 \<Longrightarrow> fp_at fp (shared B A + 1) k = Inr (g k)"
  by (simp add: slots_def fp_at_def nat_less_iff)

lemma slots_set:
  "slots A B fp g \<Longrightarrow> - shared B A - 1 \<le> k \<Longrightarrow> k \<le> shared A B + 1 \<Longrightarrow>
   \<exists>fp'. fp_set fp (shared B A + 1) k s = Inr fp' \<and> slots A B fp' (g(k := s))"
  by (auto simp: slots_def fp_set_def nth_list_update nat_less_iff nat_eq_iff)

lemma snakes_step:
  assumes "slots A B fp g" "- shared B A \<le> k" "k \<le> shared A B"
    and "svn_diff__snake c0 c1 A B pre (g (k - 1)) (g (k + 1)) = Inr s"
  shows "\<exists>fp'. slots A B fp' (g(k := s)) \<and>
    (\<forall>ks. snakes c0 c1 A B pre (shared B A + 1) (k # ks) fp = snakes c0 c1 A B pre (shared B A + 1) ks fp')"
proof -
  obtain fp' where "fp_set fp (shared B A + 1) k s = Inr fp'" "slots A B fp' (g(k := s))"
    using slots_set [OF assms(1), of k s] assms(2,3) by auto
  then show ?thesis using assms slots_at [OF assms(1), of "k - 1"] slots_at [OF assms(1), of "k + 1"]
    by (intro exI [of _ fp']) simp
qed

lemma up_ok:
  assumes c: "counts_ok n A c0" "counts_ok n B c1" "set A \<subseteq> {..<n}" "set B \<subseteq> {..<n}" "0 \<le> pre"
    and "slots A B fp g" "- shared B A \<le> a" "a \<le> 0" "\<forall>k. good A B pre k (g k)"
    and "a < 0 \<Longrightarrow> reached (g (a - 1)) \<or> reached (g (a + 1))"
    and "\<forall>k. a < k \<and> k \<le> 0 \<and> reached (g k) \<longrightarrow> height A B (g k) < shared B A + k \<and> unmatched A B (g k) \<le> b - 1 + k"
    and "reached (g (a - 1)) \<Longrightarrow> unmatched A B (g (a - 1)) \<le> b + a - 1"
  shows "\<exists>fp' g'. snakes c0 c1 A B pre (shared B A + 1) [a..-1] fp = Inr fp' \<and> slots A B fp' g'
    \<and> (\<forall>k. k < a \<or> 0 \<le> k \<longrightarrow> g' k = g k)
    \<and> (\<forall>k. a \<le> k \<and> k < 0 \<longrightarrow> point A B pre k (g' k) \<and> unmatched A B (g' k) \<le> b + k
        \<and> (reached (g' (k - 1)) \<longrightarrow> height A B (g' (k - 1)) + 1 \<le> height A B (g' k))
        \<and> (reached (g (k + 1)) \<longrightarrow> height A B (g (k + 1)) \<le> height A B (g' k)))"
  using assms(6-)
proof (induction "nat (- a)" arbitrary: a fp g)
  case 0
  then show ?case by auto
next
  case (Suc m)
  then have a: "a < 0" by simp
  have "- a \<le> shared B A" using Suc.prems(2) by simp
  have "a \<le> shared A B" using a by linarith
  have "height A B (g (a - 1)) < shared B A" if "reached (g (a - 1))"
    using that Suc.prems(4) point_bounds(4) [of A B pre "a - 1" "g (a - 1)"] a by (force simp: good_def)
  moreover have "height A B (g (a + 1)) < shared B A + a + 1" if "reached (g (a + 1))"
    using that Suc.prems(6) a by (smt (verit))
  ultimately obtain s where s: "svn_diff__snake c0 c1 A B pre (g (a - 1)) (g (a + 1)) = Inr s" "point A B pre a s"
      "reached (g (a - 1)) \<longrightarrow> height A B (g (a - 1)) + 1 \<le> height A B s"
      "reached (g (a + 1)) \<longrightarrow> height A B (g (a + 1)) \<le> height A B s"
      "reached (g (a - 1)) \<and> unmatched A B s = unmatched A B (g (a - 1)) + 1 \<or>
       reached (g (a + 1)) \<and> unmatched A B s = unmatched A B (g (a + 1))"
    using snake_ok [OF c, of a "g (a - 1)" "g (a + 1)"] Suc.prems(4,5) a by blast
  have cost: "unmatched A B s \<le> b + a"
    using s(5) Suc.prems(6,7) a by (smt (verit))
  have "[a..-1] = a # [a + 1..-1]" using a by (simp add: upto_rec1)
  with snakes_step [OF Suc.prems(1,2) \<open>a \<le> shared A B\<close> s(1)] obtain fp1 where
    fp1: "slots A B fp1 (g(a := s))"
      "snakes c0 c1 A B pre (shared B A + 1) [a..-1] fp = snakes c0 c1 A B pre (shared B A + 1) [a + 1..-1] fp1" by auto
  have "m = nat (- (a + 1))" using Suc.hyps(2) by simp
  have "\<forall>k. good A B pre k ((g(a := s)) k)"
    using Suc.prems(4) s(2) point_reached [OF s(2) c(5)] by (simp add: good_def)
  then have "\<exists>fp' g'. snakes c0 c1 A B pre (shared B A + 1) [a + 1..-1] fp1 = Inr fp' \<and> slots A B fp' g'
    \<and> (\<forall>k. k < a + 1 \<or> 0 \<le> k \<longrightarrow> g' k = (g(a := s)) k)
    \<and> (\<forall>k. a + 1 \<le> k \<and> k < 0 \<longrightarrow> point A B pre k (g' k) \<and> unmatched A B (g' k) \<le> b + k
        \<and> (reached (g' (k - 1)) \<longrightarrow> height A B (g' (k - 1)) + 1 \<le> height A B (g' k))
        \<and> (reached ((g(a := s)) (k + 1)) \<longrightarrow> height A B ((g(a := s)) (k + 1)) \<le> height A B (g' k)))"
    using Suc.prems(2,6) a cost point_reached [OF s(2) c(5)]
    by (intro Suc.hyps(1) [OF \<open>m = nat (- (a + 1))\<close> fp1(1)]) auto
  then obtain fp' g' where r: "snakes c0 c1 A B pre (shared B A + 1) [a + 1..-1] fp1 = Inr fp'" "slots A B fp' g'"
    "\<And>k. k < a + 1 \<or> 0 \<le> k \<Longrightarrow> g' k = (g(a := s)) k"
    "\<And>k. a + 1 \<le> k \<and> k < 0 \<Longrightarrow> point A B pre k (g' k) \<and> unmatched A B (g' k) \<le> b + k
        \<and> (reached (g' (k - 1)) \<longrightarrow> height A B (g' (k - 1)) + 1 \<le> height A B (g' k))
        \<and> (reached ((g(a := s)) (k + 1)) \<longrightarrow> height A B ((g(a := s)) (k + 1)) \<le> height A B (g' k))" by blast
  have "point A B pre k (g' k) \<and> unmatched A B (g' k) \<le> b + k
        \<and> (reached (g' (k - 1)) \<longrightarrow> height A B (g' (k - 1)) + 1 \<le> height A B (g' k))
        \<and> (reached (g (k + 1)) \<longrightarrow> height A B (g (k + 1)) \<le> height A B (g' k))" if "a \<le> k \<and> k < 0" for k
  proof (cases "k = a")
    case True
    then show ?thesis using r(3) [of a] r(3) [of "a - 1"] s cost by simp
  next
    case False
    then show ?thesis using that r(4) [of k] by simp
  qed
  then show ?case using fp1(2) r(1,2,3) a by (intro exI [of _ fp'] exI [of _ g']) auto
qed

lemma down_ok:
  assumes c: "counts_ok n A c0" "counts_ok n B c1" "set A \<subseteq> {..<n}" "set B \<subseteq> {..<n}" "0 \<le> pre"
    and "slots A B fp g" "h \<le> shared A B" "- 1 \<le> h" "\<forall>k. good A B pre k (g k)"
    and "0 \<le> h \<Longrightarrow> reached (g (h - 1)) \<or> reached (g (h + 1))"
    and "\<forall>k. - 1 \<le> k \<and> k < h \<and> reached (g k) \<longrightarrow> height A B (g k) < shared B A \<and> unmatched A B (g k) \<le> b - 1"
    and "reached (g (h + 1)) \<Longrightarrow> unmatched A B (g (h + 1)) \<le> b"
  shows "\<exists>fp' g'. snakes c0 c1 A B pre (shared B A + 1) (rev [0..h]) fp = Inr fp' \<and> slots A B fp' g'
    \<and> (\<forall>k. k < 0 \<or> h < k \<longrightarrow> g' k = g k)
    \<and> (\<forall>k. 0 \<le> k \<and> k \<le> h \<longrightarrow> point A B pre k (g' k) \<and> unmatched A B (g' k) \<le> b
        \<and> (reached (g (k - 1)) \<longrightarrow> height A B (g (k - 1)) + 1 \<le> height A B (g' k))
        \<and> (reached (g' (k + 1)) \<longrightarrow> height A B (g' (k + 1)) \<le> height A B (g' k)))"
  using assms(6-)
proof (induction "nat (h + 1)" arbitrary: h fp g)
  case 0
  then show ?case by auto
next
  case (Suc m)
  then have h: "0 \<le> h" by simp
  have "height A B (g (h + 1)) < shared B A + h + 1" if "reached (g (h + 1))"
    using that Suc.prems(4) point_bounds(2) [of A B pre "h + 1" "g (h + 1)"] h by (force simp: good_def)
  moreover have "height A B (g (h - 1)) < shared B A" if "reached (g (h - 1))"
    using that Suc.prems(6) h by simp
  ultimately obtain s where s: "svn_diff__snake c0 c1 A B pre (g (h - 1)) (g (h + 1)) = Inr s" "point A B pre h s"
      "reached (g (h - 1)) \<longrightarrow> height A B (g (h - 1)) + 1 \<le> height A B s"
      "reached (g (h + 1)) \<longrightarrow> height A B (g (h + 1)) \<le> height A B s"
      "reached (g (h - 1)) \<and> unmatched A B s = unmatched A B (g (h - 1)) + 1 \<or>
       reached (g (h + 1)) \<and> unmatched A B s = unmatched A B (g (h + 1))"
    using snake_ok [OF c, of h "g (h - 1)" "g (h + 1)"] Suc.prems(4,5) h by blast
  have cost: "unmatched A B s \<le> b"
    using s(5) Suc.prems(6,7) h by (smt (verit))
  have "- shared B A \<le> h" using h by linarith
  have "rev [0..h] = h # rev [0..h - 1]" using h by (simp add: upto_rec2)
  with snakes_step [OF Suc.prems(1) \<open>- shared B A \<le> h\<close> Suc.prems(2) s(1)] obtain fp1 where
    fp1: "slots A B fp1 (g(h := s))"
      "snakes c0 c1 A B pre (shared B A + 1) (rev [0..h]) fp = snakes c0 c1 A B pre (shared B A + 1) (rev [0..h - 1]) fp1" by auto
  have "m = nat (h - 1 + 1)" using Suc.hyps(2) by simp
  have "\<forall>k. good A B pre k ((g(h := s)) k)"
    using Suc.prems(4) s(2) point_reached [OF s(2) c(5)] by (simp add: good_def)
  then have "\<exists>fp' g'. snakes c0 c1 A B pre (shared B A + 1) (rev [0..h - 1]) fp1 = Inr fp' \<and> slots A B fp' g'
    \<and> (\<forall>k. k < 0 \<or> h - 1 < k \<longrightarrow> g' k = (g(h := s)) k)
    \<and> (\<forall>k. 0 \<le> k \<and> k \<le> h - 1 \<longrightarrow> point A B pre k (g' k) \<and> unmatched A B (g' k) \<le> b
        \<and> (reached ((g(h := s)) (k - 1)) \<longrightarrow> height A B ((g(h := s)) (k - 1)) + 1 \<le> height A B (g' k))
        \<and> (reached (g' (k + 1)) \<longrightarrow> height A B (g' (k + 1)) \<le> height A B (g' k)))"
    using Suc.prems(2,6) h cost point_reached [OF s(2) c(5)]
    by (intro Suc.hyps(1) [OF \<open>m = nat (h - 1 + 1)\<close> fp1(1)]) auto
  then obtain fp' g' where r: "snakes c0 c1 A B pre (shared B A + 1) (rev [0..h - 1]) fp1 = Inr fp'" "slots A B fp' g'"
    "\<And>k. k < 0 \<or> h - 1 < k \<Longrightarrow> g' k = (g(h := s)) k"
    "\<And>k. 0 \<le> k \<and> k \<le> h - 1 \<Longrightarrow> point A B pre k (g' k) \<and> unmatched A B (g' k) \<le> b
        \<and> (reached ((g(h := s)) (k - 1)) \<longrightarrow> height A B ((g(h := s)) (k - 1)) + 1 \<le> height A B (g' k))
        \<and> (reached (g' (k + 1)) \<longrightarrow> height A B (g' (k + 1)) \<le> height A B (g' k))" by blast
  have "point A B pre k (g' k) \<and> unmatched A B (g' k) \<le> b
        \<and> (reached (g (k - 1)) \<longrightarrow> height A B (g (k - 1)) + 1 \<le> height A B (g' k))
        \<and> (reached (g' (k + 1)) \<longrightarrow> height A B (g' (k + 1)) \<le> height A B (g' k))" if "0 \<le> k \<and> k \<le> h" for k
  proof (cases "k = h")
    case True
    then show ?thesis using r(3) [of h] r(3) [of "h + 1"] s cost by simp
  next
    case False
    then show ?thesis using that r(4) [of k] by simp
  qed
  then show ?case using fp1(2) r(1,2,3) h by (intro exI [of _ fp'] exI [of _ g']) auto
qed

text \<open>Both loops of a round, from the diagonal \<open>a\<close> up and from \<open>h\<close> down, with the budget \<open>b\<close> for unmatched tokens.\<close>

definition swept :: "nat list \<Rightarrow> nat list \<Rightarrow> int \<Rightarrow> int \<Rightarrow> int \<Rightarrow> int \<Rightarrow> (int \<Rightarrow> svn_diff__snake_t) \<Rightarrow> (int \<Rightarrow> svn_diff__snake_t) \<Rightarrow> bool" where
  "swept A B pre b a h g g' \<longleftrightarrow>
     (\<forall>k. k < a \<or> k > h \<longrightarrow> g' k = g k)
     \<and> (\<forall>k. a \<le> k \<and> k \<le> h \<longrightarrow> point A B pre k (g' k) \<and> unmatched A B (g' k) \<le> b + min k 0)
     \<and> (\<forall>k. a \<le> k \<and> k \<le> h \<and> k \<le> 0 \<longrightarrow> reached (g' (k - 1)) \<longrightarrow> height A B (g' (k - 1)) + 1 \<le> height A B (g' k))
     \<and> (\<forall>k. 0 \<le> k \<and> k \<le> h \<longrightarrow> reached (g' (k + 1)) \<longrightarrow> height A B (g' (k + 1)) \<le> height A B (g' k))
     \<and> (\<forall>k. a \<le> k \<and> k < 0 \<longrightarrow> reached (g (k + 1)) \<longrightarrow> height A B (g (k + 1)) \<le> height A B (g' k))
     \<and> (\<forall>k. 0 < k \<and> k \<le> h \<longrightarrow> reached (g (k - 1)) \<longrightarrow> height A B (g (k - 1)) + 1 \<le> height A B (g' k))"

lemma sweep_ok:
  assumes c: "counts_ok n A c0" "counts_ok n B c1" "set A \<subseteq> {..<n}" "set B \<subseteq> {..<n}" "0 \<le> pre"
    and "slots A B fp g" "- shared B A \<le> a" "a \<le> 0" "h \<le> shared A B" "- 1 \<le> h" "\<forall>k. good A B pre k (g k)"
    and "a < 0 \<Longrightarrow> reached (g (a - 1)) \<or> reached (g (a + 1))"
    and "\<forall>k. a < k \<and> k \<le> 0 \<and> reached (g k) \<longrightarrow> height A B (g k) < shared B A + k \<and> unmatched A B (g k) \<le> b - 1 + k"
    and "reached (g (a - 1)) \<Longrightarrow> unmatched A B (g (a - 1)) \<le> b + a - 1"
    and "h = 0 \<Longrightarrow> a < 0 \<or> reached (g (-1)) \<or> reached (g 1)" "0 < h \<Longrightarrow> reached (g (h - 1)) \<or> reached (g (h + 1))"
    and "\<forall>k. 0 \<le> k \<and> k < h \<and> reached (g k) \<longrightarrow> height A B (g k) < shared B A \<and> unmatched A B (g k) \<le> b - 1"
    and "reached (g (h + 1)) \<Longrightarrow> 0 \<le> h \<Longrightarrow> unmatched A B (g (h + 1)) \<le> b"
  shows "\<exists>fp1 fp2 g'. snakes c0 c1 A B pre (shared B A + 1) [a..-1] fp = Inr fp1
    \<and> snakes c0 c1 A B pre (shared B A + 1) (rev [0..h]) fp1 = Inr fp2 \<and> slots A B fp2 g' \<and> swept A B pre b a h g g'"
proof -
  obtain fp1 g1 where u: "snakes c0 c1 A B pre (shared B A + 1) [a..-1] fp = Inr fp1" "slots A B fp1 g1"
    "\<And>k. k < a \<or> 0 \<le> k \<Longrightarrow> g1 k = g k"
    "\<And>k. a \<le> k \<and> k < 0 \<Longrightarrow> point A B pre k (g1 k) \<and> unmatched A B (g1 k) \<le> b + k
        \<and> (reached (g1 (k - 1)) \<longrightarrow> height A B (g1 (k - 1)) + 1 \<le> height A B (g1 k))
        \<and> (reached (g (k + 1)) \<longrightarrow> height A B (g (k + 1)) \<le> height A B (g1 k))"
    using up_ok [OF c assms(6-8,11-14)] by blast
  have good1: "good A B pre k (g1 k)" for k
    using u(3,4) [of k] assms(11) point_reached [OF _ c(5)] by (cases "a \<le> k \<and> k < 0") (auto simp: good_def)
  have last: "unmatched A B (g1 (-1)) \<le> b - 1" if "reached (g1 (-1))"
    using u(3,4) [of "- 1"] that assms(8,14) by (cases "a < 0") (auto simp: not_less)
  have before: "height A B (g1 (-1)) < shared B A" if "reached (g1 (-1))"
    using point_bounds(4) [of A B pre "- 1" "g1 (-1)"] good1 [of "- 1"] that by (simp add: good_def)
  have start: "reached (g1 (h - 1)) \<or> reached (g1 (h + 1))" if "0 \<le> h"
    using that assms(15,16) u(3) [of "h - 1"] u(3) [of "h + 1"] u(4) [of "- 1"] u(3) [of "- 1"] point_reached [OF _ c(5)]
    by (cases "h = 0") (auto, force)
  have room: "\<forall>k. - 1 \<le> k \<and> k < h \<and> reached (g1 k) \<longrightarrow> height A B (g1 k) < shared B A \<and> unmatched A B (g1 k) \<le> b - 1"
  proof (intro allI impI)
    fix k assume k: "- 1 \<le> k \<and> k < h \<and> reached (g1 k)"
    show "height A B (g1 k) < shared B A \<and> unmatched A B (g1 k) \<le> b - 1"
      using k last before assms(17) u(3) [of k] by (cases "k = - 1") auto
  qed
  have top: "unmatched A B (g1 (h + 1)) \<le> b" if "reached (g1 (h + 1))" "0 \<le> h"
    using that assms(18) u(3) [of "h + 1"] by simp
  show ?thesis
  proof (cases "0 \<le> h")
    case True
    have goods: "\<forall>k. good A B pre k (g1 k)" using good1 by blast
    obtain fp2 g2 where d: "snakes c0 c1 A B pre (shared B A + 1) (rev [0..h]) fp1 = Inr fp2" "slots A B fp2 g2"
      "\<And>k. k < 0 \<or> h < k \<Longrightarrow> g2 k = g1 k"
      "\<And>k. 0 \<le> k \<and> k \<le> h \<Longrightarrow> point A B pre k (g2 k) \<and> unmatched A B (g2 k) \<le> b
        \<and> (reached (g1 (k - 1)) \<longrightarrow> height A B (g1 (k - 1)) + 1 \<le> height A B (g2 k))
        \<and> (reached (g2 (k + 1)) \<longrightarrow> height A B (g2 (k + 1)) \<le> height A B (g2 k))"
      using down_ok [OF c u(2) assms(9,10) goods start room top] True by blast
    have "swept A B pre b a h g g2"
      unfolding swept_def
    proof (intro conjI allI impI)
      fix k assume "k < a \<or> h < k" then show "g2 k = g k" using u(3) [of k] d(3) [of k] assms(8) True by auto
    next
      fix k assume k: "a \<le> k \<and> k \<le> h"
      show "point A B pre k (g2 k)" "unmatched A B (g2 k) \<le> b + min k 0"
        using k u(4) [of k] d(3,4) [of k] by (cases "k < 0"; auto)+
    next
      fix k assume "a \<le> k \<and> k \<le> h \<and> k \<le> 0" "reached (g2 (k - 1))"
      then show "height A B (g2 (k - 1)) + 1 \<le> height A B (g2 k)"
        using u(4) [of k] d(3) [of k] d(3) [of "k - 1"] d(4) [of k] by (cases "k = 0") auto
    next
      fix k assume "0 \<le> k \<and> k \<le> h" "reached (g2 (k + 1))"
      then show "height A B (g2 (k + 1)) \<le> height A B (g2 k)" using d(4) [of k] by simp
    next
      fix k assume "a \<le> k \<and> k < 0" "reached (g (k + 1))"
      then show "height A B (g (k + 1)) \<le> height A B (g2 k)" using u(4) [of k] d(3) [of k] by simp
    next
      fix k assume "0 < k \<and> k \<le> h" "reached (g (k - 1))"
      then show "height A B (g (k - 1)) + 1 \<le> height A B (g2 k)" using d(4) [of k] u(3) [of "k - 1"] by simp
    qed
    then show ?thesis using u(1) d(1,2) by blast
  next
    case False
    then have h: "h = - 1" using assms(10) by simp
    have "swept A B pre b a h g g1"
      using u(3,4) by (auto simp: swept_def h)
    then show ?thesis using u(1,2) h by auto
  qed
qed

section \<open>No common subsequence is longer\<close>

text \<open>The tokens that both sequences have, and what a common subsequence of their beginnings costs.\<close>

definition common_part :: "nat list \<Rightarrow> nat list \<Rightarrow> nat list" where
  "common_part A B = filter (\<lambda>t. t \<in> set B) A"

lemma length_common_part [simp]: "length (common_part A B) = rank A B (length A)"
  by (simp add: common_part_def rank_def)

lemma nth_common_part:
  assumes "settled A B i" "i < length A"
  shows "common_part A B ! rank A B i = A ! i"
proof -
  have "common_part A B = filter (\<lambda>t. t \<in> set B) (take i A) @ filter (\<lambda>t. t \<in> set B) (A ! i # drop (Suc i) A)"
    using assms(2) by (metis common_part_def filter_append id_take_nth_drop)
  then show ?thesis using assms by (simp add: rank_def settled_def nth_append)
qed

definition diagonal :: "nat list \<Rightarrow> nat list \<Rightarrow> nat \<Rightarrow> nat \<Rightarrow> int" where
  "diagonal A B x y = delta A B - int x + int y"

definition cost :: "nat list \<Rightarrow> nat list \<Rightarrow> nat \<Rightarrow> nat \<Rightarrow> nat \<Rightarrow> int" where
  "cost A B x y m = int y - int m - min (diagonal A B x y) 0 + min (delta A B) 0"

definition covered :: "nat list \<Rightarrow> nat list \<Rightarrow> int \<Rightarrow> (int \<Rightarrow> svn_diff__snake_t) \<Rightarrow> bool" where
  "covered A B p g \<longleftrightarrow> (\<forall>x y zs. x \<le> rank A B (length A) \<longrightarrow> y \<le> rank B A (length B)
     \<longrightarrow> subseq zs (take x (common_part A B)) \<longrightarrow> subseq zs (take y (common_part B A)) \<longrightarrow> cost A B x y (length zs) \<le> p
     \<longrightarrow> reached (g (diagonal A B x y)) \<and> int y \<le> height A B (g (diagonal A B x y)))"

lemma subseq_snoc:
  assumes "subseq zs (xs @ [a])" "\<not> subseq zs xs"
  obtains zs' where "zs = zs' @ [a]" "subseq zs' xs"
proof -
  obtain us vs where uv: "zs = us @ vs" "subseq us xs" "subseq vs [a]" using assms(1) subseq_appendE by blast
  then have "vs \<noteq> []" using assms(2) by auto
  then have "vs = [a]" using uv(3) by (metis list.exhaust list_emb_Nil2 subseq_Cons2_neq subseq_Cons2')
  then show ?thesis using that uv by blast
qed

lemma subseq_take_last:
  assumes "0 < x" "x \<le> length xs" "subseq zs (take x xs)" "\<not> subseq zs (take (x - 1) xs)"
  obtains zs' where "zs = zs' @ [xs ! (x - 1)]" "subseq zs' (take (x - 1) xs)"
  using subseq_snoc [of zs "take (x - 1) xs" "xs ! (x - 1)"] take_Suc_conv_app_nth [of "x - 1" xs] assms by auto

lemma subseq_lengths: "subseq zs (take x xs) \<Longrightarrow> length zs \<le> x"
  using list_emb_length [of _ zs "take x xs"] by fastforce

text \<open>A point that was followed as far as it goes is behind every match on its diagonal.\<close>

lemma point_past:
  assumes "point A B pre (diagonal A B x y) s" "x < rank A B (length A)" "y < rank B A (length B)"
    and "common_part A B ! x = common_part B A ! y" "int y \<le> height A B s"
  shows "int (y + 1) \<le> height A B s"
proof (rule ccontr)
  assume "\<not> int (y + 1) \<le> height A B s"
  then have h: "height A B s = int y" using assms(5) by simp
  from assms(1) obtain i j where p: "snake_position1 s = Some j" "settled A B i" "settled B A j"
    "\<not> (i < length A \<and> j < length B \<and> A ! i = B ! j)"
    "int (rank A B i) = height A B s + delta A B - diagonal A B x y" by (auto simp: point_def)
  have r: "rank B A j = y" "rank A B i = x" using h p(1,5) by (auto simp: height_def diagonal_def)
  have "i < length A" "j < length B"
    using assms(2,3) r p(2,3) by (auto simp: settled_def nat_less_le)
  then show False using p(2-4) r assms(4) nth_common_part [of A B i] nth_common_part [of B A j] by simp
qed

lemma covered_step:
  assumes points: "\<And>k. reached (g k) \<Longrightarrow> point A B pre k (g k)"
    and start: "reached (g (delta A B))"
    and up: "\<And>k. k < 0 \<Longrightarrow> reached (g k) \<Longrightarrow> reached (g (k + 1)) \<and> height A B (g k) + 1 \<le> height A B (g (k + 1))"
    and down: "\<And>k. 0 < k \<Longrightarrow> reached (g k) \<Longrightarrow> reached (g (k - 1)) \<and> height A B (g k) \<le> height A B (g (k - 1))"
    and old_ins: "\<And>x y zs. x \<le> rank A B (length A) \<Longrightarrow> y \<le> rank B A (length B) \<Longrightarrow>
      subseq zs (take x (common_part A B)) \<Longrightarrow> subseq zs (take y (common_part B A)) \<Longrightarrow> cost A B x y (length zs) \<le> p - 1 \<Longrightarrow>
      0 \<le> diagonal A B x y \<Longrightarrow> reached (g (diagonal A B x y + 1)) \<and> int y + 1 \<le> height A B (g (diagonal A B x y + 1))"
    and old_del: "\<And>x y zs. x \<le> rank A B (length A) \<Longrightarrow> y \<le> rank B A (length B) \<Longrightarrow>
      subseq zs (take x (common_part A B)) \<Longrightarrow> subseq zs (take y (common_part B A)) \<Longrightarrow> cost A B x y (length zs) \<le> p - 1 \<Longrightarrow>
      diagonal A B x y \<le> 0 \<Longrightarrow> reached (g (diagonal A B x y - 1)) \<and> int y \<le> height A B (g (diagonal A B x y - 1))"
  shows "covered A B p g"
proof -
  have "reached (g (diagonal A B x y)) \<and> int y \<le> height A B (g (diagonal A B x y))"
    if "x \<le> rank A B (length A)" "y \<le> rank B A (length B)"
      "subseq zs (take x (common_part A B))" "subseq zs (take y (common_part B A))" "cost A B x y (length zs) \<le> p" for x y zs
    using that
  proof (induction "x + y" arbitrary: x y zs rule: less_induct)
    case less
    let ?X = "common_part A B" and ?Y = "common_part B A" and ?k = "diagonal A B x y"
    show ?case
    proof (cases "0 < y \<and> subseq zs (take (y - 1) ?Y)")
      case True
      then have k: "diagonal A B x (y - 1) = ?k - 1" by (simp add: diagonal_def)
      show ?thesis
      proof (cases "?k \<le> 0")
        case k0: True
        then have "cost A B x (y - 1) (length zs) \<le> p" using less.prems(5) True k by (simp add: cost_def)
          moreover have "y - 1 \<le> rank B A (length B)" using less.prems(2) by simp
          ultimately have "reached (g (?k - 1)) \<and> int (y - 1) \<le> height A B (g (?k - 1))"
            using less.hyps [of x "y - 1" zs] less.prems True k by simp
          then show ?thesis using up [of "?k - 1"] True k0 by auto
      next
        case False
        then have "cost A B x (y - 1) (length zs) \<le> p - 1" using less.prems(5) True k by (simp add: cost_def)
        then show ?thesis using old_ins [of x "y - 1" zs] less.prems True k False by auto
      qed
    next
      case y: False
      show ?thesis
      proof (cases "0 < x \<and> subseq zs (take (x - 1) ?X)")
        case True
        then have k: "diagonal A B (x - 1) y = ?k + 1" by (simp add: diagonal_def)
        show ?thesis
        proof (cases "?k \<ge> 0")
          case k0: True
          then have "cost A B (x - 1) y (length zs) \<le> p" using less.prems(5) True k by (simp add: cost_def)
          moreover have "x - 1 \<le> rank A B (length A)" using less.prems(1) by simp
          ultimately have "reached (g (?k + 1)) \<and> int y \<le> height A B (g (?k + 1))"
            using less.hyps [of "x - 1" y zs] less.prems True k by simp
          then show ?thesis using down [of "?k + 1"] True k0 by auto
        next
          case False
          then have "cost A B (x - 1) y (length zs) \<le> p - 1" using less.prems(5) True k by (simp add: cost_def)
          then show ?thesis using old_del [of "x - 1" y zs] less.prems True k False by auto
        qed
      next
        case x: False
        show ?thesis
        proof (cases "x = 0 \<or> y = 0")
          case True
          then have "zs = []" using less.prems(3,4) by auto
          then have "x = 0 \<and> y = 0" using x y by auto
          then show ?thesis using start by (simp add: diagonal_def height_def)
        next
          case False
          obtain zs1 where z1: "zs = zs1 @ [?X ! (x - 1)]" "subseq zs1 (take (x - 1) ?X)"
              using subseq_take_last [of x ?X zs] x less.prems(1,3) False by auto
          obtain zs2 where z2: "zs = zs2 @ [?Y ! (y - 1)]" "subseq zs2 (take (y - 1) ?Y)"
              using subseq_take_last [of y ?Y zs] y less.prems(2,4) False by auto
          have k: "diagonal A B (x - 1) (y - 1) = ?k" using False by (simp add: diagonal_def)
          have "cost A B (x - 1) (y - 1) (length zs1) \<le> p"
            using less.prems(5) False k z1(1) by (simp add: cost_def)
          then have ih: "reached (g ?k)" "int (y - 1) \<le> height A B (g ?k)"
            using less.hyps [of "x - 1" "y - 1" zs1] less.prems(1,2) False z1 z2 k by auto
          moreover have "x - 1 < rank A B (length A)" "y - 1 < rank B A (length B)" using False less.prems(1,2) by auto
          ultimately have "int (y - 1 + 1) \<le> height A B (g ?k)"
            using point_past [of A B pre "x - 1" "y - 1" "g ?k"] points [OF ih(1)] k less.prems(1,2) False z1(1) z2(1) by simp
          then show ?thesis using ih(1) False by simp
        qed
      qed
    qed
  qed
  then show ?thesis unfolding covered_def by blast
qed

section \<open>Rounds\<close>

text \<open>The state after the round \<open>p\<close>.\<close>

abbreviation lowest where "lowest A B p \<equiv> min (delta A B) 0 - p"
abbreviation highest where "highest A B p \<equiv> max (delta A B) 0 + p"
abbreviation budget where "budget A B p \<equiv> p - min (delta A B) 0"

definition round_done :: "nat list \<Rightarrow> nat list \<Rightarrow> int \<Rightarrow> int \<Rightarrow> (int \<Rightarrow> svn_diff__snake_t) \<Rightarrow> bool" where
  "round_done A B pre p g \<longleftrightarrow>
     (\<forall>k. good A B pre k (g k))
     \<and> (\<forall>k. reached (g k) \<longleftrightarrow> lowest A B p \<le> k \<and> k \<le> highest A B p)
     \<and> (\<forall>k. reached (g k) \<longrightarrow> unmatched A B (g k) \<le> budget A B p + min k 0)
     \<and> (\<forall>k < 0. reached (g k) \<longrightarrow> reached (g (k + 1)) \<and> height A B (g k) + 1 \<le> height A B (g (k + 1)))
     \<and> (\<forall>k > 0. reached (g k) \<longrightarrow> reached (g (k - 1)) \<and> height A B (g k) \<le> height A B (g (k - 1)))
     \<and> covered A B p g"

lemma round_doneD:
  assumes "round_done A B pre p g"
  shows "good A B pre k (g k)" "reached (g k) \<longleftrightarrow> lowest A B p \<le> k \<and> k \<le> highest A B p"
    and "reached (g k) \<Longrightarrow> unmatched A B (g k) \<le> budget A B p + min k 0"
    and "k < 0 \<Longrightarrow> reached (g k) \<Longrightarrow> reached (g (k + 1)) \<and> height A B (g k) + 1 \<le> height A B (g (k + 1))"
    and "0 < k \<Longrightarrow> reached (g k) \<Longrightarrow> reached (g (k - 1)) \<and> height A B (g k) \<le> height A B (g (k - 1))"
    and "covered A B p g"
  using assms unfolding round_done_def by blast+

lemma round_room:
  assumes "round_done A B pre p g" "height A B (g 0) < shared B A" "reached (g k)"
  shows "0 \<le> k \<Longrightarrow> height A B (g k) < shared B A" "k \<le> 0 \<Longrightarrow> height A B (g k) < shared B A + k"
proof -
  note d = round_doneD(4,5) [OF assms(1)]
  show "height A B (g k) < shared B A" if "0 \<le> k"
    using that assms(3)
  proof (induction k rule: int_ge_induct)
    case (step k)
    have "reached (g k)" "height A B (g (k + 1)) \<le> height A B (g k)"
      using d(2) [of "k + 1"] step.hyps step.prems by simp_all
    then show ?case using step.IH by simp
  qed (rule assms(2))
  show "height A B (g k) < shared B A + k" if "k \<le> 0"
    using that assms(3)
  proof (induction k rule: int_le_induct)
    case (step k)
    have "reached (g k)" "height A B (g (k - 1)) + 1 \<le> height A B (g k)"
      using d(1) [of "k - 1"] step.hyps step.prems by simp_all
    then show ?case using step.IH by simp
  qed (use assms(2) in simp)
qed

text \<open>A round that has not come to the end is early enough for the next one to stay inside the array.\<close>

lemma coveredD:
  assumes "covered A B p g" "x \<le> rank A B (length A)" "y \<le> rank B A (length B)"
    and "subseq zs (take x (common_part A B))" "subseq zs (take y (common_part B A))" "cost A B x y (length zs) \<le> p"
  shows "reached (g (diagonal A B x y)) \<and> int y \<le> height A B (g (diagonal A B x y))"
  using assms unfolding covered_def by blast

lemma round_early:
  assumes "round_done A B pre p g" "height A B (g 0) < shared B A"
  shows "p < shared A B" "p < shared B A"
proof -
  have "diagonal A B (rank A B (length A)) (rank B A (length B)) = 0" by (simp add: diagonal_def)
  then have "\<not> cost A B (rank A B (length A)) (rank B A (length B)) (length ([] :: nat list)) \<le> p"
    using coveredD [OF round_doneD(6) [OF assms(1)], of "rank A B (length A)" "rank B A (length B)" "[]"] assms(2) by force
  then show "p < shared A B" "p < shared B A" by (simp_all add: cost_def diagonal_def)
qed

text \<open>What a sweep leaves is the state after the next round.\<close>

lemma sweptD:
  assumes "swept A B pre b a h g g'"
  shows "k < a \<or> h < k \<Longrightarrow> g' k = g k"
    and "a \<le> k \<Longrightarrow> k \<le> h \<Longrightarrow> point A B pre k (g' k) \<and> unmatched A B (g' k) \<le> b + min k 0"
    and "a \<le> k + 1 \<Longrightarrow> k + 1 \<le> h \<Longrightarrow> k < 0 \<Longrightarrow> reached (g' k) \<Longrightarrow> height A B (g' k) + 1 \<le> height A B (g' (k + 1))"
    and "0 < k \<Longrightarrow> k - 1 \<le> h \<Longrightarrow> reached (g' k) \<Longrightarrow> height A B (g' k) \<le> height A B (g' (k - 1))"
    and "a \<le> k - 1 \<Longrightarrow> k \<le> 0 \<Longrightarrow> reached (g k) \<Longrightarrow> height A B (g k) \<le> height A B (g' (k - 1))"
    and "0 \<le> k \<Longrightarrow> k + 1 \<le> h \<Longrightarrow> reached (g k) \<Longrightarrow> height A B (g k) + 1 \<le> height A B (g' (k + 1))"
proof -
  note s = assms [unfolded swept_def]
  show "g' k = g k" if "k < a \<or> h < k" using s that by blast
  show "point A B pre k (g' k) \<and> unmatched A B (g' k) \<le> b + min k 0" if "a \<le> k" "k \<le> h" using s that by blast
  from s have "a \<le> k + 1 \<and> k + 1 \<le> h \<and> k + 1 \<le> 0 \<longrightarrow> reached (g' (k + 1 - 1)) \<longrightarrow>
      height A B (g' (k + 1 - 1)) + 1 \<le> height A B (g' (k + 1))" by blast
  then show "a \<le> k + 1 \<Longrightarrow> k + 1 \<le> h \<Longrightarrow> k < 0 \<Longrightarrow> reached (g' k) \<Longrightarrow> height A B (g' k) + 1 \<le> height A B (g' (k + 1))"
    by simp
  from s have "0 \<le> k - 1 \<and> k - 1 \<le> h \<longrightarrow> reached (g' (k - 1 + 1)) \<longrightarrow> height A B (g' (k - 1 + 1)) \<le> height A B (g' (k - 1))"
    by blast
  then show "0 < k \<Longrightarrow> k - 1 \<le> h \<Longrightarrow> reached (g' k) \<Longrightarrow> height A B (g' k) \<le> height A B (g' (k - 1))" by simp
  from s have "a \<le> k - 1 \<and> k - 1 < 0 \<longrightarrow> reached (g (k - 1 + 1)) \<longrightarrow> height A B (g (k - 1 + 1)) \<le> height A B (g' (k - 1))"
    by blast
  then show "a \<le> k - 1 \<Longrightarrow> k \<le> 0 \<Longrightarrow> reached (g k) \<Longrightarrow> height A B (g k) \<le> height A B (g' (k - 1))" by simp
  from s have "0 < k + 1 \<and> k + 1 \<le> h \<longrightarrow> reached (g (k + 1 - 1)) \<longrightarrow> height A B (g (k + 1 - 1)) + 1 \<le> height A B (g' (k + 1))"
    by blast
  then show "0 \<le> k \<Longrightarrow> k + 1 \<le> h \<Longrightarrow> reached (g k) \<Longrightarrow> height A B (g k) + 1 \<le> height A B (g' (k + 1))" by simp
qed

lemma swept_round:
  assumes s: "swept A B pre (budget A B p) a h g g'"
    and range: "\<And>k. reached (g' k) \<longleftrightarrow> lowest A B p \<le> k \<and> k \<le> highest A B p"
    and old: "\<And>k. k < a \<or> h < k \<Longrightarrow> good A B pre k (g k) \<and> (reached (g k) \<longrightarrow> unmatched A B (g k) \<le> budget A B p + min k 0)"
    and up: "\<And>k. k < 0 \<Longrightarrow> reached (g' k) \<Longrightarrow> a \<le> k + 1 \<and> k + 1 \<le> h"
    and down: "\<And>k. 0 < k \<Longrightarrow> reached (g' k) \<Longrightarrow> k - 1 \<le> h"
    and nonneg: "0 \<le> p" "0 \<le> pre"
    and before: "\<And>x y zs. x \<le> rank A B (length A) \<Longrightarrow> y \<le> rank B A (length B) \<Longrightarrow>
      subseq zs (take x (common_part A B)) \<Longrightarrow> subseq zs (take y (common_part B A)) \<Longrightarrow> cost A B x y (length zs) \<le> p - 1 \<Longrightarrow>
      reached (g (diagonal A B x y)) \<and> int y \<le> height A B (g (diagonal A B x y))
      \<and> a \<le> diagonal A B x y - 1 \<and> diagonal A B x y + 1 \<le> h"
  shows "round_done A B pre p g'"
proof -
  note d = sweptD [OF s]
  have new: "reached (g' k)" if "a \<le> k" "k \<le> h" for k
    using d(2) [OF that] point_reached [OF _ nonneg(2)] by blast
  have good: "good A B pre k (g' k)" for k
    using d(1,2) [of k] old [of k] point_reached [OF _ nonneg(2), of A B k "g' k"]
    by (cases "k < a \<or> h < k") (auto simp: good_def)
  have cost: "unmatched A B (g' k) \<le> budget A B p + min k 0" if "reached (g' k)" for k
    using d(1,2) [of k] old [of k] that by (cases "k < a \<or> h < k") auto
  have up': "reached (g' (k + 1)) \<and> height A B (g' k) + 1 \<le> height A B (g' (k + 1))" if "k < 0" "reached (g' k)" for k
    using up [OF that] that d(3) [of k] new [of "k + 1"] by blast
  have down': "reached (g' (k - 1)) \<and> height A B (g' k) \<le> height A B (g' (k - 1))" if "0 < k" "reached (g' k)" for k
  proof -
    have "reached (g' (k - 1))" using range [of k] range [of "k - 1"] that nonneg(1) by simp
    then show ?thesis using down [OF that] that d(4) [of k] by blast
  qed
  have "covered A B p g'"
  proof (rule covered_step [OF _ _ up' down'])
    fix k assume "reached (g' k)" then show "point A B pre k (g' k)" using good [of k] by (simp add: good_def)
  next
    show "reached (g' (delta A B))" using range [of "delta A B"] nonneg(1) by (simp add: min_def max_def)
  next
    fix x y zs
    assume a: "x \<le> rank A B (length A)" "y \<le> rank B A (length B)" "subseq zs (take x (common_part A B))"
      "subseq zs (take y (common_part B A))" "cost A B x y (length zs) \<le> p - 1" "0 \<le> diagonal A B x y"
    show "reached (g' (diagonal A B x y + 1)) \<and> int y + 1 \<le> height A B (g' (diagonal A B x y + 1))"
      using before [OF a(1-5)] a(6) d(6) [of "diagonal A B x y"] new [of "diagonal A B x y + 1"] by force
  next
    fix x y zs
    assume a: "x \<le> rank A B (length A)" "y \<le> rank B A (length B)" "subseq zs (take x (common_part A B))"
      "subseq zs (take y (common_part B A))" "cost A B x y (length zs) \<le> p - 1" "diagonal A B x y \<le> 0"
    show "reached (g' (diagonal A B x y - 1)) \<and> int y \<le> height A B (g' (diagonal A B x y - 1))"
      using before [OF a(1-5)] a(6) d(5) [of "diagonal A B x y"] new [of "diagonal A B x y - 1"] by force
  qed
  then show ?thesis unfolding round_done_def using good range cost up' down' by blast
qed

text \<open>The state before the first round: one slot makes the first snake start at the beginnings.\<close>

definition unset :: svn_diff__snake_t where
  "unset = \<lparr>snake_y = 0, snake_lcs = [], snake_position0 = None, snake_position1 = None\<rparr>"

definition start_state :: "nat list \<Rightarrow> nat list \<Rightarrow> int \<Rightarrow> svn_diff__snake_t" where
  "start_state A B = (\<lambda>k. unset)(delta A B - 1 :=
     \<lparr>snake_y = 0, snake_lcs = [], snake_position0 = Some 0, snake_position1 = Some (length B)\<rparr>)"

lemma start_state_unreached [simp]: "\<not> reached (start_state A B k)" "good A B pre k' (start_state A B k)"
  by (simp_all add: start_state_def reached_def good_def unset_def)

lemma first_snake:
  assumes c: "counts_ok n A c0" "counts_ok n B c1" "set A \<subseteq> {..<n}" "set B \<subseteq> {..<n}"
  shows "\<exists>s. svn_diff__snake c0 c1 A B pre (start_state A B (delta A B - 1)) (start_state A B (delta A B + 1)) = Inr s
    \<and> point A B pre (delta A B) s \<and> unmatched A B s = 0"
proof -
  have "next_position B (length B) = 0" by (simp add: next_position_def)
  then show ?thesis
    using snake_from [OF c, of 0 0 pre "[]" "delta A B"]
    by (auto simp: start_state_def unset_def svn_diff__snake_def NULL_deref_def NULL_next_def Let_def)
qed

lemma cost_nonneg:
  "subseq zs (take x X) \<Longrightarrow> subseq zs (take y Y) \<Longrightarrow> 0 \<le> cost A B x y (length zs)"
  using subseq_lengths [of zs x X] subseq_lengths [of zs y Y] by (simp add: cost_def diagonal_def)

lemma after_first:
  assumes c: "counts_ok n A c0" "counts_ok n B c1" "set A \<subseteq> {..<n}" "set B \<subseteq> {..<n}" "0 \<le> pre"
    and "slots A B fp g" and g: "\<And>k. reached (g k) \<longleftrightarrow> k = delta A B" "\<And>k. good A B pre k (g k)" "unmatched A B (g (delta A B)) = 0"
    and range: "if delta A B < 0 then a = delta A B + 1 \<and> h = 0 else a = 0 \<and> h = delta A B - 1"
  shows "\<exists>fp1 fp2 g'. snakes c0 c1 A B pre (shared B A + 1) [a..-1] fp = Inr fp1
    \<and> snakes c0 c1 A B pre (shared B A + 1) (rev [0..h]) fp1 = Inr fp2
    \<and> slots A B fp2 g' \<and> round_done A B pre 0 g'"
proof -
  have "\<exists>fp1 fp2 g'. snakes c0 c1 A B pre (shared B A + 1) [a..-1] fp = Inr fp1
    \<and> snakes c0 c1 A B pre (shared B A + 1) (rev [0..h]) fp1 = Inr fp2 \<and> slots A B fp2 g'
    \<and> swept A B pre (budget A B 0) a h g g'"
    using range g(2) by (intro sweep_ok [OF c assms(6)]) (auto simp: g(1,3) split: if_splits)
  then obtain fp1 fp2 g' where r: "snakes c0 c1 A B pre (shared B A + 1) [a..-1] fp = Inr fp1"
    "snakes c0 c1 A B pre (shared B A + 1) (rev [0..h]) fp1 = Inr fp2" "slots A B fp2 g'"
    "swept A B pre (budget A B 0) a h g g'" by blast
  note d = sweptD [OF r(4)]
  have reached: "reached (g' k) \<longleftrightarrow> lowest A B 0 \<le> k \<and> k \<le> highest A B 0" for k
    using d(1,2) [of k] g(1) [of k] point_reached [OF _ c(5), of A B k "g' k"] range
    by (cases "k < a \<or> h < k") (auto split: if_splits)
  have "round_done A B pre 0 g'"
  proof (rule swept_round [OF r(4) reached])
    fix k assume "k < a \<or> h < k"
    show "good A B pre k (g k) \<and> (reached (g k) \<longrightarrow> unmatched A B (g k) \<le> budget A B 0 + min k 0)"
      using g(2) by (auto simp: g(1,3))
  next
    fix x y zs
    assume "subseq zs (take x (common_part A B))" "subseq zs (take y (common_part B A))" "cost A B x y (length zs) \<le> 0 - 1"
    then show "reached (g (diagonal A B x y)) \<and> int y \<le> height A B (g (diagonal A B x y))
      \<and> a \<le> diagonal A B x y - 1 \<and> diagonal A B x y + 1 \<le> h"
      using cost_nonneg [of zs x "common_part A B" y "common_part B A" A B] by simp
  qed (use range reached c(5) in \<open>auto split: if_splits\<close>)
  then show ?thesis using r(1-3) by blast
qed

lemma first_round:
  assumes c: "counts_ok n A c0" "counts_ok n B c1" "set A \<subseteq> {..<n}" "set B \<subseteq> {..<n}" "0 \<le> pre"
    and "slots A B fp (start_state A B)"
  shows "\<exists>fp1 fp2 g. snakes c0 c1 A B pre (shared B A + 1) [lowest A B 0..-1] fp = Inr fp1
    \<and> snakes c0 c1 A B pre (shared B A + 1) (rev [0..highest A B 0]) fp1 = Inr fp2
    \<and> slots A B fp2 g \<and> round_done A B pre 0 g"
proof -
  let ?d = "delta A B"
  obtain s where s: "svn_diff__snake c0 c1 A B pre (start_state A B (?d - 1)) (start_state A B (?d + 1)) = Inr s"
    "point A B pre ?d s" "unmatched A B s = 0" using first_snake [OF c(1-4)] by blast
  let ?g = "(start_state A B)(?d := s)"
  have g: "reached (?g k) \<longleftrightarrow> k = ?d" "good A B pre k (?g k)" for k
    using s(2) point_reached [OF s(2) c(5)] start_state_unreached(2) by (simp, simp add: good_def [of A B pre _ s])
  have "- shared B A \<le> ?d" "?d \<le> shared A B" by simp_all
  from snakes_step [OF assms(6) this s(1)] obtain fp' where
    fp': "slots A B fp' ?g"
      "\<And>ks. snakes c0 c1 A B pre (shared B A + 1) (?d # ks) fp = snakes c0 c1 A B pre (shared B A + 1) ks fp'"
    by blast
  note rest = after_first [OF c fp'(1) g]
  show ?thesis
  proof (cases "?d < 0")
    case True
    then have "[lowest A B 0..-1] = ?d # [?d + 1..-1]" "highest A B 0 = 0" by (simp_all add: upto_rec1)
    then show ?thesis using rest [of "?d + 1" 0] True s(3) fp'(2) by simp
  next
    case False
    then have "[lowest A B 0..-1] = []" "[0..-1] = []" "rev [0..highest A B 0] = ?d # rev [0..?d - 1]" by (simp_all add: upto_rec2)
    then show ?thesis using rest [of 0 "?d - 1"] False s(3) fp'(2) by simp
  qed
qed

lemma next_round:
  assumes c: "counts_ok n A c0" "counts_ok n B c1" "set A \<subseteq> {..<n}" "set B \<subseteq> {..<n}" "0 \<le> pre"
    and "slots A B fp g" and g: "round_done A B pre p g" "height A B (g 0) < shared B A" "0 \<le> p"
  shows "\<exists>fp1 fp2 g'. snakes c0 c1 A B pre (shared B A + 1) [lowest A B (p + 1)..-1] fp = Inr fp1
    \<and> snakes c0 c1 A B pre (shared B A + 1) (rev [0..highest A B (p + 1)]) fp1 = Inr fp2
    \<and> slots A B fp2 g' \<and> round_done A B pre (p + 1) g'"
proof -
  let ?a = "lowest A B (p + 1)" and ?h = "highest A B (p + 1)"
  note d = round_doneD [OF g(1)]
  have bounds: "- shared B A \<le> ?a" "?a \<le> 0" "?h \<le> shared A B" "- 1 \<le> ?h"
    using round_early [OF g(1,2)] g(3) by simp_all
  have "\<forall>k. ?a < k \<and> k \<le> 0 \<and> reached (g k) \<longrightarrow>
      height A B (g k) < shared B A + k \<and> unmatched A B (g k) \<le> budget A B (p + 1) - 1 + k"
    using round_room(2) [OF g(1,2)] d(3) by force
  moreover have "\<forall>k. 0 \<le> k \<and> k < ?h \<and> reached (g k) \<longrightarrow>
      height A B (g k) < shared B A \<and> unmatched A B (g k) \<le> budget A B (p + 1) - 1"
    using round_room(1) [OF g(1,2)] d(3) by force
  moreover have "reached (g (?a + 1))" "\<not> reached (g (?a - 1))" "reached (g (?h - 1))" "\<not> reached (g (?h + 1))" "0 < ?h"
    using d(2) g(3) by simp_all
  moreover have "\<forall>k. good A B pre k (g k)" using d(1) by blast
  ultimately have "\<exists>fp1 fp2 g'. snakes c0 c1 A B pre (shared B A + 1) [?a..-1] fp = Inr fp1
    \<and> snakes c0 c1 A B pre (shared B A + 1) (rev [0..?h]) fp1 = Inr fp2 \<and> slots A B fp2 g'
    \<and> swept A B pre (budget A B (p + 1)) ?a ?h g g'"
    by (intro sweep_ok [OF c assms(6) bounds]) simp_all
  then obtain fp1 fp2 g' where r: "snakes c0 c1 A B pre (shared B A + 1) [?a..-1] fp = Inr fp1"
    "snakes c0 c1 A B pre (shared B A + 1) (rev [0..?h]) fp1 = Inr fp2" "slots A B fp2 g'"
    "swept A B pre (budget A B (p + 1)) ?a ?h g g'" by blast
  note e = sweptD [OF r(4)]
  have range: "reached (g' k) \<longleftrightarrow> ?a \<le> k \<and> k \<le> ?h" for k
    using e(1,2) [of k] d(2) [of k] point_reached [OF _ c(5), of A B k "g' k"] by (cases "k < ?a \<or> ?h < k") auto
  have "round_done A B pre (p + 1) g'"
  proof (rule swept_round [OF r(4) range])
    fix k assume k: "k < ?a \<or> ?h < k"
    then have "\<not> reached (g k)" using d(2) [of k] by auto
    then show "good A B pre k (g k) \<and> (reached (g k) \<longrightarrow> unmatched A B (g k) \<le> budget A B (p + 1) + min k 0)"
      using d(1) [of k] by simp
  next
    fix x y zs
    assume "x \<le> rank A B (length A)" "y \<le> rank B A (length B)" "subseq zs (take x (common_part A B))"
      "subseq zs (take y (common_part B A))" "cost A B x y (length zs) \<le> p + 1 - 1"
    then have "reached (g (diagonal A B x y)) \<and> int y \<le> height A B (g (diagonal A B x y))"
      using coveredD [OF d(6)] by simp
    then show "reached (g (diagonal A B x y)) \<and> int y \<le> height A B (g (diagonal A B x y))
      \<and> ?a \<le> diagonal A B x y - 1 \<and> diagonal A B x y + 1 \<le> ?h" using d(2) [of "diagonal A B x y"] by simp
  qed (use g(3) c(5) range in auto)
  then show ?thesis using r(1-3) by blast
qed

section \<open>The end of the rounds\<close>

lemma subseq_common_part:
  assumes "subseq zs A" "subseq zs B"
  shows "subseq zs (common_part A B)"
proof -
  have "subseq (filter (\<lambda>t. t \<in> set B) zs) (filter (\<lambda>t. t \<in> set B) A)"
    using assms(1) by (rule subseq_filter)
  moreover have "filter (\<lambda>t. t \<in> set B) zs = zs"
    using list_emb_set [OF assms(2)] by (intro filter_True) blast
  ultimately show ?thesis by (simp add: common_part_def)
qed

text \<open>Regions up to the ends that match as many tokens as any common subsequence has.\<close>

definition longest :: "nat list \<Rightarrow> nat list \<Rightarrow> int \<Rightarrow> svn_diff__lcs_t list \<Rightarrow> bool" where
  "longest A B pre lcs \<longleftrightarrow> regions A B pre lcs (length A) (length B)
     \<and> (\<forall>zs. subseq zs A \<longrightarrow> subseq zs B \<longrightarrow> int (length zs) \<le> matched lcs)"

definition round_before :: "nat list \<Rightarrow> nat list \<Rightarrow> int \<Rightarrow> int \<Rightarrow> bool" where
  "round_before A B pre p \<longleftrightarrow> p = 0 \<or> (\<exists>g. round_done A B pre (p - 1) g \<and> height A B (g 0) < shared B A)"

lemma round_end:
  assumes "round_done A B pre p g" "0 \<le> p"
  shows "snake_position1 (g 0) = Some (length B) \<longleftrightarrow> height A B (g 0) = shared B A"
    "height A B (g 0) \<le> shared B A" "point A B pre 0 (g 0)"
proof -
  have "reached (g 0)" using round_doneD(2) [OF assms(1)] assms(2) by simp
  then show p: "point A B pre 0 (g 0)" using round_doneD(1) [OF assms(1), of 0] by (simp add: good_def)
  then show "height A B (g 0) \<le> shared B A" by (rule point_bounds)
  obtain j where j: "snake_position1 (g 0) = Some j" "settled B A j" using p by (auto simp: point_def)
  have "j = length B" if "rank B A j = rank B A (length B)"
    using rank_end [OF j(2)] that by simp
  then show "snake_position1 (g 0) = Some (length B) \<longleftrightarrow> height A B (g 0) = shared B A"
    using j(1) by (auto simp: height_def)
qed

lemma round_longest:
  assumes g: "round_done A B pre p g" "0 \<le> p" "round_before A B pre p" "height A B (g 0) = shared B A"
  shows "longest A B pre (snake_lcs (g 0))"
proof -
  note p = round_end [OF g(1,2)]
  obtain i j where ij: "snake_position1 (g 0) = Some j" "settled A B i" "regions A B pre (snake_lcs (g 0)) i j"
    "int (rank A B i) = height A B (g 0) + delta A B - 0" using p(3) by (auto simp: point_def)
  then have "i = length A" "j = length B" using rank_end [OF ij(2)] p(1) g(4) by simp_all
  then have regions: "regions A B pre (snake_lcs (g 0)) (length A) (length B)" using ij(3) by simp
  have "unmatched A B (g 0) \<le> budget A B p"
    using round_doneD(3) [OF g(1), of 0] point_reached p(3) round_doneD(2) [OF g(1), of 0] g(2) by simp
  then have matched: "shared B A - budget A B p \<le> matched (snake_lcs (g 0))"
    using g(4) by (simp add: unmatched_def)
  have "int (length zs) \<le> matched (snake_lcs (g 0))" if zs: "subseq zs A" "subseq zs B" for zs
  proof -
    let ?M = "rank A B (length A)" and ?N = "rank B A (length B)"
    have z: "subseq zs (take ?M (common_part A B))" "subseq zs (take ?N (common_part B A))"
      using subseq_common_part [OF zs] subseq_common_part [OF zs(2,1)] by simp_all
    have diag: "diagonal A B ?M ?N = 0" by (simp add: diagonal_def)
    have "p \<le> cost A B ?M ?N (length zs)"
    proof (cases "p = 0")
      case True
      then show ?thesis using cost_nonneg [OF z] by simp
    next
      case False
      then obtain g' where g': "round_done A B pre (p - 1) g'" "height A B (g' 0) < shared B A"
        using g(3) by (auto simp: round_before_def)
      then show ?thesis using coveredD [OF round_doneD(6) [OF g'(1)] _ _ z] diag by force
    qed
    then show ?thesis using matched by (simp add: cost_def diag)
  qed
  then show ?thesis using regions by (simp add: longest_def)
qed

lemma lcs_rounds_step:
  assumes "snakes c0 c1 A B pre (shared B A + 1) [lowest A B p..-1] fp = Inr fp1"
    and "snakes c0 c1 A B pre (shared B A + 1) (rev [0..highest A B p]) fp1 = Inr fp2"
    and "slots A B fp2 g" "round_done A B pre p g" "0 \<le> p"
  shows "lcs_rounds (Suc fuel) c0 c1 A B pre (shared B A + 1) (delta A B) p fp =
    (if height A B (g 0) < shared B A then lcs_rounds fuel c0 c1 A B pre (shared B A + 1) (delta A B) (p + 1) fp2
     else Inr (snake_lcs (g 0)))"
proof -
  have bounds: "(if delta A B < 0 then delta A B else 0) = min (delta A B) 0"
    "(if delta A B > 0 then delta A B else 0) = max (delta A B) 0" by auto
  have "fp_at fp2 (shared B A + 1) 0 = Inr (g 0)" using slots_at [OF assms(3), of 0] by simp
  moreover have "snake_position1 (g 0) \<noteq> Some (length B) \<longleftrightarrow> height A B (g 0) < shared B A"
    using round_end(1,2) [OF assms(4,5)] by linarith
  ultimately show ?thesis by (simp only: lcs_rounds.simps bounds assms(1,2) SVN_ERR_simps)
qed

lemma lcs_rounds_after:
  assumes c: "counts_ok n A c0" "counts_ok n B c1" "set A \<subseteq> {..<n}" "set B \<subseteq> {..<n}" "0 \<le> pre"
    and "slots A B fp g" "round_done A B pre p g" "height A B (g 0) < shared B A" "0 \<le> p" "shared A B - p \<le> int fuel"
  shows "\<exists>lcs. lcs_rounds fuel c0 c1 A B pre (shared B A + 1) (delta A B) (p + 1) fp = Inr lcs \<and> longest A B pre lcs"
  using assms(6-)
proof (induction fuel arbitrary: fp g p)
  case 0
  then show ?case using round_early(1) [OF 0(2,3)] by simp
next
  case (Suc fuel)
  obtain fp1 fp2 g' where r: "snakes c0 c1 A B pre (shared B A + 1) [lowest A B (p + 1)..-1] fp = Inr fp1"
    "snakes c0 c1 A B pre (shared B A + 1) (rev [0..highest A B (p + 1)]) fp1 = Inr fp2"
    "slots A B fp2 g'" "round_done A B pre (p + 1) g'"
    using next_round [OF c Suc.prems(1-4)] by blast
  have p: "0 \<le> p + 1" using Suc.prems(4) by simp
  note step = lcs_rounds_step [OF r p]
  show ?case
  proof (cases "height A B (g' 0) < shared B A")
    case True
    then show ?thesis using step Suc.IH [OF r(3,4) True p] Suc.prems(5) by simp
  next
    case False
    moreover have "round_before A B pre (p + 1)" using Suc.prems(2,3) by (auto simp: round_before_def)
    ultimately show ?thesis using step round_longest [OF r(4) p] round_end(2) [OF r(4) p] by simp
  qed
qed

lemma lcs_rounds_ok:
  assumes c: "counts_ok n A c0" "counts_ok n B c1" "set A \<subseteq> {..<n}" "set B \<subseteq> {..<n}" "0 \<le> pre"
    and "slots A B fp (start_state A B)"
  shows "\<exists>lcs. lcs_rounds (length fp) c0 c1 A B pre (shared B A + 1) (delta A B) 0 fp = Inr lcs \<and> longest A B pre lcs"
proof -
  obtain fp1 fp2 g where r: "snakes c0 c1 A B pre (shared B A + 1) [lowest A B 0..-1] fp = Inr fp1"
    "snakes c0 c1 A B pre (shared B A + 1) (rev [0..highest A B 0]) fp1 = Inr fp2"
    "slots A B fp2 g" "round_done A B pre 0 g"
    using first_round [OF c assms(6)] by blast
  obtain fuel where fuel: "length fp = Suc fuel" "shared A B - 0 \<le> int fuel"
    using assms(6) by (cases "length fp") (auto simp: slots_def)
  note step = lcs_rounds_step [OF r order_refl, of fuel]
  show ?thesis
  proof (cases "height A B (g 0) < shared B A")
    case True
    then show ?thesis using step lcs_rounds_after [OF c r(3,4) True order_refl fuel(2)] fuel(1) by simp
  next
    case False
    then show ?thesis using step round_longest [OF r(4) order_refl] round_end(2) [OF r(4) order_refl] fuel(1)
      by (simp add: round_before_def)
  qed
qed

end
