(* ===== verification/Diff.thy ===== *)
theory Diff
  imports Diff_Rounds
begin

text \<open>
  Two-way diffs (libsvn\_diff/diff.c and lcs.c, with the queries of util.c): the longest common
  subsequence of two files with a common prefix and suffix, and the list of hunks made from it.
\<close>

section \<open>Hunks\<close>

datatype svn_diff__type_e =
    svn_diff__type_common
  | svn_diff__type_diff_modified
  | svn_diff__type_diff_latest
  | svn_diff__type_diff_common
  | svn_diff__type_conflict

record svn_diff_t =
  diff_type :: svn_diff__type_e
  original_start :: int
  original_length :: int
  modified_start :: int
  modified_length :: int
  latest_start :: int
  latest_length :: int

text \<open>
  The loop of \<open>svn_diff__diff\<close>. A list of regions ends with the one of length 0; running off its
  end is following a null pointer.
\<close>

fun svn_diff__diff :: "svn_diff__lcs_t list \<Rightarrow> int \<Rightarrow> int \<Rightarrow> bool \<Rightarrow> svn_diff_t list svn_result" where
  "svn_diff__diff [] orig_start mod_start want_common = Inl C_OUT_OF_BOUNDS"
| "svn_diff__diff (lcs # rest) orig_start mod_start want_common =
     (let changed =
        (if orig_start < position0 lcs \<or> mod_start < position1 lcs
         then [\<lparr>diff_type = svn_diff__type_diff_modified,
                original_start = orig_start - 1, original_length = position0 lcs - orig_start,
                modified_start = mod_start - 1, modified_length = position1 lcs - mod_start,
                latest_start = 0, latest_length = 0\<rparr>]
         else [])
      in
      if lcs_length lcs = 0 then Inr changed
      else
        let common =
          (if want_common
           then [\<lparr>diff_type = svn_diff__type_common,
                  original_start = position0 lcs - 1, original_length = lcs_length lcs,
                  modified_start = position1 lcs - 1, modified_length = lcs_length lcs,
                  latest_start = 0, latest_length = 0\<rparr>]
           else [])
        in
        SVN_ERR (svn_diff__diff rest (position0 lcs + lcs_length lcs) (position1 lcs + lcs_length lcs) want_common)
          (\<lambda>hunks. Inr (changed @ common @ hunks)))"

fun svn_diff_contains_conflicts :: "svn_diff_t list \<Rightarrow> bool" where
  "svn_diff_contains_conflicts [] = False"
| "svn_diff_contains_conflicts (diff # rest) =
     (if diff_type diff = svn_diff__type_conflict then True else svn_diff_contains_conflicts rest)"

fun svn_diff_contains_diffs :: "svn_diff_t list \<Rightarrow> bool" where
  "svn_diff_contains_diffs [] = False"
| "svn_diff_contains_diffs (diff # rest) =
     (if diff_type diff \<noteq> svn_diff__type_common then True else svn_diff_contains_diffs rest)"

section \<open>Counting tokens that one side has alone\<close>

lemma count_list_filter: "count_list (filter P xs) x = (if P x then count_list xs x else 0)"
  by (induction xs) auto

lemma unique_loop_sum:
  assumes "counts_ok n A c0" "counts_ok n B c1" "set ts \<subseteq> {..<n}"
  shows "unique_loop c0 c1 ts u0 u1 =
    Inr (u0 + sum_list (map (count_list (filter (\<lambda>t. t \<notin> set B) A)) ts),
         u1 + sum_list (map (count_list (filter (\<lambda>t. t \<notin> set A) B)) ts))"
  using assms(3)
  by (induction ts arbitrary: u0 u1)
     (simp_all add: count_at_ok [OF assms(1)] count_at_ok [OF assms(2)] count_list_filter count_list_0_iff)

lemma unique_loop_ok:
  assumes "counts_ok n A c0" "counts_ok n B c1" "set A \<subseteq> {..<n}" "set B \<subseteq> {..<n}"
  shows "unique_loop c0 c1 [0..<n] 0 0 = Inr (length A - rank A B (length A), length B - rank B A (length B))"
proof -
  have count: "sum_list (map (count_list xs) [0..<n]) = length xs" if "set xs \<subseteq> {..<n}" for xs
    using sum_count_set [OF that] by (simp add: interv_sum_list_conv_sum_set_nat atLeast0LessThan)
  have "length (filter (\<lambda>t. t \<notin> set B) A) = length A - rank A B (length A)"
    "length (filter (\<lambda>t. t \<notin> set A) B) = length B - rank B A (length B)"
    using sum_length_filter_compl [of "\<lambda>t. t \<in> set B" A] sum_length_filter_compl [of "\<lambda>t. t \<in> set A" B]
    by (simp_all add: rank_def)
  moreover have "sum_list (map (count_list (filter (\<lambda>t. t \<notin> set B) A)) [0..<n]) = length (filter (\<lambda>t. t \<notin> set B) A)"
    "sum_list (map (count_list (filter (\<lambda>t. t \<notin> set A) B)) [0..<n]) = length (filter (\<lambda>t. t \<notin> set A) B)"
    using assms(3,4) by (intro count; auto)+
  ultimately show ?thesis using unique_loop_sum [OF assms(1,2), of "[0..<n]" 0 0] by force
qed

section \<open>The result of the search on whole files\<close>

text \<open>
  Regions of two files in order, ended by the end of the files, each with a positive number of equal tokens, from the
  positions \<open>i\<close> and \<open>j\<close> on.
\<close>

fun common_regions :: "nat list \<Rightarrow> nat list \<Rightarrow> svn_diff__lcs_t list \<Rightarrow> nat \<Rightarrow> nat \<Rightarrow> bool" where
  "common_regions F0 F1 [] i j = False"
| "common_regions F0 F1 (r # rs) i j =
     (if rs = [] then r = \<lparr>position0 = int (length F0) + 1, position1 = int (length F1) + 1, lcs_length = 0\<rparr>
        \<and> i \<le> length F0 \<and> j \<le> length F1
      else \<exists>s0 s1 n. region_at F0 F1 0 r s0 s1 n \<and> i \<le> s0 \<and> j \<le> s1 \<and> s0 + n \<le> length F0 \<and> s1 + n \<le> length F1
        \<and> common_regions F0 F1 rs (s0 + n) (s1 + n))"

lemma common_regions_mono: "common_regions F0 F1 rs i j \<Longrightarrow> i' \<le> i \<Longrightarrow> j' \<le> j \<Longrightarrow> common_regions F0 F1 rs i' j'"
  by (cases rs) (auto split: if_splits intro: order_trans)

lemma common_regions_cons:
  assumes "common_regions F0 F1 rs (s0 + n) (s1 + n)" "region_at F0 F1 0 r s0 s1 n"
    and "s0 + n \<le> length F0" "s1 + n \<le> length F1"
  shows "common_regions F0 F1 (r # rs) s0 s1"
proof -
  have "rs \<noteq> []" using assms(1) by auto
  then show ?thesis using assms by simp blast
qed

text \<open>Regions between a common prefix and a common suffix are regions of the files.\<close>

lemma region_in_file:
  assumes "region_at A B (int (length P)) r s0 s1 n" "s0 + n \<le> length A" "s1 + n \<le> length B"
  shows "region_at (P @ A @ S) (P @ B @ S) 0 r (length P + s0) (length P + s1) n"
  using assms by (auto simp: region_at_def position_offset_def nth_append)

lemma regions_in_file:
  assumes "regions A B (int (length P)) rs i j" "i \<le> length A" "j \<le> length B"
    and "common_regions (P @ A @ S) (P @ B @ S) rest (length P + i) (length P + j)"
  shows "common_regions (P @ A @ S) (P @ B @ S) (rev rs @ rest) (length P) (length P)"
  using assms
proof (induction rs arbitrary: rest i j)
  case Nil
  then show ?case using common_regions_mono [OF Nil(4)] by simp
next
  case (Cons r rs)
  from Cons.prems(1) obtain s0 s1 n where r: "region_at A B (int (length P)) r s0 s1 n" "s0 + n \<le> i" "s1 + n \<le> j"
    "regions A B (int (length P)) rs s0 s1" by auto
  have "common_regions (P @ A @ S) (P @ B @ S) (r # rest) (length P + s0) (length P + s1)"
    using r(2,3) Cons.prems(2,3) region_in_file [OF r(1)]
    by (intro common_regions_cons [where n = n] common_regions_mono [OF Cons.prems(4)]) auto
  then show ?case using Cons.IH [OF r(4)] r(2,3) Cons.prems(2,3) by simp
qed

lemma lcs_reverse_rev: "svn_diff__lcs_reverse lcs = rev lcs"
  by (simp add: svn_diff__lcs_reverse_def foldl_conv_fold flip: rev_conv_fold)

text \<open>A common subsequence of the files is not longer than the prefix, the suffix and one of what is between.\<close>

lemma common_prefix:
  "subseq zs (P @ X) \<Longrightarrow> subseq zs (P @ Y) \<Longrightarrow> \<exists>zs'. subseq zs' X \<and> subseq zs' Y \<and> length zs \<le> length P + length zs'"
proof (induction P arbitrary: zs)
  case (Cons p P)
  have "subseq (tl zs) (P @ X)" "subseq (tl zs) (P @ Y)"
    using Cons.prems by (cases zs; auto split: if_splits dest: subseq_Cons')+
  from Cons.IH [OF this] obtain zs' where "subseq zs' X" "subseq zs' Y" "length (tl zs) \<le> length P + length zs'" by blast
  then show ?case by (intro exI [of _ zs']) auto
qed auto

lemma subseq_rev: "subseq xs ys \<Longrightarrow> subseq (rev xs) (rev ys)"
  by (induction rule: list_emb.induct) (auto intro: list_emb_append_mono subseq_rev_drop_many)

lemma common_prefix_suffix:
  assumes "subseq zs (P @ A @ S)" "subseq zs (P @ B @ S)"
  shows "\<exists>zs'. subseq zs' A \<and> subseq zs' B \<and> length zs \<le> length P + length zs' + length S"
proof -
  obtain z1 where z1: "subseq z1 (A @ S)" "subseq z1 (B @ S)" "length zs \<le> length P + length z1"
    using common_prefix [OF assms] by blast
  then have "subseq (rev z1) (rev S @ rev A)" "subseq (rev z1) (rev S @ rev B)" using subseq_rev by fastforce+
  from common_prefix [OF this] obtain z2 where "subseq z2 (rev A)" "subseq z2 (rev B)" "length z1 \<le> length S + length z2"
    by auto
  then have "subseq (rev z2) A" "subseq (rev z2) B" using subseq_rev by fastforce+
  then show ?thesis using z1(3) \<open>length z1 \<le> length S + length z2\<close> by (intro exI [of _ "rev z2"]) simp
qed

lemma suffix_regions:
  assumes "n = int (length S)"
    and "eof = \<lparr>position0 = int (length F0) + 1, position1 = int (length F1) + 1, lcs_length = 0\<rparr>"
    and "F0 = X @ S" "F1 = Y @ S"
  shows "\<exists>rest. (if n \<noteq> 0 then prepend_lcs regs n (position0 eof - n) (position1 eof - n) else Inr regs) = Inr (rest @ regs)
    \<and> common_regions F0 F1 (rest @ [eof]) (length X) (length Y) \<and> matched rest = n"
proof (cases "n = 0")
  case True
  then show ?thesis using assms by (intro exI [of _ "[]"]) simp
next
  case False
  let ?r = "\<lparr>position0 = position0 eof - n, position1 = position1 eof - n, lcs_length = n\<rparr>"
  have "region_at F0 F1 0 ?r (length X) (length Y) (length S)"
    using assms False by (simp add: region_at_def position_offset_def)
  then have "common_regions F0 F1 (?r # [eof]) (length X) (length Y)"
    using assms by (intro common_regions_cons [where n = "length S" and rs = "[eof]"]) simp_all
  then show ?thesis using False assms(1) by (intro exI [of _ "[?r]"]) (simp add: prepend_lcs_def)
qed

lemma prefix_regions:
  assumes "n = int (length P)" "F0 = P @ X" "F1 = P @ Y" "common_regions F0 F1 lcs (length P) (length P)"
  shows "\<exists>lcs'. (if n \<noteq> 0 then prepend_lcs lcs n 1 1 else Inr lcs) = Inr lcs'
    \<and> common_regions F0 F1 lcs' 0 0 \<and> matched lcs' = n + matched lcs"
proof (cases "n = 0")
  case True
  then show ?thesis using assms by simp
next
  case False
  let ?r = "\<lparr>position0 = 1, position1 = 1, lcs_length = n\<rparr>"
  have "region_at F0 F1 0 ?r 0 0 (length P)"
    using assms(1-3) False by (simp add: region_at_def position_offset_def nth_append)
  then have "common_regions F0 F1 (?r # lcs) 0 0"
    using assms by (intro common_regions_cons [where n = "length P"]) simp_all
  then show ?thesis using False assms(1) by (simp add: prepend_lcs_def)
qed

lemma start_slots:
  assumes "replicate (nat (shared A B + shared B A + 3)) unset = fp"
  shows "\<exists>fp'. fp_set fp (shared B A + 1) (delta A B - 1)
      \<lparr>snake_y = 0, snake_lcs = [], snake_position0 = Some 0, snake_position1 = Some (length B)\<rparr> = Inr fp'
    \<and> slots A B fp' (start_state A B)"
proof -
  have "slots A B fp (\<lambda>k. unset)" using assms by (auto simp: slots_def)
  from slots_set [OF this, of "delta A B - 1"] show ?thesis by (simp add: start_state_def)
qed

text \<open>The search between a common prefix and a common suffix of two files.\<close>

definition lcs_of_files :: "nat list \<Rightarrow> nat list \<Rightarrow> svn_diff__lcs_t list \<Rightarrow> bool" where
  "lcs_of_files F0 F1 lcs \<longleftrightarrow> common_regions F0 F1 lcs 0 0
     \<and> (\<forall>zs. subseq zs F0 \<longrightarrow> subseq zs F1 \<longrightarrow> int (length zs) \<le> matched lcs)"

lemma lcs_of_filesI:
  assumes "common_regions (P @ A @ S) (P @ B @ S) lcs 0 0"
    and "\<And>zs. subseq zs A \<Longrightarrow> subseq zs B \<Longrightarrow> int (length P) + int (length zs) + int (length S) \<le> matched lcs"
  shows "lcs_of_files (P @ A @ S) (P @ B @ S) lcs"
  using assms common_prefix_suffix [of _ P A S B] by (fastforce simp: lcs_of_files_def)

definition eof_node :: "nat list \<Rightarrow> nat list \<Rightarrow> svn_diff__lcs_t" where
  "eof_node F0 F1 = \<lparr>position0 = int (length F0) + 1, position1 = int (length F1) + 1, lcs_length = 0\<rparr>"

lemma matched_eof [simp]: "lcs_length (eof_node F0 F1) = 0"
  by (simp add: eof_node_def)

lemma lcs_nothing_between:
  assumes "A = [] \<or> B = []"
  shows "\<exists>lcs. svn_diff__lcs A B c0 c1 n (int (length P)) (int (length S)) = Inr lcs \<and> lcs_of_files (P @ A @ S) (P @ B @ S) lcs"
proof -
  let ?p = "int (length P)" and ?s = "int (length S)" and ?F0 = "P @ A @ S" and ?F1 = "P @ B @ S"
  let ?eof = "eof_node ?F0 ?F1"
  obtain rest where rest: "(if ?s \<noteq> 0 then prepend_lcs [?eof] ?s (position0 ?eof - ?s) (position1 ?eof - ?s) else Inr [?eof]) = Inr (rest @ [?eof])"
    "common_regions ?F0 ?F1 (rest @ [?eof]) (length (P @ A)) (length (P @ B))" "matched rest = ?s"
    using suffix_regions [where S = S and X = "P @ A" and Y = "P @ B" and regs = "[?eof]",
        OF refl eof_node_def append_assoc [symmetric] append_assoc [symmetric]] by blast
  obtain lcs where lcs: "(if ?p \<noteq> 0 then prepend_lcs (rest @ [?eof]) ?p 1 1 else Inr (rest @ [?eof])) = Inr lcs"
    "common_regions ?F0 ?F1 lcs 0 0" "matched lcs = ?p + matched (rest @ [?eof])"
    using prefix_regions [of ?p P ?F0 "A @ S" ?F1 "B @ S" "rest @ [?eof]", OF refl refl refl] common_regions_mono [OF rest(2)] by auto
  have "\<lparr>position0 = ?p + int (length A) + ?s + 1, position1 = ?p + int (length B) + ?s + 1, lcs_length = 0\<rparr> = ?eof"
    by (simp add: eof_node_def)
  then have "svn_diff__lcs A B c0 c1 n ?p ?s =
    SVN_ERR (if ?s \<noteq> 0 then prepend_lcs [?eof] ?s (position0 ?eof - ?s) (position1 ?eof - ?s) else Inr [?eof])
      (\<lambda>lcs. if ?p \<noteq> 0 then prepend_lcs lcs ?p 1 1 else Inr lcs)"
    by (simp only: svn_diff__lcs_def Let_def assms if_True)
  then have "svn_diff__lcs A B c0 c1 n ?p ?s = Inr lcs" by (simp only: rest(1) lcs(1) SVN_ERR_simps)
  moreover have "lcs_of_files ?F0 ?F1 lcs"
    using lcs(3) rest(3) assms by (intro lcs_of_filesI [OF lcs(2)]) auto
  ultimately show ?thesis by blast
qed

lemma lcs_between:
  assumes c: "counts_ok n A c0" "counts_ok n B c1" "set A \<subseteq> {..<n}" "set B \<subseteq> {..<n}" and "A \<noteq> []" "B \<noteq> []"
  shows "\<exists>lcs. svn_diff__lcs A B c0 c1 n (int (length P)) (int (length S)) = Inr lcs \<and> lcs_of_files (P @ A @ S) (P @ B @ S) lcs"
proof -
  let ?p = "int (length P)" and ?s = "int (length S)" and ?F0 = "P @ A @ S" and ?F1 = "P @ B @ S"
  let ?eof = "eof_node ?F0 ?F1" and ?fp = "replicate (nat (shared A B + shared B A + 3)) unset"
  obtain fp where fp: "fp_set ?fp (shared B A + 1) (delta A B - 1)
      \<lparr>snake_y = 0, snake_lcs = [], snake_position0 = Some 0, snake_position1 = Some (length B)\<rparr> = Inr fp"
    "slots A B fp (start_state A B)" using start_slots [OF refl] by blast
  obtain regs where regs: "lcs_rounds (length fp) c0 c1 A B ?p (shared B A + 1) (delta A B) 0 fp = Inr regs"
    "longest A B ?p regs" using lcs_rounds_ok [OF c _ fp(2), of ?p] by auto
  obtain rest where rest: "(if ?s \<noteq> 0 then prepend_lcs regs ?s (position0 ?eof - ?s) (position1 ?eof - ?s) else Inr regs) = Inr (rest @ regs)"
    "common_regions ?F0 ?F1 (rest @ [?eof]) (length (P @ A)) (length (P @ B))" "matched rest = ?s"
    using suffix_regions [where S = S and X = "P @ A" and Y = "P @ B" and regs = regs,
        OF refl eof_node_def append_assoc [symmetric] append_assoc [symmetric]] by blast
  have rest1: "rev rest = rest" using rest(1) by (auto simp: prepend_lcs_def split: if_splits)
  have "common_regions ?F0 ?F1 (rev regs @ rest @ [?eof]) (length P) (length P)"
    using regions_in_file [of A B P regs "length A" "length B" S "rest @ [?eof]"] regs(2) rest(2) by (simp add: longest_def)
  from prefix_regions [of ?p P ?F0 "A @ S" ?F1 "B @ S", OF refl refl refl this]
  obtain lcs where lcs: "(if ?p \<noteq> 0 then prepend_lcs (rev regs @ rest @ [?eof]) ?p 1 1 else Inr (rev regs @ rest @ [?eof])) = Inr lcs"
    "common_regions ?F0 ?F1 lcs 0 0" "matched lcs = ?p + matched (rev regs @ rest @ [?eof])" by blast
  have shared: "int (length A) - int (length A - rank A B (length A)) = shared A B"
    "int (length B) - int (length B - rank B A (length B)) = shared B A"
    by (simp_all add: rank_def of_nat_diff)
  have eof: "\<lparr>position0 = ?p + int (length A) + ?s + 1, position1 = ?p + int (length B) + ?s + 1, lcs_length = 0\<rparr> = ?eof"
    by (simp add: eof_node_def)
  have "svn_diff__lcs_reverse (?eof # rest @ regs) = rev regs @ rest @ [?eof]" by (simp add: lcs_reverse_rev rest1)
  then have "svn_diff__lcs A B c0 c1 n ?p ?s = Inr lcs"
    by (simp only: svn_diff__lcs_def Let_def assms if_False unique_loop_ok [OF c] SVN_ERR_simps prod.case shared eof
      unset_def [symmetric] fp(1) regs(1) rest(1) lcs(1) disj_not1 simp_thms)
  moreover have "matched (rev regs) = matched regs" by (simp add: matched_def flip: rev_map)
  then have "lcs_of_files ?F0 ?F1 lcs"
    using lcs(3) rest(3) regs(2) by (intro lcs_of_filesI [OF lcs(2)]) (auto simp: longest_def)
  ultimately show ?thesis by blast
qed

lemma svn_diff__lcs_ok:
  assumes "counts_ok n A c0" "counts_ok n B c1" "set A \<subseteq> {..<n}" "set B \<subseteq> {..<n}"
  shows "\<exists>lcs. svn_diff__lcs A B c0 c1 n (int (length P)) (int (length S)) = Inr lcs \<and> lcs_of_files (P @ A @ S) (P @ B @ S) lcs"
  using lcs_nothing_between lcs_between [OF assms] by blast

section \<open>The hunks of two files\<close>

definition file_part :: "'a list \<Rightarrow> int \<Rightarrow> int \<Rightarrow> 'a list" where
  "file_part F a n = take (nat n) (drop (nat a) F)"

text \<open>Hunks that follow each other from the positions \<open>i\<close> and \<open>j\<close> to the ends of both files.\<close>

definition hunk_ok :: "'a list \<Rightarrow> 'a list \<Rightarrow> int \<Rightarrow> int \<Rightarrow> svn_diff_t \<Rightarrow> bool" where
  "hunk_ok F0 F1 i j h \<longleftrightarrow> original_start h = i \<and> modified_start h = j
     \<and> 0 \<le> original_length h \<and> 0 \<le> modified_length h
     \<and> (if diff_type h = svn_diff__type_common
        then 0 < original_length h \<and> file_part F0 i (original_length h) = file_part F1 j (modified_length h)
          \<and> modified_length h = original_length h
        else diff_type h = svn_diff__type_diff_modified \<and> (0 < original_length h \<or> 0 < modified_length h))"

fun hunks_cover :: "'a list \<Rightarrow> 'a list \<Rightarrow> int \<Rightarrow> int \<Rightarrow> svn_diff_t list \<Rightarrow> bool" where
  "hunks_cover F0 F1 i j [] \<longleftrightarrow> i = int (length F0) \<and> j = int (length F1)"
| "hunks_cover F0 F1 i j (h # hs) \<longleftrightarrow> hunk_ok F0 F1 i j h
     \<and> hunks_cover F0 F1 (i + original_length h) (j + modified_length h) hs"

definition changed_tokens :: "svn_diff_t list \<Rightarrow> int" where
  "changed_tokens hs = sum_list (map (\<lambda>h. original_length h + modified_length h)
     (filter (\<lambda>h. diff_type h \<noteq> svn_diff__type_common) hs))"

definition patch :: "'a list \<Rightarrow> 'a list \<Rightarrow> svn_diff_t list \<Rightarrow> 'a list" where
  "patch F0 F1 hs = concat (map (\<lambda>h.
     if diff_type h = svn_diff__type_common then file_part F0 (original_start h) (original_length h)
     else file_part F1 (modified_start h) (modified_length h)) hs)"

definition reverse_patch :: "'a list \<Rightarrow> 'a list \<Rightarrow> svn_diff_t list \<Rightarrow> 'a list" where
  "reverse_patch F0 F1 hs = concat (map (\<lambda>h.
     if diff_type h = svn_diff__type_common then file_part F1 (modified_start h) (modified_length h)
     else file_part F0 (original_start h) (original_length h)) hs)"

lemma file_part_drop: "0 \<le> i \<Longrightarrow> 0 \<le> n \<Longrightarrow> file_part F i n @ drop (nat (i + n)) F = drop (nat i) F"
  unfolding file_part_def by (metis nat_add_distrib add.commute append_take_drop_id drop_drop)

lemma hunks_cover_patch:
  "hunks_cover F0 F1 i j hs \<Longrightarrow> 0 \<le> i \<Longrightarrow> 0 \<le> j \<Longrightarrow>
   patch F0 F1 hs = drop (nat j) F1 \<and> reverse_patch F0 F1 hs = drop (nat i) F0"
proof (induction hs arbitrary: i j)
  case (Cons h hs)
  from Cons.prems(1) have h: "hunk_ok F0 F1 i j h" by simp
  have "patch F0 F1 hs = drop (nat (j + modified_length h)) F1 \<and> reverse_patch F0 F1 hs = drop (nat (i + original_length h)) F0"
    using Cons.prems h by (intro Cons.IH) (auto simp: hunk_ok_def)
  then show ?case
    using h file_part_drop [OF Cons.prems(2), of "original_length h" F0] file_part_drop [OF Cons.prems(3), of "modified_length h" F1]
    by (auto simp: patch_def reverse_patch_def hunk_ok_def split: if_splits)
qed (simp add: patch_def reverse_patch_def)

lemma region_file_part:
  assumes "region_at F0 F1 0 r s0 s1 n" "s0 + n \<le> length F0" "s1 + n \<le> length F1"
  shows "file_part F0 (int s0) (int n) = file_part F1 (int s1) (int n)"
  using assms by (auto simp: file_part_def region_at_def intro!: nth_equalityI)

lemma changed_tokens_simps [simp]:
  "changed_tokens [] = 0"
  "changed_tokens (h # hs) =
    (if diff_type h = svn_diff__type_common then 0 else original_length h + modified_length h) + changed_tokens hs"
  by (simp_all add: changed_tokens_def)

lemma svn_diff__diff_ok:
  "common_regions F0 F1 lcs i j \<Longrightarrow>
   \<exists>hs. svn_diff__diff lcs (int i + 1) (int j + 1) True = Inr hs \<and> hunks_cover F0 F1 (int i) (int j) hs
     \<and> changed_tokens hs + 2 * matched lcs = int (length F0) - int i + (int (length F1) - int j)"
proof (induction lcs arbitrary: i j)
  case (Cons r rs)
  show ?case
  proof (cases "rs = []")
    case True
    then show ?thesis using Cons.prems by (auto simp: hunk_ok_def)
  next
    case False
    then obtain s0 s1 n where r: "region_at F0 F1 0 r s0 s1 n" "i \<le> s0" "j \<le> s1" "s0 + n \<le> length F0" "s1 + n \<le> length F1"
      "common_regions F0 F1 rs (s0 + n) (s1 + n)" using Cons.prems by auto
    from Cons.IH [OF r(6)] obtain hs where hs: "svn_diff__diff rs (int (s0 + n) + 1) (int (s1 + n) + 1) True = Inr hs"
      "hunks_cover F0 F1 (int (s0 + n)) (int (s1 + n)) hs"
      "changed_tokens hs + 2 * matched rs = int (length F0) - int (s0 + n) + (int (length F1) - int (s1 + n))" by blast
    have "position0 r = int s0 + 1" "position1 r = int s1 + 1" "lcs_length r = int n" "0 < n"
      using r(1) by (simp_all add: region_at_def position_offset_def)
    moreover have "file_part F0 (int s0) (int n) = file_part F1 (int s1) (int n)" by (rule region_file_part [OF r(1,4,5)])
    ultimately show ?thesis using hs r(2,3) by (auto simp: hunk_ok_def algebra_simps)
  qed
qed simp

lemma svn_diff__diff_want_common:
  "svn_diff__diff lcs i j False =
   SVN_ERR (svn_diff__diff lcs i j True) (\<lambda>hs. Inr (filter (\<lambda>h. diff_type h \<noteq> svn_diff__type_common) hs))"
proof (induction lcs arbitrary: i j)
  case (Cons r rs)
  then show ?case
    by (cases "svn_diff__diff rs (position0 r + lcs_length r) (position1 r + lcs_length r) True") (auto simp: Let_def)
qed simp

text \<open>The matched regions are a common subsequence.\<close>

lemma subseq_drop_part:
  assumes "subseq zs (drop (s + n) F)" "i \<le> s"
  shows "subseq (take n (drop s F) @ zs) (drop i F)"
proof -
  have "drop s F = take n (drop s F) @ drop (s + n) F" by (metis add.commute append_take_drop_id drop_drop)
  then have "subseq (take n (drop s F) @ zs) (drop s F)" using assms(1) by (metis list_emb_append_mono subseq_order.refl)
  moreover have "drop i F = take (s - i) (drop i F) @ drop s F"
    using assms(2) by (metis append_take_drop_id drop_drop le_add_diff_inverse2)
  ultimately show ?thesis by (metis list_emb_append2)
qed

lemma common_regions_subseq:
  "common_regions F0 F1 lcs i j \<Longrightarrow> \<exists>zs. subseq zs (drop i F0) \<and> subseq zs (drop j F1) \<and> int (length zs) = matched lcs"
proof (induction lcs arbitrary: i j)
  case (Cons r rs)
  show ?case
  proof (cases "rs = []")
    case True
    then show ?thesis using Cons.prems by (intro exI [of _ "[]"]) simp
  next
    case False
    then obtain s0 s1 n where r: "region_at F0 F1 0 r s0 s1 n" "i \<le> s0" "j \<le> s1" "s0 + n \<le> length F0" "s1 + n \<le> length F1"
      "common_regions F0 F1 rs (s0 + n) (s1 + n)" using Cons.prems by auto
    from Cons.IH [OF r(6)] obtain zs where zs: "subseq zs (drop (s0 + n) F0)" "subseq zs (drop (s1 + n) F1)"
      "int (length zs) = matched rs" by blast
    have "take n (drop s0 F0) = take n (drop s1 F1)" using region_file_part [OF r(1,4,5)] by (simp add: file_part_def)
    then show ?thesis
      using subseq_drop_part [OF zs(1) r(2)] subseq_drop_part [OF zs(2) r(3)] zs(3) r(1,4,5)
      by (intro exI [of _ "take n (drop s0 F0) @ zs"]) (simp add: region_at_def)
  qed
qed simp

section \<open>When two files are equal\<close>

lemma contains_diffs_iff: "svn_diff_contains_diffs hs \<longleftrightarrow> (\<exists>h \<in> set hs. diff_type h \<noteq> svn_diff__type_common)"
  by (induction hs) auto

lemma contains_conflicts_iff: "svn_diff_contains_conflicts hs \<longleftrightarrow> (\<exists>h \<in> set hs. diff_type h = svn_diff__type_conflict)"
  by (induction hs) auto

lemma hunks_cover_types:
  "hunks_cover F0 F1 i j hs \<Longrightarrow> h \<in> set hs \<Longrightarrow>
   diff_type h = svn_diff__type_common \<or> diff_type h = svn_diff__type_diff_modified
     \<and> 0 < original_length h + modified_length h"
  by (induction hs arbitrary: i j) (auto simp: hunk_ok_def split: if_splits)

lemma hunks_cover_nonneg: "hunks_cover F0 F1 i j hs \<Longrightarrow> 0 \<le> changed_tokens hs"
  by (induction hs arbitrary: i j) (force simp: hunk_ok_def)+

lemma no_changed_tokens:
  "hunks_cover F0 F1 i j hs \<Longrightarrow> changed_tokens hs \<le> 0 \<Longrightarrow> \<not> svn_diff_contains_diffs hs"
  using hunks_cover_types [of F0 F1]
proof (induction hs arbitrary: i j)
  case (Cons h hs)
  then have "0 \<le> changed_tokens hs" using hunks_cover_nonneg by auto
  moreover have "0 \<le> original_length h \<and> 0 \<le> modified_length h" using Cons.prems(1) by (simp add: hunk_ok_def)
  ultimately show ?case using Cons by (auto simp: hunk_ok_def split: if_splits)
qed simp

lemma no_diffs_equal:
  assumes "hunks_cover F0 F1 i j hs" "\<not> svn_diff_contains_diffs hs"
  shows "patch F0 F1 hs = reverse_patch F0 F1 hs"
  using assms by (induction hs arbitrary: i j) (auto simp: patch_def reverse_patch_def hunk_ok_def split: if_splits)

text \<open>All of what the hunks of a longest common subsequence are.\<close>

definition diff_of_files :: "'a list \<Rightarrow> 'a list \<Rightarrow> svn_diff_t list \<Rightarrow> bool" where
  "diff_of_files F0 F1 hs \<longleftrightarrow> hunks_cover F0 F1 0 0 hs
     \<and> (\<forall>zs. subseq zs F0 \<longrightarrow> subseq zs F1 \<longrightarrow> changed_tokens hs + 2 * int (length zs) \<le> int (length F0) + int (length F1))"

lemma diff_of_filesD:
  assumes "diff_of_files F0 F1 hs"
  shows "patch F0 F1 hs = F1" "reverse_patch F0 F1 hs = F0"
    and "svn_diff_contains_diffs hs \<longleftrightarrow> F0 \<noteq> F1" "\<not> svn_diff_contains_conflicts hs"
proof -
  have cover: "hunks_cover F0 F1 0 0 hs" using assms by (simp add: diff_of_files_def)
  show p: "patch F0 F1 hs = F1" "reverse_patch F0 F1 hs = F0" using hunks_cover_patch [OF cover] by simp_all
  show "svn_diff_contains_diffs hs \<longleftrightarrow> F0 \<noteq> F1"
  proof
    assume "svn_diff_contains_diffs hs"
    then have "0 < changed_tokens hs" using no_changed_tokens [OF cover] by force
    moreover have "changed_tokens hs \<le> 0" if "F0 = F1"
      using assms that unfolding diff_of_files_def by (metis (no_types) add_le_same_cancel2 mult_2 subseq_order.refl)
    ultimately show "F0 \<noteq> F1" by force
  next
    assume "F0 \<noteq> F1"
    then show "svn_diff_contains_diffs hs" using no_diffs_equal [OF cover] p by force
  qed
  show "\<not> svn_diff_contains_conflicts hs"
    using hunks_cover_types [OF cover] by (force simp: contains_conflicts_iff)
qed

lemma diff_of_lcs:
  assumes "lcs_of_files F0 F1 lcs"
  shows "\<exists>hs. svn_diff__diff lcs 1 1 True = Inr hs \<and> diff_of_files F0 F1 hs"
proof -
  obtain hs where hs: "svn_diff__diff lcs 1 1 True = Inr hs" "hunks_cover F0 F1 0 0 hs"
    "changed_tokens hs + 2 * matched lcs = int (length F0) + int (length F1)"
    using svn_diff__diff_ok [of F0 F1 lcs 0 0] assms by (auto simp: lcs_of_files_def)
  moreover have "2 * int (length zs) \<le> 2 * matched lcs" if "subseq zs F0" "subseq zs F1" for zs
    using that assms by (simp add: lcs_of_files_def)
  ultimately show ?thesis by (force simp: diff_of_files_def)
qed

section \<open>Theorems\<close>

text \<open>
  C8. The search for matching lines returns on every two sequences of tokens, without an access
  outside of its array, and finds a longest common subsequence: its regions are in
  order, match equal tokens of the two files, which include a common prefix and suffix, and end at the
  end of both; they match as many tokens as the longest common subsequence has.
\<close>

theorem svn_diff__lcs_longest:
  assumes "set A \<subseteq> {..<n}" "set B \<subseteq> {..<n}"
  shows "\<exists>c0 c1 lcs. svn_diff__get_token_counts A n = Inr c0 \<and> svn_diff__get_token_counts B n = Inr c1
    \<and> svn_diff__lcs A B c0 c1 n (int (length P)) (int (length S)) = Inr lcs
    \<and> common_regions (P @ A @ S) (P @ B @ S) lcs 0 0
    \<and> (\<exists>zs. subseq zs (P @ A @ S) \<and> subseq zs (P @ B @ S) \<and> int (length zs) = matched lcs)
    \<and> (\<forall>zs. subseq zs (P @ A @ S) \<longrightarrow> subseq zs (P @ B @ S) \<longrightarrow> int (length zs) \<le> matched lcs)"
proof -
  obtain c0 c1 where c: "svn_diff__get_token_counts A n = Inr c0" "counts_ok n A c0"
    "svn_diff__get_token_counts B n = Inr c1" "counts_ok n B c1"
    using token_counts_ok [OF assms(1)] token_counts_ok [OF assms(2)] by blast
  obtain lcs where lcs: "svn_diff__lcs A B c0 c1 n (int (length P)) (int (length S)) = Inr lcs"
    "lcs_of_files (P @ A @ S) (P @ B @ S) lcs"
    using svn_diff__lcs_ok [OF c(2,4) assms] by blast
  then have "common_regions (P @ A @ S) (P @ B @ S) lcs 0 0" by (simp add: lcs_of_files_def)
  from common_regions_subseq [OF this] show ?thesis using c(1,3) lcs by (auto simp: lcs_of_files_def)
qed

theorem svn_diff__lcs_longest_witness:
  "\<exists>c0 c1 lcs. svn_diff__get_token_counts [1, 2, 1, 3] 4 = Inr c0 \<and> svn_diff__get_token_counts [2, 1, 0, 3] 4 = Inr c1
    \<and> svn_diff__lcs [1, 2, 1, 3] [2, 1, 0, 3] c0 c1 4 (int (length [5 :: nat])) (int (length ([] :: nat list))) = Inr lcs
    \<and> common_regions ([5] @ [1, 2, 1, 3] @ []) ([5] @ [2, 1, 0, 3] @ []) lcs 0 0
    \<and> (\<exists>zs. subseq zs ([5 :: nat] @ [1, 2, 1, 3] @ []) \<and> subseq zs ([5 :: nat] @ [2, 1, 0, 3] @ []) \<and> int (length zs) = matched lcs)
    \<and> (\<forall>zs. subseq zs ([5 :: nat] @ [1, 2, 1, 3] @ []) \<longrightarrow> subseq zs ([5 :: nat] @ [2, 1, 0, 3] @ []) \<longrightarrow> int (length zs) \<le> matched lcs)"
  by (rule svn_diff__lcs_longest) simp_all

end
