(* ===== verification/Diff_Tokens.thy ===== *)
theory Diff_Tokens
  imports Diff "HOL-Library.Word" "HOL-Library.Tree"
begin

unbundle bit_operations_syntax

text \<open>
  From texts to token indices (libsvn\_diff/token.c, diff.c and util.c, libsvn\_subr/adler32.c):
  normalizing a line, its checksum, the hash table of search trees that gives equal lines the same
  index, and \<open>svn_diff_diff_2\<close> on any datasource. A datasource is a table of functions on a
  baton; the locale \<open>token_source\<close> states what the functions promise.
\<close>

section \<open>Normalizing a line\<close>

datatype svn_diff_file_ignore_space_t =
    svn_diff_file_ignore_space_none
  | svn_diff_file_ignore_space_change
  | svn_diff_file_ignore_space_all

record svn_diff_file_options_t =
  ignore_space :: svn_diff_file_ignore_space_t
  ignore_eol_style :: bool
  show_c_function :: bool

datatype svn_diff__normalize_state_t =
    svn_diff__normalize_state_normal
  | svn_diff__normalize_state_whitespace
  | svn_diff__normalize_state_cr

definition svn_ctype_isspace :: "char \<Rightarrow> bool" where
  "svn_ctype_isspace c \<longleftrightarrow> c \<in> {CHR 0x09, CHR 0x0A, CHR 0x0B, CHR 0x0C, CHR 0x0D, CHR 0x20}"

text \<open>
  The variables of the loop: where the included block starts and how long it is, whether the last
  character was skipped, and what has been written to the target buffer, which is not part
  of the source buffer.
\<close>

record normalize_t =
  norm_start :: nat
  include_len :: nat
  last_skipped :: bool
  tgt :: string

definition COPY_INCLUDED_SECTION :: "string \<Rightarrow> nat \<Rightarrow> normalize_t \<Rightarrow> normalize_t" where
  "COPY_INCLUDED_SECTION buf curp m =
     m\<lparr>tgt := tgt m @ (if include_len m > 0 then take (include_len m) (drop (norm_start m) buf) else []),
       include_len := 0, norm_start := curp\<rparr>"

definition SKIP_char :: "nat \<Rightarrow> normalize_t \<Rightarrow> normalize_t" where
  "SKIP_char curp m = m\<lparr>norm_start := (if norm_start m = curp then norm_start m + 1 else norm_start m), last_skipped := True\<rparr>"

definition INCLUDE_char :: "string \<Rightarrow> nat \<Rightarrow> normalize_t \<Rightarrow> normalize_t" where
  "INCLUDE_char buf curp m =
     (let m' = (if last_skipped m then COPY_INCLUDED_SECTION buf curp m else m) in
      m'\<lparr>include_len := include_len m' + 1, last_skipped := False\<rparr>)"

definition INSERT_char :: "string \<Rightarrow> nat \<Rightarrow> char \<Rightarrow> normalize_t \<Rightarrow> normalize_t" where
  "INSERT_char buf curp x m = (let m' = COPY_INCLUDED_SECTION buf curp m in m'\<lparr>tgt := tgt m' @ [x]\<rparr>)"

definition INCLUDE_AS :: "string \<Rightarrow> nat \<Rightarrow> char \<Rightarrow> char \<Rightarrow> normalize_t \<Rightarrow> normalize_t" where
  "INCLUDE_AS buf curp c x m = (if c = x then INCLUDE_char buf curp m else SKIP_char curp (INSERT_char buf curp x m))"

text \<open>The loop over the characters from \<open>curp\<close> on.\<close>

fun normalize_loop ::
  "svn_diff_file_options_t \<Rightarrow> string \<Rightarrow> nat \<Rightarrow> string \<Rightarrow> svn_diff__normalize_state_t \<Rightarrow> normalize_t \<Rightarrow>
   svn_diff__normalize_state_t \<times> normalize_t" where
  "normalize_loop opts buf curp [] state m = (state, m)"
| "normalize_loop opts buf curp (c # cs) state m =
     (if c = CHR 0x0D then
        normalize_loop opts buf (curp + 1) cs svn_diff__normalize_state_cr
          (if ignore_eol_style opts then INCLUDE_AS buf curp c (CHR 0x0A) m else INCLUDE_char buf curp m)
      else if c = CHR 0x0A then
        normalize_loop opts buf (curp + 1) cs svn_diff__normalize_state_normal
          (if state = svn_diff__normalize_state_cr \<and> ignore_eol_style opts then SKIP_char curp m
           else INCLUDE_char buf curp m)
      else if svn_ctype_isspace c \<and> ignore_space opts \<noteq> svn_diff_file_ignore_space_none then
        normalize_loop opts buf (curp + 1) cs svn_diff__normalize_state_whitespace
          (if state \<noteq> svn_diff__normalize_state_whitespace \<and> ignore_space opts = svn_diff_file_ignore_space_change
           then INCLUDE_AS buf curp c (CHR 0x20) m else SKIP_char curp m)
      else
        normalize_loop opts buf (curp + 1) cs svn_diff__normalize_state_normal (INCLUDE_char buf curp m))"

definition svn_diff__normalize_buffer ::
  "svn_diff_file_options_t \<Rightarrow> svn_diff__normalize_state_t \<Rightarrow> string \<Rightarrow> string \<times> svn_diff__normalize_state_t" where
  "svn_diff__normalize_buffer opts state buf =
     (if ignore_space opts = svn_diff_file_ignore_space_none \<and> \<not> ignore_eol_style opts then (buf, state)
      else
        case normalize_loop opts buf 0 buf state \<lparr>norm_start = 0, include_len = 0, last_skipped = False, tgt = []\<rparr>
        of (state', m) \<Rightarrow>
          (if tgt m = [] then take (include_len m) (drop (norm_start m) buf)
           else tgt (COPY_INCLUDED_SECTION buf (length buf) m), state'))"

section \<open>The checksum of a token\<close>

definition adler_step :: "32 word \<times> 32 word \<Rightarrow> char \<Rightarrow> 32 word \<times> 32 word" where
  "adler_step s c = (let s1 = fst s + of_char c in (s1, snd s + s1))"

text \<open>The loop that takes eight characters at a time, followed by the plain one.\<close>

function adler_loop :: "32 word \<times> 32 word \<Rightarrow> string \<Rightarrow> 32 word \<times> 32 word" where
  "adler_loop s input =
     (if length input \<ge> 8 then adler_loop (foldl adler_step s (take 8 input)) (drop 8 input)
      else foldl adler_step s input)"
  by pat_completeness auto
termination
  by (relation "measure (\<lambda>(s, input). length input)") auto

declare adler_loop.simps [simp del]

text \<open>\<open>zadler\<close> is zlib's \<open>adler32\<close>, which is called for long data.\<close>

definition svn__adler32 :: "(32 word \<Rightarrow> string \<Rightarrow> 32 word) \<Rightarrow> 32 word \<Rightarrow> string \<Rightarrow> 32 word" where
  "svn__adler32 zadler checksum data =
     (if length data \<ge> 80 then zadler checksum data
      else
        case adler_loop (checksum AND 0xFFFF, drop_bit 16 checksum) data of (s1, s2) \<Rightarrow>
          push_bit 16 (s2 mod 65521) OR (s1 mod 65521))"

section \<open>The tree of tokens\<close>

datatype svn_diff_datasource_e =
    svn_diff_datasource_original
  | svn_diff_datasource_modified
  | svn_diff_datasource_latest
  | svn_diff_datasource_ancestor

text \<open>A table of callbacks on a baton of the type \<open>'b\<close>; an optional callback may be missing.\<close>

record ('b, 'tok) svn_diff_fns2_t =
  datasources_open :: "'b \<Rightarrow> svn_diff_datasource_e list \<Rightarrow> (int \<times> int \<times> 'b) svn_result"
  datasource_close :: "'b \<Rightarrow> svn_diff_datasource_e \<Rightarrow> 'b svn_result"
  datasource_get_next_token :: "32 word \<Rightarrow> 'b \<Rightarrow> svn_diff_datasource_e \<Rightarrow> (32 word \<times> 'tok option \<times> 'b) svn_result"
  token_compare :: "'b \<Rightarrow> 'tok \<Rightarrow> 'tok \<Rightarrow> (int \<times> 'b) svn_result"
  token_discard :: "('b \<Rightarrow> 'tok \<Rightarrow> 'b) option"
  token_discard_all :: "('b \<Rightarrow> 'b) option"

record 'tok svn_diff__node_t =
  node_hash :: "32 word"
  node_index :: nat
  node_token :: 'tok

record 'tok svn_diff__tree_t =
  root :: "'tok svn_diff__node_t tree list"
  node_count :: nat

definition SVN_DIFF__HASH_SIZE :: nat where
  "SVN_DIFF__HASH_SIZE = 127"

definition svn_diff__tree_create :: "unit \<Rightarrow> 'tok svn_diff__tree_t" where
  "svn_diff__tree_create pool = \<lparr>root = replicate SVN_DIFF__HASH_SIZE \<langle>\<rangle>, node_count = 0\<rparr>"

definition svn_diff__get_node_count :: "'tok svn_diff__tree_t \<Rightarrow> nat" where
  "svn_diff__get_node_count tree = node_count tree"

text \<open>
  The search through one tree: the tree afterwards, the index of the node that was found or
  created, and whether it was created. The difference of the hashes is read as a signed number.
\<close>

primrec insert_in_tree ::
  "('b, 'tok) svn_diff_fns2_t \<Rightarrow> 32 word \<Rightarrow> 'tok \<Rightarrow> nat \<Rightarrow> 'b \<Rightarrow> 'tok svn_diff__node_t tree \<Rightarrow>
   ('tok svn_diff__node_t tree \<times> nat \<times> bool \<times> 'b) svn_result" where
  "insert_in_tree vtable hash token num baton \<langle>\<rangle> =
     Inr (\<langle>\<langle>\<rangle>, \<lparr>node_hash = hash, node_index = num, node_token = token\<rparr>, \<langle>\<rangle>\<rangle>, num, True, baton)"
| "insert_in_tree vtable hash token num baton \<langle>l, parent, r\<rangle> =
     SVN_ERR
       (if sint (hash - node_hash parent) \<noteq> 0 then Inr (sint (hash - node_hash parent), baton)
        else token_compare vtable baton (node_token parent) token)
       (\<lambda>(rv, baton').
         if rv = 0 then
           Inr (\<langle>l, parent\<lparr>node_token := token\<rparr>, r\<rangle>, node_index parent, False,
                case token_discard vtable of None \<Rightarrow> baton' | Some f \<Rightarrow> f baton' (node_token parent))
         else if rv > 0 then
           SVN_ERR (insert_in_tree vtable hash token num baton' l) (\<lambda>(l', i, new, baton'').
           Inr (\<langle>l', parent, r\<rangle>, i, new, baton''))
         else
           SVN_ERR (insert_in_tree vtable hash token num baton' r) (\<lambda>(r', i, new, baton'').
           Inr (\<langle>l, parent, r'\<rangle>, i, new, baton'')))"

definition tree_insert_token ::
  "('b, 'tok) svn_diff_fns2_t \<Rightarrow> 32 word \<Rightarrow> 'tok \<Rightarrow> 'b \<Rightarrow> 'tok svn_diff__tree_t \<Rightarrow>
   (nat \<times> 'tok svn_diff__tree_t \<times> 'b) svn_result" where
  "tree_insert_token vtable hash token baton tree =
     (let bucket = unat hash mod SVN_DIFF__HASH_SIZE in
      SVN_ERR (insert_in_tree vtable hash token (node_count tree) baton (root tree ! bucket)) (\<lambda>(t, i, new, baton').
      Inr (i, tree\<lparr>root := (root tree)[bucket := t], node_count := node_count tree + (if new then 1 else 0)\<rparr>, baton')))"

text \<open>The loop that reads the tokens of a datasource; it returns only if the datasource ends.\<close>

partial_function (option) get_tokens_loop ::
  "('b, 'tok) svn_diff_fns2_t \<Rightarrow> svn_diff_datasource_e \<Rightarrow> 32 word \<Rightarrow> 'tok svn_diff__tree_t \<Rightarrow> 'b \<Rightarrow> nat list \<Rightarrow>
   (nat list \<times> 'tok svn_diff__tree_t \<times> 'b) svn_result option" where
  "get_tokens_loop vtable datasource hash tree baton positions =
     (case datasource_get_next_token vtable hash baton datasource of
        Inl e \<Rightarrow> Some (Inl e)
      | Inr (hash', token, baton') \<Rightarrow>
          (case token of
             None \<Rightarrow> Some (Inr (positions, tree, baton'))
           | Some tok \<Rightarrow>
               (case tree_insert_token vtable hash' tok baton' tree of
                  Inl e \<Rightarrow> Some (Inl e)
                | Inr (i, tree', baton'') \<Rightarrow>
                    get_tokens_loop vtable datasource hash' tree' baton'' (positions @ [i]))))"

declare get_tokens_loop.simps [code]

definition svn_diff__get_tokens ::
  "('b, 'tok) svn_diff_fns2_t \<Rightarrow> svn_diff_datasource_e \<Rightarrow> 'tok svn_diff__tree_t \<Rightarrow> 'b \<Rightarrow>
   (nat list \<times> 'tok svn_diff__tree_t \<times> 'b) svn_result option" where
  "svn_diff__get_tokens vtable datasource tree baton =
     map_option (\<lambda>r. SVN_ERR r (\<lambda>(positions, tree', baton').
       SVN_ERR (datasource_close vtable baton' datasource) (\<lambda>baton''. Inr (positions, tree', baton''))))
       (get_tokens_loop vtable datasource 0 tree baton [])"

text \<open>Sequencing of calls that may fail and may not return.\<close>

definition CALL :: "'a svn_result option \<Rightarrow> ('a \<Rightarrow> 'c svn_result option) \<Rightarrow> 'c svn_result option" where
  "CALL m f = (case m of None \<Rightarrow> None | Some (Inl e) \<Rightarrow> Some (Inl e) | Some (Inr x) \<Rightarrow> f x)"

definition svn_diff_diff_2 ::
  "('b, 'tok) svn_diff_fns2_t \<Rightarrow> 'b \<Rightarrow> (svn_diff_t list \<times> 'b) svn_result option" where
  "svn_diff_diff_2 vtable baton =
     CALL (Some (datasources_open vtable baton [svn_diff_datasource_original, svn_diff_datasource_modified]))
       (\<lambda>(prefix_lines, suffix_lines, baton1).
     CALL (svn_diff__get_tokens vtable svn_diff_datasource_original (svn_diff__tree_create ()) baton1)
       (\<lambda>(positions0, tree1, baton2).
     CALL (svn_diff__get_tokens vtable svn_diff_datasource_modified tree1 baton2)
       (\<lambda>(positions1, tree2, baton3).
     Some (
       let num_tokens = svn_diff__get_node_count tree2;
           baton4 = (case token_discard_all vtable of None \<Rightarrow> baton3 | Some f \<Rightarrow> f baton3)
       in
       SVN_ERR (svn_diff__get_token_counts positions0 num_tokens) (\<lambda>counts0.
       SVN_ERR (svn_diff__get_token_counts positions1 num_tokens) (\<lambda>counts1.
       SVN_ERR (svn_diff__lcs positions0 positions1 counts0 counts1 num_tokens prefix_lines suffix_lines) (\<lambda>lcs.
       SVN_ERR (svn_diff__diff lcs 1 1 True) (\<lambda>diff. Inr (diff, baton4)))))))))"

section \<open>What normalization does\<close>

text \<open>Character by character: what is kept of a character, and the next state.\<close>

definition normalize_char ::
  "svn_diff_file_options_t \<Rightarrow> svn_diff__normalize_state_t \<Rightarrow> char \<Rightarrow> string \<times> svn_diff__normalize_state_t" where
  "normalize_char opts state c =
     (if c = CHR 0x0D then ([if ignore_eol_style opts then CHR 0x0A else CHR 0x0D], svn_diff__normalize_state_cr)
      else if c = CHR 0x0A then
        (if state = svn_diff__normalize_state_cr \<and> ignore_eol_style opts then [] else [CHR 0x0A],
         svn_diff__normalize_state_normal)
      else if svn_ctype_isspace c \<and> ignore_space opts \<noteq> svn_diff_file_ignore_space_none then
        (if state \<noteq> svn_diff__normalize_state_whitespace \<and> ignore_space opts = svn_diff_file_ignore_space_change
         then [CHR 0x20] else [],
         svn_diff__normalize_state_whitespace)
      else ([c], svn_diff__normalize_state_normal))"

fun normalized :: "svn_diff_file_options_t \<Rightarrow> svn_diff__normalize_state_t \<Rightarrow> string \<Rightarrow> string \<times> svn_diff__normalize_state_t" where
  "normalized opts state [] = ([], state)"
| "normalized opts state (c # cs) =
     (case normalize_char opts state c of (out, state1) \<Rightarrow>
      case normalized opts state1 cs of (rest, state2) \<Rightarrow> (out @ rest, state2))"

lemma normalized_Cons:
  "fst (normalized opts state (c # cs)) =
   fst (normalize_char opts state c) @ fst (normalized opts (snd (normalize_char opts state c)) cs)"
  by (simp split: prod.splits)

lemma normalize_append:
  "normalized opts state (xs @ ys) =
   (case normalized opts state xs of (out, state1) \<Rightarrow>
    case normalized opts state1 ys of (rest, state2) \<Rightarrow> (out @ rest, state2))"
  by (induction xs arbitrary: state) (simp_all split: prod.splits)

text \<open>The text that the variables of the loop stand for at the position \<open>curp\<close>.\<close>

definition normalized_so_far :: "string \<Rightarrow> normalize_t \<Rightarrow> string" where
  "normalized_so_far buf m = tgt m @ take (include_len m) (drop (norm_start m) buf)"

definition normalize_inv :: "string \<Rightarrow> nat \<Rightarrow> normalize_t \<Rightarrow> bool" where
  "normalize_inv buf curp m \<longleftrightarrow> norm_start m + include_len m \<le> curp + (if include_len m = 0 then 1 else 0)
     \<and> (include_len m = 0 \<longrightarrow> norm_start m \<le> curp)
     \<and> (\<not> last_skipped m \<longrightarrow> norm_start m + include_len m = curp)"

lemma COPY_ok:
  "normalize_inv buf curp m \<Longrightarrow> normalize_inv buf curp (COPY_INCLUDED_SECTION buf curp m)
   \<and> normalized_so_far buf (COPY_INCLUDED_SECTION buf curp m) = normalized_so_far buf m"
  by (simp add: COPY_INCLUDED_SECTION_def normalize_inv_def normalized_so_far_def)

lemma SKIP_ok:
  "normalize_inv buf curp m \<Longrightarrow> normalize_inv buf (curp + 1) (SKIP_char curp m)
   \<and> normalized_so_far buf (SKIP_char curp m) = normalized_so_far buf m"
  by (auto simp: SKIP_char_def normalize_inv_def normalized_so_far_def split: if_splits)

lemma INCLUDE_ok:
  assumes "normalize_inv buf curp m" "curp < length buf" "buf ! curp = c"
  shows "normalize_inv buf (curp + 1) (INCLUDE_char buf curp m)
    \<and> normalized_so_far buf (INCLUDE_char buf curp m) = normalized_so_far buf m @ [c]"
proof -
  have "take (n + 1) (drop s buf) = take n (drop s buf) @ [c]" if "s + n = curp" for s n
    using that assms(2,3) by (simp add: take_Suc_conv_app_nth)
  then show ?thesis using assms
    by (auto simp: INCLUDE_char_def COPY_INCLUDED_SECTION_def normalize_inv_def normalized_so_far_def Let_def
        take_Suc_conv_app_nth)
qed

lemma INCLUDE_AS_ok:
  assumes "normalize_inv buf curp m" "curp < length buf" "buf ! curp = c"
  shows "normalize_inv buf (curp + 1) (INCLUDE_AS buf curp c x m)
    \<and> normalized_so_far buf (INCLUDE_AS buf curp c x m) = normalized_so_far buf m @ [x]"
proof (cases "c = x")
  case True
  then show ?thesis using INCLUDE_ok [OF assms] by (simp add: INCLUDE_AS_def)
next
  case False
  then show ?thesis using assms
    by (simp add: INCLUDE_AS_def INSERT_char_def SKIP_char_def COPY_INCLUDED_SECTION_def normalize_inv_def normalized_so_far_def)
qed

lemma normalize_loop_ok:
  assumes "normalize_inv buf curp m" "drop curp buf = cs" "curp \<le> length buf" "normalize_loop opts buf curp cs state m = (state', m')"
  shows "normalize_inv buf (length buf) m' \<and> state' = snd (normalized opts state cs)
    \<and> normalized_so_far buf m' = normalized_so_far buf m @ fst (normalized opts state cs)"
  using assms
proof (induction opts buf curp cs state m rule: normalize_loop.induct)
  case (1 opts buf curp state m)
  then show ?case by simp
next
  case (2 opts buf curp c cs state m)
  have c: "curp < length buf" "buf ! curp = c" "drop (curp + 1) buf = cs"
    using "2.prems"(2) by (metis drop_all list.distinct(1) not_le, simp add: nth_via_drop, metis Suc_eq_plus1 drop_Suc tl_drop list.sel(3))
  note ok = SKIP_ok [OF "2.prems"(1)] INCLUDE_ok [OF "2.prems"(1) c(1,2)] INCLUDE_AS_ok [OF "2.prems"(1) c(1,2)]
  show ?case
    using "2.IH" "2.prems"(4) c(1,3) ok
    by (auto simp: normalize_char_def split: if_splits prod.splits)
qed

lemma normalize_plain:
  assumes "ignore_space opts = svn_diff_file_ignore_space_none" "\<not> ignore_eol_style opts"
  shows "fst (normalized opts state cs) = cs"
  using assms by (induction cs arbitrary: state) (simp_all add: normalized_Cons normalize_char_def del: normalized.simps(2))

lemma svn_diff__normalize_buffer_ok:
  "fst (svn_diff__normalize_buffer opts state buf) = fst (normalized opts state buf)"
  "ignore_space opts \<noteq> svn_diff_file_ignore_space_none \<or> ignore_eol_style opts \<Longrightarrow>
   svn_diff__normalize_buffer opts state buf = normalized opts state buf"
proof -
  let ?m = "\<lparr>norm_start = 0, include_len = 0, last_skipped = False, tgt = []\<rparr>"
  show eq: "svn_diff__normalize_buffer opts state buf = normalized opts state buf"
    if "ignore_space opts \<noteq> svn_diff_file_ignore_space_none \<or> ignore_eol_style opts"
  proof -
    obtain state' m' where loop: "normalize_loop opts buf 0 buf state ?m = (state', m')" by fastforce
    have "normalize_inv buf 0 ?m" "normalized_so_far buf ?m = []" by (simp_all add: normalize_inv_def normalized_so_far_def)
    with normalize_loop_ok [OF _ _ _ loop] have m': "state' = snd (normalized opts state buf)"
      "normalized_so_far buf m' = fst (normalized opts state buf)" by simp_all
    then show ?thesis using that
      by (cases "normalized opts state buf")
         (auto simp: svn_diff__normalize_buffer_def loop normalized_so_far_def COPY_INCLUDED_SECTION_def)
  qed
  show "fst (svn_diff__normalize_buffer opts state buf) = fst (normalized opts state buf)"
    using eq normalize_plain [of opts state buf]
    by (cases "ignore_space opts \<noteq> svn_diff_file_ignore_space_none \<or> ignore_eol_style opts")
       (auto simp: svn_diff__normalize_buffer_def)
qed

lemma normalize_char_length: "length (fst (normalize_char opts state c)) \<le> 1"
  by (simp add: normalize_char_def)

lemma normalize_length: "length (fst (normalized opts state cs)) \<le> length cs"
proof (induction cs arbitrary: state)
  case (Cons c cs)
  have "length (fst (normalized opts state (c # cs))) = length (fst (normalize_char opts state c))
      + length (fst (normalized opts (snd (normalize_char opts state c)) cs))"
    by (simp add: normalized_Cons del: normalized.simps(2))
  also have "\<dots> \<le> 1 + length cs" using normalize_char_length Cons.IH by (rule add_mono)
  finally show ?case by simp
qed simp

lemma adler_loop_foldl: "adler_loop s input = foldl adler_step s input"
proof (induction s input rule: adler_loop.induct)
  case (1 s input)
  then show ?case
    by (cases "8 \<le> length input")
       (simp_all add: adler_loop.simps [of s input] foldl_append [symmetric] del: foldl_append)
qed

section \<open>Files of lines and files of token indices\<close>

lemma file_part_map: "file_part (map f F) i n = map f (file_part F i n)"
  by (simp add: file_part_def take_map drop_map)

lemma set_file_part: "set (file_part F i n) \<subseteq> set F"
  unfolding file_part_def by (meson order_trans set_drop_subset set_take_subset)

lemma hunks_cover_map:
  assumes "inj_on f (set F0 \<union> set F1)"
  shows "hunks_cover (map f F0) (map f F1) i j hs \<Longrightarrow> hunks_cover F0 F1 i j hs"
proof (induction hs arbitrary: i j)
  case (Cons h hs)
  have "set (file_part F0 i n) \<union> set (file_part F1 j n) \<subseteq> set F0 \<union> set F1" for n
    using set_file_part [of F0] set_file_part [of F1] by blast
  then have "file_part F0 i n = file_part F1 j n" if "map f (file_part F0 i n) = map f (file_part F1 j n)" for n
    using that assms by (meson inj_on_map_eq_map inj_on_subset)
  then show ?case using Cons by (auto simp: hunk_ok_def file_part_map split: if_splits)
qed simp

lemma diff_of_files_map:
  assumes "inj_on f (set F0 \<union> set F1)" "diff_of_files (map f F0) (map f F1) hs"
  shows "diff_of_files F0 F1 hs"
proof -
  have "changed_tokens hs + 2 * int (length zs) \<le> int (length F0) + int (length F1)" if "subseq zs F0" "subseq zs F1" for zs
  proof -
    have "subseq (map f zs) (map f F0)" "subseq (map f zs) (map f F1)" using that by (auto intro: subseq_map)
    then show ?thesis using assms(2) unfolding diff_of_files_def by (metis length_map)
  qed
  then show ?thesis using assms hunks_cover_map [OF assms(1)] by (auto simp: diff_of_files_def)
qed

lemma extend_index:
  assumes "distinct ks" "finite X"
  shows "\<exists>f :: 'k \<Rightarrow> nat. inj_on f (set ks \<union> X) \<and> (\<forall>i < length ks. f (ks ! i) = i)"
proof -
  obtain g :: "'k \<Rightarrow> nat" where g: "inj_on g (X - set ks)" using finite_imp_inj_to_nat_seg [of "X - set ks"] assms(2) by auto
  let ?h = "the_inv_into {..<length ks} ((!) ks)"
  have inj: "inj_on ((!) ks) {..<length ks}" using assms(1) by (simp add: inj_on_nth)
  have img: "(!) ks ` {..<length ks} = set ks" by (auto simp: in_set_conv_nth)
  have h: "?h (ks ! i) = i" if "i < length ks" for i using the_inv_into_f_f [OF inj] that by simp
  have hk: "?h k < length ks" "ks ! ?h k = k" if "k \<in> set ks" for k
    using that h by (auto simp: in_set_conv_nth)
  let ?f = "\<lambda>k. if k \<in> set ks then ?h k else length ks + g k"
  have "inj_on ?f (set ks \<union> X)"
  proof (rule inj_onI)
    fix a b assume "a \<in> set ks \<union> X" "b \<in> set ks \<union> X" "?f a = ?f b"
    moreover from this have "?h a = ?h b \<Longrightarrow> a \<in> set ks \<Longrightarrow> b \<in> set ks \<Longrightarrow> a = b" using hk(2) by metis
    moreover have "a \<notin> set ks \<Longrightarrow> b \<notin> set ks \<Longrightarrow> g a = g b \<Longrightarrow> a = b" using calculation(1,2) inj_onD [OF g, of a b] by blast
    ultimately show "a = b" using hk(1) [of a] hk(1) [of b] by (cases "a \<in> set ks"; cases "b \<in> set ks") simp_all
  qed
  moreover have "\<forall>i < length ks. ?f (ks ! i) = i" using h by simp
  ultimately show ?thesis by (intro exI [of _ ?f]) blast
qed

lemma set_map_nth_subset: "set is \<subseteq> {..<length ks} \<Longrightarrow> map ((!) ks) is = xs \<Longrightarrow> set xs \<subseteq> set ks"
  using nth_mem by fastforce

section \<open>Searching the trees\<close>

definition direction :: "('k \<Rightarrow> 32 word) \<Rightarrow> ('k \<Rightarrow> 'k \<Rightarrow> int) \<Rightarrow> 'k \<Rightarrow> 'k \<Rightarrow> int" where
  "direction hash_of order k p =
     (if sint (hash_of k - hash_of p) \<noteq> 0 then sint (hash_of k - hash_of p) else order p k)"

text \<open>Everything in a left subtree is found by going left, and everything in a right one by going right.\<close>

primrec search_tree :: "('tok \<Rightarrow> bool) \<Rightarrow> ('tok \<Rightarrow> 'k) \<Rightarrow> ('k \<Rightarrow> 32 word) \<Rightarrow> ('k \<Rightarrow> 'k \<Rightarrow> int) \<Rightarrow> 'tok svn_diff__node_t tree \<Rightarrow> bool" where
  "search_tree known key hash_of order \<langle>\<rangle> = True"
| "search_tree known key hash_of order \<langle>l, p, r\<rangle> \<longleftrightarrow>
     known (node_token p) \<and> node_hash p = hash_of (key (node_token p))
     \<and> (\<forall>n \<in> set_tree l. direction hash_of order (key (node_token n)) (key (node_token p)) > 0)
     \<and> (\<forall>n \<in> set_tree r. direction hash_of order (key (node_token n)) (key (node_token p)) < 0)
     \<and> search_tree known key hash_of order l \<and> search_tree known key hash_of order r"

definition entries :: "('tok \<Rightarrow> 'k) \<Rightarrow> 'tok svn_diff__node_t tree \<Rightarrow> ('k \<times> nat) set" where
  "entries key t = (\<lambda>n. (key (node_token n), node_index n)) ` set_tree t"

lemma entries_simps [simp]:
  "entries key \<langle>\<rangle> = {}"
  "entries key \<langle>l, p, r\<rangle> = insert (key (node_token p), node_index p) (entries key l \<union> entries key r)"
  by (auto simp: entries_def)

lemma search_tree_entries:
  "search_tree known key hash_of order \<langle>l, p, r\<rangle> \<longleftrightarrow>
     known (node_token p) \<and> node_hash p = hash_of (key (node_token p))
     \<and> (\<forall>(k, i) \<in> entries key l. direction hash_of order k (key (node_token p)) > 0)
     \<and> (\<forall>(k, i) \<in> entries key r. direction hash_of order k (key (node_token p)) < 0)
     \<and> search_tree known key hash_of order l \<and> search_tree known key hash_of order r"
  by (auto simp: entries_def)

text \<open>The tree of all tokens so far: the keys in the order of their indices.\<close>

definition indexed :: "('tok \<Rightarrow> bool) \<Rightarrow> ('tok \<Rightarrow> 'k) \<Rightarrow> ('k \<Rightarrow> 32 word) \<Rightarrow> ('k \<Rightarrow> 'k \<Rightarrow> int) \<Rightarrow> 'tok svn_diff__tree_t \<Rightarrow> 'k list \<Rightarrow> bool" where
  "indexed known key hash_of order tree ks \<longleftrightarrow> distinct ks \<and> node_count tree = length ks \<and> length (root tree) = SVN_DIFF__HASH_SIZE
     \<and> (\<forall>q < SVN_DIFF__HASH_SIZE. search_tree known key hash_of order (root tree ! q)
         \<and> (\<forall>k i. (k, i) \<in> entries key (root tree ! q) \<longleftrightarrow>
              i < length ks \<and> ks ! i = k \<and> unat (hash_of k) mod SVN_DIFF__HASH_SIZE = q))"

lemma indexed_create: "indexed known key hash_of order (svn_diff__tree_create ()) []"
  by (simp add: indexed_def svn_diff__tree_create_def)

section \<open>What a datasource promises\<close>

text \<open>
  The tokens that a datasource still has to give, each with a key that decides whether two tokens
  are equal. The hash of a token depends on its key only; the comparison is 0 on equal keys only.
\<close>

locale token_source =
  fixes vtable :: "('b, 'tok) svn_diff_fns2_t"
    and valid :: "'b \<Rightarrow> bool"
    and remaining :: "'b \<Rightarrow> svn_diff_datasource_e \<Rightarrow> 'tok list"
    and key :: "'tok \<Rightarrow> 'k"
    and hash_of :: "'k \<Rightarrow> 32 word"
    and order :: "'k \<Rightarrow> 'k \<Rightarrow> int"
    and used :: "svn_diff_datasource_e \<Rightarrow> bool"
    and known :: "'tok \<Rightarrow> bool"
  assumes get_next: "valid b \<Longrightarrow> used ds \<Longrightarrow> \<exists>h' b'. datasource_get_next_token vtable h b ds =
        Inr (case remaining b ds of [] \<Rightarrow> (h', None, b') | t # ts \<Rightarrow> (hash_of (key t), Some t, b'))
      \<and> valid b' \<and> remaining b' = (remaining b)(ds := tl (remaining b ds))"
    and remaining_known: "valid b \<Longrightarrow> used ds \<Longrightarrow> \<forall>t \<in> set (remaining b ds). known t"
    and compare: "valid b \<Longrightarrow> known t1 \<Longrightarrow> known t2 \<Longrightarrow> \<exists>b'. token_compare vtable b t1 t2 = Inr (order (key t1) (key t2), b')
      \<and> valid b' \<and> remaining b' = remaining b"
    and order_eq: "order k k' = 0 \<longleftrightarrow> k = k'"
    and close: "valid b \<Longrightarrow> \<exists>b'. datasource_close vtable b ds = Inr b' \<and> valid b' \<and> remaining b' = remaining b"
    and discard: "valid b \<Longrightarrow> token_discard vtable = Some f \<Longrightarrow> valid (f b t) \<and> remaining (f b t) = remaining b"
begin

lemma direction_0: "direction hash_of order k p = 0 \<longleftrightarrow> k = p"
  by (auto simp: direction_def order_eq)

lemma insert_in_tree_ok:
  assumes "valid b" "search_tree known key hash_of order t" and tok: "known tok"
  shows "\<exists>t' i new b'. insert_in_tree vtable (hash_of (key tok)) tok num b t = Inr (t', i, new, b')
    \<and> valid b' \<and> remaining b' = remaining b \<and> search_tree known key hash_of order t'
    \<and> (if new then i = num \<and> key tok \<notin> fst ` entries key t \<and> entries key t' = insert (key tok, num) (entries key t)
       else (key tok, i) \<in> entries key t \<and> entries key t' = entries key t)"
  using assms(1,2)
proof (induction t arbitrary: b)
  case Leaf
  then show ?case using tok by auto
next
  case (Node l p r)
  let ?k = "key tok" and ?p = "key (node_token p)" and ?h = "hash_of (key tok)"
  note st = Node.prems(2) [unfolded search_tree_entries]
  have hash: "node_hash p = hash_of ?p" using st by blast
  have "\<exists>b1. (if sint (?h - node_hash p) \<noteq> 0 then Inr (sint (?h - node_hash p), b)
        else token_compare vtable b (node_token p) tok) = Inr (direction hash_of order ?k ?p, b1)
    \<and> valid b1 \<and> remaining b1 = remaining b"
    using compare [OF Node.prems(1) _ tok, of "node_token p"] Node.prems(1) st
    by (cases "sint (?h - hash_of ?p) = 0") (simp_all add: direction_def hash)
  then obtain b1 where b1: "(if sint (?h - node_hash p) \<noteq> 0 then Inr (sint (?h - node_hash p), b)
        else token_compare vtable b (node_token p) tok) = Inr (direction hash_of order ?k ?p, b1)"
    "valid b1" "remaining b1 = remaining b" by blast
  consider "direction hash_of order ?k ?p = 0" | "direction hash_of order ?k ?p > 0" | "direction hash_of order ?k ?p < 0"
    by linarith
  then show ?case
  proof cases
    case 1
    then have "?k = ?p" by (simp add: direction_0)
    let ?b = "case token_discard vtable of None \<Rightarrow> b1 | Some f \<Rightarrow> f b1 (node_token p)"
    have "insert_in_tree vtable ?h tok num b \<langle>l, p, r\<rangle> = Inr (\<langle>l, p\<lparr>node_token := tok\<rparr>, r\<rangle>, node_index p, False, ?b)"
      by (simp only: insert_in_tree.simps b1(1) SVN_ERR_simps prod.case 1) simp
    moreover have "valid ?b \<and> remaining ?b = remaining b"
      using discard [OF b1(2)] b1(2,3) by (auto split: option.splits)
    ultimately show ?thesis using st tok \<open>?k = ?p\<close> by (auto simp: search_tree_entries simp del: search_tree.simps)
  next
    case 2
    have "search_tree known key hash_of order l" using st by blast
    from Node.IH(1) [OF b1(2) this] obtain l' i new b' where l: "insert_in_tree vtable ?h tok num b1 l = Inr (l', i, new, b')"
      "valid b'" "remaining b' = remaining b1" "search_tree known key hash_of order l'"
      "if new then i = num \<and> ?k \<notin> fst ` entries key l \<and> entries key l' = insert (?k, num) (entries key l)
       else (?k, i) \<in> entries key l \<and> entries key l' = entries key l" by blast
    have "insert_in_tree vtable ?h tok num b \<langle>l, p, r\<rangle> = Inr (\<langle>l', p, r\<rangle>, i, new, b')"
      using 2 l(1) by (simp only: insert_in_tree.simps b1(1) SVN_ERR_simps prod.case) simp
    moreover have "?k \<noteq> ?p" "?k \<notin> fst ` entries key r" using 2 st direction_0 [of ?p ?p] by force+
    ultimately show ?thesis using st l(2-5) b1(3) 2 by (auto simp: search_tree_entries simp del: search_tree.simps split: if_splits)
  next
    case 3
    have "search_tree known key hash_of order r" using st by blast
    from Node.IH(2) [OF b1(2) this] obtain r' i new b' where r: "insert_in_tree vtable ?h tok num b1 r = Inr (r', i, new, b')"
      "valid b'" "remaining b' = remaining b1" "search_tree known key hash_of order r'"
      "if new then i = num \<and> ?k \<notin> fst ` entries key r \<and> entries key r' = insert (?k, num) (entries key r)
       else (?k, i) \<in> entries key r \<and> entries key r' = entries key r" by blast
    have "insert_in_tree vtable ?h tok num b \<langle>l, p, r\<rangle> = Inr (\<langle>l, p, r'\<rangle>, i, new, b')"
      using 3 r(1) by (simp only: insert_in_tree.simps b1(1) SVN_ERR_simps prod.case) simp
    moreover have "?k \<noteq> ?p" "?k \<notin> fst ` entries key l" using 3 st direction_0 [of ?p ?p] by force+
    ultimately show ?thesis using st r(2-5) b1(3) 3 by (auto simp: search_tree_entries simp del: search_tree.simps split: if_splits)
  qed
qed

lemma tree_insert_token_ok:
  assumes "valid b" "indexed known key hash_of order tree ks" "known tok"
  shows "\<exists>i tree' b' us. tree_insert_token vtable (hash_of (key tok)) tok b tree = Inr (i, tree', b')
    \<and> valid b' \<and> remaining b' = remaining b \<and> indexed known key hash_of order tree' (ks @ us)
    \<and> i < length (ks @ us) \<and> (ks @ us) ! i = key tok"
proof -
  let ?bucket = "\<lambda>k. unat (hash_of k) mod SVN_DIFF__HASH_SIZE"
  let ?k = "key tok" and ?q = "?bucket (key tok)"
  have q: "?q < SVN_DIFF__HASH_SIZE" by (simp add: SVN_DIFF__HASH_SIZE_def)
  note ix = assms(2) [unfolded indexed_def]
  have t: "search_tree known key hash_of order (root tree ! ?q)"
    "\<And>k i. (k, i) \<in> entries key (root tree ! ?q) \<longleftrightarrow> i < length ks \<and> ks ! i = k \<and> ?bucket k = ?q"
    using ix q by blast+
  obtain t' i new b' where ins: "insert_in_tree vtable (hash_of ?k) tok (node_count tree) b (root tree ! ?q) = Inr (t', i, new, b')"
    "valid b'" "remaining b' = remaining b" "search_tree known key hash_of order t'"
    "if new then i = node_count tree \<and> ?k \<notin> fst ` entries key (root tree ! ?q) \<and> entries key t' = insert (?k, node_count tree) (entries key (root tree ! ?q))
     else (?k, i) \<in> entries key (root tree ! ?q) \<and> entries key t' = entries key (root tree ! ?q)"
    using insert_in_tree_ok [OF assms(1) t(1) assms(3), of "node_count tree"] by blast
  define us where "us = (if new then [?k] else [])"
  let ?tree = "tree\<lparr>root := (root tree)[?q := t'], node_count := node_count tree + (if new then 1 else 0)\<rparr>"
  have eval: "tree_insert_token vtable (hash_of ?k) tok b tree = Inr (i, ?tree, b')"
    using ins(1) by (simp add: tree_insert_token_def Let_def)
  have "(ks ! j, j) \<in> entries key (root tree ! ?q)" if "j < length ks" "ks ! j = ?k" for j using t(2) that by simp
  then have fresh: "new \<Longrightarrow> ?k \<notin> set ks" using ins(5) by (force simp: in_set_conv_nth)
  have found: "i < length (ks @ us) \<and> (ks @ us) ! i = ?k"
    using ins(5) t(2) [of ?k i] ix by (auto simp: us_def split: if_splits)
  have entries: "(k, j) \<in> entries key (root ?tree ! p) \<longleftrightarrow> j < length (ks @ us) \<and> (ks @ us) ! j = k \<and> ?bucket k = p"
    if "p < SVN_DIFF__HASH_SIZE" for k j p
  proof (cases "p = ?q")
    case True
    then have "root ?tree ! p = t'" using ix q by simp
    then show ?thesis using True ins(5) t(2) [of k j] ix
      by (cases new; cases "j < length ks") (auto simp: us_def nth_append less_Suc_eq)
  next
    case False
    then have "root ?tree ! p = root tree ! p" by simp
    moreover have "k = ?k \<Longrightarrow> ?bucket k \<noteq> p" using False by auto
    ultimately show ?thesis using ix that by (cases "j < length ks") (auto simp: us_def nth_append)
  qed
  have "search_tree known key hash_of order (root ?tree ! p)" if "p < SVN_DIFF__HASH_SIZE" for p
    using ix that ins(4) by (simp add: nth_list_update)
  then have "indexed known key hash_of order ?tree (ks @ us)"
    using ix fresh entries by (simp add: indexed_def us_def)
  then show ?thesis using eval ins(2,3) found by blast
qed

lemma get_tokens_loop_ok:
  assumes "valid b" "indexed known key hash_of order tree ks" "used ds"
  shows "\<exists>idxs tree' b' us. get_tokens_loop vtable ds h tree b positions = Some (Inr (positions @ idxs, tree', b'))
    \<and> valid b' \<and> remaining b' = (remaining b)(ds := []) \<and> indexed known key hash_of order tree' (ks @ us)
    \<and> set idxs \<subseteq> {..<length (ks @ us)} \<and> map ((!) (ks @ us)) idxs = map key (remaining b ds)"
  using assms(1,2)
proof (induction "remaining b ds" arbitrary: b h tree ks positions)
  case Nil
  obtain h' b' where "datasource_get_next_token vtable h b ds = Inr (h', None, b')" "valid b'"
    "remaining b' = (remaining b)(ds := [])" using get_next [OF Nil.prems(1) assms(3), of h] Nil.hyps by (auto split: list.splits)
  then show ?case using Nil by (subst get_tokens_loop.simps) (auto intro!: exI [of _ "[]"])
next
  case (Cons tok toks)
  obtain b1 where b1: "datasource_get_next_token vtable h b ds = Inr (hash_of (key tok), Some tok, b1)" "valid b1"
    "remaining b1 = (remaining b)(ds := toks)"
    using get_next [OF Cons.prems(1) assms(3), of h] unfolding Cons.hyps(2) [symmetric] list.case list.sel by blast
  obtain i tree1 b2 us where i: "tree_insert_token vtable (hash_of (key tok)) tok b1 tree = Inr (i, tree1, b2)"
    "valid b2" "remaining b2 = remaining b1" "indexed known key hash_of order tree1 (ks @ us)"
    "i < length (ks @ us)" "(ks @ us) ! i = key tok"
    using tree_insert_token_ok [OF b1(2) Cons.prems(2), of tok] remaining_known [OF Cons.prems(1) assms(3)]
    by (auto simp flip: Cons.hyps(2))
  have "toks = remaining b2 ds" using i(3) b1(3) by simp
  from Cons.hyps(1) [OF this i(2,4), of "hash_of (key tok)" "positions @ [i]"] obtain idxs tree' b' vs where
    r: "get_tokens_loop vtable ds (hash_of (key tok)) tree1 b2 (positions @ [i]) = Some (Inr ((positions @ [i]) @ idxs, tree', b'))"
    "valid b'" "remaining b' = (remaining b2)(ds := [])" "indexed known key hash_of order tree' ((ks @ us) @ vs)"
    "set idxs \<subseteq> {..<length ((ks @ us) @ vs)}" "map ((!) ((ks @ us) @ vs)) idxs = map key (remaining b2 ds)" by blast
  have "get_tokens_loop vtable ds h tree b positions = Some (Inr (positions @ i # idxs, tree', b'))"
    using b1(1) i(1) r(1) by (subst get_tokens_loop.simps) simp
  moreover have "(ks @ us @ vs) ! i = key tok" using i(5,6) nth_append [of "ks @ us" vs i] by simp
  then have "map ((!) (ks @ us @ vs)) (i # idxs) = map key (remaining b ds)"
    using r(6) \<open>toks = remaining b2 ds\<close> by (simp flip: Cons.hyps(2))
  ultimately show ?case using r(2-5) i(3,5) b1(3)
    by (intro exI [of _ "i # idxs"] exI [of _ tree'] exI [of _ b'] exI [of _ "us @ vs"]) simp
qed

lemma get_tokens_ok:
  assumes "valid b" "indexed known key hash_of order tree ks" "used ds"
  shows "\<exists>idxs tree' b' us. svn_diff__get_tokens vtable ds tree b = Some (Inr (idxs, tree', b'))
    \<and> valid b' \<and> remaining b' = (remaining b)(ds := []) \<and> indexed known key hash_of order tree' (ks @ us)
    \<and> set idxs \<subseteq> {..<length (ks @ us)} \<and> map ((!) (ks @ us)) idxs = map key (remaining b ds)"
proof -
  obtain "idxs" tree' b1 us where r: "get_tokens_loop vtable ds 0 tree b [] = Some (Inr (idxs, tree', b1))" "valid b1"
    "remaining b1 = (remaining b)(ds := [])" "indexed known key hash_of order tree' (ks @ us)"
    "set idxs \<subseteq> {..<length (ks @ us)}" "map ((!) (ks @ us)) idxs = map key (remaining b ds)"
    using get_tokens_loop_ok [OF assms, of 0 "[]"] by auto
  obtain b' where "datasource_close vtable b1 ds = Inr b'" "valid b'" "remaining b' = remaining b1"
    using close [OF r(2)] by blast
  then show ?thesis using r
    by (intro exI [of _ "idxs"] exI [of _ tree'] exI [of _ b'] exI [of _ us]) (simp add: svn_diff__get_tokens_def)
qed

end

text \<open>
  Opening: a common prefix and suffix of the files may be left out, and only their numbers of lines
  are reported.
\<close>

locale openable_source = token_source vtable valid remaining key hash_of order used known
  for vtable :: "('b, 'tok) svn_diff_fns2_t" and valid remaining and key :: "'tok \<Rightarrow> 'k" and hash_of order used known +
  fixes ready :: "'b \<Rightarrow> bool" and file_of :: "'b \<Rightarrow> svn_diff_datasource_e \<Rightarrow> 'k list"
  assumes open_files: "ready b \<Longrightarrow> \<forall>ds \<in> set dss. used ds \<Longrightarrow> \<exists>P S b'. datasources_open vtable b dss = Inr (int (length P), int (length S), b')
      \<and> valid b' \<and> (\<forall>ds \<in> set dss. file_of b ds = P @ map key (remaining b' ds) @ S)"
begin

lemma svn_diff_diff_2_ok:
  assumes "ready b" "used svn_diff_datasource_original" "used svn_diff_datasource_modified"
  shows "\<exists>hs b'. svn_diff_diff_2 vtable b = Some (Inr (hs, b'))
    \<and> diff_of_files (file_of b svn_diff_datasource_original) (file_of b svn_diff_datasource_modified) hs"
proof -
  let ?o = svn_diff_datasource_original and ?m = svn_diff_datasource_modified
  obtain P S b1 where b1: "datasources_open vtable b [?o, ?m] = Inr (int (length P), int (length S), b1)" "valid b1"
    "file_of b ?o = P @ map key (remaining b1 ?o) @ S" "file_of b ?m = P @ map key (remaining b1 ?m) @ S"
    using open_files [OF assms(1), of "[?o, ?m]"] assms(2,3) by auto
  obtain A tree1 b2 ks where A: "svn_diff__get_tokens vtable ?o (svn_diff__tree_create ()) b1 = Some (Inr (A, tree1, b2))"
    "valid b2" "remaining b2 = (remaining b1)(?o := [])" "indexed known key hash_of order tree1 ks"
    "set A \<subseteq> {..<length ks}" "map ((!) ks) A = map key (remaining b1 ?o)"
    using get_tokens_ok [OF b1(2) indexed_create assms(2)] by auto
  obtain B tree2 b3 us where B: "svn_diff__get_tokens vtable ?m tree1 b2 = Some (Inr (B, tree2, b3))"
    "indexed known key hash_of order tree2 (ks @ us)" "set B \<subseteq> {..<length (ks @ us)}"
    "map ((!) (ks @ us)) B = map key (remaining b1 ?m)"
    using get_tokens_ok [OF A(2,4) assms(3)] A(3) by auto
  let ?ks = "ks @ us"
  have n: "svn_diff__get_node_count tree2 = length ?ks" "distinct ?ks"
    using B(2) by (simp_all add: indexed_def svn_diff__get_node_count_def)
  obtain f :: "'k \<Rightarrow> nat" where f: "inj_on f (set ?ks \<union> (set P \<union> set S))" "\<forall>i < length ?ks. f (?ks ! i) = i"
    using extend_index [OF n(2), of "set P \<union> set S"] by auto
  have keys: "map ((!) ?ks) A = map key (remaining b1 ?o)"
    unfolding A(6) [symmetric] using A(5) by (intro map_cong) (auto simp: nth_append)
  have index: "map f (map ((!) ?ks) C) = C" if "set C \<subseteq> {..<length ?ks}" for C
    using that f(2) by (induction C) auto
  have sets: "set A \<subseteq> {..<length ?ks}" "set B \<subseteq> {..<length ?ks}" using A(5) B(3) by auto
  have files: "map f (file_of b ?o) = map f P @ A @ map f S" "map f (file_of b ?m) = map f P @ B @ map f S"
    using b1(3,4) index [OF sets(1)] index [OF sets(2)] keys B(4) by simp_all
  obtain c0 c1 where c: "svn_diff__get_token_counts A (length ?ks) = Inr c0" "counts_ok (length ?ks) A c0"
    "svn_diff__get_token_counts B (length ?ks) = Inr c1" "counts_ok (length ?ks) B c1"
    using token_counts_ok [OF sets(1)] token_counts_ok [OF sets(2)] by blast
  obtain lcs where lcs: "svn_diff__lcs A B c0 c1 (length ?ks) (int (length P)) (int (length S)) = Inr lcs"
    "lcs_of_files (map f P @ A @ map f S) (map f P @ B @ map f S) lcs"
    using svn_diff__lcs_ok [OF c(2,4) sets, of "map f P" "map f S"] by auto
  obtain hs where hs: "svn_diff__diff lcs 1 1 True = Inr hs" "diff_of_files (map f (file_of b ?o)) (map f (file_of b ?m)) hs"
    using diff_of_lcs [OF lcs(2)] files by auto
  have "set (map key (remaining b1 ?o)) \<subseteq> set ?ks" "set (map key (remaining b1 ?m)) \<subseteq> set ?ks"
    using keys B(4) sets by (metis (no_types) set_map_nth_subset)+
  then have "inj_on f (set (file_of b ?o) \<union> set (file_of b ?m))"
    using b1(3,4) by (intro inj_on_subset [OF f(1)]) auto
  then show ?thesis using diff_of_files_map hs(2) b1(1) A(1) B(1) n(1) c(1,3) lcs(1) hs(1)
    by (auto simp: svn_diff_diff_2_def CALL_def Let_def)
qed

end

section \<open>Theorems\<close>

text \<open>
  C31. Normalizing a line: the routine, which copies as little as it can and returns a part of its
  input when nothing but the ends of the line changed, gives the same text and state as keeping,
  dropping or replacing one character after the other, if the options ask for a normalization
  at all; if they do not, it gives the line itself and leaves the state as it was. A line that
  comes in pieces is normalized to the pieces' results if the state is passed on, and the
  result never needs more room than the line.
\<close>

theorem normalize_buffer_exact:
  "svn_diff__normalize_buffer opts state buf =
     (if ignore_space opts = svn_diff_file_ignore_space_none \<and> \<not> ignore_eol_style opts
      then (buf, state) else normalized opts state buf)
   \<and> fst (normalized opts state buf) = fst (svn_diff__normalize_buffer opts state buf)
   \<and> fst (svn_diff__normalize_buffer opts state (buf @ buf')) =
      fst (svn_diff__normalize_buffer opts state buf)
      @ fst (svn_diff__normalize_buffer opts (snd (svn_diff__normalize_buffer opts state buf)) buf')
   \<and> length (fst (svn_diff__normalize_buffer opts state buf)) \<le> length buf"
proof -
  have "fst (normalized opts state (buf @ buf')) = fst (normalized opts state buf) @ fst (normalized opts (snd (normalized opts state buf)) buf')"
    by (simp add: normalize_append split: prod.splits)
  then show ?thesis
    using svn_diff__normalize_buffer_ok [of opts] normalize_length [of opts state buf]
    by (cases "ignore_space opts \<noteq> svn_diff_file_ignore_space_none \<or> ignore_eol_style opts")
       (auto simp: normalize_plain svn_diff__normalize_buffer_def)
qed

end
