(* ===== verification/Diff_Memory.thy ===== *)
theory Diff_Memory
  imports Diff_Tokens Mergeinfo_Syntax
begin

text \<open>
  Diffs of texts in memory (libsvn\_diff/diff\_memory.c): splitting a text into lines, the
  table of functions for lines in memory, and \<open>svn_diff_mem_string_diff\<close>. A line is a string with
  its end of line; the two normalization buffers are described by their size.
\<close>

section \<open>Lines\<close>

record source_tokens_t =
  tokens :: "string list"
  next_token :: nat
  source_text :: string
  ends_without_eol :: bool

text \<open>
  The loop over a text: the characters since \<open>startp\<close>, the characters from \<open>curp\<close> on, and the
  lines so far. The text ends with a zero byte, which is not an end of line.
\<close>

fun fill_loop :: "string \<Rightarrow> string \<Rightarrow> string list \<Rightarrow> string list \<times> string" where
  "fill_loop line [] toks = (toks, line)"
| "fill_loop line [c] toks =
     (if c = CHR 0x0D \<or> c = CHR 0x0A then (toks @ [line @ [c]], []) else (toks, line @ [c]))"
| "fill_loop line (c # d # cs) toks =
     (if c = CHR 0x0D \<and> d = CHR 0x0A then fill_loop [] cs (toks @ [line @ [c, d]])
      else if c = CHR 0x0D \<or> c = CHR 0x0A then fill_loop [] (d # cs) (toks @ [line @ [c]])
      else fill_loop (line @ [c]) (d # cs) toks)"

definition fill_source_tokens :: "string \<Rightarrow> source_tokens_t" where
  "fill_source_tokens text_data =
     (case fill_loop [] text_data [] of (toks, line) \<Rightarrow>
        if line \<noteq> [] then \<lparr>tokens = toks @ [line], next_token = 0, source_text = text_data, ends_without_eol = True\<rparr>
        else \<lparr>tokens = toks, next_token = 0, source_text = text_data, ends_without_eol = False\<rparr>)"

section \<open>The functions of the datasource\<close>

record diff_mem_baton_t =
  sources :: "source_tokens_t list"
  normalization_buf :: nat
  normalization_options :: svn_diff_file_options_t

definition datasource_to_index :: "svn_diff_datasource_e \<Rightarrow> nat" where
  "datasource_to_index datasource =
     (case datasource of
        svn_diff_datasource_original \<Rightarrow> 0
      | svn_diff_datasource_modified \<Rightarrow> 1
      | svn_diff_datasource_latest \<Rightarrow> 2
      | svn_diff_datasource_ancestor \<Rightarrow> 3)"

definition mem_datasources_open ::
  "diff_mem_baton_t \<Rightarrow> svn_diff_datasource_e list \<Rightarrow> (int \<times> int \<times> diff_mem_baton_t) svn_result" where
  "mem_datasources_open baton datasources = Inr (0, 0, baton)"

definition mem_datasource_close :: "diff_mem_baton_t \<Rightarrow> svn_diff_datasource_e \<Rightarrow> diff_mem_baton_t svn_result" where
  "mem_datasource_close baton datasource = Inr baton"

text \<open>A line is normalized into one of the buffers, which has to have room for it.\<close>

definition normalize_token :: "diff_mem_baton_t \<Rightarrow> string \<Rightarrow> string svn_result" where
  "normalize_token baton tok =
     (let buf = fst (svn_diff__normalize_buffer (normalization_options baton) svn_diff__normalize_state_normal tok) in
      if length buf \<le> normalization_buf baton then Inr buf else Inl C_OUT_OF_BOUNDS)"

definition mem_datasource_get_next_token ::
  "(32 word \<Rightarrow> string \<Rightarrow> 32 word) \<Rightarrow> 32 word \<Rightarrow> diff_mem_baton_t \<Rightarrow> svn_diff_datasource_e \<Rightarrow>
   (32 word \<times> string option \<times> diff_mem_baton_t) svn_result" where
  "mem_datasource_get_next_token zadler hash baton datasource =
     (let idx = datasource_to_index datasource in
      if idx < length (sources baton) then
        let src = sources baton ! idx in
        if length (tokens src) > next_token src then
          let tok = tokens src ! next_token src in
          SVN_ERR (normalize_token baton tok) (\<lambda>buf.
          Inr (svn__adler32 zadler 0 buf, Some tok,
               baton\<lparr>sources := (sources baton)[idx := src\<lparr>next_token := next_token src + 1\<rparr>]\<rparr>))
        else Inr (hash, None, baton)
      else Inl C_OUT_OF_BOUNDS)"

text \<open>The first difference of two blocks of the same length, as unsigned bytes.\<close>

fun memcmp :: "string \<Rightarrow> string \<Rightarrow> int" where
  "memcmp (a # as) (b # bs) = (if a = b then memcmp as bs else int (of_char a) - int (of_char b))"
| "memcmp as bs = 0"

definition mem_token_compare ::
  "diff_mem_baton_t \<Rightarrow> string \<Rightarrow> string \<Rightarrow> (int \<times> diff_mem_baton_t) svn_result" where
  "mem_token_compare baton t1 t2 =
     SVN_ERR (normalize_token baton t1) (\<lambda>buf1.
     SVN_ERR (normalize_token baton t2) (\<lambda>buf2.
     Inr (if length buf1 \<noteq> length buf2 then (if length buf1 < length buf2 then -1 else 1)
          else if length buf1 = 0 then 0 else memcmp buf1 buf2, baton)))"

definition svn_diff__mem_vtable ::
  "(32 word \<Rightarrow> string \<Rightarrow> 32 word) \<Rightarrow> (diff_mem_baton_t, string) svn_diff_fns2_t" where
  "svn_diff__mem_vtable zadler =
     \<lparr>datasources_open = mem_datasources_open,
      datasource_close = mem_datasource_close,
      datasource_get_next_token = mem_datasource_get_next_token zadler,
      token_compare = mem_token_compare,
      token_discard = Some (\<lambda>baton token. baton),
      token_discard_all = Some (\<lambda>baton. baton)\<rparr>"

definition alloc_normalization_bufs :: "diff_mem_baton_t \<Rightarrow> nat \<Rightarrow> diff_mem_baton_t" where
  "alloc_normalization_bufs btn num =
     btn\<lparr>normalization_buf :=
       foldl (\<lambda>max_len src. foldl (\<lambda>max_len tok. if max_len < length tok then length tok else max_len) max_len (tokens src))
         0 (take num (sources btn))\<rparr>"

definition svn_diff_mem_string_diff ::
  "(32 word \<Rightarrow> string \<Rightarrow> 32 word) \<Rightarrow> string \<Rightarrow> string \<Rightarrow> svn_diff_file_options_t \<Rightarrow> svn_diff_t list svn_result option" where
  "svn_diff_mem_string_diff zadler original modified options =
     CALL (svn_diff_diff_2 (svn_diff__mem_vtable zadler)
         (alloc_normalization_bufs
            \<lparr>sources = [fill_source_tokens original, fill_source_tokens modified], normalization_buf = 0,
             normalization_options = options\<rparr> 2))
       (\<lambda>(diff, baton). Some (Inr diff))"

section \<open>Lines of a text\<close>

lemma fill_loop_concat:
  "fill_loop line cs toks = (toks', line') \<Longrightarrow> concat toks' @ line' = concat toks @ line @ cs"
  by (induction line cs toks rule: fill_loop.induct) (auto split: if_splits)

text \<open>A line: nothing that ends a line before its end, and an end unless it is the last one.\<close>

definition plain_char :: "char \<Rightarrow> bool" where
  "plain_char c \<longleftrightarrow> c \<noteq> CHR 0x0D \<and> c \<noteq> CHR 0x0A"

definition full_line :: "string \<Rightarrow> bool" where
  "full_line l \<longleftrightarrow> dropWhile plain_char l \<in> {[CHR 0x0D], [CHR 0x0A], [CHR 0x0D, CHR 0x0A]}"

lemma plain_char_ends [simp]: "\<not> plain_char (CHR 0x0D)" "\<not> plain_char (CHR 0x0A)"
  by (simp_all add: plain_char_def)

lemma plain_not_full: "list_all plain_char l \<Longrightarrow> \<not> full_line l"
  by (induction l) (auto simp: full_line_def)

lemma full_line_ends:
  assumes "list_all plain_char w"
  shows "full_line (w @ [CHR 0x0D])" "full_line (w @ [CHR 0x0A])" "full_line (w @ [CHR 0x0D, CHR 0x0A])"
  using assms by (induction w) (simp_all add: full_line_def)

lemma fill_loop_lines:
  "fill_loop line cs toks = (toks', line') \<Longrightarrow> list_all full_line toks \<Longrightarrow> list_all plain_char line \<Longrightarrow>
   list_all full_line toks' \<and> list_all plain_char line'"
proof (induction line cs toks rule: fill_loop.induct)
  case (2 line c toks)
  then show ?case using full_line_ends [OF "2.prems"(3)] by (auto simp: plain_char_def split: if_splits)
next
  case (3 line c d cs toks)
  consider "c = CHR 0x0D \<and> d = CHR 0x0A" | "\<not> (c = CHR 0x0D \<and> d = CHR 0x0A)" "c = CHR 0x0D \<or> c = CHR 0x0A" | "plain_char c"
    unfolding plain_char_def by blast
  then show ?case
  proof cases
    case 1
    then show ?thesis using "3.prems" full_line_ends(3) [OF "3.prems"(3)] by (intro "3.IH"(1)) auto
  next
    case 2
    then show ?thesis using "3.prems" full_line_ends(1,2) [OF "3.prems"(3)] by (intro "3.IH"(2)) auto
  next
    case 3
    then have "\<not> (c = CHR 0x0D \<and> d = CHR 0x0A)" "\<not> (c = CHR 0x0D \<or> c = CHR 0x0A)" by (simp_all add: plain_char_def)
    then show ?thesis using "3.prems" 3 by (intro "3.IH"(3)) auto
  qed
qed simp

abbreviation lines_of :: "string \<Rightarrow> string list" where
  "lines_of text_data \<equiv> tokens (fill_source_tokens text_data)"

lemma fill_source_tokens_ok:
  "concat (lines_of text_data) = text_data" "next_token (fill_source_tokens text_data) = 0"
  "ends_without_eol (fill_source_tokens text_data) \<longleftrightarrow> lines_of text_data \<noteq> [] \<and> \<not> full_line (last (lines_of text_data))"
  "list_all full_line (butlast (lines_of text_data))" "[] \<notin> set (lines_of text_data)"
proof -
  obtain toks line where f: "fill_loop [] text_data [] = (toks, line)" by fastforce
  have c: "concat toks @ line = text_data" using fill_loop_concat [OF f] by simp
  have l: "list_all full_line toks" "list_all plain_char line" using fill_loop_lines [OF f] by simp_all
  have nf: "\<not> full_line line" using plain_not_full [OF l(2)] .
  have last: "toks \<noteq> [] \<Longrightarrow> full_line (last toks)" using l(1) last_in_set [of toks] by (simp add: list_all_iff)
  have ne: "[] \<notin> set toks" using l(1) by (auto simp: list_all_iff full_line_def)
  show "concat (lines_of text_data) = text_data" using c by (auto simp: fill_source_tokens_def f)
  show "next_token (fill_source_tokens text_data) = 0" by (simp add: fill_source_tokens_def f)
  show "ends_without_eol (fill_source_tokens text_data) \<longleftrightarrow> lines_of text_data \<noteq> [] \<and> \<not> full_line (last (lines_of text_data))"
    using l(1) nf last by (auto simp: fill_source_tokens_def f)
  show "list_all full_line (butlast (lines_of text_data))"
    using l(1) by (auto simp: fill_source_tokens_def f list_all_iff dest: in_set_butlastD)
  show "[] \<notin> set (lines_of text_data)" using ne by (simp add: fill_source_tokens_def f)
qed

section \<open>The lines as a datasource\<close>

definition line_key :: "svn_diff_file_options_t \<Rightarrow> string \<Rightarrow> string" where
  "line_key options tok = fst (svn_diff__normalize_buffer options svn_diff__normalize_state_normal tok)"

definition line_order :: "string \<Rightarrow> string \<Rightarrow> int" where
  "line_order buf1 buf2 =
     (if length buf1 \<noteq> length buf2 then (if length buf1 < length buf2 then -1 else 1)
      else if length buf1 = 0 then 0 else memcmp buf1 buf2)"

definition mem_valid :: "svn_diff_file_options_t \<Rightarrow> nat \<Rightarrow> nat \<Rightarrow> diff_mem_baton_t \<Rightarrow> bool" where
  "mem_valid options max_len n baton \<longleftrightarrow> normalization_options baton = options \<and> length (sources baton) = n
     \<and> normalization_buf baton = max_len
     \<and> (\<forall>src \<in> set (sources baton). \<forall>tok \<in> set (tokens src). length tok \<le> max_len)"

definition mem_remaining :: "diff_mem_baton_t \<Rightarrow> svn_diff_datasource_e \<Rightarrow> string list" where
  "mem_remaining baton ds =
     (let src = sources baton ! datasource_to_index ds in drop (next_token src) (tokens src))"

definition mem_used :: "nat \<Rightarrow> svn_diff_datasource_e \<Rightarrow> bool" where
  "mem_used n ds \<longleftrightarrow> datasource_to_index ds < n"

lemma datasource_to_index_inj: "datasource_to_index ds = datasource_to_index ds' \<longleftrightarrow> ds = ds'"
  by (cases ds; cases ds') (simp_all add: datasource_to_index_def)

lemma memcmp_0: "length as = length bs \<Longrightarrow> memcmp as bs = 0 \<longleftrightarrow> as = bs"
  by (induction as bs rule: list_induct2) auto

lemma line_order_0: "line_order k k' = 0 \<longleftrightarrow> k = k'"
  using memcmp_0 [of k k'] by (auto simp: line_order_def)

lemma normalize_token_ok:
  assumes "mem_valid options max_len n baton" "length tok \<le> max_len"
  shows "normalize_token baton tok = Inr (line_key options tok)"
proof -
  have "length (line_key options tok) \<le> length tok"
    using normalize_length by (simp add: line_key_def svn_diff__normalize_buffer_ok(1))
  also have "\<dots> \<le> normalization_buf baton" using assms by (simp add: mem_valid_def)
  finally show ?thesis using assms(1) by (simp add: normalize_token_def line_key_def mem_valid_def Let_def)
qed

lemma mem_get_next:
  assumes "mem_valid options max_len n b" "mem_used n ds"
  shows "\<exists>h' b'. mem_datasource_get_next_token zadler h b ds =
      Inr (case mem_remaining b ds of [] \<Rightarrow> (h', None, b') | t # ts \<Rightarrow> (svn__adler32 zadler 0 (line_key options t), Some t, b'))
    \<and> mem_valid options max_len n b' \<and> mem_remaining b' = (mem_remaining b)(ds := tl (mem_remaining b ds))"
proof -
  let ?i = "datasource_to_index ds"
  let ?src = "sources b ! ?i"
  have i: "?i < length (sources b)" using assms by (simp add: mem_valid_def mem_used_def)
  show ?thesis
  proof (cases "next_token ?src < length (tokens ?src)")
    case True
    let ?t = "tokens ?src ! next_token ?src" and ?b = "b\<lparr>sources := (sources b)[?i := ?src\<lparr>next_token := next_token ?src + 1\<rparr>]\<rparr>"
    have rem: "mem_remaining b ds = ?t # drop (next_token ?src + 1) (tokens ?src)"
      using True by (simp add: mem_remaining_def Let_def Cons_nth_drop_Suc)
    have "?src \<in> set (sources b)" "?t \<in> set (tokens ?src)" using i True by simp_all
    then have "length ?t \<le> max_len" using assms(1) by (auto simp: mem_valid_def)
    from normalize_token_ok [OF assms(1) this]
    have "mem_datasource_get_next_token zadler h b ds = Inr (svn__adler32 zadler 0 (line_key options ?t), Some ?t, ?b)"
      using i True by (simp add: mem_datasource_get_next_token_def Let_def)
    moreover have "mem_valid options max_len n ?b"
      using assms(1) \<open>?src \<in> set (sources b)\<close> by (auto simp: mem_valid_def dest!: set_update_subset_insert [THEN subsetD])
    moreover have "mem_remaining ?b ds' = ((mem_remaining b)(ds := tl (mem_remaining b ds))) ds'" for ds'
    proof (cases "ds' = ds")
      case True
      then show ?thesis using i by (simp add: rem) (simp add: mem_remaining_def Let_def)
    next
      case False
      then have "datasource_to_index ds' \<noteq> ?i" by (simp add: datasource_to_index_inj)
      then show ?thesis using False by (simp add: mem_remaining_def Let_def)
    qed
    ultimately show ?thesis unfolding rem by (intro exI [of _ h] exI [of _ ?b]) (simp add: rem [symmetric] ext)
  next
    case False
    then have "mem_remaining b ds = []" by (simp add: mem_remaining_def Let_def)
    moreover have "mem_datasource_get_next_token zadler h b ds = Inr (h, None, b)"
      using i False by (simp add: mem_datasource_get_next_token_def Let_def)
    ultimately show ?thesis using assms(1) by (intro exI [of _ h] exI [of _ b]) (simp add: fun_upd_idem)
  qed
qed

interpretation mem: openable_source "svn_diff__mem_vtable zadler" "mem_valid options max_len n" mem_remaining
  "line_key options" "svn__adler32 zadler 0" line_order "mem_used n" "\<lambda>tok. length tok \<le> max_len"
  "mem_valid options max_len n" "\<lambda>b ds. map (line_key options) (mem_remaining b ds)"
  for zadler options max_len n
proof (unfold_locales, goal_cases)
  case (1 b ds h)
  then show ?case using mem_get_next by (simp add: svn_diff__mem_vtable_def)
next
  case (2 b ds)
  then show ?case by (force simp: mem_valid_def mem_used_def mem_remaining_def Let_def dest: in_set_dropD)
next
  case (3 b t1 t2)
  then show ?case using normalize_token_ok
    by (simp add: svn_diff__mem_vtable_def mem_token_compare_def line_order_def)
next
  case (4 k k')
  then show ?case by (rule line_order_0)
next
  case (5 b ds)
  then show ?case by (simp add: svn_diff__mem_vtable_def mem_datasource_close_def)
next
  case (6 b f t)
  then show ?case by (auto simp: svn_diff__mem_vtable_def)
next
  case (7 b dss)
  then show ?case by (simp add: svn_diff__mem_vtable_def mem_datasources_open_def)
qed

section \<open>The diff of two texts\<close>

lemma max_len_token:
  "init \<le> foldl (\<lambda>max_len tok. if max_len < length tok then length tok else max_len) init toks
   \<and> (\<forall>tok \<in> set toks. length tok \<le> foldl (\<lambda>max_len tok. if max_len < length tok then length tok else max_len) init toks)"
proof (induction toks arbitrary: init)
  case (Cons t toks)
  show ?case using Cons [of "if init < length t then length t else init"] by (auto split: if_splits)
qed simp

lemma alloc_normalization_bufs_valid:
  assumes "n = length (sources btn)" "normalization_options btn = options"
  shows "mem_valid options (normalization_buf (alloc_normalization_bufs btn n)) n (alloc_normalization_bufs btn n)"
proof -
  let ?step = "\<lambda>max_len src. foldl (\<lambda>max_len tok. if max_len < length tok then length tok else max_len) max_len (tokens src)"
  have "init \<le> foldl ?step init srcs \<and> (\<forall>src \<in> set srcs. \<forall>tok \<in> set (tokens src). length tok \<le> foldl ?step init srcs)" for init srcs
  proof (induction srcs arbitrary: init)
    case (Cons src srcs)
    from Cons [of "?step init src"] max_len_token [of init "tokens src"] show ?case by (auto intro: order_trans)
  qed simp
  from this [of 0 "sources btn"] show ?thesis using assms by (simp add: mem_valid_def alloc_normalization_bufs_def)
qed

lemma patch_map: "map f (patch F0 F1 hs) = patch (map f F0) (map f F1) hs" "map f (reverse_patch F0 F1 hs) = reverse_patch (map f F0) (map f F1) hs"
  unfolding patch_def reverse_patch_def by (induction hs) (simp_all add: file_part_map)

lemma line_key_plain:
  "ignore_space options = svn_diff_file_ignore_space_none \<Longrightarrow> \<not> ignore_eol_style options \<Longrightarrow> line_key options = (\<lambda>l. l)"
  by (simp add: line_key_def svn_diff__normalize_buffer_def fun_eq_iff)

definition line_keys :: "svn_diff_file_options_t \<Rightarrow> string \<Rightarrow> string list" where
  "line_keys options text_data = map (line_key options) (lines_of text_data)"

lemma svn_diff_mem_string_diff_ok:
  "\<exists>hs. svn_diff_mem_string_diff zadler original modified options = Some (Inr hs)
     \<and> diff_of_files (line_keys options original) (line_keys options modified) hs"
proof -
  let ?b = "\<lparr>sources = [fill_source_tokens original, fill_source_tokens modified], normalization_buf = 0, normalization_options = options\<rparr>"
  let ?btn = "alloc_normalization_bufs ?b 2"
  have valid: "mem_valid options (normalization_buf ?btn) 2 ?btn" by (rule alloc_normalization_bufs_valid) simp_all
  have files: "map (line_key options) (mem_remaining ?btn svn_diff_datasource_original) = line_keys options original"
    "map (line_key options) (mem_remaining ?btn svn_diff_datasource_modified) = line_keys options modified"
    by (simp_all add: mem_remaining_def line_keys_def datasource_to_index_def alloc_normalization_bufs_def fill_source_tokens_ok(2))
  show ?thesis
    using mem.svn_diff_diff_2_ok [OF valid, of zadler] unfolding files
    by (auto simp: svn_diff_mem_string_diff_def CALL_def mem_used_def datasource_to_index_def)
qed

section \<open>Theorems\<close>

text \<open>
  C4. The diff of two texts in memory: for every two texts and options the computation returns,
  without an access outside of a buffer; the hunks cover the lines of both texts in order;
  putting the lines of the second text for the changed ones of the first gives the second text, up to what the options
  ignore and exactly when they ignore nothing, and the other way around the first; no list of hunks changes fewer
  lines; the diff reports differences exactly when the texts differ in what is not ignored, and never a conflict.
\<close>

theorem svn_diff_mem_string_diff_correct:
  "\<exists>hs. svn_diff_mem_string_diff zadler original modified options = Some (Inr hs)
     \<and> diff_of_files (line_keys options original) (line_keys options modified) hs
     \<and> map (line_key options) (patch (lines_of original) (lines_of modified) hs) = line_keys options modified
     \<and> map (line_key options) (reverse_patch (lines_of original) (lines_of modified) hs) = line_keys options original
     \<and> (ignore_space options = svn_diff_file_ignore_space_none \<and> \<not> ignore_eol_style options \<longrightarrow>
          concat (patch (lines_of original) (lines_of modified) hs) = modified
          \<and> concat (reverse_patch (lines_of original) (lines_of modified) hs) = original)
     \<and> (svn_diff_contains_diffs hs \<longleftrightarrow> line_keys options original \<noteq> line_keys options modified)
     \<and> \<not> svn_diff_contains_conflicts hs"
proof -
  obtain hs where hs: "svn_diff_mem_string_diff zadler original modified options = Some (Inr hs)"
    "diff_of_files (line_keys options original) (line_keys options modified) hs"
    using svn_diff_mem_string_diff_ok by blast
  note d = diff_of_filesD [OF hs(2)]
  have p: "map (line_key options) (patch (lines_of original) (lines_of modified) hs) = line_keys options modified"
    "map (line_key options) (reverse_patch (lines_of original) (lines_of modified) hs) = line_keys options original"
    using d(1,2) by (simp_all add: patch_map line_keys_def)
  have "concat (patch (lines_of original) (lines_of modified) hs) = modified
      \<and> concat (reverse_patch (lines_of original) (lines_of modified) hs) = original"
    if "ignore_space options = svn_diff_file_ignore_space_none \<and> \<not> ignore_eol_style options"
    using p line_key_plain [of options] that fill_source_tokens_ok(1) by (simp add: line_keys_def)
  then show ?thesis using hs p d(3,4) by blast
qed

theorem svn_diff_mem_string_diff_correct_witness:
  "\<exists>hs. svn_diff_mem_string_diff (\<lambda>h s. h) ''a b'' ''ab''
       \<lparr>ignore_space = svn_diff_file_ignore_space_none, ignore_eol_style = False, show_c_function = False\<rparr> = Some (Inr hs)
     \<and> concat (patch (lines_of ''a b'') (lines_of ''ab'') hs) = ''ab''
     \<and> concat (reverse_patch (lines_of ''a b'') (lines_of ''ab'') hs) = ''a b''"
  using svn_diff_mem_string_diff_correct [of "\<lambda>h s. h" "''a b''" "''ab''"
    "\<lparr>ignore_space = svn_diff_file_ignore_space_none, ignore_eol_style = False, show_c_function = False\<rparr>"] by auto

end
