(* ===== verification/Diff_Unified.thy ===== *)
theory Diff_Unified
  imports Diff_Memory
begin

text \<open>
  Unified diffs of texts in memory (\<open>svn_diff_output\<close> of libsvn\_diff/util.c and the unified output of
  diff\_memory.c). The output stream is what has been written to it. The conversion to the
  encoding of the headers is the argument \<open>to_enc\<close>; lines are written as they are. Hunks have no
  \<open>resolved_diff\<close>, which a two-way diff does not set, so \<open>output_conflict\<close> has no argument for it.
\<close>

section \<open>Walking a diff\<close>

text \<open>The callbacks for each type of hunk; one that is NULL is skipped.\<close>

type_synonym 'b output_fn = "'b \<Rightarrow> int \<Rightarrow> int \<Rightarrow> int \<Rightarrow> int \<Rightarrow> int \<Rightarrow> int \<Rightarrow> 'b svn_result"

record 'b svn_diff_output_fns_t =
  output_common :: "'b output_fn option"
  output_diff_modified :: "'b output_fn option"
  output_diff_latest :: "'b output_fn option"
  output_diff_common :: "'b output_fn option"
  output_conflict :: "'b output_fn option"

fun svn_diff_output :: "'b svn_diff_output_fns_t \<Rightarrow> svn_diff_t list \<Rightarrow> 'b \<Rightarrow> 'b svn_result" where
  "svn_diff_output vtable [] baton = Inr baton"
| "svn_diff_output vtable (diff # rest) baton =
     (let output_fn =
        (case diff_type diff of
           svn_diff__type_common \<Rightarrow> output_common vtable
         | svn_diff__type_diff_common \<Rightarrow> output_diff_common vtable
         | svn_diff__type_diff_modified \<Rightarrow> output_diff_modified vtable
         | svn_diff__type_diff_latest \<Rightarrow> output_diff_latest vtable
         | svn_diff__type_conflict \<Rightarrow> output_conflict vtable)
      in
      SVN_ERR
        (case output_fn of
           None \<Rightarrow> Inr baton
         | Some f \<Rightarrow> f baton (original_start diff) (original_length diff) (modified_start diff) (modified_length diff)
                       (latest_start diff) (latest_length diff))
        (svn_diff_output vtable rest))"

section \<open>Building hunks\<close>

text \<open>
  \<open>next_line\<close> is the field \<open>next\_token\<close> of the baton, a number of a line of the original text (the record of a source
  of lines has a field of this name too); \<open>source0\<close> and \<open>source1\<close> are the two elements of \<open>sources\<close>.
\<close>

datatype unified_output_e = unified_output_context | unified_output_delete | unified_output_insert

record output_baton_t =
  output_stream :: string
  source0 :: source_tokens_t
  source1 :: source_tokens_t
  next_line :: int
  prefix_str :: "unified_output_e \<Rightarrow> string"
  hunk :: string
  hunk_length0 :: int
  hunk_length1 :: int
  hunk_start0 :: int
  hunk_start1 :: int
  hunk_delimiter :: "string option"

definition SVN_DIFF__UNIFIED_CONTEXT_SIZE :: int where
  "SVN_DIFF__UNIFIED_CONTEXT_SIZE = 3"

definition APR_EOL_STR :: string where
  "APR_EOL_STR = [CHR 0x0A]"

text \<open>The loop over the lines of a range.\<close>

fun token_range_loop :: "unified_output_e \<Rightarrow> string list \<Rightarrow> output_baton_t \<Rightarrow> output_baton_t" where
  "token_range_loop type [] btn = btn"
| "token_range_loop type (token # rest) btn =
     token_range_loop type rest
       (btn\<lparr>hunk := hunk btn @ prefix_str btn type @ token,
            hunk_length0 := hunk_length0 btn + (if type = unified_output_insert then 0 else 1),
            hunk_length1 := hunk_length1 btn + (if type = unified_output_delete then 0 else 1)\<rparr>)"

text \<open>\<open>from_original\<close> tells whether \<open>tokens\<close> is 0.\<close>

definition output_unified_token_range ::
  "(string \<Rightarrow> string svn_result) \<Rightarrow> output_baton_t \<Rightarrow> bool \<Rightarrow> unified_output_e \<Rightarrow> int \<Rightarrow> int \<Rightarrow> output_baton_t svn_result" where
  "output_unified_token_range to_enc btn from_original type first past_last =
     (let source = (if from_original then source0 btn else source1 btn);
          nelts = int (length (tokens source));
          past_last = (if past_last > nelts then nelts else past_last);
          first = (if from_original then (if first < next_line btn then next_line btn else first) else first)
      in
      if first \<ge> past_last then Inr btn
      else if first < 0 then Inl C_OUT_OF_BOUNDS
      else
        let btn1 = token_range_loop type (take (nat (past_last - first)) (drop (nat first) (tokens source))) btn in
        SVN_ERR
          (if past_last = nelts \<and> ends_without_eol source
           then SVN_ERR (to_enc (APR_EOL_STR @ CHR 0x5C # '' No newline at end of file'' @ APR_EOL_STR)) (\<lambda>out_str.
                Inr (btn1\<lparr>hunk := hunk btn1 @ out_str\<rparr>))
           else Inr btn1)
          (\<lambda>btn2. Inr (if from_original then btn2\<lparr>next_line := past_last\<rparr> else btn2)))"

definition svn_stream_printf_from_utf8 ::
  "(string \<Rightarrow> string svn_result) \<Rightarrow> string \<Rightarrow> string \<Rightarrow> string svn_result" where
  "svn_stream_printf_from_utf8 to_enc out message =
     SVN_ERR (to_enc message) (\<lambda>translated. Inr (out @ translated))"

definition output_unified_flush_hunk ::
  "(string \<Rightarrow> string svn_result) \<Rightarrow> output_baton_t \<Rightarrow> string option \<Rightarrow> output_baton_t svn_result" where
  "output_unified_flush_hunk to_enc baton delimiter =
     (if hunk baton = [] then Inr baton
      else
        let target_token = hunk_start0 baton + hunk_length0 baton + SVN_DIFF__UNIFIED_CONTEXT_SIZE in
        SVN_ERR (output_unified_token_range to_enc baton True unified_output_context (next_line baton) target_token) (\<lambda>b1.
        let delim = (case delimiter of None \<Rightarrow> ''@@'' | Some d \<Rightarrow> d);
            b2 = (if hunk_length0 b1 > 0 then b1\<lparr>hunk_start0 := hunk_start0 b1 + 1\<rparr> else b1)
        in
        SVN_ERR (svn_stream_printf_from_utf8 to_enc (output_stream b2)
                   (if hunk_length0 b2 = 1 then delim @ '' -'' @ ld_to_string (hunk_start0 b2)
                    else delim @ '' -'' @ ld_to_string (hunk_start0 b2) @ '','' @ ld_to_string (hunk_length0 b2))) (\<lambda>out1.
        let b3 = (if hunk_length1 b2 > 0 then b2\<lparr>hunk_start1 := hunk_start1 b2 + 1\<rparr> else b2) in
        SVN_ERR (svn_stream_printf_from_utf8 to_enc out1
                   (if hunk_length1 b3 = 1 then '' +'' @ ld_to_string (hunk_start1 b3) @ '' '' @ delim @ APR_EOL_STR
                    else '' +'' @ ld_to_string (hunk_start1 b3) @ '','' @ ld_to_string (hunk_length1 b3) @ '' '' @ delim @ APR_EOL_STR))
          (\<lambda>out2.
        Inr (b3\<lparr>output_stream := out2 @ hunk b3, hunk_length0 := 0, hunk_length1 := 0, hunk := []\<rparr>)))))"

definition output_unified_diff_modified ::
  "(string \<Rightarrow> string svn_result) \<Rightarrow> output_baton_t output_fn" where
  "output_unified_diff_modified to_enc btn orig_start orig_length mod_start mod_length lat_start lat_length =
     (let targ_orig = orig_start - SVN_DIFF__UNIFIED_CONTEXT_SIZE;
          targ_orig = (if targ_orig < 0 then 0 else targ_orig);
          targ_mod = mod_start
      in
      SVN_ERR
        (if next_line btn + SVN_DIFF__UNIFIED_CONTEXT_SIZE < targ_orig
         then SVN_ERR (output_unified_flush_hunk to_enc btn (hunk_delimiter btn)) (\<lambda>b. Inr (b, targ_orig))
         else if hunk_length0 btn \<noteq> 0 then Inr (btn, next_line btn)
         else Inr (btn, targ_orig))
        (\<lambda>(b1, targ_orig).
          let b2 = (if hunk_length0 b1 = 0 \<and> hunk_length1 b1 = 0
                    then b1\<lparr>hunk_start0 := targ_orig, hunk_start1 := targ_mod + targ_orig - orig_start\<rparr> else b1)
          in
          SVN_ERR (output_unified_token_range to_enc b2 True unified_output_context targ_orig orig_start) (\<lambda>b3.
          SVN_ERR (output_unified_token_range to_enc b3 True unified_output_delete orig_start (orig_start + orig_length)) (\<lambda>b4.
          output_unified_token_range to_enc b4 False unified_output_insert mod_start (mod_start + mod_length)))))"

definition mem_output_unified_vtable ::
  "(string \<Rightarrow> string svn_result) \<Rightarrow> output_baton_t svn_diff_output_fns_t" where
  "mem_output_unified_vtable to_enc =
     \<lparr>output_common = None, output_diff_modified = Some (output_unified_diff_modified to_enc),
      output_diff_latest = None, output_diff_common = None, output_conflict = None\<rparr>"

text \<open>The result is what is written to the stream.\<close>

definition svn_diff_mem_string_output_unified2 ::
  "(string \<Rightarrow> string svn_result) \<Rightarrow> svn_diff_t list \<Rightarrow> bool \<Rightarrow> string option \<Rightarrow> string \<Rightarrow> string \<Rightarrow> string \<Rightarrow> string \<Rightarrow> string svn_result" where
  "svn_diff_mem_string_output_unified2 to_enc diff with_diff_header delimiter original_header modified_header original modified =
     (if svn_diff_contains_diffs diff then
        SVN_ERR (to_enc '' '') (\<lambda>prefix_context.
        SVN_ERR (to_enc ''-'') (\<lambda>prefix_delete.
        SVN_ERR (to_enc ''+'') (\<lambda>prefix_insert.
        SVN_ERR
          (if with_diff_header
           then svn_stream_printf_from_utf8 to_enc []
                  (''--- '' @ original_header @ APR_EOL_STR @ ''+++ '' @ modified_header @ APR_EOL_STR)
           else Inr [])
          (\<lambda>out.
        SVN_ERR (svn_diff_output (mem_output_unified_vtable to_enc) diff
            \<lparr>output_stream = out, source0 = fill_source_tokens original, source1 = fill_source_tokens modified, next_line = 0,
             prefix_str = (\<lambda>type. case type of unified_output_context \<Rightarrow> prefix_context
               | unified_output_delete \<Rightarrow> prefix_delete | unified_output_insert \<Rightarrow> prefix_insert),
             hunk = [], hunk_length0 = 0, hunk_length1 = 0, hunk_start0 = 0, hunk_start1 = 0, hunk_delimiter = delimiter\<rparr>) (\<lambda>baton.
        SVN_ERR (output_unified_flush_hunk to_enc baton delimiter) (\<lambda>baton'. Inr (output_stream baton')))))))
      else Inr [])"

definition svn_diff_mem_string_output_unified ::
  "(string \<Rightarrow> string svn_result) \<Rightarrow> svn_diff_t list \<Rightarrow> string \<Rightarrow> string \<Rightarrow> string \<Rightarrow> string \<Rightarrow> string svn_result" where
  "svn_diff_mem_string_output_unified to_enc diff original_header modified_header original modified =
     svn_diff_mem_string_output_unified2 to_enc diff True None original_header modified_header original modified"

section \<open>Unified diffs and what they do\<close>

text \<open>
  A unified hunk: where it starts in both files, counted from 0, and its lines. Its lengths
  are the numbers of its lines in either file. The printed starts count from 1 if the
  length is not 0.
\<close>

record unified_hunk =
  ustart0 :: int
  ustart1 :: int
  ulines :: "(unified_output_e \<times> string) list"

definition ulength0 :: "(unified_output_e \<times> string) list \<Rightarrow> int" where
  "ulength0 ls = int (length (filter (\<lambda>(type, l). type \<noteq> unified_output_insert) ls))"

definition ulength1 :: "(unified_output_e \<times> string) list \<Rightarrow> int" where
  "ulength1 ls = int (length (filter (\<lambda>(type, l). type \<noteq> unified_output_delete) ls))"

definition no_newline :: string where
  "no_newline = APR_EOL_STR @ CHR 0x5C # '' No newline at end of file'' @ APR_EOL_STR"

definition print_line :: "(string \<Rightarrow> string) \<Rightarrow> unified_output_e \<times> string \<Rightarrow> string" where
  "print_line enc line =
     enc (case fst line of unified_output_context \<Rightarrow> '' '' | unified_output_delete \<Rightarrow> ''-'' | unified_output_insert \<Rightarrow> ''+'')
     @ snd line @ (if full_line (snd line) then [] else enc no_newline)"

definition print_range :: "int \<Rightarrow> int \<Rightarrow> string" where
  "print_range from_line len =
     ld_to_string (if len > 0 then from_line + 1 else from_line) @ (if len = 1 then [] else '','' @ ld_to_string len)"

definition print_hunk :: "(string \<Rightarrow> string) \<Rightarrow> string \<Rightarrow> unified_hunk \<Rightarrow> string" where
  "print_hunk enc delim h =
     enc (delim @ '' -'' @ print_range (ustart0 h) (ulength0 (ulines h)))
     @ enc ('' +'' @ print_range (ustart1 h) (ulength1 (ulines h)) @ '' '' @ delim @ APR_EOL_STR)
     @ concat (map (print_line enc) (ulines h))"

text \<open>Applying the lines of a hunk: the lines it makes and the lines that are left.\<close>

fun apply_lines :: "(unified_output_e \<times> string) list \<Rightarrow> string list \<Rightarrow> (string list \<times> string list) option" where
  "apply_lines [] rest = Some ([], rest)"
| "apply_lines ((unified_output_insert, l) # ls) rest = map_option (\<lambda>(out, rest'). (l # out, rest')) (apply_lines ls rest)"
| "apply_lines ((unified_output_delete, l) # ls) rest =
     (case rest of [] \<Rightarrow> None | r # rs \<Rightarrow> if r = l then apply_lines ls rs else None)"
| "apply_lines ((unified_output_context, l) # ls) rest =
     (case rest of
        [] \<Rightarrow> None
      | r # rs \<Rightarrow> if r = l then map_option (\<lambda>(out, rest'). (l # out, rest')) (apply_lines ls rs) else None)"

text \<open>
  Applying hunks to the lines from the position \<open>i\<close> of a file on, after \<open>j\<close> lines of the result:
  every hunk has to start where it says in both files, and its deleted and context lines have to
  be there.
\<close>

fun apply_hunks :: "int \<Rightarrow> int \<Rightarrow> unified_hunk list \<Rightarrow> string list \<Rightarrow> string list option" where
  "apply_hunks i j [] rest = Some rest"
| "apply_hunks i j (h # hs) rest =
     (let n = ustart0 h - i in
      if n < 0 \<or> n > int (length rest) \<or> ustart1 h \<noteq> j + n then None
      else
        case apply_lines (ulines h) (drop (nat n) rest) of
          None \<Rightarrow> None
        | Some (out, rest') \<Rightarrow>
            map_option (\<lambda>more. take (nat n) rest @ out @ more)
              (apply_hunks (ustart0 h + ulength0 (ulines h)) (ustart1 h + ulength1 (ulines h)) hs rest'))"

lemma ulength_simps [simp]:
  "ulength0 [] = 0" "ulength1 [] = 0"
  "ulength0 (ls @ ls') = ulength0 ls + ulength0 ls'" "ulength1 (ls @ ls') = ulength1 ls + ulength1 ls'"
  by (simp_all add: ulength0_def ulength1_def)

definition typed :: "unified_output_e \<Rightarrow> string list \<Rightarrow> (unified_output_e \<times> string) list" where
  "typed type ls = map (\<lambda>l. (type, l)) ls"

lemma ulength_typed [simp]:
  "ulength0 (typed type ls) = (if type = unified_output_insert then 0 else int (length ls))"
  "ulength1 (typed type ls) = (if type = unified_output_delete then 0 else int (length ls))"
  by (simp_all add: ulength0_def ulength1_def typed_def filter_map comp_def)

lemma apply_lines_append:
  "apply_lines (ls @ ls') rest =
   Option.bind (apply_lines ls rest) (\<lambda>(out, rest'). map_option (\<lambda>(out', rest''). (out @ out', rest'')) (apply_lines ls' rest'))"
proof (induction ls rest rule: apply_lines.induct)
  case (1 rest)
  then show ?case by (cases "apply_lines ls' rest") auto
next
  case (2 l ls rest)
  then show ?case by (cases "apply_lines ls rest") (auto simp: option.map_comp comp_def split_def)
next
  case (3 l ls rest)
  then show ?case by (cases rest) auto
next
  case (4 l ls rest)
  then show ?case
    by (cases rest; cases "apply_lines ls (tl rest)") (auto simp: option.map_comp comp_def split_def)
qed

lemma apply_lines_typed:
  "apply_lines (typed unified_output_insert ls) rest = Some (ls, rest)"
  "apply_lines (typed unified_output_delete ls) (ls @ rest) = Some ([], rest)"
  "apply_lines (typed unified_output_context ls) (ls @ rest) = Some (ls, rest)"
  by (induction ls) (simp_all add: typed_def)

lemma nat_1_add: "nat (1 + int n) = Suc n"
  by simp

lemma apply_lines_length: "apply_lines ls rest = Some (out, rest') \<Longrightarrow> int (length out) = ulength1 ls
   \<and> rest' = drop (nat (ulength0 ls)) rest \<and> ulength0 ls \<le> int (length rest)"
proof (induction ls rest arbitrary: out rest' rule: apply_lines.induct)
  case (3 l ls rest)
  then show ?case by (cases rest) (auto simp: ulength0_def ulength1_def nat_1_add split: if_splits)
next
  case (4 l ls rest)
  then show ?case by (cases rest) (auto simp: ulength0_def ulength1_def nat_1_add split: if_splits)
qed (auto simp: ulength0_def ulength1_def)

section \<open>Printing ranges of lines\<close>

definition symbol :: "unified_output_e \<Rightarrow> string" where
  "symbol type = (case type of unified_output_context \<Rightarrow> '' '' | unified_output_delete \<Rightarrow> ''-'' | unified_output_insert \<Rightarrow> ''+'')"

lemma token_range_loop_closed:
  "token_range_loop type toks b =
     b\<lparr>hunk := hunk b @ concat (map (\<lambda>l. prefix_str b type @ l) toks),
       hunk_length0 := hunk_length0 b + ulength0 (typed type toks),
       hunk_length1 := hunk_length1 b + ulength1 (typed type toks)\<rparr>"
  by (induction toks arbitrary: b) simp_all

lemma print_typed:
  assumes "xs \<noteq> []" "\<forall>l \<in> set (butlast xs). full_line l"
  shows "concat (map (print_line enc) (typed type xs)) =
    concat (map (\<lambda>l. enc (symbol type) @ l) xs) @ (if full_line (last xs) then [] else enc no_newline)"
  using assms by (induction xs) (auto simp: typed_def print_line_def symbol_def)

lemma file_part_nth: "0 \<le> f \<Longrightarrow> f + int k < q \<Longrightarrow> q \<le> int (length F) \<Longrightarrow> file_part F f (q - f) ! k = F ! (nat f + k)"
  by (simp add: file_part_def)

lemma length_file_part: "0 \<le> f \<Longrightarrow> f \<le> q \<Longrightarrow> q \<le> int (length F) \<Longrightarrow> int (length (file_part F f (q - f))) = q - f"
  by (simp add: file_part_def)

lemma file_part_empty: "n \<le> 0 \<Longrightarrow> file_part F f n = []"
  by (simp add: file_part_def)

lemma file_part_join:
  assumes "0 \<le> a" "a \<le> b" "b \<le> c"
  shows "file_part F a (b - a) @ file_part F b (c - b) = file_part F a (c - a)"
proof -
  have "nat (c - a) = nat (b - a) + nat (c - b)" "nat b = nat (b - a) + nat a" using assms by simp_all
  then show ?thesis by (simp add: file_part_def take_add)
qed

lemma file_part_drop_eq:
  assumes "0 \<le> a" "a \<le> b"
  shows "drop (nat a) F = file_part F a (b - a) @ drop (nat b) F"
  using file_part_drop [of a "b - a" F] assms by simp

lemma print_range_of_lines:
  assumes "0 \<le> f" "f < q" "q \<le> int (length (lines_of content))"
  shows "concat (map (print_line enc) (typed type (file_part (lines_of content) f (q - f)))) =
    concat (map (\<lambda>l. enc (symbol type) @ l) (file_part (lines_of content) f (q - f)))
    @ (if q = int (length (lines_of content)) \<and> ends_without_eol (fill_source_tokens content) then enc no_newline else [])"
proof -
  let ?F = "lines_of content"
  let ?xs = "file_part ?F f (q - f)"
  have len: "length ?xs = nat (q - f)" using length_file_part [of f q ?F] assms by simp
  then have ne: "?xs \<noteq> []" using assms by auto
  have complete: "full_line (?F ! k)" if "k + 1 < length ?F" for k
    using fill_source_tokens_ok(4) [of content] that by (auto simp: list_all_length nth_butlast)
  have "full_line l" if l: "l \<in> set (butlast ?xs)" for l
  proof -
    obtain k where k: "k < length ?xs - 1" "l = ?xs ! k" using l by (auto simp: in_set_conv_nth nth_butlast)
    then have "l = ?F ! (nat f + k)" using file_part_nth [of f k q ?F] assms len by simp
    then show ?thesis using complete [of "nat f + k"] k(1) len assms by simp
  qed
  moreover have last: "last ?xs = ?F ! nat (q - 1)"
  proof -
    have "last ?xs = ?xs ! (nat (q - f) - 1)" using ne len by (simp add: last_conv_nth)
    also have "\<dots> = ?F ! (nat f + (nat (q - f) - 1))" using file_part_nth [of f "nat (q - f) - 1" q ?F] assms by simp
    also have "nat f + (nat (q - f) - 1) = nat (q - 1)" using assms by simp
    finally show ?thesis .
  qed
  moreover have "full_line (last ?xs) \<longleftrightarrow> \<not> (q = int (length ?F) \<and> ends_without_eol (fill_source_tokens content))"
  proof (cases "q = int (length ?F)")
    case True
    have F: "?F \<noteq> []" using assms by auto
    have "nat (q - 1) = length ?F - 1" using True by arith
    then have "last ?xs = last ?F" using last_conv_nth [OF F] last by simp
    then show ?thesis using fill_source_tokens_ok(3) [of content] True F by simp
  next
    case False
    then show ?thesis using last complete [of "nat (q - 1)"] assms by simp
  qed
  ultimately show ?thesis using print_typed [OF ne] by simp
qed

text \<open>The fields that stay as they are.\<close>

definition unified_env :: "(string \<Rightarrow> string) \<Rightarrow> string option \<Rightarrow> string \<Rightarrow> string \<Rightarrow> output_baton_t \<Rightarrow> bool" where
  "unified_env enc delimiter original modified b \<longleftrightarrow>
     source0 b = fill_source_tokens original \<and> source1 b = fill_source_tokens modified
     \<and> prefix_str b = (\<lambda>type. enc (symbol type)) \<and> hunk_delimiter b = delimiter"

text \<open>Adding lines to the current hunk.\<close>

definition add_lines :: "(string \<Rightarrow> string) \<Rightarrow> (unified_output_e \<times> string) list \<Rightarrow> output_baton_t \<Rightarrow> output_baton_t" where
  "add_lines enc ls b =
     b\<lparr>hunk := hunk b @ concat (map (print_line enc) ls), hunk_length0 := hunk_length0 b + ulength0 ls,
       hunk_length1 := hunk_length1 b + ulength1 ls\<rparr>"

lemma add_lines_nil [simp]: "add_lines enc [] b = b"
  by (simp add: add_lines_def)

lemma token_range_original:
  assumes env: "unified_env enc delimiter original modified b" and to_enc: "\<And>s. to_enc s = Inr (enc s)"
    and f: "f = max first (next_line b)" "0 \<le> f" and q: "q = min past_last (int (length (lines_of original)))"
  shows "output_unified_token_range to_enc b True type first past_last =
    Inr (if f < q then (add_lines enc (typed type (file_part (lines_of original) f (q - f))) b)\<lparr>next_line := q\<rparr> else b)"
proof (cases "f < q")
  case False
  then show ?thesis using env f q
    by (auto simp: output_unified_token_range_def unified_env_def Let_def max_def min_def split: if_splits)
next
  case True
  have "(if past_last > int (length (lines_of original)) then int (length (lines_of original)) else past_last) = q"
    "(if first < next_line b then next_line b else first) = f" using f(1) q by auto
  moreover have "take (nat (q - f)) (drop (nat f) (lines_of original)) = file_part (lines_of original) f (q - f)"
    by (simp add: file_part_def)
  ultimately show ?thesis using True env f(2) q print_range_of_lines [OF f(2) True, of original enc type]
    by (auto simp: output_unified_token_range_def unified_env_def Let_def token_range_loop_closed to_enc add_lines_def no_newline_def)
qed

lemma token_range_modified:
  assumes env: "unified_env enc delimiter original modified b" and to_enc: "\<And>s. to_enc s = Inr (enc s)"
    and f: "0 \<le> f" "f \<le> q" "q \<le> int (length (lines_of modified))"
  shows "output_unified_token_range to_enc b False type f q =
    Inr (add_lines enc (typed type (file_part (lines_of modified) f (q - f))) b)"
proof (cases "f < q")
  case False
  then have "file_part (lines_of modified) f (q - f) = []" using f by (simp add: file_part_empty)
  then show ?thesis using False env f
    by (auto simp: output_unified_token_range_def unified_env_def Let_def typed_def)
next
  case True
  have "take (nat (q - f)) (drop (nat f) (lines_of modified)) = file_part (lines_of modified) f (q - f)"
    by (simp add: file_part_def)
  then show ?thesis using True env f print_range_of_lines [OF f(1) True f(3), of enc type]
    by (auto simp: output_unified_token_range_def unified_env_def Let_def token_range_loop_closed to_enc add_lines_def no_newline_def)
qed

section \<open>Applying what has been written\<close>

text \<open>The hunks \<open>U\<close> take the lines before \<open>p\<close> to \<open>out\<close>, whatever follows.\<close>

definition applied :: "string list \<Rightarrow> unified_hunk list \<Rightarrow> int \<Rightarrow> string list \<Rightarrow> bool" where
  "applied L U p out \<longleftrightarrow> 0 \<le> p \<and> p \<le> int (length L)
     \<and> (\<forall>V. apply_hunks 0 0 (U @ V) L = map_option ((@) out) (apply_hunks p (int (length out)) V (drop (nat p) L)))"

lemma applied_nil: "applied L [] 0 []"
proof -
  have "map_option ((@) []) x = x" for x :: "string list option" by (cases x) simp_all
  then show ?thesis by (simp add: applied_def)
qed

lemma applied_snoc:
  assumes "applied L U p out" and s: "p \<le> s" "s \<le> int (length L)"
    and cur: "apply_lines cur (drop (nat s) L) = Some (new, drop (nat n) L)" "n = s + ulength0 cur"
  shows "applied L (U @ [\<lparr>ustart0 = s, ustart1 = int (length out) + (s - p), ulines = cur\<rparr>]) n
    (out @ file_part L p (s - p) @ new)"
proof -
  have p: "0 \<le> p" using assms(1) by (simp add: applied_def)
  have len: "int (length new) = ulength1 cur" "n \<le> int (length L)"
    using apply_lines_length [OF cur(1)] cur(2) s p by auto
  have n: "0 \<le> n" using cur(2) s p by (simp add: ulength0_def)
  have d: "drop (nat (s - p) + nat p) L = drop (nat s) L" "take (nat (s - p)) (drop (nat p) L) = file_part L p (s - p)"
    using s p by (simp_all add: file_part_def flip: nat_add_distrib)
  have "int (length (file_part L p (s - p))) = s - p" using length_file_part [of p s L] s p by simp
  then have l: "int (length (out @ file_part L p (s - p) @ new)) = int (length out) + (s - p) + ulength1 cur"
    using len by simp
  have "apply_hunks p (int (length out)) (\<lparr>ustart0 = s, ustart1 = int (length out) + (s - p), ulines = cur\<rparr> # V) (drop (nat p) L)
    = map_option (\<lambda>more. file_part L p (s - p) @ new @ more)
        (apply_hunks n (int (length out) + (s - p) + ulength1 cur) V (drop (nat n) L))" for V
    using s p by (simp add: d cur(1) Let_def) (simp add: cur(2))
  moreover have "(@) (out @ file_part L p (s - p) @ new) = (\<lambda>more. out @ file_part L p (s - p) @ new @ more)" by auto
  ultimately show ?thesis using assms(1) n len(2) unfolding applied_def l
    by (simp add: option.map_comp comp_def)
qed

section \<open>The state between two changes\<close>

text \<open>
  Before the first change nothing is written. After it there is always a current hunk: \<open>U\<close> are the hunks before it,
  which take the lines before \<open>p\<close> to \<open>out\<close>; it starts at \<open>s\<close> and its lines \<open>cur\<close> take the lines from there to
  before \<open>n\<close> to \<open>new\<close>. \<open>R\<close> is the patched text of the lines before \<open>i\<close>.
\<close>

definition idle :: "string \<Rightarrow> string list \<Rightarrow> output_baton_t \<Rightarrow> int \<Rightarrow> string list \<Rightarrow> bool" where
  "idle hdr L b i R \<longleftrightarrow> output_stream b = hdr \<and> hunk b = [] \<and> hunk_length0 b = 0 \<and> hunk_length1 b = 0 \<and> next_line b = 0
     \<and> 0 \<le> i \<and> i \<le> int (length L) \<and> R = file_part L 0 i"

definition written :: "(string \<Rightarrow> string) \<Rightarrow> string \<Rightarrow> string \<Rightarrow> string list \<Rightarrow> output_baton_t \<Rightarrow> unified_hunk list \<Rightarrow> int \<Rightarrow> string list \<Rightarrow> bool" where
  "written enc delim hdr L b U p out \<longleftrightarrow> output_stream b = hdr @ concat (map (print_hunk enc delim) U) \<and> applied L U p out"

definition building :: "(string \<Rightarrow> string) \<Rightarrow> string list \<Rightarrow> output_baton_t \<Rightarrow> int \<Rightarrow> string list \<Rightarrow>
    int \<Rightarrow> string list \<Rightarrow> int \<Rightarrow> (unified_output_e \<times> string) list \<Rightarrow> string list \<Rightarrow> int \<Rightarrow> bool" where
  "building enc L b i R p out s cur new n \<longleftrightarrow>
     hunk b = concat (map (print_line enc) cur) \<and> hunk_length0 b = ulength0 cur \<and> hunk_length1 b = ulength1 cur
     \<and> hunk_start0 b = s \<and> hunk_start1 b = int (length out) + (s - p) \<and> (\<forall>(type, l) \<in> set cur. l \<noteq> [])
     \<and> apply_lines cur (drop (nat s) L) = Some (new, drop (nat n) L) \<and> n = s + ulength0 cur
     \<and> 0 \<le> p \<and> p \<le> s \<and> n \<le> i \<and> i \<le> int (length L) \<and> next_line b \<le> n
     \<and> R = out @ file_part L p (s - p) @ new @ file_part L n (i - n)"

definition fresh :: "unified_hunk list \<Rightarrow> int \<Rightarrow> string list \<Rightarrow> int \<Rightarrow> bool" where
  "fresh U p out s \<longleftrightarrow> U = [] \<and> p = 0 \<and> out = [] \<and> s = 0"

definition active :: "(string \<Rightarrow> string) \<Rightarrow> string \<Rightarrow> string \<Rightarrow> string list \<Rightarrow> output_baton_t \<Rightarrow> int \<Rightarrow> string list \<Rightarrow> bool" where
  "active enc delim hdr L b i R \<longleftrightarrow> (\<exists>U p out s cur new. written enc delim hdr L b U p out
     \<and> building enc L b i R p out s cur new (next_line b) \<and> cur \<noteq> [] \<and> (ulength0 cur = 0 \<longrightarrow> fresh U p out s))"

lemma ulength0_nonneg [simp]: "0 \<le> ulength0 ls"
  by (simp add: ulength0_def)

lemma ulength1_nonneg [simp]: "0 \<le> ulength1 ls"
  by (simp add: ulength1_def)

lemma building_bounds:
  assumes "building enc L b i R p out s cur new n"
  shows "0 \<le> p" "p \<le> s" "s \<le> n" "n \<le> i" "i \<le> int (length L)"
  using assms by (simp_all add: building_def)

lemma building_nonempty: "building enc L b i R p out s cur new n \<Longrightarrow> cur \<noteq> [] \<Longrightarrow> hunk b \<noteq> []"
  by (cases cur) (auto simp: building_def print_line_def)

text \<open>Adding context lines to the current hunk.\<close>

lemma file_part_lines: "[] \<notin> set L \<Longrightarrow> \<forall>(type, l) \<in> set (typed t (file_part L f k)). l \<noteq> []"
  by (auto simp: typed_def file_part_def dest!: in_set_takeD in_set_dropD)

lemma building_add:
  assumes b: "building enc L b i R p out s cur new n"
    and ls: "apply_lines ls (drop (nat n) L) = Some (new', drop (nat n') L)" "n' = n + ulength0 ls" "\<forall>(type, l) \<in> set ls. l \<noteq> []"
    and i': "n' \<le> i'" "i' \<le> int (length L)" "R' = out @ file_part L p (s - p) @ new @ new' @ file_part L n' (i' - n')"
  shows "building enc L ((add_lines enc ls b)\<lparr>next_line := n'\<rparr>) i' R' p out s (cur @ ls) (new @ new') n'"
proof -
  have "apply_lines cur (drop (nat s) L) = Some (new, drop (nat n) L)" using b unfolding building_def by blast
  then have "apply_lines (cur @ ls) (drop (nat s) L) = Some (new @ new', drop (nat n') L)"
    by (simp add: apply_lines_append ls(1))
  then show ?thesis using b ls(2,3) i' unfolding building_def by (simp add: add_lines_def ball_Un)
qed

lemma building_context:
  assumes b: "building enc L b i R p out s cur new n" and f: "n \<le> f" "f \<le> i" and L: "[] \<notin> set L"
  shows "building enc L ((add_lines enc (typed unified_output_context (file_part L n (f - n))) b)\<lparr>next_line := f\<rparr>)
    i R p out s (cur @ typed unified_output_context (file_part L n (f - n))) (new @ file_part L n (f - n)) f"
proof (rule building_add [OF b])
  have n: "0 \<le> n" "i \<le> int (length L)" using building_bounds [OF b] by simp_all
  then show "f = n + ulength0 (typed unified_output_context (file_part L n (f - n)))"
    using length_file_part [of n f L] f by simp
  have "drop (nat n) L = file_part L n (f - n) @ drop (nat f) L" using file_part_drop_eq [of n f L] n f by simp
  then show "apply_lines (typed unified_output_context (file_part L n (f - n))) (drop (nat n) L) = Some (file_part L n (f - n), drop (nat f) L)"
    by (simp add: apply_lines_typed)
  show "R = out @ file_part L p (s - p) @ new @ file_part L n (f - n) @ file_part L f (i - f)"
    using file_part_join [of n f i L] n f b by (simp add: building_def)
qed (use f building_bounds [OF b] file_part_lines [OF L] in auto)

lemma flush_prints:
  assumes "hunk b \<noteq> []" and to_enc: "\<And>s. to_enc s = Inr (enc s)"
    and b1: "output_unified_token_range to_enc b True unified_output_context (next_line b)
      (hunk_start0 b + hunk_length0 b + SVN_DIFF__UNIFIED_CONTEXT_SIZE) = Inr b1"
    and "hunk_length0 b1 = ulength0 (ulines h)" "hunk_length1 b1 = ulength1 (ulines h)"
    and "hunk b1 = concat (map (print_line enc) (ulines h))" "hunk_start0 b1 = ustart0 h" "hunk_start1 b1 = ustart1 h"
  shows "\<exists>b'. output_unified_flush_hunk to_enc b delimiter = Inr b'
    \<and> output_stream b' = output_stream b1 @ print_hunk enc (case delimiter of None \<Rightarrow> ''@@'' | Some d \<Rightarrow> d) h
    \<and> hunk b' = [] \<and> hunk_length0 b' = 0 \<and> hunk_length1 b' = 0 \<and> next_line b' = next_line b1
    \<and> source0 b' = source0 b1 \<and> source1 b' = source1 b1 \<and> prefix_str b' = prefix_str b1 \<and> hunk_delimiter b' = hunk_delimiter b1"
  using assms by (simp add: output_unified_flush_hunk_def Let_def svn_stream_printf_from_utf8_def print_hunk_def print_range_def)

lemma min_context: "n \<le> N \<Longrightarrow> min (n + 3) N \<ge> n" for n N :: int
  by simp

lemma flush_ok:
  assumes env: "unified_env enc delimiter original modified b" and to_enc: "\<And>s. to_enc s = Inr (enc s)"
    and w: "written enc (case delimiter of None \<Rightarrow> ''@@'' | Some d \<Rightarrow> d) hdr (lines_of original) b U p out"
    and b: "building enc (lines_of original) b i R p out s cur new n" "n = next_line b" "cur \<noteq> []"
    and m: "m = min (n + 3) (int (length (lines_of original)))" "m \<le> i"
  shows "\<exists>b' U'. output_unified_flush_hunk to_enc b delimiter = Inr b' \<and> unified_env enc delimiter original modified b'
    \<and> written enc (case delimiter of None \<Rightarrow> ''@@'' | Some d \<Rightarrow> d) hdr (lines_of original) b' U' m
        (out @ file_part (lines_of original) p (s - p) @ new @ file_part (lines_of original) n (m - n))
    \<and> hunk b' = [] \<and> hunk_length0 b' = 0 \<and> hunk_length1 b' = 0 \<and> next_line b' = m"
proof -
  let ?L = "lines_of original" and ?delim = "case delimiter of None \<Rightarrow> ''@@'' | Some d \<Rightarrow> d"
  have n: "0 \<le> n" "n \<le> int (length ?L)" using building_bounds [OF b(1)] by simp_all
  have le: "n \<le> m" using m min_context [OF n(2)] by simp
  let ?ctx = "typed unified_output_context (file_part ?L n (m - n))"
  let ?b1 = "(add_lines enc ?ctx b)\<lparr>next_line := m\<rparr>"
  have b1: "building enc ?L ?b1 i R p out s (cur @ ?ctx) (new @ file_part ?L n (m - n)) m"
    by (rule building_context [OF b(1) le m(2) fill_source_tokens_ok(5)])
  have "output_unified_token_range to_enc b True unified_output_context (next_line b) (n + 3) = Inr ?b1"
    using token_range_original [OF env to_enc, of "next_line b" "next_line b" m "n + 3" unified_output_context] n m le b(2)
    by (cases "next_line b < m") (auto simp: file_part_empty typed_def)
  moreover have "hunk_start0 b + hunk_length0 b + SVN_DIFF__UNIFIED_CONTEXT_SIZE = n + 3"
    using b(1) by (simp add: building_def SVN_DIFF__UNIFIED_CONTEXT_SIZE_def)
  ultimately have range: "output_unified_token_range to_enc b True unified_output_context (next_line b)
    (hunk_start0 b + hunk_length0 b + SVN_DIFF__UNIFIED_CONTEXT_SIZE) = Inr ?b1" by simp
  let ?h = "\<lparr>ustart0 = s, ustart1 = int (length out) + (s - p), ulines = cur @ ?ctx\<rparr>"
  have "applied ?L (U @ [?h]) m (out @ file_part ?L p (s - p) @ new @ file_part ?L n (m - n))"
    using b1 w building_bounds [OF b1] unfolding building_def written_def by (intro applied_snoc) simp_all
  moreover obtain b' where "output_unified_flush_hunk to_enc b delimiter = Inr b'"
    "output_stream b' = output_stream ?b1 @ print_hunk enc ?delim ?h" "hunk b' = []" "hunk_length0 b' = 0" "hunk_length1 b' = 0"
    "next_line b' = next_line ?b1" "source0 b' = source0 ?b1" "source1 b' = source1 ?b1" "prefix_str b' = prefix_str ?b1"
    "hunk_delimiter b' = hunk_delimiter ?b1"
    using flush_prints [OF building_nonempty [OF b(1,3)] to_enc range, of ?h delimiter] b1 unfolding building_def by auto
  ultimately show ?thesis using env w
    by (intro exI [of _ b'] exI [of _ "U @ [?h]"]) (simp add: unified_env_def written_def add_lines_def)
qed

lemma unified_env_add [simp]:
  "unified_env enc delimiter original modified (b\<lparr>next_line := n\<rparr>) = unified_env enc delimiter original modified b"
  "unified_env enc delimiter original modified (b\<lparr>hunk_start0 := s0, hunk_start1 := s1\<rparr>) = unified_env enc delimiter original modified b"
  "unified_env enc delimiter original modified (add_lines enc ls b) = unified_env enc delimiter original modified b"
  by (simp_all add: unified_env_def add_lines_def)

lemma written_add [simp]:
  "written enc delim hdr L (b\<lparr>next_line := n\<rparr>) U p out = written enc delim hdr L b U p out"
  "written enc delim hdr L (b\<lparr>hunk_start0 := s0, hunk_start1 := s1\<rparr>) U p out = written enc delim hdr L b U p out"
  "written enc delim hdr L (add_lines enc ls b) U p out = written enc delim hdr L b U p out"
  by (simp_all add: written_def add_lines_def)

text \<open>Context lines, then a change: deleted lines and inserted ones.\<close>

lemma change_ok:
  assumes env: "unified_env enc delimiter original modified b" and to_enc: "\<And>s. to_enc s = Inr (enc s)"
    and w: "written enc delim hdr (lines_of original) b U p out"
    and b: "building enc (lines_of original) b i R p out s cur new n" "ulength0 cur = 0 \<Longrightarrow> n = i \<Longrightarrow> fresh U p out s"
    and k: "0 \<le> k" "i + k \<le> int (length (lines_of original))"
    and l: "0 \<le> l" "0 \<le> j" "j + l \<le> int (length (lines_of modified))" "0 < k + l" and t: "max t (next_line b) = n" "n = i \<Longrightarrow> next_line b = i"
  shows "\<exists>b'. SVN_ERR (output_unified_token_range to_enc b True unified_output_context t i) (\<lambda>b3.
      SVN_ERR (output_unified_token_range to_enc b3 True unified_output_delete i (i + k)) (\<lambda>b4.
      output_unified_token_range to_enc b4 False unified_output_insert j (j + l))) = Inr b'
    \<and> unified_env enc delimiter original modified b'
    \<and> active enc delim hdr (lines_of original) b' (i + k) (R @ file_part (lines_of modified) j l) \<and> next_line b' = i + k"
proof -
  let ?L = "lines_of original"
  let ?ctx = "typed unified_output_context (file_part ?L n (i - n))"
  have bounds: "0 \<le> p" "p \<le> s" "s \<le> n" "n \<le> i" "i \<le> int (length ?L)" by (rule building_bounds [OF b(1)])+
  have "\<exists>b1. output_unified_token_range to_enc b True unified_output_context t i = Inr b1
    \<and> unified_env enc delimiter original modified b1 \<and> written enc delim hdr ?L b1 U p out
    \<and> building enc ?L b1 i R p out s (cur @ ?ctx) (new @ file_part ?L n (i - n)) i \<and> next_line b1 = i"
  proof (cases "n < i")
    case True
    then show ?thesis
      using token_range_original [OF env to_enc t(1) [symmetric], of i i] bounds env w
        building_context [OF b(1), of i] fill_source_tokens_ok(5) by simp
  next
    case False
    then have "n = i" using bounds by simp
    then show ?thesis
      using token_range_original [OF env to_enc t(1) [symmetric], of i i] bounds env w b(1) t(2) by (simp add: file_part_empty typed_def)
  qed
  then obtain b1 where b1: "output_unified_token_range to_enc b True unified_output_context t i = Inr b1"
    "unified_env enc delimiter original modified b1" "written enc delim hdr ?L b1 U p out"
    "building enc ?L b1 i R p out s (cur @ ?ctx) (new @ file_part ?L n (i - n)) i" "next_line b1 = i" by blast
  let ?del = "typed unified_output_delete (file_part ?L i k)"
  let ?b2 = "if 0 < k then (add_lines enc ?del b1)\<lparr>next_line := i + k\<rparr> else b1"
  have r2: "output_unified_token_range to_enc b1 True unified_output_delete i (i + k) = Inr ?b2"
    using token_range_original [OF b1(2) to_enc, of i i "i + k" "i + k"] bounds k b1(5) by simp
  let ?ins = "typed unified_output_insert (file_part (lines_of modified) j l)"
  have env2: "unified_env enc delimiter original modified ?b2" using b1(2) by simp
  have r3: "output_unified_token_range to_enc ?b2 False unified_output_insert j (j + l) = Inr (add_lines enc ?ins ?b2)"
    using token_range_modified [OF env2 to_enc, of j "j + l"] l by simp
  have nl: "next_line (add_lines enc ?ins ?b2) = i + k" using b1(5) k by (simp add: add_lines_def)
  have "active enc delim hdr ?L (add_lines enc ?ins ?b2) (i + k) (R @ file_part (lines_of modified) j l)"
  proof -
    have d: "drop (nat i) ?L = file_part ?L i k @ drop (nat (i + k)) ?L" using file_part_drop_eq [of i "i + k" ?L] bounds k by simp
    let ?cur = "((cur @ ?ctx) @ ?del) @ ?ins" and ?new = "(new @ file_part ?L n (i - n)) @ file_part (lines_of modified) j l"
    have len: "int (length (file_part ?L i k)) = k" "int (length (file_part (lines_of modified) j l)) = l"
      using length_file_part [of i "i + k" ?L] length_file_part [of j "j + l" "lines_of modified"] bounds k l by simp_all
    have same: "add_lines enc ?ins ?b2 = (add_lines enc ?ins ((add_lines enc ?del b1)\<lparr>next_line := i + k\<rparr>))\<lparr>next_line := i + k\<rparr>"
      using b1(5) k by (simp add: add_lines_def file_part_empty typed_def)
    have R: "R = out @ file_part ?L p (s - p) @ new @ file_part ?L n (i - n)" using b(1) by (simp add: building_def)
    have "building enc ?L ((add_lines enc ?del b1)\<lparr>next_line := i + k\<rparr>) (i + k) R p out s ((cur @ ?ctx) @ ?del)
      ((new @ file_part ?L n (i - n)) @ []) (i + k)"
      using file_part_lines [OF fill_source_tokens_ok(5)] bounds k R len
      by (intro building_add [OF b1(4)]) (auto simp: d apply_lines_typed file_part_empty)
    from building_add [OF this, of ?ins "file_part (lines_of modified) j l" "i + k" "i + k"]
    have "building enc ?L (add_lines enc ?ins ?b2) (i + k) (R @ file_part (lines_of modified) j l) p out s ?cur ?new (i + k)"
      using file_part_lines [OF fill_source_tokens_ok(5), of unified_output_insert] k R
      unfolding same by (simp add: apply_lines_typed file_part_empty)
    moreover have "?cur \<noteq> []" using len l k by (auto simp: typed_def)
    moreover have "fresh U p out s" if "ulength0 ?cur = 0"
    proof -
      have "0 \<le> i - n" "int (length (file_part ?L n (i - n))) = i - n" using length_file_part [of n i ?L] bounds by simp_all
      moreover from this have "ulength0 cur + (i - n) + k = 0" using that by (simp add: len)
      ultimately have "ulength0 cur = 0" "i - n = 0" using ulength0_nonneg [of cur] k(1) by linarith+
      then show ?thesis using b(2) by simp
    qed
    ultimately show ?thesis using b1(3) nl unfolding active_def by (intro exI conjI impI) auto
  qed
  then show ?thesis using b1(1) r2 r3 env2 nl by simp
qed

lemma start_hunk:
  assumes "hunk b = []" "hunk_length0 b = 0" "hunk_length1 b = 0" "next_line b \<le> t"
    and "0 \<le> p" "p \<le> t" "t \<le> i" "i \<le> int (length L)" "R = out @ file_part L p (i - p)"
  shows "building enc L (b\<lparr>hunk_start0 := t, hunk_start1 := int (length R) + t - i\<rparr>) i R p out t [] [] t"
proof -
  have "int (length (file_part L p (i - p))) = i - p" using length_file_part [of p i L] assms by simp
  then show ?thesis using assms file_part_join [of p t i L] by (simp add: building_def)
qed

lemma inserted_lines: "cur \<noteq> [] \<Longrightarrow> ulength0 cur = 0 \<Longrightarrow> ulength1 cur \<noteq> 0"
  by (cases cur; cases "fst (hd cur)") (auto simp: ulength0_def ulength1_def)

text \<open>
  A change between the lines \<open>i\<close> and \<open>i + k\<close>. When the current hunk has no line of the
  original file yet, the code starts the context again too late if the change is 4 to 6 lines away.
\<close>

lemma modified_ok:
  assumes env: "unified_env enc delimiter original modified b" and to_enc: "\<And>s. to_enc s = Inr (enc s)"
    and delim: "delim = (case delimiter of None \<Rightarrow> ''@@'' | Some d \<Rightarrow> d)"
    and state: "idle hdr (lines_of original) b i R \<or> active enc delim hdr (lines_of original) b i R"
    and near: "hunk b \<noteq> [] \<Longrightarrow> hunk_length0 b = 0 \<Longrightarrow> i \<le> 3 \<or> 7 \<le> i"
    and k: "0 \<le> k" "i + k \<le> int (length (lines_of original))"
    and l: "0 \<le> l" "j = int (length R)" "j + l \<le> int (length (lines_of modified))" "0 < k + l"
  shows "\<exists>b'. output_unified_diff_modified to_enc b i k j l ls ll = Inr b'
    \<and> unified_env enc delimiter original modified b'
    \<and> active enc delim hdr (lines_of original) b' (i + k) (R @ file_part (lines_of modified) j l) \<and> next_line b' = i + k"
  using state
proof
  let ?L = "lines_of original"
  let ?t = "if i - 3 < 0 then 0 else i - 3"
  assume st: "idle hdr ?L b i R"
  let ?b = "b\<lparr>hunk_start0 := ?t, hunk_start1 := j + ?t - i\<rparr>"
  have "building enc ?L ?b i R 0 [] ?t [] [] ?t"
    unfolding l(2) using st by (intro start_hunk) (auto simp: idle_def)
  moreover have "written enc delim hdr ?L ?b [] 0 []" using st applied_nil by (simp add: written_def idle_def)
  ultimately have "\<exists>b'. SVN_ERR (output_unified_token_range to_enc ?b True unified_output_context ?t i) (\<lambda>b3.
      SVN_ERR (output_unified_token_range to_enc b3 True unified_output_delete i (i + k)) (\<lambda>b4.
      output_unified_token_range to_enc b4 False unified_output_insert j (j + l))) = Inr b'
    \<and> unified_env enc delimiter original modified b'
    \<and> active enc delim hdr ?L b' (i + k) (R @ file_part (lines_of modified) j l) \<and> next_line b' = i + k"
    using st env k l by (intro change_ok [where s = ?t and n = ?t, OF _ to_enc]) (auto simp: idle_def fresh_def split: if_splits)
  moreover have "output_unified_diff_modified to_enc b i k j l ls ll =
    SVN_ERR (output_unified_token_range to_enc ?b True unified_output_context ?t i) (\<lambda>b3.
      SVN_ERR (output_unified_token_range to_enc b3 True unified_output_delete i (i + k)) (\<lambda>b4.
      output_unified_token_range to_enc b4 False unified_output_insert j (j + l)))"
    using st by (simp add: output_unified_diff_modified_def idle_def SVN_DIFF__UNIFIED_CONTEXT_SIZE_def
      output_unified_flush_hunk_def Let_def)
  ultimately show ?thesis by simp
next
  let ?L = "lines_of original"
  let ?t = "if i - 3 < 0 then 0 else i - 3"
  assume "active enc delim hdr ?L b i R"
  then obtain U p out s cur new where st: "written enc delim hdr ?L b U p out"
    "building enc ?L b i R p out s cur new (next_line b)" "cur \<noteq> []" "ulength0 cur = 0 \<Longrightarrow> fresh U p out s"
    unfolding active_def by blast
  have bounds: "0 \<le> p" "p \<le> s" "s \<le> next_line b" "next_line b \<le> i" "i \<le> int (length ?L)"
    by (rule building_bounds [OF st(2)])+
  have len: "hunk_length0 b = ulength0 cur" "hunk_length1 b = ulength1 cur" "next_line b = s + ulength0 cur"
    using st(2) by (simp_all add: building_def)
  show ?thesis
  proof (cases "next_line b + 3 < ?t")
    case True
    let ?m = "next_line b + 3"
    let ?out = "out @ file_part ?L p (s - p) @ new @ file_part ?L (next_line b) (?m - next_line b)"
    have "?m = min ?m (int (length ?L))" "?m \<le> i" using True bounds by (auto split: if_splits)
    from flush_ok [OF env to_enc st(1) [unfolded delim] st(2) refl st(3) this] obtain b1 U' where
      b1: "output_unified_flush_hunk to_enc b delimiter = Inr b1" "unified_env enc delimiter original modified b1"
        "written enc delim hdr ?L b1 U' ?m ?out" "hunk b1 = []" "hunk_length0 b1 = 0" "hunk_length1 b1 = 0" "next_line b1 = ?m"
      unfolding delim by blast
    let ?b = "b1\<lparr>hunk_start0 := ?t, hunk_start1 := j + ?t - i\<rparr>"
    have t: "?t = i - 3" "?m < i - 3" using True bounds by (auto split: if_splits)
    have "R = ?out @ file_part ?L ?m (i - ?m)"
      using st(2) bounds t file_part_join [of "next_line b" ?m i ?L] by (simp add: building_def)
    from start_hunk [where t = "i - 3" and enc = enc, OF b1(4,5,6) _ _ _ _ bounds(5) this]
    have "building enc ?L ?b i R ?m ?out ?t [] [] ?t" unfolding l(2) t(1) using b1(7) bounds t(2) by simp
    moreover have "written enc delim hdr ?L ?b U' ?m ?out" using b1(3) by simp
    ultimately have "\<exists>b'. SVN_ERR (output_unified_token_range to_enc ?b True unified_output_context ?t i) (\<lambda>b3.
        SVN_ERR (output_unified_token_range to_enc b3 True unified_output_delete i (i + k)) (\<lambda>b4.
        output_unified_token_range to_enc b4 False unified_output_insert j (j + l))) = Inr b'
      \<and> unified_env enc delimiter original modified b'
      \<and> active enc delim hdr ?L b' (i + k) (R @ file_part (lines_of modified) j l) \<and> next_line b' = i + k"
      using b1 t bounds k l by (intro change_ok [where s = ?t and n = ?t, OF _ to_enc]) (auto split: if_splits)
    moreover have "output_unified_diff_modified to_enc b i k j l ls ll =
      SVN_ERR (output_unified_token_range to_enc ?b True unified_output_context ?t i) (\<lambda>b3.
        SVN_ERR (output_unified_token_range to_enc b3 True unified_output_delete i (i + k)) (\<lambda>b4.
        output_unified_token_range to_enc b4 False unified_output_insert j (j + l)))"
      using b1 True env by (simp add: output_unified_diff_modified_def unified_env_def SVN_DIFF__UNIFIED_CONTEXT_SIZE_def Let_def)
    ultimately show ?thesis by simp
  next
    case False
    have t0: "hunk_length0 b = 0 \<Longrightarrow> ?t = next_line b"
      using False near building_nonempty [OF st(2,3)] st(4) len by (auto simp: fresh_def split: if_splits)
    have "\<exists>b'. SVN_ERR (output_unified_token_range to_enc b True unified_output_context (next_line b) i) (\<lambda>b3.
        SVN_ERR (output_unified_token_range to_enc b3 True unified_output_delete i (i + k)) (\<lambda>b4.
        output_unified_token_range to_enc b4 False unified_output_insert j (j + l))) = Inr b'
      \<and> unified_env enc delimiter original modified b'
      \<and> active enc delim hdr ?L b' (i + k) (R @ file_part (lines_of modified) j l) \<and> next_line b' = i + k"
      using st bounds k l env by (intro change_ok [OF env to_enc st(1,2)]) auto
    moreover have "output_unified_diff_modified to_enc b i k j l ls ll =
      SVN_ERR (output_unified_token_range to_enc b True unified_output_context (next_line b) i) (\<lambda>b3.
        SVN_ERR (output_unified_token_range to_enc b3 True unified_output_delete i (i + k)) (\<lambda>b4.
        output_unified_token_range to_enc b4 False unified_output_insert j (j + l)))"
      using False t0 len inserted_lines [OF st(3)]
      by (cases "hunk_length0 b = 0") (simp_all add: output_unified_diff_modified_def SVN_DIFF__UNIFIED_CONTEXT_SIZE_def Let_def)
    ultimately show ?thesis by simp
  qed
qed

section \<open>The whole diff\<close>

text \<open>
  A diff that begins with an insertion before the first line and goes on with a change after 4 to 6 common lines.
\<close>

definition changes :: "svn_diff_t list \<Rightarrow> svn_diff_t list" where
  "changes hs = filter (\<lambda>h. diff_type h \<noteq> svn_diff__type_common) hs"

definition after_inserts :: "svn_diff_t list \<Rightarrow> svn_diff_t list" where
  "after_inserts hs = dropWhile (\<lambda>h. original_start h = 0 \<and> original_length h = 0) (changes hs)"

definition next_change_near :: "svn_diff_t list \<Rightarrow> bool" where
  "next_change_near hs = (case after_inserts hs of [] \<Rightarrow> False | h # rest \<Rightarrow> 4 \<le> original_start h \<and> original_start h \<le> 6)"

definition change_after_insert :: "svn_diff_t list \<Rightarrow> bool" where
  "change_after_insert hs = (after_inserts hs \<noteq> changes hs \<and> next_change_near hs)"

lemma changes_simps [simp]:
  "changes [] = []"
  "changes (h # hs) = (if diff_type h = svn_diff__type_common then changes hs else h # changes hs)"
  by (simp_all add: changes_def)

lemma common_hunk_ok:
  assumes "0 \<le> k" "i + k \<le> int (length L)" "idle hdr L b i R \<or> active enc delim hdr L b i R"
  shows "idle hdr L b (i + k) (R @ file_part L i k) \<or> active enc delim hdr L b (i + k) (R @ file_part L i k)"
  using assms(3)
proof
  assume st: "idle hdr L b i R"
  then show ?thesis using assms(1,2) file_part_join [of 0 i "i + k" L] by (simp add: idle_def)
next
  assume "active enc delim hdr L b i R"
  then obtain U p out s cur new where st: "written enc delim hdr L b U p out"
    "building enc L b i R p out s cur new (next_line b)" "cur \<noteq> []" "ulength0 cur = 0 \<longrightarrow> fresh U p out s"
    unfolding active_def by blast
  have "building enc L b (i + k) (R @ file_part L i k) p out s cur new (next_line b)"
    using st(2) building_bounds [OF st(2)] assms(1,2) file_part_join [of "next_line b" i "i + k" L] by (simp add: building_def)
  then show ?thesis using st unfolding active_def by blast
qed

lemma after_inserts_Cons:
  "after_inserts (h # hs) =
    (if diff_type h = svn_diff__type_common \<or> original_start h = 0 \<and> original_length h = 0 then after_inserts hs else h # changes hs)"
  by (simp add: after_inserts_def)

lemma after_inserts_shorter: "length (after_inserts hs) \<le> length (changes hs)"
  unfolding after_inserts_def by (rule length_dropWhile_le)

lemma change_after_insert_Cons:
  "diff_type h \<noteq> svn_diff__type_common \<Longrightarrow> original_start h = 0 \<Longrightarrow> original_length h = 0 \<Longrightarrow>
   change_after_insert (h # hs) = next_change_near hs"
  using after_inserts_shorter [of hs] by (auto simp: change_after_insert_def next_change_near_def after_inserts_Cons)

lemma hunks_cover_bounds: "hunks_cover F0 F1 i j hs \<Longrightarrow> i \<le> int (length F0) \<and> j \<le> int (length F1)"
proof (induction hs arbitrary: i j)
  case (Cons h hs)
  from Cons.prems Cons.IH show ?case by (force simp: hunk_ok_def)
qed simp

lemma patch_Cons: "patch F0 F1 (h # hs) =
   (if diff_type h = svn_diff__type_common then file_part F0 (original_start h) (original_length h)
    else file_part F1 (modified_start h) (modified_length h)) @ patch F0 F1 hs"
  by (simp add: patch_def)

lemma active_lengths:
  assumes "active enc delim hdr L b i R"
  shows "hunk b \<noteq> []" "next_line b \<le> i" "0 \<le> hunk_length0 b" "hunk_length0 b \<le> next_line b"
    "hunk_length0 b = 0 \<Longrightarrow> next_line b = 0"
proof -
  obtain U p out s cur new where st: "building enc L b i R p out s cur new (next_line b)" "cur \<noteq> []"
    "ulength0 cur = 0 \<longrightarrow> fresh U p out s" using assms unfolding active_def by blast
  have len: "hunk_length0 b = ulength0 cur" "next_line b = s + ulength0 cur" using st(1) by (simp_all add: building_def)
  show "hunk b \<noteq> []" "next_line b \<le> i" "0 \<le> hunk_length0 b" "hunk_length0 b \<le> next_line b"
    using building_nonempty [OF st(1,2)] building_bounds [OF st(1)] len by simp_all
  show "next_line b = 0" if "hunk_length0 b = 0" using that len st(3) by (simp add: fresh_def)
qed

lemma svn_diff_output_ok:
  assumes to_enc: "\<And>s. to_enc s = Inr (enc s)" and delim: "delim = (case delimiter of None \<Rightarrow> ''@@'' | Some d \<Rightarrow> d)"
    and len: "length F0 = length (lines_of original)" "length F1 = length (lines_of modified)"
  shows "hunks_cover F0 F1 i (int (length R)) hs \<Longrightarrow> 0 \<le> i \<Longrightarrow> unified_env enc delimiter original modified b \<Longrightarrow>
    idle hdr (lines_of original) b i R \<or> active enc delim hdr (lines_of original) b i R \<Longrightarrow>
    \<not> (hunk b = [] \<and> change_after_insert hs) \<Longrightarrow> \<not> (hunk b \<noteq> [] \<and> hunk_length0 b = 0 \<and> next_change_near hs) \<Longrightarrow>
    \<exists>b'. svn_diff_output (mem_output_unified_vtable to_enc) hs b = Inr b' \<and> unified_env enc delimiter original modified b'
      \<and> (idle hdr (lines_of original) b' (int (length (lines_of original))) (R @ patch (lines_of original) (lines_of modified) hs)
         \<or> active enc delim hdr (lines_of original) b' (int (length (lines_of original))) (R @ patch (lines_of original) (lines_of modified) hs))"
proof (induction hs arbitrary: i R b)
  case Nil
  then show ?case using len by (simp add: patch_def)
next
  case (Cons h hs)
  let ?L0 = "lines_of original" and ?L1 = "lines_of modified"
  let ?k = "original_length h" and ?l = "modified_length h"
  have h: "hunk_ok F0 F1 i (int (length R)) h" and rest: "hunks_cover F0 F1 (i + ?k) (int (length R) + ?l) hs"
    using Cons.prems(1) by simp_all
  have k: "0 \<le> ?k" "i + ?k \<le> int (length ?L0)" and l: "0 \<le> ?l" "int (length R) + ?l \<le> int (length ?L1)"
    using h hunks_cover_bounds [OF rest] len by (simp_all add: hunk_ok_def)
  show ?case
  proof (cases "diff_type h = svn_diff__type_common")
    case True
    let ?R = "R @ file_part ?L0 i ?k"
    have "int (length ?R) = int (length R) + ?l"
      using length_file_part [of i "i + ?k" ?L0] h True k Cons.prems(2) by (simp add: hunk_ok_def)
    moreover have "idle hdr ?L0 b (i + ?k) ?R \<or> active enc delim hdr ?L0 b (i + ?k) ?R"
      by (rule common_hunk_ok [OF k Cons.prems(4)])
    ultimately show ?thesis
      using Cons.IH [of "i + ?k" ?R b] rest Cons.prems(2,3,5,6) k h True
      by (simp add: mem_output_unified_vtable_def patch_Cons hunk_ok_def change_after_insert_def next_change_near_def after_inserts_Cons)
  next
    case False
    then have h': "diff_type h = svn_diff__type_diff_modified" "original_start h = i" "modified_start h = int (length R)" "0 < ?k + ?l"
      using h by (auto simp: hunk_ok_def)
    have near: "i \<le> 3 \<or> 7 \<le> i" if "hunk b \<noteq> []" "hunk_length0 b = 0"
      using Cons.prems(6) that False h' by (auto simp: next_change_near_def after_inserts_Cons split: if_splits)
    from modified_ok [OF Cons.prems(3) to_enc delim Cons.prems(4) near k l(1) refl l(2) h'(4), of "latest_start h" "latest_length h"]
    obtain b' where b': "output_unified_diff_modified to_enc b i ?k (int (length R)) ?l (latest_start h) (latest_length h) = Inr b'"
      "unified_env enc delimiter original modified b'" "active enc delim hdr ?L0 b' (i + ?k) (R @ file_part ?L1 (int (length R)) ?l)"
      "next_line b' = i + ?k" by blast
    have ne: "hunk b' \<noteq> []" by (rule active_lengths(1) [OF b'(3)])
    have "\<not> next_change_near hs" if "hunk_length0 b' = 0"
    proof -
      have 0: "i = 0" "?k = 0" using active_lengths(5) [OF b'(3) that] b'(4) k Cons.prems(2) by auto
      then have "hunk b \<noteq> [] \<Longrightarrow> hunk_length0 b = 0"
        using Cons.prems(4) active_lengths [of enc delim hdr ?L0 b i R] by (auto simp: idle_def)
      then show ?thesis using Cons.prems(5,6) 0 h'(2) False
        by (cases "hunk b = []") (auto simp: change_after_insert_Cons next_change_near_def after_inserts_Cons)
    qed
    moreover have "int (length (R @ file_part ?L1 (int (length R)) ?l)) = int (length R) + ?l"
      using length_file_part [of "int (length R)" "int (length R) + ?l" ?L1] l by simp
    ultimately show ?thesis
      using Cons.IH [of "i + ?k" "R @ file_part ?L1 (int (length R)) ?l" b'] rest Cons.prems(2) k b' ne h' False
      by (simp add: mem_output_unified_vtable_def patch_Cons)
  qed
qed

text \<open>The last hunk, with the context after it.\<close>

lemma last_flush_ok:
  assumes env: "unified_env enc delimiter original modified b" and to_enc: "\<And>s. to_enc s = Inr (enc s)"
    and delim: "delim = (case delimiter of None \<Rightarrow> ''@@'' | Some d \<Rightarrow> d)" and i: "i = int (length (lines_of original))"
    and state: "idle hdr (lines_of original) b i R \<or> active enc delim hdr (lines_of original) b i R"
  shows "\<exists>b' U. output_unified_flush_hunk to_enc b delimiter = Inr b'
    \<and> output_stream b' = hdr @ concat (map (print_hunk enc delim) U) \<and> apply_hunks 0 0 U (lines_of original) = Some R"
  using state
proof
  assume st: "idle hdr (lines_of original) b i R"
  then have "output_unified_flush_hunk to_enc b delimiter = Inr b" by (simp add: output_unified_flush_hunk_def idle_def)
  then show ?thesis using st i by (intro exI [of _ b] exI [of _ "[]"]) (simp add: idle_def file_part_def)
next
  let ?L = "lines_of original" and ?n = "next_line b"
  assume "active enc delim hdr ?L b i R"
  then obtain U p out s cur new where st: "written enc delim hdr ?L b U p out"
    "building enc ?L b i R p out s cur new ?n" "cur \<noteq> []" unfolding active_def by blast
  let ?m = "min (?n + 3) (int (length ?L))"
  have n: "0 \<le> ?n" "?n \<le> i" using building_bounds [OF st(2)] by simp_all
  have "?m \<le> i" using i by simp
  from flush_ok [OF env to_enc st(1) [unfolded delim] st(2) refl st(3) refl this] obtain b' U' where
    b': "output_unified_flush_hunk to_enc b delimiter = Inr b'"
      "written enc delim hdr ?L b' U' ?m (out @ file_part ?L p (s - p) @ new @ file_part ?L ?n (?m - ?n))"
    unfolding delim by blast
  have "file_part ?L ?n (i - ?n) = file_part ?L ?n (?m - ?n) @ file_part ?L ?m (i - ?m)"
    using file_part_join [of ?n ?m i ?L] n i by simp
  moreover have "file_part ?L ?m (i - ?m) = drop (nat ?m) ?L" using i by (simp add: file_part_def)
  ultimately have "R = (out @ file_part ?L p (s - p) @ new @ file_part ?L ?n (?m - ?n)) @ drop (nat ?m) ?L"
    using st(2) by (simp add: building_def)
  moreover have "apply_hunks 0 0 (U' @ []) ?L =
    map_option ((@) (out @ file_part ?L p (s - p) @ new @ file_part ?L ?n (?m - ?n))) (Some (drop (nat ?m) ?L))"
    using b'(2) unfolding written_def applied_def by (metis apply_hunks.simps(1))
  ultimately show ?thesis using b' by (auto simp: written_def)
qed

lemma patch_same:
  "hunks_cover F0 F1 i j hs \<Longrightarrow> \<not> svn_diff_contains_diffs hs \<Longrightarrow> length F0 = length L0 \<Longrightarrow> 0 \<le> i \<Longrightarrow>
   patch L0 L1 hs = drop (nat i) L0"
proof (induction hs arbitrary: i j)
  case (Cons h hs)
  then have h: "hunk_ok F0 F1 i j h" "diff_type h = svn_diff__type_common" by (auto split: if_splits)
  then have "patch L0 L1 hs = drop (nat (i + original_length h)) L0"
    using Cons.prems by (intro Cons.IH) (auto simp: hunk_ok_def)
  then show ?case using h file_part_drop [OF Cons.prems(4), of "original_length h" L0] by (simp add: patch_Cons hunk_ok_def)
qed (simp add: patch_def)

lemma cover_starts: "hunks_cover F0 F1 i j hs \<Longrightarrow> h \<in> set hs \<Longrightarrow> original_start h \<le> int (length F0)"
proof (induction hs arbitrary: i j)
  case (Cons h' hs)
  then show ?case using hunks_cover_bounds [of F0 F1 i j "h' # hs"] by (auto simp: hunk_ok_def)
qed simp

lemma short_text_near:
  assumes "hunks_cover F0 F1 0 0 hs" "length F0 < 4"
  shows "\<not> change_after_insert hs"
proof
  assume "change_after_insert hs"
  then obtain h rest where h: "after_inserts hs = h # rest" "4 \<le> original_start h"
    by (auto simp: change_after_insert_def next_change_near_def split: list.splits)
  then have "h \<in> set (after_inserts hs)" by simp
  then have "h \<in> set hs" unfolding after_inserts_def changes_def using set_dropWhileD filter_is_subset by fastforce
  then show False using cover_starts [OF assms(1)] assms(2) h(2) by fastforce
qed

section \<open>Theorems\<close>

text \<open>
  C5. The unified diff of two texts: printing the hunks of \<open>svn_diff_mem_string_diff\<close> returns;
  what is written is the header and a sequence of unified hunks, and nothing at all if the texts do not differ; applied
  to the lines of the first text, where every hunk has to start at its two line numbers and to find its context and deleted lines, the unified
  hunks give the patched text, which is the second one if nothing is ignored. Diffs that insert before the first line
  and change the next line after 4 to 6 common ones are left out.
\<close>

theorem svn_diff_mem_string_output_unified2_applies:
  assumes "\<And>s. to_enc s = Inr (enc s)"
    and "svn_diff_mem_string_diff zadler original modified options = Some (Inr hs)" "\<not> change_after_insert hs"
  shows "\<exists>U. svn_diff_mem_string_output_unified2 to_enc hs with_header delimiter header0 header1 original modified =
      Inr (if svn_diff_contains_diffs hs
           then (if with_header then enc (''--- '' @ header0 @ APR_EOL_STR @ ''+++ '' @ header1 @ APR_EOL_STR) else [])
             @ concat (map (print_hunk enc (case delimiter of None \<Rightarrow> ''@@'' | Some d \<Rightarrow> d)) U)
           else [])
    \<and> (\<not> svn_diff_contains_diffs hs \<longrightarrow> U = [])
    \<and> apply_hunks 0 0 U (lines_of original) = Some (patch (lines_of original) (lines_of modified) hs)
    \<and> (ignore_space options = svn_diff_file_ignore_space_none \<and> \<not> ignore_eol_style options \<longrightarrow>
         patch (lines_of original) (lines_of modified) hs = lines_of modified)"
proof -
  let ?L0 = "lines_of original" and ?L1 = "lines_of modified"
  let ?hdr = "if with_header then enc (''--- '' @ header0 @ APR_EOL_STR @ ''+++ '' @ header1 @ APR_EOL_STR) else []"
  let ?delim = "case delimiter of None \<Rightarrow> ''@@'' | Some d \<Rightarrow> d"
  have diff: "diff_of_files (line_keys options original) (line_keys options modified) hs"
    using svn_diff_mem_string_diff_ok [of zadler original modified options] assms(2) by auto
  then have cover: "hunks_cover (line_keys options original) (line_keys options modified) 0 0 hs" by (simp add: diff_of_files_def)
  have len: "length (line_keys options original) = length ?L0" "length (line_keys options modified) = length ?L1"
    by (simp_all add: line_keys_def)
  have same: "patch ?L0 ?L1 hs = ?L1" if "ignore_space options = svn_diff_file_ignore_space_none" "\<not> ignore_eol_style options"
    using diff_of_filesD(1) [OF diff] line_key_plain [OF that] by (simp add: line_keys_def)
  show ?thesis
  proof (cases "svn_diff_contains_diffs hs")
    case False
    then have "patch ?L0 ?L1 hs = ?L0" using patch_same [OF cover _ len(1)] by simp
    then show ?thesis using False same
      by (intro exI [of _ "[]"]) (auto simp: svn_diff_mem_string_output_unified2_def)
  next
    case True
    let ?b = "\<lparr>output_stream = ?hdr, source0 = fill_source_tokens original, source1 = fill_source_tokens modified, next_line = 0,
       prefix_str = (\<lambda>type. case type of unified_output_context \<Rightarrow> enc '' '' | unified_output_delete \<Rightarrow> enc ''-''
         | unified_output_insert \<Rightarrow> enc ''+''),
       hunk = [], hunk_length0 = 0, hunk_length1 = 0, hunk_start0 = 0, hunk_start1 = 0, hunk_delimiter = delimiter\<rparr>"
    have env: "unified_env enc delimiter original modified ?b"
      by (auto simp: unified_env_def symbol_def split: unified_output_e.split)
    have idle: "idle ?hdr ?L0 ?b 0 []" by (simp add: idle_def file_part_def)
    obtain b' where b': "svn_diff_output (mem_output_unified_vtable to_enc) hs ?b = Inr b'"
      "unified_env enc delimiter original modified b'"
      "idle ?hdr ?L0 b' (int (length ?L0)) (patch ?L0 ?L1 hs) \<or> active enc ?delim ?hdr ?L0 b' (int (length ?L0)) (patch ?L0 ?L1 hs)"
      using svn_diff_output_ok [OF assms(1) refl len, where R = "[]", OF _ order_refl env disjI1 [OF idle]] cover assms(3) by auto
    from last_flush_ok [OF b'(2) assms(1) refl refl b'(3)] obtain b2 U where
      "output_unified_flush_hunk to_enc b' delimiter = Inr b2" "output_stream b2 = ?hdr @ concat (map (print_hunk enc ?delim) U)"
      "apply_hunks 0 0 U ?L0 = Some (patch ?L0 ?L1 hs)" by blast
    then show ?thesis using True b'(1) same
      by (intro exI [of _ U]) (cases with_header; simp add: svn_diff_mem_string_output_unified2_def assms(1) svn_stream_printf_from_utf8_def)
  qed
qed

theorem svn_diff_mem_string_output_unified2_applies_witness:
  "\<exists>hs U. svn_diff_mem_string_output_unified2 (\<lambda>s. Inr s) hs True None ''old'' ''new'' ''a b'' ''ab'' =
      Inr (''--- old'' @ APR_EOL_STR @ ''+++ new'' @ APR_EOL_STR @ concat (map (print_hunk (\<lambda>s. s) ''@@'') U))
    \<and> apply_hunks 0 0 U (lines_of ''a b'') = Some (lines_of ''ab'')"
proof -
  let ?options = "\<lparr>ignore_space = svn_diff_file_ignore_space_none, ignore_eol_style = False, show_c_function = False\<rparr>"
  obtain hs where hs: "svn_diff_mem_string_diff (\<lambda>h s. h) ''a b'' ''ab'' ?options = Some (Inr hs)"
    "diff_of_files (line_keys ?options ''a b'') (line_keys ?options ''ab'') hs"
    using svn_diff_mem_string_diff_ok by blast
  have lines: "lines_of ''a b'' = [''a b'']" "lines_of ''ab'' = [''ab'']" by (simp_all add: fill_source_tokens_def)
  have "\<not> change_after_insert hs"
    using hs(2) lines by (intro short_text_near) (auto simp: diff_of_files_def line_keys_def)
  moreover have "svn_diff_contains_diffs hs"
    using diff_of_filesD(3) [OF hs(2)] line_key_plain [of ?options] by (simp add: line_keys_def lines)
  ultimately show ?thesis
    using svn_diff_mem_string_output_unified2_applies [of "\<lambda>s. Inr s" "\<lambda>s. s", OF refl hs(1), of True None "''old''" "''new''"]
    by (intro exI [of _ hs]) auto
qed

text \<open>
  What the code does with the diffs left out above: for six lines, with a line inserted before the first and
  the fifth changed, the unified diff of the right hunks starts at the first line but does
  not have it: its hunk does not apply to the text.
\<close>

theorem change_after_insert_output:
  "let eol = (\<lambda>s. s @ APR_EOL_STR);
       L0 = map eol [''0'', ''1'', ''2'', ''3'', ''4'', ''5''];
       L1 = map eol [''new'', ''0'', ''1'', ''2'', ''3'', ''X'', ''5''];
       hunk = (\<lambda>type i k j l. \<lparr>diff_type = type, original_start = i, original_length = k, modified_start = j,
         modified_length = l, latest_start = 0, latest_length = 0\<rparr>);
       hs = [hunk svn_diff__type_diff_modified 0 0 0 1, hunk svn_diff__type_common 0 4 1 4,
         hunk svn_diff__type_diff_modified 4 1 5 1, hunk svn_diff__type_common 5 1 6 1];
       h = \<lparr>ustart0 = 0, ustart1 = 0, ulines = [(unified_output_insert, eol ''new''), (unified_output_context, eol ''1''),
         (unified_output_context, eol ''2''), (unified_output_context, eol ''3''), (unified_output_delete, eol ''4''),
         (unified_output_insert, eol ''X''), (unified_output_context, eol ''5'')]\<rparr>
   in lines_of (concat L0) = L0 \<and> lines_of (concat L1) = L1 \<and> hunks_cover L0 L1 0 0 hs \<and> patch L0 L1 hs = L1
     \<and> svn_diff_mem_string_output_unified (\<lambda>s. Inr s) hs ''a'' ''b'' (concat L0) (concat L1) =
         Inr (''--- a'' @ APR_EOL_STR @ ''+++ b'' @ APR_EOL_STR @ print_hunk (\<lambda>s. s) ''@@'' h)
     \<and> apply_hunks 0 0 [h] L0 = None"
  by code_simp

end
