(* ===== verification/Spec2Isabelle.thy ===== *)
theory Spec2Isabelle
  imports Mergeinfo Delta_Stream Compose Diff_Unified
begin

text \<open>
  A verification library for three parts of Subversion that carry its own algorithms: merge
  tracking (which revisions of which path have been merged, libsvn\_subr/mergeinfo.c), text
  deltas (how one version of a file is turned into another and sent over a wire,
  libsvn\_delta/text\_delta.c, xdelta.c, svndiff.c and compose\_delta.c) and text diffs (which lines
  two texts share, and how a unified diff shows it, libsvn\_diff/lcs.c, token.c, diff.c, util.c
  and diff\_memory.c), together with the path, sorting, hash and checksum routines of libsvn\_subr that they call.

  \<^bold>\<open>How the program's parts interact.\<close> Mergeinfo is a hash table from source paths to rangelists.
  It is parsed from the text of a property, combined with other mergeinfo (merge, difference,
  intersection, removal, filters) and printed again. Its operations walk two sorted hash tables
  in parallel (sorts.c, hash.c), and call the rangelist operations for the paths that both
  tables have; the parser canonicalizes paths with dirent\_uri.c. A text delta is a sequence of
  windows. A window is computed from a view of the source and a view of the target by xdelta.c,
  produced on demand by a delta stream or pushed by a target stream of text\_delta.c, encoded and
  decoded by svndiff.c, and applied by the applicator of text\_delta.c. Two windows that follow each
  other are composed into one by compose\_delta.c, which uses the builder of text\_delta.c. A text
  diff reads the tokens of its datasources through a table of functions (diff\_memory.c has one for lines
  of texts in memory, normalized by util.c and hashed by adler32.c), numbers them with a tree per hash bucket
  (token.c), finds a longest common subsequence of the numbers (lcs.c), makes hunks of it
  (diff.c), and gives the hunks one by one to the functions that print them.

  \<^bold>\<open>Theories.\<close>
  \<^item> \<open>Prelude\<close>: error codes and the error monad of the macros \<open>SVN_ERR\<close> and \<open>SVN_ERR_ASSERT\<close>, C
    strings, APR arrays and hash tables, shared lemmas.
  \<^item> \<open>Sorts\<close> (sorts.c): comparison functions, \<open>svn_sort__hash\<close>, binary search, insertion into and
    deletion from arrays. The locale \<open>comparator\<close> is the contract of a comparison function; it
    is interpreted on every one of them. \<open>svn_sort__hash\<close> takes a function whose comparisons can
    fail, because the comparison of paths asserts that they are canonical.
  \<^item> \<open>Paths\<close> (dirent\_uri.c, path.c): \<open>canonicalize\<close> for relative paths, local paths and URIs, the
    relpath and fspath functions, \<open>svn_path_compare_paths\<close> with its assertions. \<open>path_order\<close> is the
    order it decides, on which the locale \<open>comparator\<close> is interpreted.
  \<^item> \<open>Rangelist\<close>, \<open>Rangelist_Setops\<close>, \<open>Rangelist_Merge\<close> (mergeinfo.c): ranges, intersection and
    removal and difference, and \<open>svn_rangelist_merge2\<close>. Specification: the set of revisions a
    rangelist covers and the set it covers inheritably. The locales \<open>revision_sets\<close>,
    \<open>revision_partition\<close> and \<open>revision_algebra\<close> state what a type with such operations promises;
    rangelists interpret them.
  \<^item> \<open>Mergeinfo_Syntax\<close> (mergeinfo.c, types.c): the parser \<open>svn_mergeinfo_parse\<close> and the printers.
  \<^item> \<open>Mergeinfo\<close> (mergeinfo.c, hash.c): the operations on whole tables and catalogs. The locales
    \<open>rangelist_class\<close> and \<open>mergeable_class\<close> lift a class of rangelists to tables; mergeinfo
    satisfies the same locales \<open>revision_partition\<close> and \<open>revision_algebra\<close> again.
  \<^item> \<open>Txdelta\<close> (text\_delta.c): instructions, windows, the builder of instruction lists, and
    \<open>apply_window\<close> with its three buffers.
  \<^item> \<open>Svndiff\<close>, \<open>Svndiff_Stream\<close> (svndiff.c): integers, sections and windows as bytes, the
    incremental decoder \<open>write_handler\<close>, and whole streams.
  \<^item> \<open>Xdelta\<close> (xdelta.c): the rolling checksum, the table of blocks, and \<open>compute_delta\<close>.
  \<^item> \<open>Delta_Stream\<close> (text\_delta.c): \<open>svn_txdelta_run\<close>, \<open>svn_txdelta_target_push\<close>,
    \<open>svn_txdelta_send_string\<close> and \<open>svn_txdelta_send_stream\<close>. The locale \<open>window_sink\<close> is the contract
    of a consumer of windows; the applicator interprets it, directly and behind svndiff.
  \<^item> \<open>Range_Index\<close> (compose\_delta.c): the splay tree of source ranges that are already in the target,
    with its nodes also linked into an ordered list, and the lists of ranges made from it.
  \<^item> \<open>Compose\<close> (compose\_delta.c): the offset index with its binary search, \<open>copy_source_ops\<close>, and
    \<open>svn_txdelta_compose_windows\<close>.
  \<^item> \<open>Diff_Lcs\<close>, \<open>Diff_Rounds\<close> (lcs.c): token counts, snakes and the furthest points; the rounds of
    the search and why they reach the end with the fewest unmatched tokens.
  \<^item> \<open>Diff\<close> (lcs.c, diff.c, util.c): the whole search with a common prefix and suffix, and the hunks of a
    two-way diff. Specification: the hunks cover both files, patch one into the other and change as few tokens as possible.
  \<^item> \<open>Diff_Tokens\<close> (util.c, adler32.c, token.c, diff.c): normalization, the token tree, and
    \<open>svn_diff_diff_2\<close>. The locales \<open>token_source\<close> and \<open>openable_source\<close> are the contract of a
    table of datasource functions.
  \<^item> \<open>Diff_Memory\<close> (diff\_memory.c): lines of texts in memory, which interpret these locales, and
    \<open>svn_diff_mem_string_diff\<close>.
  \<^item> \<open>Diff_Unified\<close> (util.c, diff\_memory.c, stream.c): walking a diff, and unified output. Specification:
    what it means to apply a unified hunk.
  \<^item> this theory: the delta pipeline across all of the delta theories.

  \<^bold>\<open>State and errors.\<close> A struct is a record with the fields of the code, a handler takes the
  record and returns it updated, a hash table is an association list with distinct keys in
  iteration order, and an array changed in place is a list that is returned. Every function
  that can fail returns \<open>Inl\<close> of an error code or \<open>Inr\<close> of its result. Besides the error codes
  of the code there are a failed assertion, an access outside of a buffer (\<open>C_OUT_OF_BOUNDS\<close>) and
  a loop without end (\<open>C_DIVERGES\<close>), so that a theorem that a call returns \<open>Inr\<close> also says
  that none of these happens. A read or write through a computed index is such a check, unless the
  code itself has just compared the index with the length of the array. There is one exception: the
  move that deletes a combined range in \<open>parse_revision_line\<close> reads one pointer after the last one,
  as the manifest's findings say; \<open>combine_parsed_loop\<close> deletes the range without that read.

  \<^bold>\<open>What is shown.\<close> The rangelist and mergeinfo operations compute exactly the set operations
  they are meant to and keep the lists sorted, disjoint and non-empty, in the cases where the code
  does (differing inheritability is where it does not; such cases are proved as well), and none of
  their assertions on paths fails if the keys are canonical. Printed mergeinfo parses back, with
  neighbouring ranges combined; parsing arbitrary text ends, with a parse error or with mergeinfo, which is
  well formed when no range is marked as non-inheritable. Canonicalization and the relpath functions are exact on the components of paths.
  Instruction lists and windows build the text they stand for; the optimised copying and
  matching routines equal their plain versions; the block table implements the set of
  source blocks; a computed window applied to the source is the target. Svndiff data is read
  back in any cutting into pieces, and the decoder is safe on hostile bytes, but for source views
  that go backwards after an empty one, which it lets pass. Composing two
  windows refines the composition of the functions on texts that they stand for. The theorems of
  this theory put the delta parts together. A text diff is total, patches either text into the other and is
  minimal; its unified form is a list of hunks that apply, but for one constellation that is
  proved to fail.

  \<^bold>\<open>Bounds and fuel.\<close> Loops are recursive functions with termination proofs. The two loops over the
  slots of the block table, which the code leaves only at a free slot or a match, carry a fuel
  equal to the number of slots: after that many steps the code has looked at all slots and
  would run forever, which is the error \<open>C_DIVERGES\<close>; building a table of a source is proved never
  to reach it. The rounds of the search in lcs.c carry a fuel equal to the number of furthest points, which is proved to
  be enough because a round for every shared token reaches the end. Reading the tokens of a
  datasource ends only if the datasource does, so it is a partial function, which is proved to return. Revision numbers are integers; the parser refuses numbers outside of
  a 64-bit \<open>long\<close> as \<open>strtol\<close> does. Sizes in text deltas and svndiff are 64-bit words that wrap; sizes
  inside xdelta are naturals, and its theorems assume texts shorter than \<open>2 ^ 32\<close> bytes, far more
  than a window of 102400 bytes. Theorems on whole deltas assume a source shorter than \<open>2 ^ 62\<close>
  bytes because the offsets of the views are signed 64-bit numbers.

  \<^bold>\<open>Parameters.\<close> zlib's \<open>compress2\<close> and \<open>uncompress\<close> are arguments, with the hypothesis that
  compressing at the level in use succeeds (so that it is a valid level and memory does not run
  out) and uncompressing returns what was compressed. zlib's \<open>adler32\<close>, which hashes lines of 80 and
  more bytes, is an argument about which nothing is assumed, and so is the conversion of the headers of a unified
  diff to an encoding, but that it does not fail. Whether the platform allows unaligned accesses
  (\<open>SVN_UNALIGNED_ACCESS_IS_OK\<close>) and the contents of fresh memory are arguments, too, and theorems
  hold for all values. A stream that is read is the list of its bytes, and a checksum is the
  text it is the checksum of.

  \<^bold>\<open>Not modelled.\<close> Pools and allocation (a failed allocation aborts the process). In mergeinfo.c,
  \<open>svn_mergeinfo__add_prefix_to_catalog\<close> and \<open>svn_mergeinfo__relpaths_to_urls\<close>, and in dirent\_uri.c
  the dirent and URI interfaces besides canonicalization, including the Windows variants. In
  libsvn\_diff, the list of free nodes of lcs.c, diffs of three and four texts with their merge output,
  diffs of files on disk and the parser of patch files. The
  tree delta editors of libsvn\_delta, the repository
  back ends, the working copy library, the client, the network layers, the server modules and
  the command line tools are not modelled; they are listed in the manifest.

  \<^bold>\<open>Plan.\<close> What would come next: the URI and dirent functions with the encoding of URIs, and the
  two mergeinfo functions that need them; three-way diffs and the merge of texts in memory.
\<close>

section \<open>The delta pipeline\<close>

text \<open>
  C3. The whole path of a text: a delta between a source and a target is computed, encoded as
  svndiff data, cut into pieces, decoded and applied to the source. It never fails, and the
  result is the target, for every source shorter than \<open>2 ^ 62\<close> bytes, every target, both
  versions of the format, every compression level and every way to cut the data.
\<close>

theorem delta_pipeline:
  assumes "zlib_contract compress2 uncompress level" "version = 0 \<or> version = 1" "length source < 2 ^ 62"
  shows "\<exists>eb. svn_txdelta_run unaligned source target (window_handler compress2) None want
        (svn_txdelta_to_svndiff3 version level) = Inr (eb, if want then Some target else None)
    \<and> (\<forall>pieces. concat pieces = enc_output eb \<longrightarrow>
        (\<exists>ab. SVN_ERR (write_all uncompress (apply_window unaligned' junk) pieces
             (svn_txdelta_parse_svndiff (svn_txdelta_apply source) early)) (finish (apply_window unaligned' junk)) = Inr ab
          \<and> ab_closed ab \<and> ab_target ab = target))"
proof -
  let ?ws = "windows_of unaligned source target 0"
  have ws: "follow_all source 0 0 ?ws" "list_all sendable ?ws"
    using windows_of_ok [OF assms(3), of 0 source 0 0 unaligned target] by simp_all
  obtain eb where eb: "encode_all compress2 ?ws (svn_txdelta_to_svndiff3 version level) = Inr eb"
    "SVN_ERR (write_handler uncompress (apply_window unaligned' junk) (enc_output eb)
        (svn_txdelta_parse_svndiff (svn_txdelta_apply source) early)) (finish (apply_window unaligned' junk)) =
      deliver (apply_window unaligned' junk) (map recount ?ws) (svn_txdelta_apply source)"
    using stream_round_trip [OF assms(1,2) ws(2) follow_forward [OF ws(1) order_refl],
        of "apply_window unaligned' junk" "svn_txdelta_apply source" early] by blast
  obtain ab where "deliver (apply_window unaligned' junk) (map recount ?ws) (svn_txdelta_apply source) = Inr ab"
    "ab_closed ab" "ab_target ab = target"
    using recounted.deliver_delta [OF apply_inv_start [OF assms(3)] assms(3), of unaligned' junk unaligned target]
    by (auto simp: deliver_recount svn_txdelta_apply_def)
  with eb show ?thesis by (auto simp: run_deliver encode_all_deliver write_pieces)
qed

theorem delta_pipeline_witness:
  "\<exists>eb. svn_txdelta_run True [1, 2, 3] [3, 2, 1] (window_handler (\<lambda>data level. Inr data)) None True
        (svn_txdelta_to_svndiff3 1 5) = Inr (eb, if True then Some [3, 2, 1] else None)
    \<and> (\<forall>pieces. concat pieces = enc_output eb \<longrightarrow>
        (\<exists>ab. SVN_ERR (write_all (\<lambda>n z. Inr z) (apply_window False 0) pieces
             (svn_txdelta_parse_svndiff (svn_txdelta_apply [1, 2, 3]) True)) (finish (apply_window False 0)) = Inr ab
          \<and> ab_closed ab \<and> ab_target ab = [3, 2, 1]))"
  by (rule delta_pipeline) (simp_all add: zlib_contract_def)

text \<open>
  C6. Two versions in one step: the window from a first text to a second and the window from the
  second to a third, as they are computed for texts that fit into a window, compose to a window
  that is applied to the first text without the second and gives the third.
\<close>

theorem composed_windows_apply:
  assumes "length A \<le> 102400" "length B \<le> 102400" "length C \<le> 102400" "B \<noteq> []" "C \<noteq> []" "length buf = length C"
  shows "\<exists>wA wB w. compute_window unaligned (A @ B) (length A) (length B) off = Inr wA
    \<and> compute_window unaligned (B @ C) (length B) (length C) off' = Inr wB
    \<and> svn_txdelta_compose_windows wA wB = Inr w
    \<and> svn_txdelta_apply_instructions unaligned' w A buf (of_nat (length C)) = Inr (C, of_nat (length C))"
proof -
  have len: "length A \<le> window_size" "length B \<le> window_size" "length C \<le> window_size"
    using assms(1-3) by (simp_all add: SVN_DELTA_WINDOW_SIZE_def)
  note wA = compute_window_ok(2-) [OF len(1,2) assms(4), of unaligned off] compute_window_ok(1) [OF len(1,2) assms(4), of unaligned "[]" off]
  note wB = compute_window_ok(2-) [OF len(2,3) assms(5), of unaligned off'] compute_window_ok(1) [OF len(2,3) assms(5), of unaligned "[]" off']
  let ?wA = "delta_window unaligned A B off" and ?wB = "delta_window unaligned B C off'"
  have u: "unat (sview_len ?wA) = length A" using wA(2) assms(1) by (simp add: unat_of_nat)
  obtain w where w: "svn_txdelta_compose_windows ?wA ?wB = Inr w" "wf_window w" "sview_len w = sview_len ?wA"
    "tview_len w = tview_len ?wB" "window_text w A = C"
    using compose_windows_ok [OF wA(4) wB(4), of A] wA(3,5) wB(2,5) u by auto
  have "svn_txdelta_apply_instructions unaligned' w A buf (of_nat (length C)) = Inr (C, of_nat (length C))"
    using apply_instructions_ok [OF w(2), of A "of_nat (length C)" buf unaligned'] w(3-5) wB(3) u assms(3,6)
    by (simp add: unat_of_nat Let_def)
  then show ?thesis using wA(6) wB(6) w(1) by auto
qed

theorem composed_windows_apply_witness:
  "\<exists>wA wB w. compute_window True ([1, 2] @ [1, 2, 3]) (length [1, 2 :: byte]) (length [1, 2, 3 :: byte]) 0 = Inr wA
    \<and> compute_window True ([1, 2, 3] @ [3, 1, 2]) (length [1, 2, 3 :: byte]) (length [3, 1, 2 :: byte]) 0 = Inr wB
    \<and> svn_txdelta_compose_windows wA wB = Inr w
    \<and> svn_txdelta_apply_instructions False w [1, 2] [0, 0, 0] (of_nat (length [3, 1, 2 :: byte])) =
        Inr ([3, 1, 2], of_nat (length [3, 1, 2 :: byte]))"
  by (rule composed_windows_apply) simp_all

end
